(* ===== verification/Prelude.thy ===== *)
theory Prelude
  imports Main "HOL-Library.AList"
begin

text \<open>
  Shared vocabulary of the development: Python exceptions as values, the result type and its
  sequencing, Python list indexing and slicing (negative positions count from the end), the
  insertion-ordered dictionary, and the arithmetic modulo \<open>2 ^ 32\<close> of the simulated machine.
  The collections \<open>py_simps\<close> (evaluation of the Python primitives) and \<open>res_intros\<close> are what
  the component theories hand to the simplifier.
\<close>

named_theorems py_simps
named_theorems res_elims

section \<open>Exceptions and results\<close>

datatype py_error =
    IndexError
  | KeyError
  | ValueError
  | TypeError
  | AttributeError
  | RuntimeError
  | RecursionError
  | NameError
  | AssertionError
  | ZeroDivisionError
  | NotImplementedError
  | InsufficientRegisterCount
  | ParseFailure

type_synonym 'a res = "py_error + 'a"

definition rbind :: "'a res \<Rightarrow> ('a \<Rightarrow> 'b res) \<Rightarrow> 'b res" where
  "rbind m f = (case m of Inl e \<Rightarrow> Inl e | Inr x \<Rightarrow> f x)"

lemma rbind_simps [simp]:
  "rbind (Inl e) f = Inl e"
  "rbind (Inr x) f = f x"
  by (simp_all add: rbind_def)

lemma rbind_Inr_iff [res_elims]: "rbind m f = Inr y \<longleftrightarrow> (\<exists>x. m = Inr x \<and> f x = Inr y)"
  by (cases m) auto

lemma rbind_InrE:
  assumes "rbind m f = Inr y"
  obtains x where "m = Inr x" and "f x = Inr y"
  using assms by (auto simp: rbind_Inr_iff)

lemma rbind_assoc: "rbind (rbind m f) g = rbind m (\<lambda>x. rbind (f x) g)"
  by (cases m) auto

lemma rbind_right: "rbind m (\<lambda>x. Inr x) = m" "rbind m Inr = m"
  by (cases m; simp)+

lemma rbind_cong [fundef_cong]:
  "m = m' \<Longrightarrow> (\<And>x. m' = Inr x \<Longrightarrow> f x = g x) \<Longrightarrow> rbind m f = rbind m' g"
  by (cases m') auto

definition check :: "py_error \<Rightarrow> bool \<Rightarrow> unit res" where
  "check e b = (if b then Inr () else Inl e)"

lemma check_simps [simp]: "check e True = Inr ()" "check e False = Inl e"
  by (simp_all add: check_def)

lemma check_Inr_iff [res_elims]: "check e b = Inr u \<longleftrightarrow> b"
  by (simp add: check_def)

fun foldM :: "('s \<Rightarrow> 'a \<Rightarrow> 's res) \<Rightarrow> 'a list \<Rightarrow> 's \<Rightarrow> 's res" where
  "foldM f [] s = Inr s"
| "foldM f (x # xs) s = rbind (f s x) (foldM f xs)"

fun mapM :: "('a \<Rightarrow> 'b res) \<Rightarrow> 'a list \<Rightarrow> 'b list res" where
  "mapM f [] = Inr []"
| "mapM f (x # xs) = rbind (f x) (\<lambda>y. rbind (mapM f xs) (\<lambda>ys. Inr (y # ys)))"

lemma foldM_unfold: "foldM f [] = Inr" "foldM f (x # xs) = (\<lambda>s. rbind (f s x) (foldM f xs))"
  by auto

lemma foldM_append: "foldM f (xs @ ys) s = rbind (foldM f xs s) (foldM f ys)"
proof (induction xs arbitrary: s)
  case (Cons x xs)
  then show ?case by (cases "f s x") auto
qed simp

lemma foldM_cong [fundef_cong]:
  "xs = ys \<Longrightarrow> s = t \<Longrightarrow> (\<And>x s. x \<in> set ys \<Longrightarrow> f s x = g s x) \<Longrightarrow> foldM f xs s = foldM g ys t"
proof (induction xs arbitrary: ys s t)
  case (Cons x xs)
  then show ?case by (auto intro!: rbind_cong)
qed simp

lemma foldM_invariant:
  assumes "foldM f xs s = Inr s'" and "P s"
    and "\<And>s x s'. x \<in> set xs \<Longrightarrow> P s \<Longrightarrow> f s x = Inr s' \<Longrightarrow> P s'"
  shows "P s'"
  using assms
proof (induction xs arbitrary: s)
  case (Cons x xs)
  from Cons.prems(1) obtain s1 where s1: "f s x = Inr s1" and rest: "foldM f xs s1 = Inr s'"
    by (auto simp: res_elims)
  from Cons.prems(2,3) s1 have "P s1" by auto
  with rest Cons.prems(3) show ?case by (auto intro: Cons.IH)
qed simp

lemma foldM_total:
  assumes "P s" and "\<And>s x. x \<in> set xs \<Longrightarrow> P s \<Longrightarrow> \<exists>s'. f s x = Inr s' \<and> P s'"
  shows "\<exists>s'. foldM f xs s = Inr s' \<and> P s'"
  using assms
proof (induction xs arbitrary: s)
  case (Cons x xs)
  from Cons.prems obtain s1 where "f s x = Inr s1" "P s1" by auto
  moreover from Cons.IH [OF this(2)] Cons.prems(2)
  obtain s' where "foldM f xs s1 = Inr s' \<and> P s'" by auto
  ultimately show ?case by auto
qed simp

text \<open>Two loops over the same list that run in lockstep.\<close>

lemma foldM_simulation:
  assumes "R s t"
    and "\<And>x s t. x \<in> set xs \<Longrightarrow> R s t \<Longrightarrow> \<exists>s' t'. f s x = Inr s' \<and> g t x = Inr t' \<and> R s' t'"
  shows "\<exists>s' t'. foldM f xs s = Inr s' \<and> foldM g xs t = Inr t' \<and> R s' t'"
  using assms
proof (induction xs arbitrary: s t)
  case (Cons x xs)
  obtain s1 t1 where 1: "f s x = Inr s1" "g t x = Inr t1" "R s1 t1"
    using Cons.prems(2) [OF _ Cons.prems(1), of x] by auto
  from Cons.IH [OF 1(3)] Cons.prems(2)
  obtain s' t' where "foldM f xs s1 = Inr s'" "foldM g xs t1 = Inr t'" "R s' t'" by auto
  with 1 show ?case by auto
qed simp

text \<open>A loop whose body never fails is an ordinary fold.\<close>

lemma foldM_fold: "(\<And>s x. x \<in> set xs \<Longrightarrow> f s x = Inr (g x s)) \<Longrightarrow> foldM f xs s = Inr (fold g xs s)"
  by (induction xs arbitrary: s) auto

section \<open>Python lists\<close>

definition py_index :: "nat \<Rightarrow> int \<Rightarrow> nat option" where
  "py_index n i =
     (let j = (if i < 0 then i + int n else i)
      in if 0 \<le> j \<and> j < int n then Some (nat j) else None)"

definition py_get :: "'a list \<Rightarrow> int \<Rightarrow> 'a res" where
  "py_get xs i = (case py_index (length xs) i of None \<Rightarrow> Inl IndexError | Some k \<Rightarrow> Inr (xs ! k))"

definition py_set :: "'a list \<Rightarrow> int \<Rightarrow> 'a \<Rightarrow> 'a list res" where
  "py_set xs i v =
     (case py_index (length xs) i of None \<Rightarrow> Inl IndexError | Some k \<Rightarrow> Inr (xs[k := v]))"

definition py_clamp :: "nat \<Rightarrow> int \<Rightarrow> nat" where
  "py_clamp n i = nat (min (int n) (max 0 (if i < 0 then i + int n else i)))"

definition py_slice :: "'a list \<Rightarrow> int \<Rightarrow> int \<Rightarrow> 'a list" where
  "py_slice xs lo hi =
     (let a = py_clamp (length xs) lo; b = py_clamp (length xs) hi in take (b - a) (drop a xs))"

text \<open>\<open>xs[lo:hi] = vs\<close>: the slice is replaced, whatever the length of \<open>vs\<close>.\<close>

definition py_splice :: "'a list \<Rightarrow> int \<Rightarrow> int \<Rightarrow> 'a list \<Rightarrow> 'a list" where
  "py_splice xs lo hi vs =
     (let a = py_clamp (length xs) lo; b = py_clamp (length xs) hi
      in take a xs @ vs @ drop (max a b) xs)"

lemma py_index_nonneg [py_simps]: "0 \<le> i \<Longrightarrow> i < int n \<Longrightarrow> py_index n i = Some (nat i)"
  by (simp add: py_index_def)

lemma py_index_Some_less: "py_index n i = Some k \<Longrightarrow> k < n"
  by (auto simp: py_index_def Let_def split: if_splits)

lemma py_index_nat_iff: "0 \<le> i \<Longrightarrow> py_index n i = Some k \<longleftrightarrow> k < n \<and> int k = i"
  by (auto simp: py_index_def Let_def)

lemma py_get_nonneg [py_simps]: "0 \<le> i \<Longrightarrow> i < int (length xs) \<Longrightarrow> py_get xs i = Inr (xs ! nat i)"
  by (simp add: py_get_def py_simps)

lemma py_set_nonneg [py_simps]:
  "0 \<le> i \<Longrightarrow> i < int (length xs) \<Longrightarrow> py_set xs i v = Inr (xs[nat i := v])"
  by (simp add: py_set_def py_simps)

lemma py_get_nat [py_simps]: "k < length xs \<Longrightarrow> py_get xs (int k) = Inr (xs ! k)"
  by (simp add: py_simps)

lemma py_set_nat [py_simps]: "k < length xs \<Longrightarrow> py_set xs (int k) v = Inr (xs[k := v])"
  by (simp add: py_simps)

lemma py_get_append:
  "py_get (xs @ ys) (int (length xs)  + i) = py_get ys i" if "0 \<le> i"
proof -
  have "py_index (length (xs @ ys)) (int (length xs) + i) =
      map_option (\<lambda>k. length xs + k) (py_index (length ys) i)"
    using that by (auto simp: py_index_def Let_def nat_add_distrib)
  then show ?thesis by (auto simp: py_get_def split: option.splits)
qed

lemma py_set_append:
  "py_set (xs @ ys) (int (length xs) + i) v = rbind (py_set ys i v) (\<lambda>zs. Inr (xs @ zs))" if "0 \<le> i"
proof -
  have "py_index (length (xs @ ys)) (int (length xs) + i) =
      map_option (\<lambda>k. length xs + k) (py_index (length ys) i)"
    using that by (auto simp: py_index_def Let_def nat_add_distrib)
  then show ?thesis by (auto simp: py_set_def list_update_append split: option.splits)
qed

lemma py_get_append1: "0 \<le> i \<Longrightarrow> i < int (length xs) \<Longrightarrow> py_get (xs @ ys) i = Inr (xs ! nat i)"
  by (simp add: py_simps nth_append nat_less_iff)

lemma py_set_append1:
  "0 \<le> i \<Longrightarrow> i < int (length xs) \<Longrightarrow> py_set (xs @ ys) i v = Inr (xs[nat i := v] @ ys)"
  by (simp add: py_simps list_update_append nat_less_iff)

lemma py_get_in_set: "py_get xs i = Inr v \<Longrightarrow> v \<in> set xs"
  by (auto simp: py_get_def split: option.splits dest!: py_index_Some_less)

lemma py_set_length: "py_set xs i v = Inr ys \<Longrightarrow> length ys = length xs"
  by (auto simp: py_set_def split: option.splits)

lemma py_set_subset: "py_set xs i v = Inr ys \<Longrightarrow> set ys \<subseteq> insert v (set xs)"
  by (auto simp: py_set_def set_update_subset_insert split: option.splits dest: subsetD [OF set_update_subset_insert])

section \<open>Dictionaries in insertion order\<close>

type_synonym ('k, 'v) odict = "('k \<times> 'v) list"

abbreviation dict_put :: "'k \<Rightarrow> 'v \<Rightarrow> ('k, 'v) odict \<Rightarrow> ('k, 'v) odict" where
  "dict_put \<equiv> AList.update"

definition dict_get :: "('k, 'v) odict \<Rightarrow> 'k \<Rightarrow> 'v res" where
  "dict_get d k = (case map_of d k of None \<Rightarrow> Inl KeyError | Some v \<Rightarrow> Inr v)"

definition dict_puts :: "('k, 'v) odict \<Rightarrow> ('k, 'v) odict \<Rightarrow> ('k, 'v) odict" where
  "dict_puts ws d = fold (\<lambda>(k, v). dict_put k v) ws d"

lemma dict_puts_simps [simp]:
  "dict_puts [] d = d"
  "dict_puts ((k, v) # ws) d = dict_puts ws (dict_put k v d)"
  by (simp_all add: dict_puts_def)

lemma dict_puts_append: "dict_puts (ws @ vs) d = dict_puts vs (dict_puts ws d)"
  by (simp add: dict_puts_def)

lemma map_of_dict_puts: "map_of (dict_puts ws d) = map_of d ++ map_of (rev ws)"
proof (induction ws arbitrary: d)
  case (Cons w ws)
  then show ?case by (cases w) (auto simp: update_conv' map_add_def fun_eq_iff split: option.splits)
qed simp

lemma map_of_dict_puts_dom:
  "dom (map_of (dict_puts ws d)) = dom (map_of d) \<union> fst ` set ws"
  by (auto simp: map_of_dict_puts dom_map_of_conv_image_fst)

lemma distinct_dict_puts: "distinct (map fst d) \<Longrightarrow> distinct (map fst (dict_puts ws d))"
  by (induction ws arbitrary: d) (auto simp: distinct_update)

text \<open>
  Writing a dictionary of updates back into a list, one entry after the other, as the end of a
  machine cycle does.
\<close>

definition commit :: "(int, 'v) odict \<Rightarrow> 'v list \<Rightarrow> 'v list res" where
  "commit ws xs = foldM (\<lambda>ys (a, v). py_set ys a v) ws xs"

lemma commit_simps [simp]:
  "commit [] xs = Inr xs"
  "commit ((a, v) # ws) xs = rbind (py_set xs a v) (commit ws)"
proof -
  show "commit [] xs = Inr xs" by (simp add: commit_def)
  show "commit ((a, v) # ws) xs = rbind (py_set xs a v) (commit ws)"
    by (cases "py_set xs a v") (simp_all add: commit_def)
qed

lemma commit_length: "commit ws xs = Inr ys \<Longrightarrow> length ys = length xs"
proof (induction ws arbitrary: xs)
  case (Cons w ws)
  then show ?case by (cases w) (auto simp: res_elims dest!: py_set_length)
qed simp

lemma commit_subset: "commit ws xs = Inr ys \<Longrightarrow> set ys \<subseteq> snd ` set ws \<union> set xs"
proof (induction ws arbitrary: xs)
  case (Cons w ws)
  obtain a v where w: "w = (a, v)" by (cases w)
  from Cons.prems w obtain zs where zs: "py_set xs a v = Inr zs" and "commit ws zs = Inr ys"
    by (auto simp: res_elims)
  from Cons.IH [OF this(2)] py_set_subset [OF zs] w show ?case by auto
qed simp

lemma commit_in_range:
  assumes "\<forall>a \<in> fst ` set ws. 0 \<le> a \<and> a < int (length xs)" and "distinct (map fst ws)"
  shows "\<exists>ys. commit ws xs = Inr ys \<and> length ys = length xs \<and>
    (\<forall>k < length xs. ys ! k = (case map_of ws (int k) of None \<Rightarrow> xs ! k | Some v \<Rightarrow> v))"
  using assms
proof (induction ws arbitrary: xs)
  case (Cons w ws)
  obtain a v where w: "w = (a, v)" by (cases w)
  let ?xs = "xs[nat a := v]"
  from Cons.prems w have a: "0 \<le> a" "a < int (length xs)" by auto
  from Cons.prems w have "\<forall>b \<in> fst ` set ws. 0 \<le> b \<and> b < int (length ?xs)" "distinct (map fst ws)"
    by auto
  from Cons.IH [OF this] obtain ys where ys: "commit ws ?xs = Inr ys" "length ys = length xs"
    "\<forall>k < length xs. ys ! k = (case map_of ws (int k) of None \<Rightarrow> ?xs ! k | Some v \<Rightarrow> v)" by auto
  from Cons.prems(2) w have "map_of ws a = None" by (auto simp: map_of_eq_None_iff)
  with ys(3) a w have "\<forall>k < length xs. ys ! k =
      (case map_of (w # ws) (int k) of None \<Rightarrow> xs ! k | Some v \<Rightarrow> v)"
    by (auto split: option.splits simp: nth_list_update)
  with ys a w show ?case by (auto simp: py_simps)
qed simp

lemma snd_set_dict_put: "snd ` set (dict_put k v d) \<subseteq> insert v (snd ` set d)"
  by (induction d) auto

lemma snd_set_dict_puts: "snd ` set (dict_puts ws d) \<subseteq> snd ` set ws \<union> snd ` set d"
proof (induction ws arbitrary: d)
  case (Cons w ws)
  obtain k v where w: "w = (k, v)" by (cases w)
  from Cons.IH [of "dict_put k v d"] snd_set_dict_put [of k v d]
  have "snd ` set (dict_puts ws (dict_put k v d)) \<subseteq> snd ` set ws \<union> insert v (snd ` set d)"
    by (meson Un_mono subset_refl subset_trans)
  then show ?case unfolding w dict_puts_simps list.set image_insert snd_conv by blast
qed simp

text \<open>A loop of dictionary writes is the list of its writes, put one after the other.\<close>

lemma mapM_append: "mapM f (xs @ ys) = rbind (mapM f xs) (\<lambda>us. rbind (mapM f ys) (\<lambda>vs. Inr (us @ vs)))"
proof (induction xs)
  case Nil
  show ?case by (cases "mapM f ys") auto
next
  case (Cons x xs)
  then show ?case by (cases "f x"; cases "mapM f xs"; cases "mapM f ys") auto
qed

lemma foldM_dict_put:
  "foldM (\<lambda>d i. rbind (g i) (\<lambda>v. Inr (dict_put (k i) v d))) is d =
   rbind (mapM (\<lambda>i. rbind (g i) (\<lambda>v. Inr (k i, v))) is) (\<lambda>ps. Inr (dict_puts ps d))"
proof (induction "is" arbitrary: d)
  case (Cons i "is")
  then show ?case
    by (cases "g i"; cases "mapM (\<lambda>i. rbind (g i) (\<lambda>v. Inr (k i, v))) is") auto
qed simp

lemma mapM_map: "mapM f (map g xs) = mapM (\<lambda>x. f (g x)) xs"
  by (induction xs) simp_all

lemma mapM_upt_cong: "(\<And>i. i < k \<Longrightarrow> f i = g i) \<Longrightarrow> mapM f [0..<k] = mapM g [0..<k]"
  by (induction k) (simp_all add: mapM_append)

lemma mapM_Inr: "mapM (\<lambda>i. Inr (f i)) xs = Inr (map f xs)"
  by (induction xs) simp_all

lemma mapM_Inr_iff:
  "mapM f xs = Inr ys \<longleftrightarrow> length ys = length xs \<and> (\<forall>k < length xs. f (xs ! k) = Inr (ys ! k))"
proof (induction xs arbitrary: ys)
  case (Cons x xs)
  show ?case
  proof (cases ys)
    case Nil
    then show ?thesis by (auto simp: res_elims)
  next
    case (Cons y ys')
    then show ?thesis
      using Cons.IH [of ys'] by (auto simp: res_elims nth_Cons split: nat.splits)
  qed
qed auto

section \<open>Arithmetic modulo two to the 32\<close>

definition r32 :: "int \<Rightarrow> int" where
  "r32 x = x mod 2 ^ 32"

definition is_word :: "int \<Rightarrow> bool" where
  "is_word x \<longleftrightarrow> 0 \<le> x \<and> x < 2 ^ 32"

lemma is_word_r32 [simp]: "is_word (r32 x)"
  by (simp add: is_word_def r32_def)

lemma r32_word [simp]: "is_word x \<Longrightarrow> r32 x = x"
  by (simp add: is_word_def r32_def)

lemma is_word_01 [simp]: "is_word 0" "is_word 1"
  by (simp_all add: is_word_def)

lemma r32_mod_simps:
  "r32 (r32 x + y) = r32 (x + y)"
  "r32 (x + r32 y) = r32 (x + y)"
  "r32 (r32 x * y) = r32 (x * y)"
  "r32 (x * r32 y) = r32 (x * y)"
  "r32 (r32 x - y) = r32 (x - y)"
  "r32 (x - r32 y) = r32 (x - y)"
  "r32 (r32 x) = r32 x"
  by (simp_all add: r32_def mod_simps)

end
