(* ===== verification/Limits.thy ===== *)
theory Limits
  imports Prelude
begin

text \<open>
  The machine's parameters (\<open>limits.py\<close>): the engines, how many slots each executes per cycle,
  the vector length and the size of the scratch space.
\<close>

datatype engine = VALU | ALU | LOAD | STORE | FLOW

fun SLOT_LIMITS :: "engine \<Rightarrow> nat" where
  "SLOT_LIMITS ALU = 12"
| "SLOT_LIMITS VALU = 6"
| "SLOT_LIMITS LOAD = 2"
| "SLOT_LIMITS STORE = 2"
| "SLOT_LIMITS FLOW = 1"

definition VLEN :: nat where "VLEN = 8"

definition SCRATCH_SIZE :: nat where "SCRATCH_SIZE = 1536"

text \<open>The lane numbers \<open>range(VLEN)\<close>.\<close>

definition lanes :: "int list" where "lanes = map int [0..<VLEN]"

lemma VLEN_pos [simp]: "0 < VLEN" "VLEN \<noteq> 0"
  by (simp_all add: VLEN_def)

lemma lanes_unfold: "lanes = [0, 1, 2, 3, 4, 5, 6, 7]"
  by (simp add: lanes_def VLEN_def upt_rec)

lemma length_lanes [simp]: "length lanes = VLEN"
  by (simp add: lanes_def)

lemma set_lanes: "set lanes = {0..<int VLEN}"
  by (auto simp: lanes_def image_iff zero_le_imp_eq_int dest: zero_le_imp_eq_int intro!: bexI [of _ "nat _"])

lemma distinct_lanes [simp]: "distinct lanes"
  by (simp add: lanes_unfold)

lemma SLOT_LIMITS_pos [simp]: "0 < SLOT_LIMITS e"
  by (cases e) simp_all

end
