(* ===== verification/Py_Str.thy ===== *)
theory Py_Str
  imports Prelude
begin

text \<open>
  Decimal and hexadecimal numerals: Python's \<open>str\<close> on integers (the names of constants are built
  with it) and \<open>int(s)\<close>, \<open>int(s, 16)\<close> on the strings the grammar lets through. Reading what was
  printed gives the number back, so different constants get different names.
\<close>

definition digit_char :: "nat \<Rightarrow> char" where
  "digit_char d = char_of (48 + d)"

fun str_nat :: "nat \<Rightarrow> string" where
  "str_nat n = (if n < 10 then [digit_char n] else str_nat (n div 10) @ [digit_char (n mod 10)])"

declare str_nat.simps [simp del]

definition str_int :: "int \<Rightarrow> string" where
  "str_int v = (if v < 0 then CHR ''-'' # str_nat (nat (- v)) else str_nat (nat v))"

definition is_digit :: "char \<Rightarrow> bool" where
  "is_digit c = (48 \<le> (of_char c :: nat) \<and> (of_char c :: nat) \<le> 57)"

definition is_hex_digit :: "char \<Rightarrow> bool" where
  "is_hex_digit c =
     (is_digit c \<or> (65 \<le> (of_char c :: nat) \<and> (of_char c :: nat) \<le> 70) \<or>
      (97 \<le> (of_char c :: nat) \<and> (of_char c :: nat) \<le> 102))"

definition digit_val :: "char \<Rightarrow> nat" where
  "digit_val c =
     (let n = (of_char c :: nat) in if n \<le> 57 then n - 48 else if n \<le> 70 then n - 55 else n - 87)"

definition num_of :: "nat \<Rightarrow> string \<Rightarrow> nat" where
  "num_of b s = foldl (\<lambda>n c. n * b + digit_val c) 0 s"

text \<open>\<open>int(s)\<close> for an optional minus sign and digits; anything else is a \<open>ValueError\<close>.\<close>

definition int_of_dec :: "string \<Rightarrow> int res" where
  "int_of_dec s =
     (let neg = (s \<noteq> [] \<and> hd s = CHR ''-''); ds = (if neg then tl s else s) in
      if ds \<noteq> [] \<and> list_all is_digit ds
      then Inr (if neg then - int (num_of 10 ds) else int (num_of 10 ds))
      else Inl ValueError)"

text \<open>\<open>int(s, 16)\<close> for the prefix \<open>0x\<close> and hexadecimal digits.\<close>

definition int_of_hex :: "string \<Rightarrow> int res" where
  "int_of_hex s =
     (let ds = drop 2 s in
      if take 2 s = ''0x'' \<and> ds \<noteq> [] \<and> list_all is_hex_digit ds then Inr (int (num_of 16 ds))
      else Inl ValueError)"

lemma digit_char_simps:
  assumes "d < 10"
  shows "is_digit (digit_char d)" "digit_val (digit_char d) = d" "digit_char d \<noteq> CHR ''-''"
proof -
  have "of_char (digit_char d) = 48 + d"
    using assms by (simp add: digit_char_def)
  moreover have "of_char CHR ''-'' = (45 :: nat)" by simp
  ultimately show "is_digit (digit_char d)" "digit_val (digit_char d) = d" "digit_char d \<noteq> CHR ''-''"
    using assms by (auto simp: is_digit_def digit_val_def)
qed

lemma str_nat_digits: "str_nat n \<noteq> [] \<and> list_all is_digit (str_nat n)"
proof (induction n rule: str_nat.induct)
  case (1 n)
  then show ?case by (subst (1 2) str_nat.simps) (simp add: digit_char_simps)
qed

lemma num_of_str_nat: "num_of 10 (str_nat n) = n"
proof (induction n rule: str_nat.induct)
  case (1 n)
  show ?case
  proof (cases "n < 10")
    case True
    then show ?thesis by (subst str_nat.simps) (simp add: num_of_def digit_char_simps)
  next
    case False
    with 1 have "num_of 10 (str_nat (n div 10)) = n div 10" by simp
    with False show ?thesis by (subst str_nat.simps) (simp add: num_of_def digit_char_simps)
  qed
qed

lemma is_digit_not_minus: "is_digit c \<Longrightarrow> c \<noteq> CHR ''-''"
  by (auto simp: is_digit_def)

lemma str_nat_hd: "hd (str_nat n) \<noteq> CHR ''-''"
  using str_nat_digits [of n] by (cases "str_nat n") (auto dest: is_digit_not_minus)

lemma int_of_dec_str_int: "int_of_dec (str_int v) = Inr v"
  using str_nat_digits [of "nat v"] str_nat_digits [of "nat (- v)"] str_nat_hd [of "nat v"]
  by (simp add: int_of_dec_def str_int_def num_of_str_nat Let_def)

lemma str_int_inject [simp]: "str_int v = str_int w \<longleftrightarrow> v = w"
  by (metis int_of_dec_str_int sum.inject(2))

end
