(* ===== verification/Scratch.thy ===== *)
theory Scratch
  imports Limits Py_Str
begin

text \<open>
  The register allocator of the compiler (\<open>scratch.py\<close>): variables are laid out one after the
  other in the scratch space of the machine, with one slot per concurrent thread for thread-local
  variables; constants are allocated once per value and width. The invariant says that the regions
  of all variables are disjoint, lie below the allocation pointer, and add up to it.
\<close>

section \<open>Data and operations\<close>

record var_meta =
  vm_name :: string
  vm_addr :: nat
  vm_is_vector :: bool
  vm_length :: nat
  vm_slots :: nat
  vm_is_constant :: bool
  vm_constant_value :: int

definition addr_of :: "var_meta \<Rightarrow> int \<Rightarrow> int res" where
  "addr_of vm slot_num =
     (if vm_slots vm = 1 then Inr (int (vm_addr vm))
      else if 0 \<le> slot_num \<and> slot_num < int (vm_slots vm)
      then Inr (int (vm_addr vm) + slot_num * int (vm_length vm))
      else Inl AssertionError)"

definition vm_size :: "var_meta \<Rightarrow> nat" where
  "vm_size vm = vm_slots vm * vm_length vm"

record scratch_space =
  scratch_addr :: "string \<rightharpoonup> nat"
  ss_var_meta :: "(string, var_meta) odict"
  scratch_ptr :: nat
  const_map :: "int \<times> bool \<rightharpoonup> var_meta"
  scratch_debug :: "nat \<rightharpoonup> string \<times> nat"

definition new_space :: scratch_space where
  "new_space = \<lparr>scratch_addr = Map.empty, ss_var_meta = [], scratch_ptr = 0,
     const_map = Map.empty, scratch_debug = Map.empty\<rparr>"

definition alloc_scratch ::
  "scratch_space \<Rightarrow> string \<Rightarrow> nat \<Rightarrow> nat \<Rightarrow> (nat \<times> var_meta \<times> scratch_space) res" where
  "alloc_scratch ss name len slots =
     (let addr = scratch_ptr ss in
      rbind (check AssertionError (scratch_addr ss name = None)) (\<lambda>_.
      let vm = \<lparr>vm_name = name, vm_addr = addr, vm_is_vector = len > 1, vm_length = len,
                vm_slots = slots, vm_is_constant = False, vm_constant_value = - 123\<rparr>;
          ss' = ss\<lparr>scratch_addr := (scratch_addr ss)(name \<mapsto> addr),
                   ss_var_meta := dict_put name vm (ss_var_meta ss),
                   scratch_debug := (scratch_debug ss)(addr \<mapsto> (name, slots * len)),
                   scratch_ptr := scratch_ptr ss + len * slots\<rparr>
      in if scratch_ptr ss' > SCRATCH_SIZE then Inl InsufficientRegisterCount
         else Inr (addr, vm, ss')))"

definition alloc_word :: "scratch_space \<Rightarrow> string \<Rightarrow> nat \<Rightarrow> (nat \<times> var_meta \<times> scratch_space) res" where
  "alloc_word ss name slots = alloc_scratch ss name 1 slots"

definition alloc_wide_word ::
  "scratch_space \<Rightarrow> string \<Rightarrow> nat \<Rightarrow> (nat \<times> var_meta \<times> scratch_space) res" where
  "alloc_wide_word ss name slots = alloc_scratch ss name VLEN slots"

definition const_name :: "int \<Rightarrow> bool \<Rightarrow> string" where
  "const_name val is_vector = (if is_vector then ''_KV_'' else ''_K_'') @ str_int val"

definition alloc_const ::
  "scratch_space \<Rightarrow> int \<Rightarrow> bool \<Rightarrow> ((nat \<times> string \<times> bool) \<times> scratch_space) res" where
  "alloc_const ss val is_vector =
     (case const_map ss (val, is_vector) of
        Some v \<Rightarrow> Inr ((vm_addr v, vm_name v, False), ss)
      | None \<Rightarrow>
          (let cname = const_name val is_vector; len = (if is_vector then VLEN else 1) in
           rbind (alloc_scratch ss cname len 1) (\<lambda>(addr, vm, ss').
           let vm' = vm\<lparr>vm_is_constant := True, vm_constant_value := val\<rparr> in
           Inr ((addr, cname, True),
                ss'\<lparr>ss_var_meta := dict_put cname vm' (ss_var_meta ss'),
                    const_map := (const_map ss')((val, is_vector) \<mapsto> vm')\<rparr>))))"

definition var_meta_of :: "scratch_space \<Rightarrow> string \<Rightarrow> var_meta res" where
  "var_meta_of ss name = dict_get (ss_var_meta ss) name"

definition constant_name :: "scratch_space \<Rightarrow> int \<Rightarrow> bool \<Rightarrow> string res" where
  "constant_name ss val is_vector =
     (case const_map ss (val, is_vector) of None \<Rightarrow> Inl AssertionError | Some vm \<Rightarrow> Inr (vm_name vm))"

definition has_variable :: "scratch_space \<Rightarrow> string \<Rightarrow> bool" where
  "has_variable ss name = (map_of (ss_var_meta ss) name \<noteq> None)"

definition ss_size :: "scratch_space \<Rightarrow> nat" where
  "ss_size ss = scratch_ptr ss"

definition per_thread_space :: "scratch_space \<Rightarrow> nat" where
  "per_thread_space ss =
     sum_list (map vm_length (filter (\<lambda>vm. vm_slots vm > 1) (map snd (ss_var_meta ss))))"

definition globals_space :: "scratch_space \<Rightarrow> nat" where
  "globals_space ss =
     sum_list (map vm_length (filter (\<lambda>vm. vm_slots vm = 1) (map snd (ss_var_meta ss))))"

definition free_space :: "scratch_space \<Rightarrow> int" where
  "free_space ss = int SCRATCH_SIZE - int (ss_size ss)"

section \<open>The invariant\<close>

definition region :: "var_meta \<Rightarrow> nat set" where
  "region vm = {vm_addr vm ..< vm_addr vm + vm_size vm}"

definition metas :: "scratch_space \<Rightarrow> string \<rightharpoonup> var_meta" where
  "metas ss = map_of (ss_var_meta ss)"

definition meta_ok :: "scratch_space \<Rightarrow> string \<Rightarrow> var_meta \<Rightarrow> bool" where
  "meta_ok ss name vm \<longleftrightarrow> vm_name vm = name \<and> scratch_addr ss name = Some (vm_addr vm) \<and>
     vm_addr vm + vm_size vm \<le> scratch_ptr ss \<and> vm_is_vector vm = (vm_length vm > 1)"

definition const_ok :: "scratch_space \<Rightarrow> int \<times> bool \<Rightarrow> var_meta \<Rightarrow> bool" where
  "const_ok ss vb vm \<longleftrightarrow> metas ss (vm_name vm) = Some vm \<and> vm_name vm = const_name (fst vb) (snd vb) \<and>
     vm_is_constant vm \<and> vm_constant_value vm = fst vb \<and> vm_is_vector vm = snd vb \<and> vm_slots vm = 1"

definition space_ok :: "scratch_space \<Rightarrow> bool" where
  "space_ok ss \<longleftrightarrow> distinct (map fst (ss_var_meta ss)) \<and> dom (scratch_addr ss) = dom (metas ss) \<and>
     scratch_ptr ss \<le> SCRATCH_SIZE \<and>
     scratch_ptr ss = sum_list (map (\<lambda>(_, vm). vm_size vm) (ss_var_meta ss)) \<and>
     (\<forall>name vm. metas ss name = Some vm \<longrightarrow> meta_ok ss name vm) \<and>
     (\<forall>n1 vm1 n2 vm2. metas ss n1 = Some vm1 \<longrightarrow> metas ss n2 = Some vm2 \<longrightarrow> n1 \<noteq> n2 \<longrightarrow>
        region vm1 \<inter> region vm2 = {}) \<and>
     (\<forall>vb vm. const_map ss vb = Some vm \<longrightarrow> const_ok ss vb vm)"

lemma dict_put_new: "k \<notin> fst ` set d \<Longrightarrow> dict_put k v d = d @ [(k, v)]"
  by (induction d) auto

lemma space_ok_new: "space_ok new_space"
  by (simp add: space_ok_def new_space_def metas_def)

lemma alloc_scratch_cases:
  assumes "alloc_scratch ss name len slots = Inr (addr, vm, ss')"
  shows "scratch_addr ss name = None" "addr = scratch_ptr ss" "vm_addr vm = addr"
    "vm = \<lparr>vm_name = name, vm_addr = addr, vm_is_vector = len > 1, vm_length = len,
       vm_slots = slots, vm_is_constant = False, vm_constant_value = - 123\<rparr>"
    "scratch_addr ss' = (scratch_addr ss)(name \<mapsto> addr)"
    "ss_var_meta ss' = dict_put name vm (ss_var_meta ss)"
    "scratch_ptr ss' = scratch_ptr ss + len * slots" "scratch_ptr ss' \<le> SCRATCH_SIZE"
    "const_map ss' = const_map ss"
  using assms by (auto simp: alloc_scratch_def Let_def rbind_Inr_iff check_Inr_iff split: if_splits)

lemma metas_put: "ss_var_meta ss' = dict_put name vm (ss_var_meta ss) \<Longrightarrow> metas ss' = (metas ss)(name \<mapsto> vm)"
  by (simp add: metas_def update_conv')

lemma space_okD:
  assumes "space_ok ss"
  shows "distinct (map fst (ss_var_meta ss))" "dom (scratch_addr ss) = dom (metas ss)"
    "scratch_ptr ss \<le> SCRATCH_SIZE"
    "scratch_ptr ss = sum_list (map (\<lambda>(_, vm). vm_size vm) (ss_var_meta ss))"
    "\<And>name vm. metas ss name = Some vm \<Longrightarrow> meta_ok ss name vm"
    "\<And>n1 vm1 n2 vm2. metas ss n1 = Some vm1 \<Longrightarrow> metas ss n2 = Some vm2 \<Longrightarrow> n1 \<noteq> n2 \<Longrightarrow>
       region vm1 \<inter> region vm2 = {}"
    "\<And>vb vm. const_map ss vb = Some vm \<Longrightarrow> const_ok ss vb vm"
  using assms unfolding space_ok_def by blast+

lemma fresh_metas: "space_ok ss \<Longrightarrow> scratch_addr ss name = None \<Longrightarrow> metas ss name = None"
  using space_okD(2) [of ss] by (metis domIff)

lemma alloc_scratch_ok:
  assumes ok: "space_ok ss" and al: "alloc_scratch ss name len slots = Inr (addr, vm, ss')"
  shows "space_ok ss'"
proof -
  note c = alloc_scratch_cases [OF al]
  note m' = metas_put [OF c(6)]
  have fresh: "metas ss name = None" by (rule fresh_metas [OF ok c(1)])
  then have put: "ss_var_meta ss' = ss_var_meta ss @ [(name, vm)]"
    using c(6) by (simp add: dict_put_new metas_def map_of_eq_None_iff)
  have size: "vm_size vm = len * slots" by (simp add: c(4) vm_size_def)
  have old: "region vm1 \<subseteq> {..<scratch_ptr ss}" if "metas ss n1 = Some vm1" for n1 vm1
    using space_okD(5) [OF ok that] by (auto simp: meta_ok_def region_def)
  have new: "region vm \<inter> {..<scratch_ptr ss} = {}" using c(2,3) by (auto simp: region_def)
  have disj: "region vm1 \<inter> region vm2 = {}"
    if "metas ss' n1 = Some vm1" "metas ss' n2 = Some vm2" "n1 \<noteq> n2" for n1 vm1 n2 vm2
    using that m' space_okD(6) [OF ok] old new by (auto split: if_splits; blast)
  have metas: "meta_ok ss' n vm1" if "metas ss' n = Some vm1" for n vm1
    using that m' space_okD(5) [OF ok, of n vm1] c(5,7) size
    by (auto simp: meta_ok_def c(2,4) vm_size_def split: if_splits)
  have cons: "const_ok ss' vb vm1" if "const_map ss' vb = Some vm1" for vb vm1
    using that c(9) space_okD(7) [OF ok, of vb vm1] m' fresh by (auto simp: const_ok_def)
  have "dom (scratch_addr ss') = dom (metas ss')"
    using c(5) m' space_okD(2) [OF ok] by simp
  moreover have "distinct (map fst (ss_var_meta ss'))"
    using c(6) space_okD(1) [OF ok] by (simp add: distinct_update)
  moreover have "scratch_ptr ss' = sum_list (map (\<lambda>(_, vm). vm_size vm) (ss_var_meta ss'))"
    using put c(7) size space_okD(4) [OF ok] by simp
  ultimately show ?thesis
    unfolding space_ok_def using c(8) metas disj cons by blast
qed

text \<open>Marking a fresh one-slot variable as a constant, as \<open>alloc_const\<close> does after allocating it.\<close>

lemma mark_const_ok:
  assumes ok: "space_ok ss" and m: "metas ss cname = Some vm" and cname: "cname = const_name val b"
    and vm: "vm_slots vm = 1" "vm_is_vector vm = b"
    and unused: "\<And>vb c. const_map ss vb = Some c \<Longrightarrow> vm_name c \<noteq> cname"
    and vm': "vm' = vm\<lparr>vm_is_constant := True, vm_constant_value := val\<rparr>"
  shows "space_ok (ss\<lparr>ss_var_meta := dict_put cname vm' (ss_var_meta ss),
    const_map := (const_map ss)((val, b) \<mapsto> vm')\<rparr>)" (is "space_ok ?ss")
proof -
  have m': "metas ?ss = (metas ss)(cname \<mapsto> vm')" by (rule metas_put) simp
  have same: "vm_addr vm' = vm_addr vm" "vm_size vm' = vm_size vm" "region vm' = region vm"
    "vm_name vm' = vm_name vm" "vm_length vm' = vm_length vm" "vm_is_vector vm' = vm_is_vector vm"
    by (simp_all add: vm' vm_size_def region_def)
  have name: "vm_name vm = cname" using space_okD(5) [OF ok m] by (simp add: meta_ok_def)
  have sum: "sum_list (map (\<lambda>(_, vm). vm_size vm) (dict_put cname vm' d)) =
      sum_list (map (\<lambda>(_, vm). vm_size vm) d)"
    if "distinct (map fst d)" "map_of d cname = Some vm" for d
    using that by (induction d) (auto simp: same split: if_splits)
  have disj: "region vm1 \<inter> region vm2 = {}"
    if "metas ?ss n1 = Some vm1" "metas ?ss n2 = Some vm2" "n1 \<noteq> n2" for n1 vm1 n2 vm2
  proof -
    obtain w1 w2 where "metas ss n1 = Some w1" "region w1 = region vm1"
      "metas ss n2 = Some w2" "region w2 = region vm2"
      using \<open>metas ?ss n1 = Some vm1\<close> \<open>metas ?ss n2 = Some vm2\<close> m m' same(3)
      by (auto split: if_splits)
    with space_okD(6) [OF ok, of n1 w1 n2 w2] \<open>n1 \<noteq> n2\<close> show ?thesis by simp
  qed
  have metas: "meta_ok ?ss n vm1" if "metas ?ss n = Some vm1" for n vm1
    using that m' space_okD(5) [OF ok m] space_okD(5) [OF ok, of n vm1] same
    by (auto simp: meta_ok_def split: if_splits)
  have cons: "const_ok ?ss vb c" if "const_map ?ss vb = Some c" for vb c
  proof (cases "vb = (val, b)")
    case True
    with that m' name cname vm vm' show ?thesis by (auto simp: const_ok_def)
  next
    case False
    with that have c: "const_map ss vb = Some c" by simp
    from space_okD(7) [OF ok this] unused [OF c] m' show ?thesis by (auto simp: const_ok_def)
  qed
  have "dom (scratch_addr ?ss) = dom (metas ?ss)"
    using space_okD(2) [OF ok] m m' by auto
  moreover have "distinct (map fst (ss_var_meta ?ss))"
    using space_okD(1) [OF ok] by (simp add: distinct_update)
  moreover have "scratch_ptr ?ss = sum_list (map (\<lambda>(_, vm). vm_size vm) (ss_var_meta ?ss))"
    using space_okD(1,4) [OF ok] sum m by (simp add: metas_def)
  ultimately show ?thesis
    unfolding space_ok_def using space_okD(3) [OF ok] metas disj cons by simp
qed

lemma const_name_inject [simp]: "const_name v b = const_name w c \<longleftrightarrow> v = w \<and> b = c"
  by (simp add: const_name_def)

lemma alloc_const_cases:
  assumes "alloc_const ss val b = Inr ((addr, cname, first), ss')"
  obtains (old) v where "const_map ss (val, b) = Some v" "addr = vm_addr v" "cname = vm_name v"
      "\<not> first" "ss' = ss"
    | (new) vm ss1 where "const_map ss (val, b) = None" "cname = const_name val b" first
      "alloc_scratch ss cname (if b then VLEN else 1) 1 = Inr (addr, vm, ss1)"
      "ss' = ss1\<lparr>ss_var_meta := dict_put cname
           (vm\<lparr>vm_is_constant := True, vm_constant_value := val\<rparr>) (ss_var_meta ss1),
         const_map := (const_map ss1)((val, b) \<mapsto>
           vm\<lparr>vm_is_constant := True, vm_constant_value := val\<rparr>)\<rparr>"
proof (cases "const_map ss (val, b)")
  case (Some v)
  with assms show thesis by (intro old) (auto simp: alloc_const_def)
next
  case None
  with assms obtain x where x: "alloc_scratch ss (const_name val b) (if b then VLEN else 1) 1 = Inr x"
    and r: "(case x of (addr, vm, ss') \<Rightarrow>
        let vm' = vm\<lparr>vm_is_constant := True, vm_constant_value := val\<rparr> in
        (Inr ((addr, const_name val b, True),
          ss'\<lparr>ss_var_meta := dict_put (const_name val b) vm' (ss_var_meta ss'),
              const_map := (const_map ss')((val, b) \<mapsto> vm')\<rparr>)
          :: ((nat \<times> string \<times> bool) \<times> scratch_space) res)) = Inr ((addr, cname, first), ss')"
    by (auto simp: alloc_const_def Let_def rbind_Inr_iff)
  obtain a vm ss1 where "x = (a, vm, ss1)" by (cases x)
  with x r None show thesis by (intro new [of vm ss1]) (auto simp: Let_def)
qed

lemma alloc_const_ok:
  assumes ok: "space_ok ss" and al: "alloc_const ss val b = Inr ((addr, cname, first), ss')"
  shows "space_ok ss'"
  using al
proof (cases rule: alloc_const_cases)
  case (new vm ss1)
  note c = alloc_scratch_cases [OF new(4)]
  have ok1: "space_ok ss1" by (rule alloc_scratch_ok [OF ok new(4)])
  have m1: "metas ss1 = (metas ss)(cname \<mapsto> vm)" by (rule metas_put [OF c(6)])
  have "vm_name cm \<noteq> cname" if "const_map ss1 vb = Some cm" for vb cm
  proof
    assume "vm_name cm = cname"
    moreover from that c(9) have cm: "const_map ss vb = Some cm" by simp
    ultimately have "vb = (val, b)"
      using space_okD(7) [OF ok cm] new(2) by (simp add: const_ok_def prod_eq_iff)
    with cm new(1) show False by simp
  qed
  moreover have "vm_slots vm = 1" "vm_is_vector vm = b"
    by (subst c(4), simp add: VLEN_def)+
  moreover have "metas ss1 cname = Some vm" by (simp add: m1)
  ultimately show ?thesis
    unfolding new(5) by (intro mark_const_ok [OF ok1 _ new(2)]) auto
qed (use ok in simp)

section \<open>What the allocator promises\<close>

text \<open>
  A variable's address for a slot, with the range of words it covers, lies inside its region; slots
  of one variable are disjoint, and regions of different variables are disjoint.
\<close>

definition slot_region :: "var_meta \<Rightarrow> int \<Rightarrow> int set" where
  "slot_region vm slot =
     (let a = (if vm_slots vm = 1 then int (vm_addr vm) else int (vm_addr vm) + slot * int (vm_length vm))
      in {a ..< a + int (vm_length vm)})"

definition slot_ok :: "var_meta \<Rightarrow> int \<Rightarrow> bool" where
  "slot_ok vm slot \<longleftrightarrow> vm_slots vm = 1 \<or> (0 \<le> slot \<and> slot < int (vm_slots vm))"

lemma addr_of_iff: "addr_of vm slot = Inr a \<longleftrightarrow> slot_ok vm slot \<and>
    a = (if vm_slots vm = 1 then int (vm_addr vm) else int (vm_addr vm) + slot * int (vm_length vm))"
  by (auto simp: addr_of_def slot_ok_def)

lemma slot_mult_bound:
  assumes "0 \<le> slot" "slot < int n"
  shows "slot * int len + int len \<le> int (n * len)"
proof -
  have "(slot + 1) * int len \<le> int n * int len" using assms by (intro mult_right_mono) auto
  then show ?thesis by (simp add: algebra_simps)
qed

lemma slot_region_subset:
  assumes "slot_ok vm slot"
  shows "slot_region vm slot \<subseteq> int ` region vm"
proof
  fix x assume x: "x \<in> slot_region vm slot"
  have "int (vm_addr vm) \<le> x \<and> x < int (vm_addr vm + vm_size vm)"
  proof (cases "vm_slots vm = 1")
    case True
    with x show ?thesis by (simp add: slot_region_def Let_def vm_size_def)
  next
    case False
    with assms have s: "0 \<le> slot" "slot < int (vm_slots vm)" by (auto simp: slot_ok_def)
    from s(1) have "0 \<le> slot * int (vm_length vm)" by simp
    with x False slot_mult_bound [OF s, of "vm_length vm"] show ?thesis
      by (simp add: slot_region_def Let_def vm_size_def)
  qed
  then show "x \<in> int ` region vm"
    by (intro image_eqI [of _ _ "nat x"]) (auto simp: region_def)
qed

lemma slot_regions_disjoint:
  assumes "slot_ok vm s" "slot_ok vm s'" "s \<noteq> s'" "vm_slots vm \<noteq> 1"
  shows "slot_region vm s \<inter> slot_region vm s' = {}"
proof -
  have less: "slot_region vm a \<inter> slot_region vm b = {}" if "a < b" for a b
  proof -
    have "(a + 1) * int (vm_length vm) \<le> b * int (vm_length vm)" using that by (intro mult_right_mono) auto
    with assms(4) show ?thesis by (auto simp: slot_region_def Let_def algebra_simps)
  qed
  from assms(3) have "s < s' \<or> s' < s" by linarith
  with less show ?thesis by (metis Int_commute)
qed

lemma regions_disjoint:
  assumes "space_ok ss" "metas ss n1 = Some vm1" "metas ss n2 = Some vm2"
    and "slot_ok vm1 s1" "slot_ok vm2 s2" "n1 \<noteq> n2"
  shows "slot_region vm1 s1 \<inter> slot_region vm2 s2 = {}"
proof -
  have "region vm1 \<inter> region vm2 = {}" using space_okD(6) [OF assms(1-3,6)] .
  then have "int ` region vm1 \<inter> int ` region vm2 = {}" by auto
  with slot_region_subset [OF assms(4)] slot_region_subset [OF assms(5)] show ?thesis by blast
qed

lemma slot_region_in_scratch:
  assumes "space_ok ss" "metas ss n = Some vm" "slot_ok vm s" "x \<in> slot_region vm s"
  shows "0 \<le> x \<and> x < int (ss_size ss) \<and> x < int SCRATCH_SIZE"
  using space_okD(3) [OF assms(1)] space_okD(5) [OF assms(1,2)]
    subsetD [OF slot_region_subset [OF assms(3)] assms(4)]
  by (auto simp: meta_ok_def region_def ss_size_def)

text \<open>Allocation fails exactly on a duplicate name or when the space runs out.\<close>

lemma alloc_scratch_fails_iff:
  "alloc_scratch ss name len slots = Inl e \<longleftrightarrow>
     (scratch_addr ss name \<noteq> None \<and> e = AssertionError) \<or>
     (scratch_addr ss name = None \<and> scratch_ptr ss + len * slots > SCRATCH_SIZE \<and>
      e = InsufficientRegisterCount)"
  by (auto simp: alloc_scratch_def Let_def check_def)

lemma const_not_user:
  assumes "space_ok ss" "const_map ss (v, b) = None" "metas ss (const_name v b) = None"
  shows "alloc_const ss v b = Inl e \<Longrightarrow> e = InsufficientRegisterCount"
proof -
  have "scratch_addr ss (const_name v b) = None"
    using space_okD(2) [OF assms(1)] assms(3) by (metis domIff)
  then show "alloc_const ss v b = Inl e \<Longrightarrow> e = InsufficientRegisterCount"
    using assms(2) by (auto simp: alloc_const_def alloc_scratch_def Let_def rbind_def split: sum.splits if_splits)
qed

end
