(* ===== verification/Reorder.thy ===== *)
theory Reorder
  imports Prelude "HOL-Library.Multiset"
begin

text \<open>
  Why a schedule may reorder instructions: an instruction reads a set of locations (which may
  depend on the state, as a load's address does) and computes a set of writes. Two instructions
  whose footprints do not touch commute; hence every order that keeps the conflicting pairs in
  program order computes the same state, and independent instructions may share a bundle, in which
  all reads happen before all writes. The interface is the locale \<open>footprint\<close>; the machine's data
  slots provide it.
\<close>

section \<open>Runs, footprints and order\<close>

type_synonym ('l, 'v) store = "'l \<Rightarrow> 'v"
type_synonym ('i, 'l, 'v) effect = "'i \<Rightarrow> ('l, 'v) store \<Rightarrow> ('l \<rightharpoonup> 'v) option"

definition upd :: "('l, 'v) store \<Rightarrow> ('l \<rightharpoonup> 'v) \<Rightarrow> ('l, 'v) store" where
  "upd s w = (\<lambda>l. case w l of None \<Rightarrow> s l | Some v \<Rightarrow> v)"

fun run_seq :: "('i, 'l, 'v) effect \<Rightarrow> 'i list \<Rightarrow> ('l, 'v) store \<Rightarrow> ('l, 'v) store option" where
  "run_seq ef [] s = Some s"
| "run_seq ef (i # is) s = (case ef i s of None \<Rightarrow> None | Some w \<Rightarrow> run_seq ef is (upd s w))"

definition foot ::
  "('i \<Rightarrow> ('l, 'v) store \<Rightarrow> 'l set) \<Rightarrow> ('i, 'l, 'v) effect \<Rightarrow> 'i \<Rightarrow> ('l, 'v) store \<Rightarrow> 'l set \<times> 'l set" where
  "foot rd ef i s = (rd i s, case ef i s of None \<Rightarrow> {} | Some w \<Rightarrow> dom w)"

fun feet ::
  "('i \<Rightarrow> ('l, 'v) store \<Rightarrow> 'l set) \<Rightarrow> ('i, 'l, 'v) effect \<Rightarrow> 'i list \<Rightarrow> ('l, 'v) store \<Rightarrow>
     ('l set \<times> 'l set) list" where
  "feet rd ef [] s = []"
| "feet rd ef (i # is) s =
     foot rd ef i s # (case ef i s of None \<Rightarrow> [] | Some w \<Rightarrow> feet rd ef is (upd s w))"

text \<open>The footprint an instruction has in the sequential run.\<close>

definition foot_in ::
  "('i \<Rightarrow> ('l, 'v) store \<Rightarrow> 'l set) \<Rightarrow> ('i, 'l, 'v) effect \<Rightarrow> 'i list \<Rightarrow> ('l, 'v) store \<Rightarrow>
     'i \<Rightarrow> ('l set \<times> 'l set) option" where
  "foot_in rd ef xs s = map_of (zip xs (feet rd ef xs s))"

definition indep :: "'l set \<times> 'l set \<Rightarrow> 'l set \<times> 'l set \<Rightarrow> bool" where
  "indep f g \<longleftrightarrow> snd f \<inter> fst g = {} \<and> snd g \<inter> fst f = {} \<and> snd f \<inter> snd g = {}"

fun before :: "'a list \<Rightarrow> 'a \<Rightarrow> 'a \<Rightarrow> bool" where
  "before [] i j = False"
| "before (x # xs) i j = ((i = x \<and> j \<in> set xs) \<or> before xs i j)"

text \<open>A bundle computes all its effects in the old state, then applies them in order.\<close>

fun effects :: "('i, 'l, 'v) effect \<Rightarrow> 'i list \<Rightarrow> ('l, 'v) store \<Rightarrow> ('l \<rightharpoonup> 'v) list option" where
  "effects ef [] s = Some []"
| "effects ef (i # is) s =
     (case ef i s of None \<Rightarrow> None | Some w \<Rightarrow>
       (case effects ef is s of None \<Rightarrow> None | Some ws \<Rightarrow> Some (w # ws)))"

definition run_bundle :: "('i, 'l, 'v) effect \<Rightarrow> 'i list \<Rightarrow> ('l, 'v) store \<Rightarrow> ('l, 'v) store option" where
  "run_bundle ef b s = (case effects ef b s of None \<Rightarrow> None | Some ws \<Rightarrow> Some (foldl upd s ws))"

fun run_bundles :: "('i, 'l, 'v) effect \<Rightarrow> 'i list list \<Rightarrow> ('l, 'v) store \<Rightarrow> ('l, 'v) store option" where
  "run_bundles ef [] s = Some s"
| "run_bundles ef (b # bs) s =
     (case run_bundle ef b s of None \<Rightarrow> None | Some s' \<Rightarrow> run_bundles ef bs s')"

fun earlier_bundle :: "'a list list \<Rightarrow> 'a \<Rightarrow> 'a \<Rightarrow> bool" where
  "earlier_bundle [] i j = False"
| "earlier_bundle (b # bs) i j = ((i \<in> set b \<and> j \<in> set (concat bs)) \<or> earlier_bundle bs i j)"

lemma before_append:
  "before (xs @ ys) i j \<longleftrightarrow> before xs i j \<or> before ys i j \<or> (i \<in> set xs \<and> j \<in> set ys)"
  by (induction xs) auto

lemma before_in: "before xs i j \<Longrightarrow> i \<in> set xs \<and> j \<in> set xs"
  by (induction xs) auto

lemma before_asym: "distinct xs \<Longrightarrow> before xs i j \<Longrightarrow> \<not> before xs j i"
  by (induction xs) (auto dest: before_in)

lemma before_nth: "k < l \<Longrightarrow> l < length xs \<Longrightarrow> before xs (xs ! k) (xs ! l)"
proof (induction xs arbitrary: k l)
  case (Cons x xs)
  then show ?case by (cases k; cases l) auto
qed simp

lemma before_total: "i \<in> set xs \<Longrightarrow> j \<in> set xs \<Longrightarrow> i \<noteq> j \<Longrightarrow> before xs i j \<or> before xs j i"
  by (induction xs) auto

lemma before_remove: "i \<noteq> x \<Longrightarrow> j \<noteq> x \<Longrightarrow> before (xs @ x # ys) i j \<longleftrightarrow> before (xs @ ys) i j"
  by (auto simp: before_append)

lemma earlier_before: "earlier_bundle bs i j \<Longrightarrow> before (concat bs) i j"
  by (induction bs) (auto simp: before_append)

lemma indep_sym: "indep f g \<longleftrightarrow> indep g f"
  by (auto simp: indep_def)

lemma run_seq_append:
  "run_seq ef (xs @ ys) s = (case run_seq ef xs s of None \<Rightarrow> None | Some s' \<Rightarrow> run_seq ef ys s')"
  by (induction xs arbitrary: s) (auto split: option.splits)

lemma feet_append:
  "run_seq ef xs s = Some s' \<Longrightarrow> feet rd ef (xs @ ys) s = feet rd ef xs s @ feet rd ef ys s'"
  by (induction xs arbitrary: s) (auto split: option.splits)

lemma length_feet: "run_seq ef xs s = Some s' \<Longrightarrow> length (feet rd ef xs s) = length xs"
  by (induction xs arbitrary: s) (auto split: option.splits)

lemma upd_comm: "dom w \<inter> dom v = {} \<Longrightarrow> upd (upd s w) v = upd (upd s v) w"
  by (auto simp: upd_def fun_eq_iff split: option.splits)

lemma single_map_add: "f k = None \<Longrightarrow> Map.empty(k \<mapsto> v) ++ f = f(k \<mapsto> v)"
  by (auto simp: map_add_def fun_eq_iff split: option.splits)

section \<open>The interface and the reordering theorem\<close>

locale footprint =
  fixes rd :: "'i \<Rightarrow> ('l, 'v) store \<Rightarrow> 'l set"
    and ef :: "('i, 'l, 'v) effect"
  assumes rd_local: "(\<And>l. l \<in> rd i s \<Longrightarrow> s l = t l) \<Longrightarrow> rd i t = rd i s"
    and ef_local: "(\<And>l. l \<in> rd i s \<Longrightarrow> s l = t l) \<Longrightarrow> ef i t = ef i s"
begin

lemma unaffected:
  assumes "dom w \<inter> rd j (upd s w) = {}"
  shows "rd j s = rd j (upd s w)" "ef j s = ef j (upd s w)"
proof -
  have same: "upd s w l = s l" if "l \<in> rd j (upd s w)" for l
    using that assms by (auto simp: upd_def split: option.splits)
  show "rd j s = rd j (upd s w)" by (rule rd_local) (rule same)
  show "ef j s = ef j (upd s w)" by (rule ef_local) (rule same)
qed

lemma swap:
  assumes i: "ef i s = Some w" and j: "ef j (upd s w) = Some v"
    and ind: "indep (foot rd ef i s) (foot rd ef j (upd s w))"
  shows "ef j s = Some v" "ef i (upd s v) = Some w" "foot rd ef j s = foot rd ef j (upd s w)"
    "foot rd ef i (upd s v) = foot rd ef i s" "upd (upd s w) v = upd (upd s v) w"
proof -
  from ind i j have d: "dom w \<inter> rd j (upd s w) = {}" "dom v \<inter> rd i s = {}" "dom w \<inter> dom v = {}"
    by (simp_all add: indep_def foot_def)
  note u = unaffected [OF d(1)]
  have same: "s l = upd s v l" if "l \<in> rd i s" for l
    using that d(2) by (auto simp: upd_def split: option.splits)
  have r: "rd i (upd s v) = rd i s" by (rule rd_local) (rule same)
  have e: "ef i (upd s v) = ef i s" by (rule ef_local) (rule same)
  show "ef j s = Some v" using u j by simp
  show "ef i (upd s v) = Some w" using e i by simp
  show "foot rd ef j s = foot rd ef j (upd s w)" using u by (simp add: foot_def)
  show "foot rd ef i (upd s v) = foot rd ef i s" using r e by (simp add: foot_def)
  show "upd (upd s w) v = upd (upd s v) w" by (rule upd_comm) (rule d(3))
qed

text \<open>An instruction moves behind a block of instructions it does not conflict with.\<close>

lemma move_back:
  assumes "run_seq ef (x # pre) s = Some s'"
    and "\<forall>f \<in> set (tl (feet rd ef (x # pre) s)). indep (foot rd ef x s) f"
  shows "run_seq ef (pre @ [x]) s = Some s' \<and>
    feet rd ef (pre @ [x]) s = tl (feet rd ef (x # pre) s) @ [foot rd ef x s]"
  using assms
proof (induction pre arbitrary: s)
  case (Cons y pre)
  from Cons.prems(1) obtain w v where w: "ef x s = Some w" and v: "ef y (upd s w) = Some v"
    and rest: "run_seq ef pre (upd (upd s w) v) = Some s'"
    by (auto split: option.splits)
  have ind: "indep (foot rd ef x s) (foot rd ef y (upd s w))" using Cons.prems(2) w by simp
  note sw = swap [OF w v ind]
  have "run_seq ef (x # pre) (upd s v) = Some s'" using sw rest by simp
  moreover have "\<forall>f \<in> set (tl (feet rd ef (x # pre) (upd s v))). indep (foot rd ef x (upd s v)) f"
    using Cons.prems(2) w v sw by simp
  ultimately have "run_seq ef (pre @ [x]) (upd s v) = Some s' \<and>
      feet rd ef (pre @ [x]) (upd s v) = tl (feet rd ef (x # pre) (upd s v)) @ [foot rd ef x (upd s v)]"
    by (rule Cons.IH)
  then show ?case using sw w v by simp
qed (auto split: option.splits)

lemma foot_in_Cons:
  "ef x s = Some w \<Longrightarrow> foot_in rd ef (x # xs) s = (foot_in rd ef xs (upd s w))(x \<mapsto> foot rd ef x s)"
  by (simp add: foot_in_def)

lemma foot_in_append:
  assumes "run_seq ef xs s = Some s'"
  shows "foot_in rd ef (xs @ ys) s = foot_in rd ef ys s' ++ foot_in rd ef xs s"
  using length_feet [OF assms] feet_append [OF assms, of rd ys] by (simp add: foot_in_def)

lemma foot_in_set: "foot_in rd ef xs s i = Some f \<Longrightarrow> i \<in> set xs"
  by (auto simp: foot_in_def dest: map_of_SomeD set_zip_leftD)

lemma foot_in_dom: "run_seq ef xs s = Some s' \<Longrightarrow> dom (foot_in rd ef xs s) = set xs"
  by (simp add: foot_in_def dom_map_of_zip length_feet)

definition keeps_conflicts :: "'i list \<Rightarrow> 'i list \<Rightarrow> ('l, 'v) store \<Rightarrow> bool" where
  "keeps_conflicts xs ys s \<longleftrightarrow>
     (\<forall>i j f g. before xs i j \<longrightarrow> foot_in rd ef xs s i = Some f \<longrightarrow> foot_in rd ef xs s j = Some g \<longrightarrow>
        \<not> indep f g \<longrightarrow> before ys i j)"

lemma reorder:
  assumes "run_seq ef xs s = Some s'" and "distinct xs" and "mset ys = mset xs"
    and "keeps_conflicts xs ys s"
  shows "run_seq ef ys s = Some s' \<and> foot_in rd ef ys s = foot_in rd ef xs s"
  using assms
proof (induction xs arbitrary: ys s)
  case (Cons x xs)
  from Cons.prems(1) obtain w where w: "ef x s = Some w" and rest: "run_seq ef xs (upd s w) = Some s'"
    by (auto split: option.splits)
  have "x \<in> set ys" using Cons.prems(3) by (metis list.set_intros(1) set_mset_mset)
  then obtain pre suf where ys: "ys = pre @ x # suf" by (meson split_list)
  have perm: "mset (pre @ suf) = mset xs" using Cons.prems(3) ys by simp
  have x: "x \<notin> set xs" using Cons.prems(2) by simp
  then have x': "x \<notin> set pre" "x \<notin> set suf" using perm
    by (metis Un_iff set_append set_mset_mset)+
  have feet: "foot_in rd ef (x # xs) s i = foot_in rd ef xs (upd s w) i" if "i \<noteq> x" for i
    using that by (simp add: foot_in_Cons [where w = w, OF w])
  have kept: "keeps_conflicts xs (pre @ suf) (upd s w)"
    unfolding keeps_conflicts_def
  proof (intro allI impI)
    fix i j f g
    assume c: "before xs i j" "foot_in rd ef xs (upd s w) i = Some f" "foot_in rd ef xs (upd s w) j = Some g"
      "\<not> indep f g"
    then have ne: "i \<noteq> x" "j \<noteq> x" using x before_in by metis+
    with c feet have "before ys i j"
      using Cons.prems(4) unfolding keeps_conflicts_def by (metis before.simps(2))
    with ne show "before (pre @ suf) i j" unfolding ys by (simp add: before_remove)
  qed
  have "distinct xs" using Cons.prems(2) by simp
  from Cons.IH [OF rest this perm kept]
  have IH: "run_seq ef (pre @ suf) (upd s w) = Some s'" "foot_in rd ef (pre @ suf) (upd s w) = foot_in rd ef xs (upd s w)"
    by simp_all
  from IH(1) obtain s1 where s1: "run_seq ef pre (upd s w) = Some s1" "run_seq ef suf s1 = Some s'"
    by (auto simp: run_seq_append split: option.splits)
  have ind: "indep (foot rd ef x s) f" if "f \<in> set (feet rd ef pre (upd s w))" for f
  proof -
    have "distinct pre" using perm \<open>distinct xs\<close> by (metis distinct_append mset_eq_imp_distinct_iff)
    with that obtain p where p: "p \<in> set pre" "foot_in rd ef pre (upd s w) p = Some f"
      using length_feet [OF s1(1), of rd]
      by (metis foot_in_def in_set_conv_nth map_of_zip_nth)
    have "p \<in> set xs" using p(1) perm by (metis Un_iff set_append set_mset_mset)
    then have "before (x # xs) x p" by simp
    moreover have "p \<noteq> x" using \<open>p \<in> set xs\<close> x by auto
    moreover have "\<not> before ys x p"
      using p(1) x' \<open>distinct pre\<close> Cons.prems(2,3) unfolding ys
      by (metis before_append before_asym before_in in_set_conv_decomp list.set_intros(1)
          mset_eq_imp_distinct_iff set_ConsD ys)
    moreover have "foot_in rd ef xs (upd s w) p = Some f"
      using p(2) IH(2) foot_in_append [OF s1(1), of suf] by (metis map_add_find_right)
    ultimately show ?thesis
      using Cons.prems(4) feet w unfolding keeps_conflicts_def
      by (metis foot_in_Cons fun_upd_same)
  qed
  have "run_seq ef (x # pre) s = Some s1" using w s1(1) by simp
  moreover have "\<forall>f \<in> set (tl (feet rd ef (x # pre) s)). indep (foot rd ef x s) f"
    using ind w by simp
  ultimately have mv: "run_seq ef (pre @ [x]) s = Some s1"
    "feet rd ef (pre @ [x]) s = feet rd ef pre (upd s w) @ [foot rd ef x s]"
    using move_back [of x pre s s1] w by simp_all
  have "run_seq ef ys s = Some s'"
    using mv(1) s1(2) run_seq_append [of ef "pre @ [x]" suf s] unfolding ys by simp
  moreover have "foot_in rd ef ys s = foot_in rd ef (x # xs) s"
  proof -
    have "foot_in rd ef ys s = foot_in rd ef suf s1 ++ foot_in rd ef (pre @ [x]) s"
      using foot_in_append [OF mv(1), of suf] unfolding ys by simp
    also have "foot_in rd ef (pre @ [x]) s = (foot_in rd ef pre (upd s w))(x \<mapsto> foot rd ef x s)"
    proof -
      let ?fs = "feet rd ef pre (upd s w)"
      have l: "length ?fs = length pre" using length_feet [OF s1(1)] by simp
      have "map_of (zip pre ?fs) x = None"
        using x'(1) by (auto simp: map_of_eq_None_iff dest: set_zip_leftD)
      then show ?thesis
        using l by (simp add: foot_in_def mv(2) single_map_add)
    qed
    also have "foot_in rd ef suf s1 ++ (foot_in rd ef pre (upd s w))(x \<mapsto> foot rd ef x s) =
        (foot_in rd ef (pre @ suf) (upd s w))(x \<mapsto> foot rd ef x s)"
      using foot_in_append [OF s1(1), of suf] by simp
    also have "\<dots> = foot_in rd ef (x # xs) s" using IH(2) w by (simp add: foot_in_Cons)
    finally show ?thesis .
  qed
  ultimately show ?case ..
qed simp

text \<open>Instructions that do not conflict may share a bundle.\<close>

abbreviation feet_at :: "'i list \<Rightarrow> ('l, 'v) store \<Rightarrow> ('l set \<times> 'l set) list" where
  "feet_at is s \<equiv> map (\<lambda>i. foot rd ef i s) is"

lemma foot_after:
  assumes i: "ef i s = Some w" and ind: "indep (foot rd ef i s) (foot rd ef j s)"
  shows "ef j (upd s w) = ef j s" "foot rd ef j (upd s w) = foot rd ef j s"
proof -
  have same: "s l = upd s w l" if "l \<in> rd j s" for l
    using that ind i by (auto simp: indep_def foot_def upd_def split: option.splits)
  have "rd j (upd s w) = rd j s" by (rule rd_local) (rule same)
  moreover show "ef j (upd s w) = ef j s" by (rule ef_local) (rule same)
  ultimately show "foot rd ef j (upd s w) = foot rd ef j s" by (simp add: foot_def)
qed

lemma effects_after:
  "ef i s = Some w \<Longrightarrow> \<forall>j \<in> set is. indep (foot rd ef i s) (foot rd ef j s) \<Longrightarrow>
     effects ef is (upd s w) = effects ef is s"
  by (induction "is") (simp_all add: foot_after [where i = i] cong: option.case_cong)

lemma feet_at_after:
  "ef i s = Some w \<Longrightarrow> \<forall>j \<in> set is. indep (foot rd ef i s) (foot rd ef j s) \<Longrightarrow>
     feet_at is (upd s w) = feet_at is s"
  by (simp add: foot_after [where i = i])

lemma bundle_sequential: "sorted_wrt indep (feet_at b s) \<Longrightarrow> run_bundle ef b s = run_seq ef b s"
proof (induction b arbitrary: s)
  case (Cons i b)
  show ?case
  proof (cases "ef i s")
    case (Some w)
    have "\<forall>j \<in> set b. indep (foot rd ef i s) (foot rd ef j s)" using Cons.prems by simp
    note after = feet_at_after [OF Some this] effects_after [OF Some this]
    have "run_bundle ef b (upd s w) = run_seq ef b (upd s w)"
      using Cons.prems by (intro Cons.IH) (simp only: after(1) list.map sorted_wrt.simps)
    then show ?thesis
      using Some after(2) by (auto simp: run_bundle_def split: option.splits)
  qed (simp add: run_bundle_def)
qed (simp add: run_bundle_def)

text \<open>Footprints that are independent along a sequential run are the footprints at its start.\<close>

lemma feet_as_feet_at:
  assumes "run_seq ef b s = Some s'" and "sorted_wrt indep (feet rd ef b s)"
  shows "feet rd ef b s = feet_at b s"
  using assms
proof (induction b arbitrary: s)
  case (Cons i b)
  from Cons.prems(1) obtain w where w: "ef i s = Some w" and rest: "run_seq ef b (upd s w) = Some s'"
    by (auto split: option.splits)
  with Cons have IH: "feet rd ef b (upd s w) = feet_at b (upd s w)" by simp
  have "foot rd ef j (upd s w) = foot rd ef j s" if "j \<in> set b" for j
  proof -
    have "indep (foot rd ef i s) (foot rd ef j (upd s w))"
      using Cons.prems(2) w IH that by simp
    then have "dom w \<inter> rd j (upd s w) = {}" using w by (simp add: indep_def foot_def)
    from unaffected [OF this] show ?thesis by (simp add: foot_def)
  qed
  with IH w show ?case by simp
qed simp

text \<open>
  The correctness statement of an instruction scheduler: bundles that hold each instruction once and
  put every conflicting pair in program order into different bundles, the earlier one first, compute
  what the sequence computes.
\<close>

lemma bundles_sequential:
  assumes "run_seq ef (concat bs) s = Some s'" and "distinct (concat bs)"
    and "\<And>i j f g. before (concat bs) i j \<Longrightarrow> foot_in rd ef (concat bs) s i = Some f \<Longrightarrow>
      foot_in rd ef (concat bs) s j = Some g \<Longrightarrow> \<not> indep f g \<Longrightarrow> earlier_bundle bs i j"
  shows "run_bundles ef bs s = Some s'"
  using assms
proof (induction bs arbitrary: s)
  case (Cons b bs)
  from Cons.prems(1) obtain s1 where s1: "run_seq ef b s = Some s1" "run_seq ef (concat bs) s1 = Some s'"
    by (auto simp: run_seq_append split: option.splits)
  have dist: "distinct b" "distinct (concat bs)" "set b \<inter> set (concat bs) = {}"
    using Cons.prems(2) by auto
  have foot: "foot_in rd ef (b @ concat bs) s = foot_in rd ef (concat bs) s1 ++ foot_in rd ef b s"
    using foot_in_append [OF s1(1)] by simp
  have inb: "foot_in rd ef (b @ concat bs) s i = foot_in rd ef b s i" if "i \<in> set b" for i
    using that foot_in_dom [OF s1(1)] foot by (auto simp: map_add_dom_app_simps)
  have inbs: "foot_in rd ef (b @ concat bs) s i = foot_in rd ef (concat bs) s1 i" if "i \<in> set (concat bs)" for i
  proof -
    have "i \<notin> dom (foot_in rd ef b s)" using that foot_in_dom [OF s1(1)] dist(3) by blast
    then show ?thesis unfolding foot by (rule map_add_dom_app_simps(3))
  qed
  have at: "foot_in rd ef b s (b ! k) = Some (feet rd ef b s ! k)" if "k < length b" for k
    using that length_feet [OF s1(1)] dist(1) by (simp add: foot_in_def map_of_zip_nth)
  have "sorted_wrt indep (feet rd ef b s)"
    unfolding sorted_wrt_iff_nth_less
  proof (intro allI impI)
    fix k l assume kl: "k < l" "l < length (feet rd ef b s)"
    then have l: "l < length b" "k < length b" using length_feet [OF s1(1), of rd] by simp_all
    show "indep (feet rd ef b s ! k) (feet rd ef b s ! l)"
    proof (rule ccontr)
      assume n: "\<not> indep (feet rd ef b s ! k) (feet rd ef b s ! l)"
      have "before b (b ! k) (b ! l)" using kl(1) l(1) by (rule before_nth)
      then have "before (concat (b # bs)) (b ! k) (b ! l)" by (simp add: before_append)
      then have "earlier_bundle (b # bs) (b ! k) (b ! l)"
        by (rule Cons.prems(3)) (use inb at l n in simp_all)
      then have "b ! l \<in> set (concat bs)"
        by (metis before_in concat.simps(2) earlier_before earlier_bundle.simps(2))
      with l dist(3) show False by (meson disjoint_iff nth_mem)
    qed
  qed
  then have "run_bundle ef b s = Some s1"
    using s1(1) feet_as_feet_at [OF s1(1)] by (simp add: bundle_sequential)
  moreover have "run_bundles ef bs s1 = Some s'"
  proof (rule Cons.IH [OF s1(2) dist(2)])
    fix i j f g
    assume c: "before (concat bs) i j" "foot_in rd ef (concat bs) s1 i = Some f"
      "foot_in rd ef (concat bs) s1 j = Some g" "\<not> indep f g"
    have ij: "i \<in> set (concat bs)" "j \<in> set (concat bs)" using before_in [OF c(1)] by simp_all
    have "before (concat (b # bs)) i j" using c(1) by (simp add: before_append)
    then have "earlier_bundle (b # bs) i j"
      by (rule Cons.prems(3)) (use inbs ij c in simp_all)
    then show "earlier_bundle bs i j" using ij(1) dist(3) by auto
  qed
  ultimately show ?case by simp
qed simp

lemma schedule:
  assumes "run_seq ef xs s = Some s'" and "distinct xs" and "mset (concat bs) = mset xs"
    and "\<And>i j f g. before xs i j \<Longrightarrow> foot_in rd ef xs s i = Some f \<Longrightarrow> foot_in rd ef xs s j = Some g \<Longrightarrow>
      \<not> indep f g \<Longrightarrow> earlier_bundle bs i j"
  shows "run_bundles ef bs s = Some s'"
proof -
  have kept: "keeps_conflicts xs (concat bs) s"
    unfolding keeps_conflicts_def using assms(4) earlier_before by metis
  note r = reorder [OF assms(1,2,3) kept]
  have d: "distinct (concat bs)" using assms(2,3) mset_eq_imp_distinct_iff by metis
  show ?thesis
  proof (rule bundles_sequential [OF conjunct1 [OF r] d])
    fix i j f g
    assume c: "before (concat bs) i j" "foot_in rd ef (concat bs) s i = Some f"
      "foot_in rd ef (concat bs) s j = Some g" "\<not> indep f g"
    have ne: "i \<noteq> j" using before_asym [OF d c(1)] c(1) by auto
    have in_xs: "i \<in> set xs" "j \<in> set xs"
      using before_in [OF c(1)] assms(3) by (metis set_mset_mset)+
    have fs: "foot_in rd ef xs s i = Some f" "foot_in rd ef xs s j = Some g" using c r by simp_all
    have "\<not> before xs j i"
    proof
      assume "before xs j i"
      then have "earlier_bundle bs j i"
        by (rule assms(4) [where f = g and g = f]) (use fs c(4) in \<open>simp_all add: indep_sym [of g f]\<close>)
      then show False using before_asym [OF d c(1)] earlier_before by metis
    qed
    then have "before xs i j" using before_total [OF in_xs ne] by simp
    then show "earlier_bundle bs i j" by (rule assms(4)) (use fs c(4) in simp_all)
  qed
qed

end

end
