(* ===== verification/Machine.thy ===== *)
theory Machine
  imports Limits
begin

text \<open>
  The simulator of the VLIW SIMD machine (class \<open>Machine\<close> of \<open>problem.py\<close>): cores, memory, the
  five engines, the execution of one instruction bundle (all reads before all writes) and the run
  loop. An instruction is a dictionary from engine names to lists of slots; it is modelled as the
  list of its entries in insertion order, the debug entry being a constructor of its own since its
  slots hold trace keys. Every exception the simulator can raise is an \<open>Inl\<close> result.
  Tracing and printing are left out; \<open>pretty_print_mem\<close> is kept as far as it can raise.
\<close>

unbundle bit_operations_syntax

section \<open>Data\<close>

datatype core_state = RUNNING | PAUSED | STOPPED

record core =
  core_id :: int
  scratch :: "int list"
  trace_buf :: "int list"
  pc :: int
  cstate :: core_state

type_synonym slot = "string \<times> int list"
type_synonym writes = "(int, int) odict"

datatype trace_key = Key3 int int string | Key4 int int string int

datatype debug_slot = Compare int trace_key | VCompare int "trace_key list" | OtherDebug string

datatype group = Group engine "slot list" | DebugGroup "debug_slot list"

type_synonym instr = "group list"

record machine =
  cores :: "core list"
  mem :: "int list"
  program :: "instr list"
  value_trace :: "trace_key \<rightharpoonup> int"
  cycle :: int
  enable_pause :: bool
  enable_debug :: bool

text \<open>\<open>Machine.__init__\<close>.\<close>

definition new_core :: "nat \<Rightarrow> nat \<Rightarrow> core" where
  "new_core sz i =
     \<lparr>core_id = int i, scratch = replicate sz 0, trace_buf = [], pc = 0, cstate = RUNNING\<rparr>"

definition new_machine ::
  "int list \<Rightarrow> instr list \<Rightarrow> nat \<Rightarrow> nat \<Rightarrow> (trace_key \<rightharpoonup> int) \<Rightarrow> machine" where
  "new_machine mem_dump prog n_cores scratch_size vtrace =
     \<lparr>cores = map (new_core scratch_size) [0..<n_cores], mem = mem_dump, program = prog,
      value_trace = vtrace, cycle = 0, enable_pause = True, enable_debug = True\<rparr>"

section \<open>The engines\<close>

definition cdiv :: "int \<Rightarrow> int \<Rightarrow> int res" where
  "cdiv a b = (if b = 0 then Inl ZeroDivisionError else Inr ((a + b - 1) div b))"

definition alu_res :: "string \<Rightarrow> int \<Rightarrow> int \<Rightarrow> int res" where
  "alu_res op a1 a2 =
     (if op = ''+'' then Inr (a1 + a2)
      else if op = ''-'' then Inr (a1 - a2)
      else if op = ''*'' then Inr (a1 * a2)
      else if op = ''//'' then (if a2 = 0 then Inl ZeroDivisionError else Inr (a1 div a2))
      else if op = ''cdiv'' then cdiv a1 a2
      else if op = ''^'' then Inr (a1 XOR a2)
      else if op = ''&'' then Inr (a1 AND a2)
      else if op = ''|'' then Inr (a1 OR a2)
      else if op = ''<<'' then (if a2 < 0 then Inl ValueError else Inr (push_bit (nat a2) a1))
      else if op = ''>>'' then (if a2 < 0 then Inl ValueError else Inr (drop_bit (nat a2) a1))
      else if op = ''%'' then (if a2 = 0 then Inl ZeroDivisionError else Inr (a1 mod a2))
      else if op = ''<'' then Inr (if a1 < a2 then 1 else 0)
      else if op = ''=='' then Inr (if a1 = a2 then 1 else 0)
      else Inl NotImplementedError)"

definition alu :: "core \<Rightarrow> string \<Rightarrow> int \<Rightarrow> int \<Rightarrow> int \<Rightarrow> writes \<Rightarrow> writes res" where
  "alu c op dest a1 a2 sw =
     rbind (py_get (scratch c) a1) (\<lambda>x.
     rbind (py_get (scratch c) a2) (\<lambda>y.
     rbind (alu_res op x y) (\<lambda>r. Inr (dict_put dest (r32 r) sw))))"

definition valu_multiply_add :: "core \<Rightarrow> int \<Rightarrow> int \<Rightarrow> int \<Rightarrow> int \<Rightarrow> writes \<Rightarrow> int \<Rightarrow> writes res" where
  "valu_multiply_add c dest a b d sw i =
     rbind (py_get (scratch c) (a + i)) (\<lambda>x.
     rbind (py_get (scratch c) (b + i)) (\<lambda>y.
     rbind (py_get (scratch c) (d + i)) (\<lambda>z.
       Inr (dict_put (dest + i) (r32 (r32 (x * y) + z)) sw))))"

definition valu :: "core \<Rightarrow> slot \<Rightarrow> writes \<Rightarrow> writes res" where
  "valu c s sw =
     (case s of (op, args) \<Rightarrow>
       (case args of
          [dest, src] \<Rightarrow>
            if op = ''vbroadcast''
            then foldM (\<lambda>sw i. rbind (py_get (scratch c) src) (\<lambda>v. Inr (dict_put (dest + i) v sw)))
                   lanes sw
            else Inl NotImplementedError
        | [dest, a1, a2] \<Rightarrow> foldM (\<lambda>sw i. alu c op (dest + i) (a1 + i) (a2 + i) sw) lanes sw
        | [dest, a, b, d] \<Rightarrow>
            if op = ''multiply_add'' then foldM (valu_multiply_add c dest a b d) lanes sw
            else Inl NotImplementedError
        | _ \<Rightarrow> Inl NotImplementedError))"

definition load :: "int list \<Rightarrow> core \<Rightarrow> slot \<Rightarrow> writes \<Rightarrow> writes res" where
  "load mm c s sw =
     (case s of (op, args) \<Rightarrow>
       (case args of
          [dest, a] \<Rightarrow>
            if op = ''load'' then
              rbind (py_get (scratch c) a) (\<lambda>addr.
              rbind (py_get mm addr) (\<lambda>v. Inr (dict_put dest v sw)))
            else if op = ''vload'' then
              rbind (py_get (scratch c) a) (\<lambda>addr.
              foldM (\<lambda>sw vi. rbind (py_get mm (addr + vi)) (\<lambda>v. Inr (dict_put (dest + vi) v sw)))
                lanes sw)
            else if op = ''const'' then Inr (dict_put dest (r32 a) sw)
            else Inl NotImplementedError
        | [dest, a, offset] \<Rightarrow>
            if op = ''load_offset'' then
              rbind (py_get (scratch c) (a + offset)) (\<lambda>addr.
              rbind (py_get mm addr) (\<lambda>v. Inr (dict_put (dest + offset) v sw)))
            else Inl NotImplementedError
        | _ \<Rightarrow> Inl NotImplementedError))"

definition store :: "core \<Rightarrow> slot \<Rightarrow> writes \<Rightarrow> writes res" where
  "store c s mw =
     (case s of (op, args) \<Rightarrow>
       (case args of
          [a, src] \<Rightarrow>
            if op = ''store'' then
              rbind (py_get (scratch c) a) (\<lambda>addr.
              rbind (py_get (scratch c) src) (\<lambda>v. Inr (dict_put addr v mw)))
            else if op = ''vstore'' then
              rbind (py_get (scratch c) a) (\<lambda>addr.
              foldM (\<lambda>mw vi. rbind (py_get (scratch c) (src + vi))
                       (\<lambda>v. Inr (dict_put (addr + vi) v mw))) lanes mw)
            else Inl NotImplementedError
        | _ \<Rightarrow> Inl NotImplementedError))"

text \<open>
  The flow engine also changes the core: its state, its program counter and its trace buffer.
  On a pause the simulator prints the memory header, which indexes the first seven words.
\<close>

definition select_value :: "core \<Rightarrow> int \<Rightarrow> int \<Rightarrow> int \<Rightarrow> int res" where
  "select_value c cond a b =
     rbind (py_get (scratch c) cond) (\<lambda>x.
       if x \<noteq> 0 then py_get (scratch c) a else py_get (scratch c) b)"

definition flow :: "bool \<Rightarrow> int list \<Rightarrow> slot \<Rightarrow> core \<times> writes \<Rightarrow> (core \<times> writes) res" where
  "flow pause_on mm s cw =
     (case s of (op, args) \<Rightarrow> case cw of (c, sw) \<Rightarrow>
       (case args of
          [] \<Rightarrow>
            if op = ''halt'' then Inr (c\<lparr>cstate := STOPPED\<rparr>, sw)
            else if op = ''pause'' then
              (if \<not> pause_on then Inr (c, sw)
               else if length mm < 7 then Inl IndexError
               else Inr (c\<lparr>cstate := PAUSED\<rparr>, sw))
            else Inl NotImplementedError
        | [a] \<Rightarrow>
            if op = ''trace_write'' then
              rbind (py_get (scratch c) a) (\<lambda>v. Inr (c\<lparr>trace_buf := trace_buf c @ [v]\<rparr>, sw))
            else if op = ''jump'' then Inr (c\<lparr>pc := a\<rparr>, sw)
            else if op = ''jump_indirect'' then
              rbind (py_get (scratch c) a) (\<lambda>v. Inr (c\<lparr>pc := v\<rparr>, sw))
            else if op = ''coreid'' then Inr (c, dict_put a (core_id c) sw)
            else Inl NotImplementedError
        | [a, b] \<Rightarrow>
            if op = ''cond_jump'' then
              rbind (py_get (scratch c) a) (\<lambda>v. Inr (if v \<noteq> 0 then c\<lparr>pc := b\<rparr> else c, sw))
            else if op = ''cond_jump_rel'' then
              rbind (py_get (scratch c) a) (\<lambda>v. Inr (if v \<noteq> 0 then c\<lparr>pc := pc c + b\<rparr> else c, sw))
            else Inl NotImplementedError
        | [dest, a, imm] \<Rightarrow>
            if op = ''add_imm'' then
              rbind (py_get (scratch c) a) (\<lambda>v. Inr (c, dict_put dest (r32 (v + imm)) sw))
            else Inl NotImplementedError
        | [dest, cond, a, b] \<Rightarrow>
            if op = ''select'' then
              rbind (select_value c cond a b) (\<lambda>v. Inr (c, dict_put dest v sw))
            else if op = ''vselect'' then
              rbind (foldM (\<lambda>sw vi. rbind (select_value c (cond + vi) (a + vi) (b + vi))
                       (\<lambda>v. Inr (dict_put (dest + vi) v sw))) lanes sw) (\<lambda>sw'. Inr (c, sw'))
            else Inl NotImplementedError
        | _ \<Rightarrow> Inl NotImplementedError))"

section \<open>One bundle\<close>

record xstate =
  xcore :: core
  xsw :: writes
  xmw :: writes

definition exec_slot :: "machine \<Rightarrow> engine \<Rightarrow> xstate \<Rightarrow> slot \<Rightarrow> xstate res" where
  "exec_slot m e x s =
     (case e of
        ALU \<Rightarrow>
          (case snd s of
             [dest, a1, a2] \<Rightarrow>
               rbind (alu (xcore x) (fst s) dest a1 a2 (xsw x)) (\<lambda>sw. Inr (x\<lparr>xsw := sw\<rparr>))
           | _ \<Rightarrow> Inl TypeError)
      | VALU \<Rightarrow> rbind (valu (xcore x) s (xsw x)) (\<lambda>sw. Inr (x\<lparr>xsw := sw\<rparr>))
      | LOAD \<Rightarrow> rbind (load (mem m) (xcore x) s (xsw x)) (\<lambda>sw. Inr (x\<lparr>xsw := sw\<rparr>))
      | STORE \<Rightarrow> rbind (store (xcore x) s (xmw x)) (\<lambda>mw. Inr (x\<lparr>xmw := mw\<rparr>))
      | FLOW \<Rightarrow> rbind (flow (enable_pause m) (mem m) s (xcore x, xsw x))
                  (\<lambda>(c, sw). Inr (x\<lparr>xcore := c, xsw := sw\<rparr>)))"

definition exec_debug :: "machine \<Rightarrow> core \<Rightarrow> debug_slot \<Rightarrow> unit res" where
  "exec_debug m c d =
     (case d of
        Compare loc key \<Rightarrow>
          (case value_trace m key of
             None \<Rightarrow> Inl KeyError
           | Some ref \<Rightarrow> rbind (py_get (scratch c) loc) (\<lambda>res. check AssertionError (res = ref)))
      | VCompare loc keys \<Rightarrow>
          rbind (mapM (\<lambda>k. case value_trace m k of None \<Rightarrow> Inl KeyError | Some v \<Rightarrow> Inr v) keys)
            (\<lambda>ref. check AssertionError (py_slice (scratch c) loc (loc + int VLEN) = ref))
      | OtherDebug _ \<Rightarrow> Inr ())"

definition exec_group :: "machine \<Rightarrow> xstate \<Rightarrow> group \<Rightarrow> xstate res" where
  "exec_group m x g =
     (case g of
        DebugGroup ds \<Rightarrow>
          if enable_debug m
          then foldM (\<lambda>x d. rbind (exec_debug m (xcore x) d) (\<lambda>_. Inr x)) ds x
          else Inr x
      | Group e slots \<Rightarrow>
          rbind (check AssertionError (length slots \<le> SLOT_LIMITS e))
            (\<lambda>_. foldM (exec_slot m e) slots x))"

text \<open>\<open>Machine.step\<close>: the core and the memory at the end of the cycle.\<close>

definition step :: "machine \<Rightarrow> instr \<Rightarrow> core \<Rightarrow> (core \<times> int list) res" where
  "step m ins c =
     rbind (foldM (exec_group m) ins \<lparr>xcore = c, xsw = [], xmw = []\<rparr>) (\<lambda>x.
     rbind (commit (xsw x) (scratch (xcore x))) (\<lambda>sc.
     rbind (commit (xmw x) (mem m)) (\<lambda>mm.
       Inr ((xcore x)\<lparr>scratch := sc\<rparr>, mm))))"

section \<open>The run loop\<close>

definition resume :: "core \<Rightarrow> core" where
  "resume c = (if cstate c = PAUSED then c\<lparr>cstate := RUNNING\<rparr> else c)"

definition non_debug :: "instr \<Rightarrow> bool" where
  "non_debug ins = list_ex (\<lambda>g. case g of Group _ _ \<Rightarrow> True | DebugGroup _ \<Rightarrow> False) ins"

definition run_core :: "machine \<times> bool \<Rightarrow> nat \<Rightarrow> (machine \<times> bool) res" where
  "run_core mb i =
     (case mb of (m, has_non_debug) \<Rightarrow>
       let c = cores m ! i in
       if cstate c \<noteq> RUNNING then Inr (m, has_non_debug)
       else if int (length (program m)) \<le> pc c
       then Inr (m\<lparr>cores := (cores m)[i := c\<lparr>cstate := STOPPED\<rparr>]\<rparr>, has_non_debug)
       else
         rbind (py_get (program m) (pc c)) (\<lambda>ins.
         rbind (step m ins (c\<lparr>pc := pc c + 1\<rparr>)) (\<lambda>(c', mm).
           Inr (m\<lparr>cores := (cores m)[i := c'], mem := mm\<rparr>, has_non_debug \<or> non_debug ins))))"

definition run_round :: "machine \<Rightarrow> machine res" where
  "run_round m =
     rbind (foldM run_core [0..<length (cores m)] (m, False)) (\<lambda>(m', has_non_debug).
       Inr (if has_non_debug then m'\<lparr>cycle := cycle m' + 1\<rparr> else m'))"

definition any_running :: "machine \<Rightarrow> bool" where
  "any_running m = list_ex (\<lambda>c. cstate c = RUNNING) (cores m)"

text \<open>\<open>None\<close> stands for a run that never ends (a program can jump back for ever).\<close>

partial_function (option) run_while :: "machine \<Rightarrow> machine res option" where
  "run_while m =
     (if any_running m
      then (case run_round m of Inl e \<Rightarrow> Some (Inl e) | Inr m' \<Rightarrow> run_while m')
      else Some (Inr m))"

declare run_while.simps [code]

definition run :: "machine \<Rightarrow> machine res option" where
  "run m = run_while (m\<lparr>cores := map resume (cores m)\<rparr>)"

section \<open>Data slots: what a slot writes, as a function of the old state\<close>

text \<open>
  Slots other than control flow only add entries to the write buffers. \<open>slot_puts\<close> is the
  specification of such a slot: the list of (address, value) pairs it writes, computed from the
  scratch space and the memory as they were when the cycle began.
\<close>

definition is_data_slot :: "engine \<Rightarrow> slot \<Rightarrow> bool" where
  "is_data_slot e s = (e = FLOW \<longrightarrow> fst s \<in> {''add_imm'', ''select'', ''vselect''})"

definition alu_put :: "int list \<Rightarrow> string \<Rightarrow> int \<Rightarrow> int \<Rightarrow> int \<Rightarrow> (int \<times> int) res" where
  "alu_put sc op dest a1 a2 =
     rbind (rbind (py_get sc a1) (\<lambda>x. rbind (py_get sc a2) (\<lambda>y. rbind (alu_res op x y) (\<lambda>r.
       Inr (r32 r))))) (\<lambda>v. Inr (dest, v))"

definition sel_val :: "int list \<Rightarrow> int \<Rightarrow> int \<Rightarrow> int \<Rightarrow> int res" where
  "sel_val sc cond a b = rbind (py_get sc cond) (\<lambda>x. if x \<noteq> 0 then py_get sc a else py_get sc b)"

definition sel_put :: "int list \<Rightarrow> int \<Rightarrow> int \<Rightarrow> int \<Rightarrow> int \<Rightarrow> (int \<times> int) res" where
  "sel_put sc dest cond a b =
     rbind (sel_val sc cond a b) (\<lambda>v. Inr (dest, v))"

definition mul_add_put :: "int list \<Rightarrow> int \<Rightarrow> int \<Rightarrow> int \<Rightarrow> int \<Rightarrow> (int \<times> int) res" where
  "mul_add_put sc dest a b d =
     rbind (rbind (py_get sc a) (\<lambda>x. rbind (py_get sc b) (\<lambda>y. rbind (py_get sc d) (\<lambda>z.
       Inr (r32 (r32 (x * y) + z)))))) (\<lambda>v. Inr (dest, v))"

definition copy_put :: "int list \<Rightarrow> int \<Rightarrow> int \<Rightarrow> (int \<times> int) res" where
  "copy_put xs dest a = rbind (py_get xs a) (\<lambda>v. Inr (dest, v))"

definition slot_puts :: "int list \<Rightarrow> int list \<Rightarrow> engine \<Rightarrow> slot \<Rightarrow> writes res" where
  "slot_puts sc mm e s =
     (case (e, snd s) of
        (ALU, [d, a, b]) \<Rightarrow> mapM (\<lambda>i. alu_put sc (fst s) (d + i) (a + i) (b + i)) [0]
      | (ALU, _) \<Rightarrow> Inl TypeError
      | (VALU, [d, a]) \<Rightarrow>
          if fst s = ''vbroadcast'' then mapM (\<lambda>i. copy_put sc (d + i) a) lanes
          else Inl NotImplementedError
      | (VALU, [d, a, b]) \<Rightarrow> mapM (\<lambda>i. alu_put sc (fst s) (d + i) (a + i) (b + i)) lanes
      | (VALU, [d, a, b, c]) \<Rightarrow>
          if fst s = ''multiply_add''
          then mapM (\<lambda>i. mul_add_put sc (d + i) (a + i) (b + i) (c + i)) lanes
          else Inl NotImplementedError
      | (LOAD, [d, a]) \<Rightarrow>
          if fst s = ''load'' then rbind (py_get sc a) (\<lambda>ad. mapM (\<lambda>i. copy_put mm (d + i) (ad + i)) [0])
          else if fst s = ''vload'' then
            rbind (py_get sc a) (\<lambda>ad. mapM (\<lambda>i. copy_put mm (d + i) (ad + i)) lanes)
          else if fst s = ''const'' then Inr [(d, r32 a)]
          else Inl NotImplementedError
      | (LOAD, [d, a, off]) \<Rightarrow>
          if fst s = ''load_offset''
          then rbind (py_get sc (a + off)) (\<lambda>ad. mapM (\<lambda>i. copy_put mm (d + i) ad) [off])
          else Inl NotImplementedError
      | (STORE, [a, src]) \<Rightarrow>
          if fst s = ''store'' then
            rbind (py_get sc a) (\<lambda>ad. mapM (\<lambda>i. copy_put sc (ad + i) (src + i)) [0])
          else if fst s = ''vstore'' then
            rbind (py_get sc a) (\<lambda>ad. mapM (\<lambda>i. copy_put sc (ad + i) (src + i)) lanes)
          else Inl NotImplementedError
      | (FLOW, [d, a, imm]) \<Rightarrow>
          if fst s = ''add_imm'' then rbind (py_get sc a) (\<lambda>v. Inr [(d, r32 (v + imm))])
          else Inl NotImplementedError
      | (FLOW, [d, c, a, b]) \<Rightarrow>
          if fst s = ''select'' then mapM (\<lambda>i. sel_put sc (d + i) (c + i) (a + i) (b + i)) [0]
          else if fst s = ''vselect'' then
            mapM (\<lambda>i. sel_put sc (d + i) (c + i) (a + i) (b + i)) lanes
          else Inl NotImplementedError
      | _ \<Rightarrow> Inl NotImplementedError)"

lemmas puts_defs = alu_put_def sel_put_def mul_add_put_def copy_put_def

definition put_slot :: "engine \<Rightarrow> writes \<Rightarrow> xstate \<Rightarrow> xstate" where
  "put_slot e ps x =
     (if e = STORE then x\<lparr>xmw := dict_puts ps (xmw x)\<rparr> else x\<lparr>xsw := dict_puts ps (xsw x)\<rparr>)"

text \<open>The engines compute exactly the specified writes, errors included.\<close>

lemma alu_puts: "alu c op d a b sw = rbind (alu_put (scratch c) op d a b) (\<lambda>p. Inr (dict_puts [p] sw))"
  by (auto simp: alu_def alu_put_def rbind_def split: sum.splits)

lemma valu_arith_puts:
  "foldM (\<lambda>sw i. alu c op (d + i) (a + i) (b + i) sw) is sw =
   rbind (mapM (\<lambda>i. alu_put (scratch c) op (d + i) (a + i) (b + i)) is) (\<lambda>ps. Inr (dict_puts ps sw))"
proof -
  let ?g = "\<lambda>i. rbind (py_get (scratch c) (a + i)) (\<lambda>x. rbind (py_get (scratch c) (b + i)) (\<lambda>y.
    rbind (alu_res op x y) (\<lambda>r. Inr (r32 r))))"
  have "foldM (\<lambda>sw i. alu c op (d + i) (a + i) (b + i) sw) is sw =
      foldM (\<lambda>sw i. rbind (?g i) (\<lambda>v. Inr (dict_put (d + i) v sw))) is sw"
    by (simp add: alu_def rbind_assoc)
  then show ?thesis unfolding foldM_dict_put by (simp add: alu_put_def)
qed

lemma valu_multiply_add_puts:
  "foldM (valu_multiply_add c d a b e) is sw =
   rbind (mapM (\<lambda>i. mul_add_put (scratch c) (d + i) (a + i) (b + i) (e + i)) is)
     (\<lambda>ps. Inr (dict_puts ps sw))"
proof -
  let ?g = "\<lambda>i. rbind (py_get (scratch c) (a + i)) (\<lambda>x. rbind (py_get (scratch c) (b + i)) (\<lambda>y.
    rbind (py_get (scratch c) (e + i)) (\<lambda>z. Inr (r32 (r32 (x * y) + z)))))"
  have "foldM (valu_multiply_add c d a b e) is sw =
      foldM (\<lambda>sw i. rbind (?g i) (\<lambda>v. Inr (dict_put (d + i) v sw))) is sw"
    by (intro foldM_cong refl) (simp add: valu_multiply_add_def rbind_assoc)
  then show ?thesis unfolding foldM_dict_put by (simp add: mul_add_put_def)
qed

lemma copy_puts:
  "foldM (\<lambda>sw i. rbind (py_get xs (a i)) (\<lambda>v. Inr (dict_put (k i) v sw))) is sw =
   rbind (mapM (\<lambda>i. copy_put xs (k i) (a i)) is) (\<lambda>ps. Inr (dict_puts ps sw))"
  by (simp add: foldM_dict_put copy_put_def)

lemma select_value_sel_val: "select_value c cond a b = sel_val (scratch c) cond a b"
  by (simp add: select_value_def sel_val_def)

lemma sel_puts:
  "foldM (\<lambda>sw i. rbind (sel_val (scratch c) (cd + i) (a + i) (b + i)) (\<lambda>v. Inr (dict_put (d + i) v sw))) is sw =
   rbind (mapM (\<lambda>i. sel_put (scratch c) (d + i) (cd + i) (a + i) (b + i)) is)
     (\<lambda>ps. Inr (dict_puts ps sw))"
  by (simp add: foldM_dict_put sel_put_def select_value_sel_val)

lemma mapM_single: "mapM f [x] = rbind (f x) (\<lambda>y. Inr [y])"
  by simp

lemma exec_slot_data:
  assumes "is_data_slot e s"
  shows "exec_slot m e x s =
    rbind (slot_puts (scratch (xcore x)) (mem m) e s) (\<lambda>ps. Inr (put_slot e ps x))"
proof -
  obtain op args where s: "s = (op, args)" by (cases s)
  consider "args = []" | a where "args = [a]" | a b where "args = [a, b]"
    | a b c where "args = [a, b, c]" | a b c d where "args = [a, b, c, d]"
    | a b c d f rest where "args = a # b # c # d # f # rest"
    by (cases args rule: list.exhaust; (cases "tl args"; cases "tl (tl args)"; cases "tl (tl (tl args))";
        cases "tl (tl (tl (tl args)))")?) auto
  then show ?thesis
  proof cases
    case 3
    with s assms show ?thesis
      by (cases e) (auto simp: exec_slot_def slot_puts_def valu_def load_def store_def flow_def
        is_data_slot_def put_slot_def rbind_assoc copy_puts copy_put_def)
  next
    case 4
    show ?thesis
    proof (cases "e = ALU")
      case True
      with s 4 show ?thesis
        by (simp add: exec_slot_def slot_puts_def put_slot_def rbind_assoc alu_puts)
    next
      case False
      with s 4 assms show ?thesis
        by (cases e) (simp_all add: exec_slot_def slot_puts_def valu_def load_def store_def flow_def
          is_data_slot_def put_slot_def rbind_assoc valu_arith_puts copy_put_def)
    qed
  next
    case 5
    with s assms show ?thesis
      by (cases e) (auto simp: exec_slot_def slot_puts_def valu_def load_def store_def flow_def
        is_data_slot_def put_slot_def rbind_assoc valu_multiply_add_puts sel_puts
        select_value_sel_val sel_put_def)
  next
    case 1
    with s assms show ?thesis
      by (cases e) (auto simp: exec_slot_def slot_puts_def valu_def load_def store_def flow_def
        is_data_slot_def)
  next
    case 2
    with s assms show ?thesis
      by (cases e) (auto simp: exec_slot_def slot_puts_def valu_def load_def store_def flow_def
        is_data_slot_def)
  next
    case 6
    with s assms show ?thesis
      by (cases e) (auto simp: exec_slot_def slot_puts_def valu_def load_def store_def flow_def
        is_data_slot_def)
  qed
qed

text \<open>
  Lifted to groups and bundles: the writes of a whole bundle are computed from the state at the
  start of the cycle (debug groups write nothing, but can fail).
\<close>

definition is_data_group :: "group \<Rightarrow> bool" where
  "is_data_group g = (case g of Group e ss \<Rightarrow> list_all (is_data_slot e) ss | DebugGroup _ \<Rightarrow> True)"

definition is_data_instr :: "instr \<Rightarrow> bool" where
  "is_data_instr ins = list_all is_data_group ins"

definition group_puts :: "machine \<Rightarrow> core \<Rightarrow> group \<Rightarrow> (writes \<times> writes) res" where
  "group_puts m c g =
     (case g of
        DebugGroup ds \<Rightarrow>
          if enable_debug m
          then rbind (foldM (\<lambda>_ d. exec_debug m c d) ds ()) (\<lambda>_. Inr ([], []))
          else Inr ([], [])
      | Group e ss \<Rightarrow>
          rbind (check AssertionError (length ss \<le> SLOT_LIMITS e)) (\<lambda>_.
          rbind (mapM (slot_puts (scratch c) (mem m) e) ss) (\<lambda>pss.
            Inr (if e = STORE then ([], concat pss) else (concat pss, [])))))"

definition bundle_puts :: "machine \<Rightarrow> core \<Rightarrow> instr \<Rightarrow> (writes \<times> writes) res" where
  "bundle_puts m c ins =
     rbind (mapM (group_puts m c) ins) (\<lambda>l. Inr (concat (map fst l), concat (map snd l)))"

definition put_all :: "writes \<times> writes \<Rightarrow> xstate \<Rightarrow> xstate" where
  "put_all ws x = x\<lparr>xsw := dict_puts (fst ws) (xsw x), xmw := dict_puts (snd ws) (xmw x)\<rparr>"

lemma put_slot_frame [simp]: "xcore (put_slot e ps x) = xcore x"
  by (simp add: put_slot_def)

lemma put_all_frame [simp]: "xcore (put_all ws x) = xcore x"
  by (simp add: put_all_def)

lemma put_all_nil [simp]: "put_all ([], []) x = x"
  by (simp add: put_all_def)

lemma put_all_put_all: "put_all vs (put_all us x) = put_all (fst us @ fst vs, snd us @ snd vs) x"
  by (simp add: put_all_def dict_puts_append)

lemma put_slot_as_put_all:
  "put_slot e ps x = put_all (if e = STORE then ([], ps) else (ps, [])) x"
  by (simp add: put_slot_def put_all_def)

lemma foldM_exec_slot_data:
  assumes "list_all (is_data_slot e) ss"
  shows "foldM (exec_slot m e) ss x =
    rbind (mapM (slot_puts (scratch (xcore x)) (mem m) e) ss)
      (\<lambda>pss. Inr (put_all (if e = STORE then ([], concat pss) else (concat pss, [])) x))"
  using assms
proof (induction ss arbitrary: x)
  case (Cons s ss)
  show ?case
  proof (cases "slot_puts (scratch (xcore x)) (mem m) e s")
    case (Inr ps)
    with Cons.prems have "foldM (exec_slot m e) (s # ss) x = foldM (exec_slot m e) ss (put_slot e ps x)"
      by (simp add: exec_slot_data)
    also have "\<dots> = rbind (mapM (slot_puts (scratch (xcore x)) (mem m) e) ss)
      (\<lambda>pss. Inr (put_all (if e = STORE then ([], concat pss) else (concat pss, [])) (put_slot e ps x)))"
      using Cons by simp
    finally show ?thesis
      using Inr by (cases "mapM (slot_puts (scratch (xcore x)) (mem m) e) ss")
        (auto simp: put_slot_as_put_all put_all_put_all)
  qed (use Cons.prems in \<open>simp add: exec_slot_data\<close>)
qed simp

lemma foldM_debug:
  "foldM (\<lambda>x d. rbind (exec_debug m (xcore x) d) (\<lambda>_. Inr x)) ds x =
   rbind (foldM (\<lambda>_ d. exec_debug m (xcore x) d) ds ()) (\<lambda>_. Inr x)"
proof (induction ds)
  case (Cons d ds)
  then show ?case by (cases "exec_debug m (xcore x) d") auto
qed simp

lemma exec_group_data:
  assumes "is_data_group g"
  shows "exec_group m x g = rbind (group_puts m (xcore x) g) (\<lambda>ws. Inr (put_all ws x))"
proof (cases g)
  case (Group e ss)
  with assms show ?thesis
    by (auto simp: is_data_group_def exec_group_def group_puts_def foldM_exec_slot_data rbind_assoc
        intro!: rbind_cong)
next
  case (DebugGroup ds)
  then show ?thesis by (simp add: exec_group_def group_puts_def foldM_debug rbind_assoc)
qed

lemma foldM_exec_group_data:
  assumes "is_data_instr ins"
  shows "foldM (exec_group m) ins x = rbind (bundle_puts m (xcore x) ins) (\<lambda>ws. Inr (put_all ws x))"
  using assms
proof (induction ins arbitrary: x)
  case Nil
  show ?case by (simp add: bundle_puts_def)
next
  case (Cons g ins)
  then have "is_data_group g" "is_data_instr ins" by (simp_all add: is_data_instr_def)
  then show ?case
    using Cons.IH by (cases "group_puts m (xcore x) g"; cases "mapM (group_puts m (xcore x)) ins")
      (auto simp: exec_group_data bundle_puts_def put_all_put_all)
qed

lemma step_data:
  assumes "is_data_instr ins"
  shows "step m ins c =
    rbind (bundle_puts m c ins) (\<lambda>(ps, qs).
    rbind (commit (dict_puts ps []) (scratch c)) (\<lambda>sc.
    rbind (commit (dict_puts qs []) (mem m)) (\<lambda>mm. Inr (c\<lparr>scratch := sc\<rparr>, mm))))"
  unfolding step_def foldM_exec_group_data [OF assms]
  by (cases "bundle_puts m c ins") (auto simp: put_all_def)

end
