(* ===== verification/Machine_Props.thy ===== *)
theory Machine_Props
  imports Machine
begin

text \<open>
  Invariants of the simulator: the scratch space and the memory keep their lengths and hold
  32-bit words only; data bundles leave the control state of the core alone; a program without
  control flow terminates after one bundle per cycle. Programs that jump need not terminate.
\<close>

section \<open>Words and lengths\<close>

definition all_words :: "int list \<Rightarrow> bool" where
  "all_words xs \<longleftrightarrow> (\<forall>x \<in> set xs. is_word x)"

definition dict_words :: "writes \<Rightarrow> bool" where
  "dict_words d \<longleftrightarrow> (\<forall>x \<in> snd ` set d. is_word x)"

lemma dict_words_put [intro]: "dict_words d \<Longrightarrow> is_word v \<Longrightarrow> dict_words (dict_put k v d)"
  unfolding dict_words_def using snd_set_dict_put by fast

lemma dict_words_puts [intro]: "dict_words ws \<Longrightarrow> dict_words d \<Longrightarrow> dict_words (dict_puts ws d)"
  unfolding dict_words_def using snd_set_dict_puts by fast

lemma dict_words_Nil [simp]: "dict_words []"
  by (simp add: dict_words_def)

lemma dict_words_append [simp]: "dict_words (us @ vs) \<longleftrightarrow> dict_words us \<and> dict_words vs"
  by (auto simp: dict_words_def)

lemma all_words_get: "all_words xs \<Longrightarrow> py_get xs i = Inr v \<Longrightarrow> is_word v"
  by (auto simp: all_words_def dest: py_get_in_set)

lemma all_words_replicate [simp]: "all_words (replicate n 0)"
  by (simp add: all_words_def)

lemma all_words_append [simp]: "all_words (xs @ ys) \<longleftrightarrow> all_words xs \<and> all_words ys"
  by (auto simp: all_words_def)

lemma commit_words: "commit ws xs = Inr ys \<Longrightarrow> dict_words ws \<Longrightarrow> all_words xs \<Longrightarrow> all_words ys"
  unfolding dict_words_def all_words_def using commit_subset by fastforce

lemma mapM_in_set: "mapM f xs = Inr ys \<Longrightarrow> y \<in> set ys \<Longrightarrow> \<exists>x \<in> set xs. f x = Inr y"
  unfolding mapM_Inr_iff by (metis in_set_conv_nth)

lemma mapM_dict_words:
  "mapM f xs = Inr ys \<Longrightarrow> (\<And>x d v. x \<in> set xs \<Longrightarrow> f x = Inr (d, v) \<Longrightarrow> is_word v) \<Longrightarrow> dict_words ys"
  unfolding dict_words_def using mapM_in_set by fastforce

lemma put_words:
  "alu_put sc op d a b = Inr (d', v) \<Longrightarrow> is_word v"
  "mul_add_put sc d a b e = Inr (d', v) \<Longrightarrow> is_word v"
  "copy_put xs d a = Inr (d', v) \<Longrightarrow> all_words xs \<Longrightarrow> is_word v"
  "sel_put xs d c a b = Inr (d', v) \<Longrightarrow> all_words xs \<Longrightarrow> is_word v"
  by (auto simp: puts_defs sel_val_def res_elims dest: all_words_get split: if_splits)

lemma slot_puts_words:
  assumes "slot_puts sc mm e s = Inr ps" and "all_words sc" and "all_words mm"
  shows "dict_words ps"
  using assms
  by (auto simp: slot_puts_def res_elims split: engine.splits list.splits if_splits prod.splits
      elim!: mapM_dict_words simp del: mapM.simps dest: put_words)
    (auto simp: dict_words_def dest: put_words)

lemma flow_control:
  assumes "flow p mm s (c, sw) = Inr (c', sw')" and "\<not> is_data_slot FLOW s"
  shows "scratch c' = scratch c \<and> core_id c' = core_id c \<and>
    (sw' = sw \<or> (\<exists>a. sw' = dict_put a (core_id c) sw))"
  using assms
  by (auto simp: flow_def is_data_slot_def res_elims split: list.splits if_splits prod.splits)

definition xwords :: "xstate \<Rightarrow> bool" where
  "xwords x \<longleftrightarrow> all_words (scratch (xcore x)) \<and> is_word (core_id (xcore x)) \<and>
     dict_words (xsw x) \<and> dict_words (xmw x)"

lemma xwordsD: "xwords x \<Longrightarrow> dict_words (xsw x) \<and> dict_words (xmw x)"
  by (simp add: xwords_def)

text \<open>What a slot never changes: the scratch space before the commit, and the core's number.\<close>

definition same_regs :: "xstate \<Rightarrow> xstate \<Rightarrow> bool" where
  "same_regs x y \<longleftrightarrow> scratch (xcore y) = scratch (xcore x) \<and> core_id (xcore y) = core_id (xcore x)"

lemma exec_slot_words:
  assumes "exec_slot m e x s = Inr y"
  shows "same_regs x y" and "all_words (mem m) \<Longrightarrow> xwords x \<Longrightarrow> xwords y"
proof -
  have "same_regs x y \<and> (all_words (mem m) \<longrightarrow> xwords x \<longrightarrow> xwords y)"
  proof (cases "is_data_slot e s")
    case True
    with assms obtain ps where ps: "slot_puts (scratch (xcore x)) (mem m) e s = Inr ps"
      and y: "y = put_slot e ps x" by (auto simp: exec_slot_data res_elims)
    from slot_puts_words [OF ps] y show ?thesis
      by (auto simp: same_regs_def xwords_def put_slot_def)
  next
    case False
    then have e: "e = FLOW" by (auto simp: is_data_slot_def)
    with assms obtain c sw where fl: "flow (enable_pause m) (mem m) s (xcore x, xsw x) = Inr (c, sw)"
      and y: "y = x\<lparr>xcore := c, xsw := sw\<rparr>" by (auto simp: exec_slot_def res_elims)
    from flow_control [OF fl] False e y show ?thesis
      by (auto simp: same_regs_def xwords_def)
  qed
  then show "same_regs x y" "all_words (mem m) \<Longrightarrow> xwords x \<Longrightarrow> xwords y" by auto
qed

lemma exec_group_words:
  assumes "exec_group m x g = Inr y"
  shows "same_regs x y \<and> (all_words (mem m) \<longrightarrow> xwords x \<longrightarrow> xwords y)"
proof (cases g)
  case (Group e ss)
  with assms have "foldM (exec_slot m e) ss x = Inr y" by (auto simp: exec_group_def res_elims)
  then show ?thesis
    by (rule foldM_invariant [where P = "\<lambda>y. same_regs x y \<and> (all_words (mem m) \<longrightarrow> xwords x \<longrightarrow> xwords y)"])
      (auto simp: same_regs_def dest: exec_slot_words)
next
  case (DebugGroup ds)
  with assms have "y = x"
    by (auto simp: exec_group_def foldM_debug res_elims split: if_splits)
  then show ?thesis by (simp add: same_regs_def)
qed

lemma step_Inr:
  assumes "step m ins c = Inr (c', mm')"
  obtains x where "foldM (exec_group m) ins \<lparr>xcore = c, xsw = [], xmw = []\<rparr> = Inr x"
    and "commit (xsw x) (scratch c) = Inr (scratch c')" and "commit (xmw x) (mem m) = Inr mm'"
    and "c' = (xcore x)\<lparr>scratch := scratch c'\<rparr>" and "core_id c' = core_id c"
    and "all_words (mem m) \<Longrightarrow> all_words (scratch c) \<Longrightarrow> is_word (core_id c) \<Longrightarrow> xwords x"
proof -
  let ?x0 = "\<lparr>xcore = c, xsw = [], xmw = []\<rparr>"
  from assms obtain x sc where x: "foldM (exec_group m) ins ?x0 = Inr x"
    and sc: "commit (xsw x) (scratch (xcore x)) = Inr sc" and mm: "commit (xmw x) (mem m) = Inr mm'"
    and c': "c' = (xcore x)\<lparr>scratch := sc\<rparr>" by (auto simp: step_def res_elims)
  from x have "same_regs ?x0 x \<and> (all_words (mem m) \<longrightarrow> xwords ?x0 \<longrightarrow> xwords x)"
    by (rule foldM_invariant [where P = "\<lambda>y. same_regs ?x0 y \<and> (all_words (mem m) \<longrightarrow> xwords ?x0 \<longrightarrow> xwords y)"])
      (auto simp: same_regs_def dest: exec_group_words)
  with x sc mm c' show thesis by (intro that [of x]) (auto simp: same_regs_def xwords_def)
qed

lemma step_lengths:
  assumes "step m ins c = Inr (c', mm')"
  shows "length (scratch c') = length (scratch c) \<and> length mm' = length (mem m)"
  by (rule step_Inr [OF assms]) (blast intro: commit_length)

lemma step_words:
  assumes "step m ins c = Inr (c', mm')"
    and "all_words (mem m)" "all_words (scratch c)" "is_word (core_id c)"
  shows "all_words mm' \<and> all_words (scratch c') \<and> core_id c' = core_id c"
  by (rule step_Inr [OF assms(1)]) (use assms(2-) in \<open>blast intro: commit_words dest: xwordsD\<close>)

text \<open>The invariant of the whole machine, and that the run loop keeps it.\<close>

definition machine_ok :: "nat \<Rightarrow> nat \<Rightarrow> machine \<Rightarrow> bool" where
  "machine_ok n k m \<longleftrightarrow> length (mem m) = n \<and> all_words (mem m) \<and>
     (\<forall>c \<in> set (cores m). length (scratch c) = k \<and> all_words (scratch c) \<and> is_word (core_id c))"

lemma machine_ok_core:
  "machine_ok n k m \<Longrightarrow> i < length (cores m) \<Longrightarrow> length (scratch (cores m ! i)) = k \<and>
     all_words (scratch (cores m ! i)) \<and> is_word (core_id (cores m ! i))"
  by (simp add: machine_ok_def)

lemma machine_ok_update:
  assumes "machine_ok n k m" and "length mm = n" "all_words mm"
    and "length (scratch c) = k" "all_words (scratch c)" "is_word (core_id c)"
  shows "machine_ok n k (m\<lparr>cores := (cores m)[i := c], mem := mm\<rparr>)"
  using assms by (auto simp: machine_ok_def dest!: subsetD [OF set_update_subset_insert])

lemma run_core_cases:
  assumes "run_core (m, b) i = Inr (m', b')"
  obtains (idle) "cstate (cores m ! i) \<noteq> RUNNING" "m' = m" "b' = b"
    | (ended) "cstate (cores m ! i) = RUNNING" "int (length (program m)) \<le> pc (cores m ! i)"
        "m' = m\<lparr>cores := (cores m)[i := (cores m ! i)\<lparr>cstate := STOPPED\<rparr>]\<rparr>" "b' = b"
    | (stepped) ins c' mm where "cstate (cores m ! i) = RUNNING"
        "py_get (program m) (pc (cores m ! i)) = Inr ins"
        "step m ins ((cores m ! i)\<lparr>pc := pc (cores m ! i) + 1\<rparr>) = Inr (c', mm)"
        "m' = m\<lparr>cores := (cores m)[i := c'], mem := mm\<rparr>" "b' = (b \<or> non_debug ins)"
proof (cases "cstate (cores m ! i) = RUNNING \<and> \<not> int (length (program m)) \<le> pc (cores m ! i)")
  case True
  let ?c = "cores m ! i"
  from True assms have "rbind (py_get (program m) (pc ?c)) (\<lambda>ins.
      rbind (step m ins (?c\<lparr>pc := pc ?c + 1\<rparr>)) (\<lambda>(c', mm).
        Inr (m\<lparr>cores := (cores m)[i := c'], mem := mm\<rparr>, b \<or> non_debug ins))) = Inr (m', b')"
    by (simp add: run_core_def Let_def)
  then obtain ins cm where ins: "py_get (program m) (pc ?c) = Inr ins"
    and cm: "step m ins (?c\<lparr>pc := pc ?c + 1\<rparr>) = Inr cm"
    and eq: "(case cm of (c', mm) \<Rightarrow>
      Inr (m\<lparr>cores := (cores m)[i := c'], mem := mm\<rparr>, b \<or> non_debug ins)) =
        (Inr (m', b') :: (machine \<times> bool) res)"
    by (elim rbind_InrE) (rule that)
  obtain c' mm where "cm = (c', mm)" by (cases cm)
  with eq cm have "step m ins (?c\<lparr>pc := pc ?c + 1\<rparr>) = Inr (c', mm)"
    "m' = m\<lparr>cores := (cores m)[i := c'], mem := mm\<rparr>" "b' = (b \<or> non_debug ins)"
    by simp_all
  with True ins show thesis by (intro stepped) simp_all
next
  case False
  show thesis
  proof (cases "cstate (cores m ! i) = RUNNING")
    case True
    with False assms show thesis
      by (intro ended) (simp_all add: run_core_def Let_def)
  next
    case not_running: False
    with assms show thesis
      by (intro idle) (simp_all add: run_core_def Let_def)
  qed
qed

lemma run_core_ok:
  assumes "run_core (m, b) i = Inr (m', b')" and "machine_ok n k m" and "i < length (cores m)"
  shows "machine_ok n k m' \<and> length (cores m') = length (cores m)"
  using assms(1)
proof (cases rule: run_core_cases)
  case ended
  let ?c = "(cores m ! i)\<lparr>cstate := STOPPED\<rparr>"
  have "machine_ok n k (m\<lparr>cores := (cores m)[i := ?c], mem := mem m\<rparr>)"
    by (rule machine_ok_update) (use assms(2) machine_ok_core [OF assms(2,3)] in \<open>auto simp: machine_ok_def\<close>)
  with ended show ?thesis by simp
next
  case (stepped ins c' mm)
  note ok = assms(2) machine_ok_core [OF assms(2,3)] step_lengths [OF stepped(3)] step_words [OF stepped(3)]
  have "machine_ok n k (m\<lparr>cores := (cores m)[i := c'], mem := mm\<rparr>)"
    by (rule machine_ok_update) (use ok in \<open>simp_all add: machine_ok_def\<close>)
  with stepped show ?thesis by simp
qed (use assms in simp)

lemma run_round_ok:
  assumes "run_round m = Inr m'" and "machine_ok n k m"
  shows "machine_ok n k m' \<and> length (cores m') = length (cores m)"
proof -
  from assms(1) obtain m1 b where r: "foldM run_core [0..<length (cores m)] (m, False) = Inr (m1, b)"
    and m': "m' = (if b then m1\<lparr>cycle := cycle m1 + 1\<rparr> else m1)"
    by (auto simp: run_round_def res_elims)
  let ?P = "\<lambda>mb. machine_ok n k (fst mb) \<and> length (cores (fst mb)) = length (cores m)"
  from r have "?P (m1, b)"
    by (rule foldM_invariant) (use assms(2) in \<open>auto dest: run_core_ok\<close>)
  with m' show ?thesis by (auto simp: machine_ok_def)
qed

lemma run_while_ok:
  assumes "run_while m = Some (Inr m')" and "machine_ok n k m"
  shows "machine_ok n k m' \<and> \<not> any_running m'"
proof -
  have "machine_ok n k m \<longrightarrow> (\<forall>m'. r = Inr m' \<longrightarrow> machine_ok n k m' \<and> \<not> any_running m')"
    if "run_while m = Some r" for m r
  proof (rule run_while.raw_induct [OF _ that], intro impI allI)
    fix f m r m'
    assume IH: "\<And>m r. f m = Some r \<Longrightarrow>
        machine_ok n k m \<longrightarrow> (\<forall>m'. r = Inr m' \<longrightarrow> machine_ok n k m' \<and> \<not> any_running m')"
      and eq: "(if any_running m then case run_round m of Inl e \<Rightarrow> Some (Inl e) | Inr m' \<Rightarrow> f m'
         else Some (Inr m)) = Some r"
      and ok: "machine_ok n k m" and r: "r = Inr m'"
    show "machine_ok n k m' \<and> \<not> any_running m'"
      using eq ok r by (auto split: if_splits sum.splits dest: run_round_ok IH)
  qed
  with assms show ?thesis by blast
qed

lemma run_ok:
  assumes "run m = Some (Inr m')" and "machine_ok n k m"
  shows "machine_ok n k m' \<and> \<not> any_running m'"
proof -
  have "machine_ok n k (m\<lparr>cores := map resume (cores m)\<rparr>)"
    using assms(2) by (auto simp: machine_ok_def resume_def)
  with assms(1) show ?thesis unfolding run_def by (rule run_while_ok)
qed

section \<open>Programs without control flow\<close>

lemma step_data_frame:
  assumes "is_data_instr ins" and "step m ins c = Inr (c', mm)"
  shows "c' = c\<lparr>scratch := scratch c'\<rparr>"
  using assms(2) unfolding step_data [OF assms(1)] by (auto simp: rbind_Inr_iff)

text \<open>One cycle only looks at the memory, the switches and the value trace of the machine.\<close>

lemma step_cong:
  assumes "mem m = mem m'" "enable_pause m = enable_pause m'" "enable_debug m = enable_debug m'"
    "value_trace m = value_trace m'"
  shows "step m = step m'"
proof -
  have "exec_slot m = exec_slot m'"
    by (intro ext) (simp add: exec_slot_def assms split: engine.splits)
  moreover have "exec_debug m = exec_debug m'"
    by (intro ext) (simp add: exec_debug_def assms split: debug_slot.splits)
  ultimately have "exec_group m = exec_group m'"
    by (intro ext) (simp add: exec_group_def assms split: group.splits)
  then show ?thesis by (intro ext) (simp add: step_def assms)
qed

definition run_straight :: "machine \<Rightarrow> instr list \<Rightarrow> core \<times> int list \<Rightarrow> (core \<times> int list) res" where
  "run_straight m =
     foldM (\<lambda>(c, mm) ins. step (m\<lparr>mem := mm\<rparr>) ins (c\<lparr>pc := pc c + 1\<rparr>))"

lemma run_straight_cong:
  assumes "enable_pause m = enable_pause m'" "enable_debug m = enable_debug m'"
    "value_trace m = value_trace m'"
  shows "run_straight m = run_straight m'"
proof -
  have "step (m\<lparr>mem := mm\<rparr>) = step (m'\<lparr>mem := mm\<rparr>)" for mm
    by (rule step_cong) (simp_all add: assms)
  then show ?thesis by (simp add: run_straight_def)
qed

definition executed :: "instr list \<Rightarrow> nat" where
  "executed inss = length (filter non_debug inss)"

definition stopped :: "machine \<Rightarrow> int \<Rightarrow> core \<times> int list \<Rightarrow> machine" where
  "stopped m n cm = m\<lparr>cores := [(fst cm)\<lparr>cstate := STOPPED\<rparr>], mem := snd cm, cycle := cycle m + n\<rparr>"

lemma run_round_single:
  assumes "cores m = [c]" "cstate c = RUNNING" "pc c = int p" "p < length (program m)"
  shows "run_round m = rbind (step m (program m ! p) (c\<lparr>pc := pc c + 1\<rparr>)) (\<lambda>(c', mm).
    Inr (m\<lparr>cores := [c'], mem := mm,
      cycle := cycle m + (if non_debug (program m ! p) then 1 else 0)\<rparr>))"
  using assms by (cases "step m (program m ! p) (c\<lparr>pc := pc c + 1\<rparr>)")
    (auto simp: run_round_def run_core_def py_simps)

lemma run_round_at_end:
  assumes "cores m = [c]" "cstate c = RUNNING" "pc c = int (length (program m))"
  shows "run_round m = Inr (m\<lparr>cores := [c\<lparr>cstate := STOPPED\<rparr>]\<rparr>)"
  using assms by (simp add: run_round_def run_core_def)

lemma run_while_unfold:
  "\<not> any_running m \<Longrightarrow> run_while m = Some (Inr m)"
  "any_running m \<Longrightarrow> run_round m = Inl e \<Longrightarrow> run_while m = Some (Inl e)"
  "any_running m \<Longrightarrow> run_round m = Inr m' \<Longrightarrow> run_while m = run_while m'"
  by (subst run_while.simps, simp)+

lemma run_while_straight:
  assumes "cores m = [c]" "cstate c = RUNNING" "pc c = int p" "p \<le> length (program m)"
    and "list_all is_data_instr (drop p (program m))"
  shows "run_while m = Some (rbind (run_straight m (drop p (program m)) (c, mem m))
    (\<lambda>cm. Inr (stopped m (int (executed (drop p (program m)))) cm)))"
  using assms
proof (induction "length (program m) - p" arbitrary: m c p)
  case 0
  then have "p = length (program m)" by simp
  with 0 have "run_round m = Inr (m\<lparr>cores := [c\<lparr>cstate := STOPPED\<rparr>]\<rparr>)"
    by (intro run_round_at_end) simp_all
  with 0 have "run_while m = Some (Inr (m\<lparr>cores := [c\<lparr>cstate := STOPPED\<rparr>]\<rparr>))"
    by (simp add: run_while_unfold any_running_def)
  with \<open>p = length (program m)\<close> show ?case
    by (simp add: run_straight_def executed_def stopped_def)
next
  case (Suc n)
  let ?ins = "program m ! p"
  from Suc have p: "p < length (program m)" by simp
  then have drop: "drop p (program m) = ?ins # drop (Suc p) (program m)"
    by (simp add: Cons_nth_drop_Suc)
  note round = run_round_single [OF Suc.prems(1-3) p]
  have same: "step (m\<lparr>mem := mem m\<rparr>) = step m" by (rule step_cong) simp_all
  have run: "any_running m" using Suc.prems by (simp add: any_running_def)
  show ?case
  proof (cases "step m ?ins (c\<lparr>pc := pc c + 1\<rparr>)")
    case (Inl e)
    with round run drop same show ?thesis
      by (simp add: run_while_unfold(2) run_straight_def)
  next
    case (Inr cm)
    obtain c' mm where cm: "cm = (c', mm)" by (cases cm)
    let ?m = "m\<lparr>cores := [c'], mem := mm, cycle := cycle m + (if non_debug ?ins then 1 else 0)\<rparr>"
    from Suc.prems(5) drop have data: "is_data_instr ?ins" by simp
    from step_data_frame [OF data] Inr cm have c': "c' = c\<lparr>pc := pc c + 1, scratch := scratch c'\<rparr>"
      by fastforce
    then have "cstate c' = cstate c" "pc c' = pc c + 1"
      by (metis core.select_convs core.surjective core.update_convs)+
    with Suc p drop have IH: "run_while ?m = Some (rbind (run_straight ?m (drop (Suc p) (program m)) (c', mm))
        (\<lambda>cm. Inr (stopped ?m (int (executed (drop (Suc p) (program m)))) cm)))"
      by (subst Suc.hyps(1) [of ?m "Suc p" c']) simp_all
    have cong: "run_straight ?m = run_straight m" by (rule run_straight_cong) simp_all
    from Inr cm round run have "run_while m = run_while ?m"
      by (intro run_while_unfold(3)) simp_all
    also note IH
    finally show ?thesis
      using Inr cm drop same unfolding cong
      by (simp add: run_straight_def executed_def stopped_def add.assoc)
  qed
qed

text \<open>A jump to itself never ends.\<close>

definition spinning :: "machine \<Rightarrow> bool" where
  "spinning m \<longleftrightarrow> (\<exists>c. cores m = [c] \<and> cstate c = RUNNING \<and> pc c = 0) \<and>
     program m = [[Group FLOW [(''jump'', [0])]]]"

lemma spinning_round: "spinning m \<Longrightarrow> \<exists>m'. run_round m = Inr m' \<and> spinning m'"
  by (auto simp: spinning_def run_round_def run_core_def py_simps step_def exec_group_def
      exec_slot_def flow_def check_def non_debug_def)

lemma spinning_never_returns: "spinning m \<Longrightarrow> run_while m = None"
proof -
  have "\<not> spinning m" if "run_while m = Some r" for m r
  proof (rule run_while.raw_induct [where P = "\<lambda>m r. \<not> spinning m", OF _ that])
    fix f m r
    assume IH: "\<And>m r. f m = Some r \<Longrightarrow> \<not> spinning m"
      and eq: "(if any_running m then case run_round m of Inl e \<Rightarrow> Some (Inl e) | Inr m' \<Rightarrow> f m'
         else Some (Inr m)) = Some r"
    show "\<not> spinning m"
    proof
      assume sp: "spinning m"
      then have "any_running m" by (auto simp: spinning_def any_running_def)
      with eq spinning_round [OF sp] IH show False by auto
    qed
  qed
  then show "spinning m \<Longrightarrow> run_while m = None" by (cases "run_while m") auto
qed

end
