(* ===== verification/Slot_Footprint.thy ===== *)
theory Slot_Footprint
  imports Reorder Machine_Props
begin

text \<open>
  The machine's data slots as an instance of the interface \<open>footprint\<close>: a slot reads the scratch
  words its operands name and, for loads, the memory words the scratch space points to; it writes
  what \<open>slot_puts\<close> says. The simulator's cycle on a bundle of data slots is the bundle semantics of
  \<open>Reorder\<close>, so a bundling that keeps conflicting slots in order computes, on the machine, what the
  slots compute one by one.
\<close>

section \<open>What a slot looks at\<close>

definition scratch_reads :: "engine \<Rightarrow> slot \<Rightarrow> int list" where
  "scratch_reads e s =
     (case (e, snd s) of
        (ALU, [d, a, b]) \<Rightarrow> [a, b]
      | (VALU, [d, a]) \<Rightarrow> [a]
      | (VALU, [d, a, b]) \<Rightarrow> map ((+) a) lanes @ map ((+) b) lanes
      | (VALU, [d, a, b, c]) \<Rightarrow> map ((+) a) lanes @ map ((+) b) lanes @ map ((+) c) lanes
      | (LOAD, [d, a]) \<Rightarrow> if fst s = ''const'' then [] else [a]
      | (LOAD, [d, a, off]) \<Rightarrow> [a + off]
      | (STORE, [a, src]) \<Rightarrow> if fst s = ''vstore'' then a # map ((+) src) lanes else [a, src]
      | (FLOW, [d, a, imm]) \<Rightarrow> [a]
      | (FLOW, [d, c, a, b]) \<Rightarrow>
          if fst s = ''vselect'' then map ((+) c) lanes @ map ((+) a) lanes @ map ((+) b) lanes
          else [c, a, b]
      | _ \<Rightarrow> [])"

definition mem_reads :: "int list \<Rightarrow> engine \<Rightarrow> slot \<Rightarrow> int list" where
  "mem_reads sc e s =
     (case (e, snd s) of
        (LOAD, [d, a]) \<Rightarrow>
          if fst s = ''const'' then []
          else (case py_get sc a of Inl _ \<Rightarrow> []
                | Inr ad \<Rightarrow> if fst s = ''vload'' then map ((+) ad) lanes else [ad])
      | (LOAD, [d, a, off]) \<Rightarrow> (case py_get sc (a + off) of Inl _ \<Rightarrow> [] | Inr ad \<Rightarrow> [ad])
      | _ \<Rightarrow> [])"

lemma mapM_same: "(\<And>x. x \<in> set xs \<Longrightarrow> f x = g x) \<Longrightarrow> mapM f xs = mapM g xs"
  by (induction xs) simp_all

lemma put_same:
  "py_get sc a = py_get tc a \<Longrightarrow> copy_put sc d a = copy_put tc d a"
  "py_get sc a = py_get tc a \<Longrightarrow> py_get sc b = py_get tc b \<Longrightarrow> alu_put sc op d a b = alu_put tc op d a b"
  "py_get sc a = py_get tc a \<Longrightarrow> py_get sc b = py_get tc b \<Longrightarrow> py_get sc c = py_get tc c \<Longrightarrow>
     mul_add_put sc d a b c = mul_add_put tc d a b c"
  "py_get sc a = py_get tc a \<Longrightarrow> py_get sc b = py_get tc b \<Longrightarrow> py_get sc c = py_get tc c \<Longrightarrow>
     sel_put sc d c a b = sel_put tc d c a b"
  by (simp_all add: puts_defs sel_val_def cong: if_cong)

lemma args_cases:
  obtains "args = []" | a where "args = [a]" | a b where "args = [a, b]"
    | a b c where "args = [a, b, c]" | a b c d where "args = [a, b, c, d]"
    | a b c d f rest where "args = a # b # c # d # f # rest"
  by (metis list.exhaust)

lemma mem_reads_local:
  assumes "\<forall>a \<in> set (scratch_reads e s). py_get sc a = py_get tc a"
  shows "mem_reads sc e s = mem_reads tc e s"
  using assms by (cases s) (auto simp: mem_reads_def scratch_reads_def split: engine.splits list.splits if_splits)

lemma slot_puts_local:
  assumes sc: "\<forall>a \<in> set (scratch_reads e s). py_get sc a = py_get tc a"
    and mm: "\<forall>a \<in> set (mem_reads sc e s). py_get mm a = py_get nn a"
  shows "slot_puts sc mm e s = slot_puts tc nn e s"
proof -
  obtain op args where s: "s = (op, args)" by (cases s)
  note defs = slot_puts_def scratch_reads_def mem_reads_def s
  show ?thesis
  proof (cases args rule: args_cases)
    case (3 d a)
    show ?thesis
    proof (cases e)
      case LOAD
      with sc mm 3 show ?thesis
        by (cases "py_get tc a") (auto simp: defs intro!: mapM_same put_same simp del: mapM.simps split: if_splits)
    next
      case STORE
      with sc mm 3 show ?thesis
        by (cases "py_get tc d") (auto simp: defs intro!: mapM_same put_same simp del: mapM.simps split: if_splits)
    qed (use sc mm 3 in \<open>auto simp: defs intro!: mapM_same put_same simp del: mapM.simps\<close>)
  next
    case (4 d a b)
    show ?thesis
    proof (cases e)
      case LOAD
      with sc mm 4 show ?thesis
        by (cases "py_get tc (a + b)") (auto simp: defs intro!: mapM_same put_same simp del: mapM.simps split: if_splits)
    qed (use sc mm 4 in \<open>auto simp: defs intro!: mapM_same put_same simp del: mapM.simps\<close>)
  next
    case (5 d a b c)
    show ?thesis
      by (cases e) (use sc mm 5 in \<open>auto simp: defs intro!: mapM_same put_same simp del: mapM.simps split: if_splits\<close>)
  qed (cases e; simp add: defs)+
qed

section \<open>Locations and effects\<close>

datatype loc = SLoc nat | MLoc nat

text \<open>A numbered slot; the number tells equal slots of a program apart.\<close>

type_synonym nslot = "nat \<times> engine \<times> slot"

definition positions :: "nat \<Rightarrow> int list \<Rightarrow> nat set" where
  "positions n as = {j. \<exists>a \<in> set as. py_index n a = Some j}"

definition scratch_of :: "nat \<Rightarrow> (loc, int) store \<Rightarrow> int list" where
  "scratch_of n s = map (\<lambda>i. s (SLoc i)) [0..<n]"

definition mem_of :: "nat \<Rightarrow> (loc, int) store \<Rightarrow> int list" where
  "mem_of k s = map (\<lambda>i. s (MLoc i)) [0..<k]"

definition store_of :: "int list \<Rightarrow> int list \<Rightarrow> (loc, int) store" where
  "store_of sc mm l = (case l of SLoc i \<Rightarrow> sc ! i | MLoc i \<Rightarrow> mm ! i)"

definition slot_rd :: "nat \<Rightarrow> nat \<Rightarrow> nslot \<Rightarrow> (loc, int) store \<Rightarrow> loc set" where
  "slot_rd n k i s = (case i of (_, e, sl) \<Rightarrow>
     SLoc ` positions n (scratch_reads e sl) \<union> MLoc ` positions k (mem_reads (scratch_of n s) e sl))"

text \<open>Writes outside the scratch space or the memory have no effect that is defined.\<close>

definition put_loc :: "engine \<Rightarrow> int \<times> int \<Rightarrow> loc \<times> int" where
  "put_loc e p = ((if e = STORE then MLoc else SLoc) (nat (fst p)), snd p)"

definition in_bounds :: "nat \<Rightarrow> nat \<Rightarrow> engine \<Rightarrow> int \<times> int \<Rightarrow> bool" where
  "in_bounds n k e p \<longleftrightarrow> 0 \<le> fst p \<and> fst p < int (if e = STORE then k else n)"

definition slot_ef :: "nat \<Rightarrow> nat \<Rightarrow> (nslot, loc, int) effect" where
  "slot_ef n k i s = (case i of (_, e, sl) \<Rightarrow>
     (case slot_puts (scratch_of n s) (mem_of k s) e sl of
        Inl _ \<Rightarrow> None
      | Inr ps \<Rightarrow> if list_all (in_bounds n k e) ps then Some (map_of (rev (map (put_loc e) ps))) else None))"

lemma slot_ef_eq:
  "slot_ef n k (j, e, sl) s =
     (case slot_puts (scratch_of n s) (mem_of k s) e sl of
        Inl _ \<Rightarrow> None
      | Inr ps \<Rightarrow> if list_all (in_bounds n k e) ps then Some (map_of (rev (map (put_loc e) ps))) else None)"
  by (simp add: slot_ef_def)

lemma length_of [simp]: "length (scratch_of n s) = n" "length (mem_of k s) = k"
  by (simp_all add: scratch_of_def mem_of_def)

lemma store_of_inverse [simp]:
  "scratch_of (length sc) (store_of sc mm) = sc" "mem_of (length mm) (store_of sc mm) = mm"
  by (auto simp: scratch_of_def mem_of_def store_of_def intro: nth_equalityI)

lemma nth_of [simp]: "j < n \<Longrightarrow> scratch_of n s ! j = s (SLoc j)" "j < k \<Longrightarrow> mem_of k s ! j = s (MLoc j)"
  by (simp_all add: scratch_of_def mem_of_def)

lemma get_agree:
  "(\<And>j. j \<in> positions n as \<Longrightarrow> s (SLoc j) = t (SLoc j)) \<Longrightarrow> a \<in> set as \<Longrightarrow>
     py_get (scratch_of n s) a = py_get (scratch_of n t) a"
  "(\<And>j. j \<in> positions k as \<Longrightarrow> s (MLoc j) = t (MLoc j)) \<Longrightarrow> a \<in> set as \<Longrightarrow>
     py_get (mem_of k s) a = py_get (mem_of k t) a"
proof -
  show "py_get (scratch_of n s) a = py_get (scratch_of n t) a"
    if same: "\<And>j. j \<in> positions n as \<Longrightarrow> s (SLoc j) = t (SLoc j)" and a: "a \<in> set as"
  proof (cases "py_index n a")
    case (Some j)
    with a same [of j] py_index_Some_less [OF Some] show ?thesis by (auto simp: py_get_def positions_def)
  qed (simp add: py_get_def)
  show "py_get (mem_of k s) a = py_get (mem_of k t) a"
    if same: "\<And>j. j \<in> positions k as \<Longrightarrow> s (MLoc j) = t (MLoc j)" and a: "a \<in> set as"
  proof (cases "py_index k a")
    case (Some j)
    with a same [of j] py_index_Some_less [OF Some] show ?thesis by (auto simp: py_get_def positions_def)
  qed (simp add: py_get_def)
qed

lemma slot_local:
  assumes "\<And>l. l \<in> slot_rd n k (j, e, sl) s \<Longrightarrow> s l = t l"
  shows "mem_reads (scratch_of n s) e sl = mem_reads (scratch_of n t) e sl"
    and "slot_puts (scratch_of n s) (mem_of k s) e sl = slot_puts (scratch_of n t) (mem_of k t) e sl"
proof -
  have sc: "\<forall>a \<in> set (scratch_reads e sl). py_get (scratch_of n s) a = py_get (scratch_of n t) a"
    using assms by (intro ballI get_agree(1)) (auto simp: slot_rd_def)
  then show "mem_reads (scratch_of n s) e sl = mem_reads (scratch_of n t) e sl" by (rule mem_reads_local)
  have "\<forall>a \<in> set (mem_reads (scratch_of n s) e sl). py_get (mem_of k s) a = py_get (mem_of k t) a"
    using assms by (intro ballI get_agree(2)) (auto simp: slot_rd_def)
  with sc show "slot_puts (scratch_of n s) (mem_of k s) e sl = slot_puts (scratch_of n t) (mem_of k t) e sl"
    by (rule slot_puts_local)
qed

interpretation slots: footprint "slot_rd n k" "slot_ef n k"
proof (unfold_locales, goal_cases)
  case (1 i s t)
  obtain j e sl where i: "i = (j, e, sl)" by (cases i)
  from slot_local(1) [of n k j e sl s t] 1 show ?case by (simp add: i slot_rd_def)
next
  case (2 i s t)
  obtain j e sl where i: "i = (j, e, sl)" by (cases i)
  from slot_local(2) [of n k j e sl s t] 2 show ?case by (simp add: i slot_ef_def)
qed

section \<open>Bundles on the machine\<close>

definition group_slots :: "group \<Rightarrow> (engine \<times> slot) list" where
  "group_slots g = (case g of Group e ss \<Rightarrow> map (Pair e) ss | DebugGroup _ \<Rightarrow> [])"

definition instr_slots :: "instr \<Rightarrow> (engine \<times> slot) list" where
  "instr_slots ins = concat (map group_slots ins)"

text \<open>A bundle the machine accepts: data slots only, within the limits of the engines.\<close>

definition plain_group :: "group \<Rightarrow> bool" where
  "plain_group g = (case g of
     Group e ss \<Rightarrow> list_all (is_data_slot e) ss \<and> length ss \<le> SLOT_LIMITS e | DebugGroup _ \<Rightarrow> False)"

lemma plain_data: "list_all plain_group ins \<Longrightarrow> is_data_instr ins"
  by (induction ins) (auto simp: is_data_instr_def is_data_group_def plain_group_def split: group.splits)

text \<open>The writes of a list of slots, those to the scratch space and those to the memory.\<close>

definition split_puts :: "(engine \<times> (int \<times> int) list) list \<Rightarrow> writes \<times> writes" where
  "split_puts eps = (concat (map (\<lambda>(e, ps). if e = STORE then [] else ps) eps),
     concat (map (\<lambda>(e, ps). if e = STORE then ps else []) eps))"

lemma split_puts_append:
  "split_puts (xs @ ys) = (fst (split_puts xs) @ fst (split_puts ys), snd (split_puts xs) @ snd (split_puts ys))"
  by (simp add: split_puts_def)

definition slot_writes :: "int list \<Rightarrow> int list \<Rightarrow> engine \<times> slot \<Rightarrow> (engine \<times> (int \<times> int) list) res" where
  "slot_writes sc mm es = rbind (slot_puts sc mm (fst es) (snd es)) (\<lambda>ps. Inr (fst es, ps))"

lemma slot_writes_Inr: "slot_puts sc mm e s = Inr ps \<Longrightarrow> slot_writes sc mm (e, s) = Inr (e, ps)"
  by (simp add: slot_writes_def)

lemma group_slot_writes:
  "mapM (slot_writes sc mm) (map (Pair e) ss) = rbind (mapM (slot_puts sc mm e) ss) (\<lambda>pss. Inr (map (Pair e) pss))"
proof (induction ss)
  case (Cons s ss)
  then show ?case
    by (cases "slot_puts sc mm e s"; cases "mapM (slot_puts sc mm e) ss") (simp_all add: slot_writes_def)
qed simp

lemma split_puts_group:
  "split_puts (map (Pair e) pss) = (if e = STORE then ([], concat pss) else (concat pss, []))"
  by (induction pss) (auto simp: split_puts_def)

lemma bundle_puts_slots:
  assumes "list_all plain_group ins"
  shows "bundle_puts m c ins =
    rbind (mapM (slot_writes (scratch c) (mem m)) (instr_slots ins)) (\<lambda>eps. Inr (split_puts eps))"
  using assms
proof (induction ins)
  case Nil
  show ?case by (simp add: bundle_puts_def instr_slots_def split_puts_def)
next
  case (Cons g ins)
  then obtain e ss where g: "g = Group e ss" "length ss \<le> SLOT_LIMITS e"
    by (auto simp: plain_group_def split: group.splits)
  have slots: "instr_slots (g # ins) = map (Pair e) ss @ instr_slots ins"
    using g by (simp add: instr_slots_def group_slots_def)
  show ?case
    using Cons g unfolding slots
    by (cases "mapM (slot_puts (scratch c) (mem m) e) ss";
        cases "mapM (slot_writes (scratch c) (mem m)) (instr_slots ins)";
        cases "mapM (group_puts m c) ins")
      (auto simp: bundle_puts_def group_puts_def mapM_append group_slot_writes split_puts_append
        split_puts_group check_def prod_eq_iff)
qed

definition puts_bounds :: "nat \<Rightarrow> nat \<Rightarrow> (engine \<times> (int \<times> int) list) list \<Rightarrow> bool" where
  "puts_bounds n k eps \<longleftrightarrow> list_all (\<lambda>(e, ps). list_all (in_bounds n k e) ps) eps"

definition tagged :: "(engine \<times> (int \<times> int) list) list \<Rightarrow> (loc \<times> int) list" where
  "tagged eps = concat (map (\<lambda>(e, ps). map (put_loc e) ps) eps)"

lemma effects_slots:
  assumes "effects (slot_ef n k) b s = Some ws"
  shows "\<exists>eps. mapM (slot_writes (scratch_of n s) (mem_of k s)) (map snd b) = Inr eps \<and> puts_bounds n k eps \<and>
    foldl upd t ws = upd t (map_of (rev (tagged eps)))"
  using assms
proof (induction b arbitrary: ws t)
  case Nil
  then show ?case by (simp add: puts_bounds_def tagged_def upd_def)
next
  case (Cons i b)
  obtain j e sl where i: "i = (j, e, sl)" by (cases i)
  from Cons.prems obtain ps ws' where ps: "slot_puts (scratch_of n s) (mem_of k s) e sl = Inr ps"
    "list_all (in_bounds n k e) ps" and ws: "effects (slot_ef n k) b s = Some ws'"
    "ws = map_of (rev (map (put_loc e) ps)) # ws'"
    by (auto simp: i slot_ef_eq split: option.splits sum.splits if_splits)
  from Cons.IH [OF ws(1), of "upd t (map_of (rev (map (put_loc e) ps)))"] obtain eps where
    eps: "mapM (slot_writes (scratch_of n s) (mem_of k s)) (map snd b) = Inr eps" "puts_bounds n k eps"
      "foldl upd (upd t (map_of (rev (map (put_loc e) ps)))) ws' =
        upd (upd t (map_of (rev (map (put_loc e) ps)))) (map_of (rev (tagged eps)))" by blast
  have "upd (upd t (map_of (rev (map (put_loc e) ps)))) (map_of (rev (tagged eps))) =
      upd t (map_of (rev (tagged ((e, ps) # eps))))"
    by (auto simp: tagged_def upd_def fun_eq_iff map_add_def split: option.splits)
  with eps ps ws show ?case
    by (intro exI [of _ "(e, ps) # eps"]) (simp add: i slot_writes_Inr puts_bounds_def)
qed

lemma lookup_put_loc:
  assumes "list_all (in_bounds n k e) ps"
  shows "map_of (map (put_loc e) ps) (SLoc j) = (if e = STORE then None else map_of ps (int j))"
    and "map_of (map (put_loc e) ps) (MLoc j) = (if e = STORE then map_of ps (int j) else None)"
  using assms by (induction ps) (auto simp: put_loc_def in_bounds_def)

lemma lookup_tagged:
  assumes "puts_bounds n k eps"
  shows "map_of (rev (tagged eps)) (SLoc j) = map_of (rev (fst (split_puts eps))) (int j)"
    and "map_of (rev (tagged eps)) (MLoc j) = map_of (rev (snd (split_puts eps))) (int j)"
proof -
  have "map_of (rev (tagged eps)) (SLoc j) = map_of (rev (fst (split_puts eps))) (int j) \<and>
      map_of (rev (tagged eps)) (MLoc j) = map_of (rev (snd (split_puts eps))) (int j)"
    using assms
  proof (induction eps)
    case (Cons ep eps)
    obtain e ps where ep: "ep = (e, ps)" by (cases ep)
    with Cons have "list_all (in_bounds n k e) (rev ps)" by (simp add: puts_bounds_def list_all_iff)
    note look = lookup_put_loc [OF this, of j]
    have "tagged (ep # eps) = map (put_loc e) ps @ tagged eps" by (simp add: ep tagged_def)
    moreover have "split_puts (ep # eps) = ((if e = STORE then [] else ps) @ fst (split_puts eps),
        (if e = STORE then ps else []) @ snd (split_puts eps))" by (simp add: ep split_puts_def)
    moreover have "puts_bounds n k eps" using Cons.prems by (simp add: puts_bounds_def)
    ultimately show ?case using Cons.IH look by (cases "e = STORE") (auto simp: rev_map map_add_def split: option.splits)
  qed (simp add: tagged_def split_puts_def)
  then show "map_of (rev (tagged eps)) (SLoc j) = map_of (rev (fst (split_puts eps))) (int j)"
    "map_of (rev (tagged eps)) (MLoc j) = map_of (rev (snd (split_puts eps))) (int j)" by simp_all
qed

lemma commit_puts:
  assumes "\<forall>p \<in> set ps. 0 \<le> fst p \<and> fst p < int (length xs)"
  shows "commit (dict_puts ps []) xs =
    Inr (map (\<lambda>j. case map_of (rev ps) (int j) of None \<Rightarrow> xs ! j | Some v \<Rightarrow> v) [0..<length xs])"
proof -
  have "\<forall>a \<in> fst ` set (dict_puts ps []). 0 \<le> a \<and> a < int (length xs)"
    using assms map_of_dict_puts_dom [of ps "[]"] by (auto simp: dom_map_of_conv_image_fst)
  from commit_in_range [OF this distinct_dict_puts] obtain ys where "commit (dict_puts ps []) xs = Inr ys"
    "length ys = length xs" "\<forall>j < length xs. ys ! j = (case map_of (dict_puts ps []) (int j) of None \<Rightarrow> xs ! j | Some v \<Rightarrow> v)"
    by auto
  then show ?thesis by (simp add: map_of_dict_puts) (rule nth_equalityI, simp_all cong: option.case_cong)
qed

lemma split_puts_bounds:
  assumes "puts_bounds n k eps"
  shows "\<forall>p \<in> set (fst (split_puts eps)). 0 \<le> fst p \<and> fst p < int n"
    and "\<forall>p \<in> set (snd (split_puts eps)). 0 \<le> fst p \<and> fst p < int k"
  using assms
  by (fastforce simp: puts_bounds_def split_puts_def list_all_iff in_bounds_def split: if_splits)+

theorem run_bundle_step:
  assumes run: "run_bundle (slot_ef n k) b s = Some s'" and b: "map snd b = instr_slots ins"
    and plain: "list_all plain_group ins" and c: "scratch c = scratch_of n s" and m: "mem m = mem_of k s"
  shows "step m ins c = Inr (c\<lparr>scratch := scratch_of n s'\<rparr>, mem_of k s')"
proof -
  from run obtain ws where ws: "effects (slot_ef n k) b s = Some ws" and s': "s' = foldl upd s ws"
    by (auto simp: run_bundle_def split: option.splits)
  from effects_slots [OF ws, of s] obtain eps where
    eps: "mapM (slot_writes (scratch c) (mem m)) (instr_slots ins) = Inr eps" and bd: "puts_bounds n k eps"
    and s': "s' = upd s (map_of (rev (tagged eps)))" unfolding s' b c m by blast
  note look = lookup_tagged [OF bd]
  have "commit (dict_puts (fst (split_puts eps)) []) (scratch c) = Inr (scratch_of n s')"
    by (subst commit_puts)
      (use split_puts_bounds(1) [OF bd] in \<open>auto simp: c s' upd_def look scratch_of_def cong: option.case_cong\<close>)
  moreover have "commit (dict_puts (snd (split_puts eps)) []) (mem m) = Inr (mem_of k s')"
    by (subst commit_puts)
      (use split_puts_bounds(2) [OF bd] in \<open>auto simp: m s' upd_def look mem_of_def cong: option.case_cong\<close>)
  ultimately show ?thesis
    unfolding step_data [OF plain_data [OF plain]] bundle_puts_slots [OF plain] eps by (simp add: split_beta)
qed

text \<open>A sequence of bundles, on the machine and as stores.\<close>

lemma run_bundles_straight:
  assumes "run_bundles (slot_ef n k) bs s = Some s'" and "list_all2 (\<lambda>b ins. map snd b = instr_slots ins) bs inss"
    and "list_all (list_all plain_group) inss" and "scratch c = scratch_of n s"
  shows "run_straight m inss (c, mem_of k s) =
    Inr (c\<lparr>pc := pc c + int (length inss), scratch := scratch_of n s'\<rparr>, mem_of k s')"
  using assms
proof (induction bs arbitrary: inss s c)
  case Nil
  then show ?case by (simp add: run_straight_def)
next
  case (Cons b bs)
  from Cons.prems(2) obtain ins inss' where inss: "inss = ins # inss'" "map snd b = instr_slots ins"
    "list_all2 (\<lambda>b ins. map snd b = instr_slots ins) bs inss'" by (auto simp: list_all2_Cons1)
  from Cons.prems(1) obtain s1 where s1: "run_bundle (slot_ef n k) b s = Some s1"
    "run_bundles (slot_ef n k) bs s1 = Some s'" by (auto split: option.splits)
  from Cons.prems(3) have plain: "list_all plain_group ins" "list_all (list_all plain_group) inss'"
    by (simp_all add: inss)
  let ?c = "c\<lparr>pc := pc c + 1, scratch := scratch_of n s1\<rparr>"
  have "step (m\<lparr>mem := mem_of k s\<rparr>) ins (c\<lparr>pc := pc c + 1\<rparr>) = Inr (?c, mem_of k s1)"
    using run_bundle_step [OF s1(1) inss(2) plain(1), of "c\<lparr>pc := pc c + 1\<rparr>" "m\<lparr>mem := mem_of k s\<rparr>"] Cons.prems(4)
    by simp
  moreover have "run_straight m inss' (?c, mem_of k s1) = Inr (?c\<lparr>pc := pc ?c + int (length inss'),
      scratch := scratch_of n s'\<rparr>, mem_of k s')"
    by (rule Cons.IH [OF s1(2) inss(3) plain(2)]) simp
  ultimately show ?case by (simp add: run_straight_def inss add.assoc)
qed

text \<open>
  Scheduling on the machine: when the slots, run one by one, end in a state, every program whose
  bundles hold the same slots with each conflicting pair in order and in different bundles ends in
  the same scratch space and memory.
\<close>

lemma schedule_straight:
  assumes "run_seq (slot_ef n k) xs s = Some s'" and "distinct xs" and "mset (concat bs) = mset xs"
    and "\<forall>i j f g. before xs i j \<longrightarrow> foot_in (slot_rd n k) (slot_ef n k) xs s i = Some f \<longrightarrow>
      foot_in (slot_rd n k) (slot_ef n k) xs s j = Some g \<longrightarrow> \<not> indep f g \<longrightarrow> earlier_bundle bs i j"
    and "list_all2 (\<lambda>b ins. map snd b = instr_slots ins) bs inss" "list_all (list_all plain_group) inss"
    and "scratch c = scratch_of n s"
  shows "run_straight m inss (c, mem_of k s) =
    Inr (c\<lparr>pc := pc c + int (length inss), scratch := scratch_of n s'\<rparr>, mem_of k s')"
proof -
  have "run_bundles (slot_ef n k) bs s = Some s'"
    by (rule slots.schedule [OF assms(1-3)]) (use assms(4) in blast)
  then show ?thesis by (rule run_bundles_straight [OF _ assms(5-7)])
qed

end
