(* ===== verification/Data_Model.thy ===== *)
theory Data_Model
  imports Scratch
begin

text \<open>
  The compiler's intermediate instructions (\<open>data_model.py\<close>): operands that name a variable and an
  offset instead of an address, instructions over such operands, and the bookkeeping record of an
  instruction in the dependence graph. The operand classes share their four fields; what they
  override (\<open>range\<close>, \<open>addr_of\<close>, \<open>scalar_at_offset\<close>, the checks on construction) is written by
  constructor. Their semantics is the set of scratch addresses they stand for, and the lemmas
  relate it to the allocator's regions.
\<close>

section \<open>Inclusive ranges\<close>

record range =
  lo :: int
  hi :: int

definition is_empty :: "range \<Rightarrow> bool" where
  "is_empty r = (hi r < lo r)"

definition intersect :: "range \<Rightarrow> range \<Rightarrow> range" where
  "intersect r q = \<lparr>lo = max (lo r) (lo q), hi = min (hi r) (hi q)\<rparr>"

definition range_values :: "range \<Rightarrow> int list" where
  "range_values r = (if hi r \<ge> lo r then [lo r..hi r] else [])"

lemma set_range_values [simp]: "set (range_values r) = {lo r..hi r}"
  by (auto simp: range_values_def)

lemma is_empty_iff: "is_empty r \<longleftrightarrow> set (range_values r) = {}"
  by (auto simp: is_empty_def)

lemma range_values_intersect: "set (range_values (intersect r q)) = set (range_values r) \<inter> set (range_values q)"
  by (auto simp: intersect_def)

section \<open>Operands\<close>

definition SPECIAL_MEM_REGISTER_NAME :: string where
  "SPECIAL_MEM_REGISTER_NAME = ''__mem__''"

datatype logical_op =
    LR (op_name: string) (op_offset: int) (op_is_vector: bool) (op_is_read: bool)
  | ArrayOp (op_name: string) (op_offset: int) (op_is_vector: bool) (op_is_read: bool)

definition is_array_op :: "logical_op \<Rightarrow> bool" where
  "is_array_op p = (case p of ArrayOp _ _ _ _ \<Rightarrow> True | LR _ _ _ _ \<Rightarrow> False)"

text \<open>Construction of a register, with the checks of its \<open>__post_init__\<close>.\<close>

definition logical_register :: "string \<Rightarrow> int \<Rightarrow> bool \<Rightarrow> bool \<Rightarrow> logical_op res" where
  "logical_register name offset is_vector is_read =
     rbind (check AssertionError (offset \<ge> 0)) (\<lambda>_.
     rbind (check AssertionError (offset < int VLEN)) (\<lambda>_.
     rbind (check AssertionError (is_vector \<longrightarrow> offset = 0)) (\<lambda>_.
       Inr (LR name offset is_vector is_read))))"

definition array_op_of ::
  "scratch_space \<Rightarrow> string \<Rightarrow> int \<Rightarrow> bool \<Rightarrow> bool \<Rightarrow> logical_op res" where
  "array_op_of ss name offset is_vector is_read =
     rbind (var_meta_of ss name) (\<lambda>vm.
     rbind (check AssertionError (offset < int (vm_size vm))) (\<lambda>_.
     rbind (check AssertionError (is_vector \<longrightarrow> offset + int VLEN \<le> int (vm_size vm))) (\<lambda>_.
       Inr (ArrayOp name offset is_vector is_read))))"

definition is_mem :: "logical_op \<Rightarrow> bool" where
  "is_mem p = (case p of LR name _ _ _ \<Rightarrow> name = SPECIAL_MEM_REGISTER_NAME | ArrayOp _ _ _ _ \<Rightarrow> False)"

definition op_addr :: "scratch_space \<Rightarrow> int \<Rightarrow> logical_op \<Rightarrow> int res" where
  "op_addr ss slot_num p =
     (case p of
        LR name offset _ _ \<Rightarrow>
          rbind (check AssertionError (\<not> is_mem p)) (\<lambda>_.
          rbind (var_meta_of ss name) (\<lambda>vm.
          rbind (addr_of vm slot_num) (\<lambda>a. Inr (a + offset))))
      | ArrayOp name offset _ _ \<Rightarrow>
          rbind (var_meta_of ss name) (\<lambda>vm.
          rbind (addr_of vm 0) (\<lambda>a. Inr (a + offset))))"

definition op_range :: "scratch_space \<Rightarrow> int \<Rightarrow> logical_op \<Rightarrow> range res" where
  "op_range ss slot_num p =
     (if is_mem p then Inr \<lparr>lo = - 1, hi = - 1\<rparr>
      else case p of
        LR name offset is_vector _ \<Rightarrow>
          rbind (var_meta_of ss name) (\<lambda>vm.
          if is_vector then
            rbind (check AssertionError (vm_is_vector vm)) (\<lambda>_.
            rbind (addr_of vm slot_num) (\<lambda>a. Inr \<lparr>lo = a, hi = a + int VLEN - 1\<rparr>))
          else rbind (addr_of vm slot_num) (\<lambda>a. Inr \<lparr>lo = a + offset, hi = a + offset\<rparr>))
      | ArrayOp _ _ is_vector _ \<Rightarrow>
          rbind (op_addr ss slot_num p) (\<lambda>base.
            Inr \<lparr>lo = base, hi = base + (if is_vector then int VLEN else 1) - 1\<rparr>))"

definition scalar_at_offset :: "logical_op \<Rightarrow> int \<Rightarrow> logical_op res" where
  "scalar_at_offset p off =
     (case p of
        LR name _ _ is_read \<Rightarrow> logical_register name off False is_read
      | ArrayOp name offset _ is_read \<Rightarrow> Inr (ArrayOp name (offset + off) False is_read))"

text \<open>
  The constant tests are methods of registers only: on an array operand they are an
  \<open>AttributeError\<close> in the source.
\<close>

definition is_vector_constant :: "scratch_space \<Rightarrow> logical_op \<Rightarrow> bool res" where
  "is_vector_constant ss p =
     (if is_array_op p then Inl AttributeError
      else rbind (check AssertionError (\<not> is_mem p)) (\<lambda>_.
           rbind (var_meta_of ss (op_name p)) (\<lambda>vm. Inr (vm_is_constant vm \<and> op_is_vector p))))"

definition is_scalar_constant :: "scratch_space \<Rightarrow> logical_op \<Rightarrow> bool res" where
  "is_scalar_constant ss p =
     (if is_array_op p then Inl AttributeError
      else rbind (check AssertionError (\<not> is_mem p)) (\<lambda>_.
           rbind (var_meta_of ss (op_name p)) (\<lambda>vm. Inr (vm_is_constant vm \<and> \<not> op_is_vector p))))"

definition constant_value :: "scratch_space \<Rightarrow> logical_op \<Rightarrow> int res" where
  "constant_value ss p =
     (if is_array_op p then Inl AttributeError
      else rbind (check AssertionError (\<not> is_mem p)) (\<lambda>_.
           rbind (is_vector_constant ss p) (\<lambda>v.
           rbind (if v then Inr True else is_scalar_constant ss p) (\<lambda>c.
           rbind (check AssertionError c) (\<lambda>_.
           rbind (var_meta_of ss (op_name p)) (\<lambda>vm. Inr (vm_constant_value vm)))))))"

definition overlaps :: "scratch_space \<Rightarrow> int \<Rightarrow> logical_op \<Rightarrow> logical_op \<Rightarrow> bool res" where
  "overlaps ss slot_num p q =
     (if is_array_op p then Inl AttributeError
      else rbind (op_range ss slot_num p) (\<lambda>r. rbind (op_range ss slot_num q) (\<lambda>s.
             Inr (\<not> is_empty (intersect r s)))))"

section \<open>Instructions and their bookkeeping\<close>

datatype param = Op (the_op: logical_op) | Imm (the_imm: int)

record logical_instr =
  lin_engine :: engine
  lin_opcode :: string
  lin_params :: "param list"

definition INFINITE_SET :: "int set" where
  "INFINITE_SET = {- 1..<100}"

record imeta =
  instid :: int
  lin :: logical_instr
  tid :: int
  instid_in_thread :: int
  after :: "nat list"
  tidrange :: "int set"

text \<open>Construction of an \<open>InstrMeta\<close>, with the check of its \<open>__post_init__\<close>.\<close>

definition instr_meta ::
  "int \<Rightarrow> logical_instr \<Rightarrow> int \<Rightarrow> int \<Rightarrow> nat list \<Rightarrow> int set \<Rightarrow> imeta res" where
  "instr_meta i l t iit af tr =
     rbind (check AssertionError (t = - 2 \<or> t \<in> tr)) (\<lambda>_.
       Inr \<lparr>instid = i, lin = l, tid = t, instid_in_thread = iit, after = af, tidrange = tr\<rparr>)"

definition param_ops :: "param list \<Rightarrow> logical_op list" where
  "param_ops ps = concat (map (\<lambda>p. case p of Op q \<Rightarrow> [q] | Imm _ \<Rightarrow> []) ps)"

definition touches_memory :: "logical_instr \<Rightarrow> bool" where
  "touches_memory l = (lin_opcode l \<in> {''load'', ''load_offset'', ''vload'', ''vstore'', ''store''})"

definition lin_registers :: "logical_instr \<Rightarrow> logical_op list" where
  "lin_registers l =
     param_ops (lin_params l) @
     (if touches_memory l then [LR SPECIAL_MEM_REGISTER_NAME 0 False (lin_engine l = LOAD)] else [])"

definition registers :: "imeta \<Rightarrow> logical_op list" where
  "registers x = lin_registers (lin x)"

definition opcode :: "imeta \<Rightarrow> string" where
  "opcode x = lin_opcode (lin x)"

definition is_vector_imm_add :: "scratch_space \<Rightarrow> imeta \<Rightarrow> bool res" where
  "is_vector_imm_add ss x =
     (let l = lin x; regs = registers x in
      if lin_engine l \<noteq> VALU then Inr False
      else if lin_opcode l \<noteq> ''+'' then Inr False
      else if length regs \<noteq> 3 then Inr False
      else if list_ex (\<lambda>r. \<not> op_is_vector r) regs then Inr False
      else is_vector_constant ss (regs ! 2))"

definition is_scalar_imm_add :: "scratch_space \<Rightarrow> imeta \<Rightarrow> bool res" where
  "is_scalar_imm_add ss x =
     (let l = lin x; regs = registers x in
      if lin_engine l \<noteq> ALU then Inr False
      else if lin_opcode l \<noteq> ''+'' then Inr False
      else if length regs \<noteq> 3 then Inr False
      else if list_ex op_is_vector regs then Inr False
      else is_scalar_constant ss (regs ! 2))"

section \<open>The addresses an operand stands for\<close>

definition op_locs :: "scratch_space \<Rightarrow> int \<Rightarrow> logical_op \<Rightarrow> int set" where
  "op_locs ss slot_num p =
     (case op_range ss slot_num p of Inl _ \<Rightarrow> {} | Inr r \<Rightarrow> set (range_values r))"

lemma logical_register_iff:
  "logical_register name off v r = Inr p \<longleftrightarrow>
     0 \<le> off \<and> off < int VLEN \<and> (v \<longrightarrow> off = 0) \<and> p = LR name off v r"
  by (auto simp: logical_register_def res_elims)

lemma overlaps_iff:
  assumes "overlaps ss sl p q = Inr b"
  shows "b \<longleftrightarrow> op_locs ss sl p \<inter> op_locs ss sl q \<noteq> {}"
proof -
  from assms obtain r s where "op_range ss sl p = Inr r" "op_range ss sl q = Inr s"
    and "b = (\<not> is_empty (intersect r s))"
    by (auto simp: overlaps_def res_elims split: if_splits)
  then show ?thesis unfolding is_empty_iff range_values_intersect by (simp add: op_locs_def)
qed

text \<open>
  Splitting a vector operand into scalars: the lane registers together name the words of the
  vector, lane by lane, and different lanes name different words.
\<close>

definition lane :: "logical_op \<Rightarrow> nat \<Rightarrow> logical_op" where
  "lane p i =
     (case p of
        LR name _ _ is_read \<Rightarrow> LR name (int i) False is_read
      | ArrayOp name offset _ is_read \<Rightarrow> ArrayOp name (offset + int i) False is_read)"

lemma scalar_at_offset_lane: "i < VLEN \<Longrightarrow> scalar_at_offset p (int i) = Inr (lane p i)"
  by (cases p) (auto simp: scalar_at_offset_def lane_def logical_register_def check_def)

lemma lane_sel [simp]:
  "op_name (lane p i) = op_name p" "op_is_vector (lane p i) = False"
  "op_is_read (lane p i) = op_is_read p" "is_mem (lane p i) = is_mem p"
  "is_array_op (lane p i) = is_array_op p"
  by (cases p; simp add: lane_def is_mem_def is_array_op_def)+

text \<open>An operand that fits: its range stays inside the slot of the variable it names.\<close>

definition op_fits :: "scratch_space \<Rightarrow> int \<Rightarrow> logical_op \<Rightarrow> bool" where
  "op_fits ss sl p \<longleftrightarrow> (\<exists>vm a. var_meta_of ss (op_name p) = Inr vm \<and> \<not> is_mem p \<and> 0 \<le> op_offset p \<and>
     (case p of
        LR _ off v _ \<Rightarrow> addr_of vm sl = Inr a \<and>
          (if v then off = 0 \<and> vm_length vm = VLEN else off < int (vm_length vm))
      | ArrayOp _ off v _ \<Rightarrow> addr_of vm 0 = Inr a \<and>
          off + (if v then int VLEN else 1) \<le> int (vm_size vm)))"

lemma op_addr_locs:
  assumes "op_fits ss sl p" "\<And>n vm. metas ss n = Some vm \<Longrightarrow> vm_is_vector vm = (vm_length vm > 1)"
  shows "\<exists>a. op_addr ss sl p = Inr a \<and>
    op_range ss sl p = Inr \<lparr>lo = a, hi = a + (if op_is_vector p then int VLEN else 1) - 1\<rparr>"
proof -
  from assms(1) obtain vm a where v: "var_meta_of ss (op_name p) = Inr vm" "\<not> is_mem p"
    and p: "case p of LR _ off v _ \<Rightarrow> addr_of vm sl = Inr a \<and> (v \<longrightarrow> off = 0 \<and> vm_length vm = VLEN)
      | ArrayOp _ _ _ _ \<Rightarrow> addr_of vm 0 = Inr a"
    unfolding op_fits_def by (cases p; simp split: if_splits; blast)
  have "vm_is_vector vm" if "vm_length vm = VLEN"
    using v(1) assms(2) [of "op_name p" vm] that
    by (auto simp: var_meta_of_def dict_get_def metas_def VLEN_def split: option.splits)
  with v p show ?thesis
    by (cases p) (auto simp: op_addr_def op_range_def)
qed

end
