(* ===== verification/Min_Heap.thy ===== *)
theory Min_Heap
  imports Prelude "HOL-Library.Multiset"
begin

text \<open>
  The two containers of \<open>lib.py\<close>. \<open>InsertionOrderedSet\<close> is written here; \<open>MinHeap\<close> wraps the
  \<open>SortedSet\<close> of the package \<open>sortedcontainers\<close>, which is not part of the repository: its operations
  are a parameter \<open>heap_ops\<close>, a heap is represented by the sequence its iteration yields, and what
  the code relies on is the locale \<open>min_heap\<close>. Nothing is assumed of the order, and of an iteration
  that continues after the set was changed only that it yields current elements or raises (the
  package documents no more).
\<close>

section \<open>Insertion-ordered sets\<close>

record 'a ios =
  ios_s :: "'a set"
  ios_l :: "'a list"

definition ios_new :: "'a ios" where
  "ios_new = \<lparr>ios_s = {}, ios_l = []\<rparr>"

definition ios_add :: "'a \<Rightarrow> 'a ios \<Rightarrow> bool \<times> 'a ios" where
  "ios_add x s =
     (if x \<in> ios_s s then (False, s)
      else (True, \<lparr>ios_s = insert x (ios_s s), ios_l = ios_l s @ [x]\<rparr>))"

definition ios_initial :: "'a list \<Rightarrow> 'a ios" where
  "ios_initial xs = fold (\<lambda>x s. snd (ios_add x s)) xs ios_new"

definition ios_ok :: "'a ios \<Rightarrow> bool" where
  "ios_ok s \<longleftrightarrow> ios_s s = set (ios_l s) \<and> distinct (ios_l s)"

lemma ios_add_ok: "ios_ok s \<Longrightarrow> ios_ok (snd (ios_add x s))"
  by (auto simp: ios_ok_def ios_add_def)

lemma ios_initial_append: "ios_initial (xs @ [x]) = snd (ios_add x (ios_initial xs))"
  by (simp add: ios_initial_def)

lemma ios_initial_ok: "ios_ok (ios_initial xs) \<and> ios_l (ios_initial xs) = rev (remdups (rev xs))"
proof (induction xs rule: rev_induct)
  case Nil
  show ?case by (simp add: ios_initial_def ios_new_def ios_ok_def)
next
  case (snoc x xs)
  then have "ios_s (ios_initial xs) = set xs" by (simp add: ios_ok_def)
  with snoc show ?case
    by (simp add: ios_initial_append ios_add_ok) (simp add: ios_add_def)
qed

section \<open>Heaps\<close>

record 'a heap_ops =
  heap_add :: "'a \<Rightarrow> 'a list \<Rightarrow> 'a list"
  heap_remove :: "'a \<Rightarrow> 'a list \<Rightarrow> 'a list res"
  heap_rest :: "'a \<Rightarrow> 'a list \<Rightarrow> 'a list \<Rightarrow> 'a list res"

text \<open>
  \<open>heap_rest h x rest new\<close> is what an iteration that has just yielded \<open>x\<close> and had \<open>rest\<close> before
  it still yields when the content has become \<open>new\<close>.
\<close>

definition heap_extend :: "'a heap_ops \<Rightarrow> 'a list \<Rightarrow> 'a list \<Rightarrow> 'a list" where
  "heap_extend h xs s = fold (heap_add h) xs s"

definition heap_initial :: "'a heap_ops \<Rightarrow> 'a list \<Rightarrow> 'a list" where
  "heap_initial h xs = heap_extend h xs []"

definition heap_is_empty :: "'a list \<Rightarrow> bool" where
  "heap_is_empty s = (length s = 0)"

definition heap_first :: "'a list \<Rightarrow> 'a res" where
  "heap_first s = py_get s 0"

locale min_heap =
  fixes h :: "'a heap_ops"
  assumes add_set: "set (heap_add h x xs) = insert x (set xs)"
    and add_distinct: "distinct xs \<Longrightarrow> distinct (heap_add h x xs)"
    and remove_in: "distinct xs \<Longrightarrow> x \<in> set xs \<Longrightarrow>
      \<exists>ys. heap_remove h x xs = Inr ys \<and> distinct ys \<and> set ys = set xs - {x}"
    and remove_out: "x \<notin> set xs \<Longrightarrow> heap_remove h x xs = Inl KeyError"
    and rest_current: "heap_rest h x rest new = Inr ys \<Longrightarrow> set ys \<subseteq> set new"
begin

lemma extend_set: "set (heap_extend h xs s) = set xs \<union> set s"
  by (induction xs arbitrary: s) (auto simp: heap_extend_def add_set)

lemma extend_distinct: "distinct s \<Longrightarrow> distinct (heap_extend h xs s)"
  by (induction xs arbitrary: s) (auto simp: heap_extend_def add_distinct)

lemma initial_ok: "set (heap_initial h xs) = set xs" "distinct (heap_initial h xs)"
  by (simp_all add: heap_initial_def extend_set extend_distinct)

lemma add_length: "distinct xs \<Longrightarrow> x \<notin> set xs \<Longrightarrow> length (heap_add h x xs) = Suc (length xs)"
  by (metis add_distinct add_set card_insert_disjoint distinct_card finite_set)

lemma remove_InrD:
  assumes "heap_remove h x xs = (Inr ys :: 'a list res)" and "distinct xs"
  shows "x \<in> set xs" "distinct ys" "set ys = set xs - {x}"
proof -
  show x: "x \<in> set xs" using assms(1) remove_out [of x xs] by (cases "x \<in> set xs") auto
  show "distinct ys" "set ys = set xs - {x}" using remove_in [OF assms(2) x] assms(1) by auto
qed

lemma remove_mset:
  assumes "heap_remove h x xs = (Inr ys :: 'a list res)" and "distinct xs"
  shows "mset xs = add_mset x (mset ys)"
proof -
  note r = remove_InrD [OF assms]
  have "mset xs = mset_set (set xs)" using assms(2) by (simp add: mset_set_set)
  also have "\<dots> = add_mset x (mset_set (set ys))"
    unfolding r(3) using r(1) by (simp add: mset_set.remove)
  finally show ?thesis using r(2) by (simp add: mset_set_set)
qed

lemma mset_heap_add: "distinct xs \<Longrightarrow> x \<notin> set xs \<Longrightarrow> mset (heap_add h x xs) = add_mset x (mset xs)"
  by (metis add_distinct add_set finite_set mset_set.insert mset_set_set)

end

text \<open>A list kept in the order of a key satisfies the interface.\<close>

definition list_heap :: "('a \<Rightarrow> 'k :: linorder) \<Rightarrow> 'a heap_ops" where
  "list_heap key =
     \<lparr>heap_add = (\<lambda>x xs. if x \<in> set xs then xs else insort_key key x xs),
      heap_remove = (\<lambda>x xs. if x \<in> set xs then Inr (remove1 x xs) else Inl KeyError),
      heap_rest = (\<lambda>x rest new. Inr (filter (\<lambda>y. y \<in> set new) rest))\<rparr>"

interpretation list_heap: min_heap "list_heap key" for key :: "'a \<Rightarrow> 'k :: linorder"
proof
  show "set (heap_add (list_heap key) x xs) = insert x (set xs)" for x xs
    by (auto simp: list_heap_def set_insort_key)
  show "distinct xs \<Longrightarrow> distinct (heap_add (list_heap key) x xs)" for x xs
    by (auto simp: list_heap_def distinct_insort)
  show "distinct xs \<Longrightarrow> x \<in> set xs \<Longrightarrow>
      \<exists>ys. heap_remove (list_heap key) x xs = Inr ys \<and> distinct ys \<and> set ys = set xs - {x}" for x xs
    by (auto simp: list_heap_def set_remove1_eq)
  show "x \<notin> set xs \<Longrightarrow> heap_remove (list_heap key) x xs = Inl KeyError" for x xs
    by (simp add: list_heap_def)
  show "heap_rest (list_heap key) x rest new = Inr ys \<Longrightarrow> set ys \<subseteq> set new" for x rest new ys
    by (auto simp: list_heap_def)
qed

lemma list_heap_min_heap: "min_heap (list_heap (key :: 'a \<Rightarrow> 'k :: linorder))"
  by (rule list_heap.min_heap_axioms)

end
