(* ===== verification/Instr_Graph.thy ===== *)
theory Instr_Graph
  imports Data_Model Min_Heap
begin

text \<open>
  The dependence graph of a compiled program (\<open>InstrGraph\<close> in \<open>instr_graph_model.py\<close>): collecting
  instructions, the prologue that fills the \<open>tidxlen\<close> registers, replication of the thread
  instructions for every thread, and the two passes that link conflicting instructions. Edges are
  kept in \<open>after\<close>, the positions of the instructions an instruction unlocks. The lemmas show that
  the edges go forward, that each joins two instructions that touch a common word, and that every
  two conflicting instructions are joined by a path, so any order that respects the edges keeps the
  order of all conflicting scratch accesses.
\<close>

section \<open>Collecting instructions\<close>

record instr_graph =
  num_threads :: int
  graph_ss :: scratch_space
  graph_imetas :: "imeta list"
  num_global :: int
  globalimetas :: "imeta list"

definition new_graph :: "scratch_space \<Rightarrow> int \<Rightarrow> instr_graph" where
  "new_graph ss nthreads =
     \<lparr>num_threads = nthreads, graph_ss = ss, graph_imetas = [], num_global = 0, globalimetas = []\<rparr>"

definition SET_MINUS_ONE :: "int set" where
  "SET_MINUS_ONE = {- 1}"

definition graph_add ::
  "logical_instr \<Rightarrow> bool \<Rightarrow> int set option \<Rightarrow> instr_graph \<Rightarrow> instr_graph res" where
  "graph_add linst is_global tr g =
     (if is_global then
        rbind (check AssertionError (tr = None \<or> tr = Some {- 1})) (\<lambda>_.
        rbind (instr_meta (- 1) linst (- 1) (- 1) [] SET_MINUS_ONE) (\<lambda>x.
          Inr (g\<lparr>globalimetas := globalimetas g @ [x]\<rparr>)))
      else
        rbind (instr_meta (- 1) linst (- 2) (- 1) [] (case tr of None \<Rightarrow> INFINITE_SET | Some s \<Rightarrow> s)) (\<lambda>x.
          Inr (g\<lparr>graph_imetas := graph_imetas g @ [x]\<rparr>)))"

text \<open>A \<open>pause\<close> is dropped: threads are not synchronised.\<close>

definition add_pause :: "logical_instr \<Rightarrow> bool \<Rightarrow> instr_graph \<Rightarrow> instr_graph" where
  "add_pause pinst is_global g = g"

definition set_constant ::
  "int \<Rightarrow> int \<Rightarrow> scratch_space \<Rightarrow> (imeta list \<times> scratch_space) res" where
  "set_constant src_val req_val ss =
     rbind (alloc_const ss src_val True) (\<lambda>(_, ss').
     rbind (constant_name ss' src_val True) (\<lambda>cname.
     rbind (logical_register cname 0 False False) (\<lambda>w.
     rbind (instr_meta (- 1) \<lparr>lin_engine = LOAD, lin_opcode = ''const'', lin_params = [Op w, Imm req_val]\<rparr>
              (- 1) (- 1) [] INFINITE_SET) (\<lambda>x.
     rbind (logical_register cname 0 True False) (\<lambda>d.
     rbind (logical_register cname 0 False True) (\<lambda>s.
     rbind (instr_meta (- 1) \<lparr>lin_engine = VALU, lin_opcode = ''vbroadcast'', lin_params = [Op d, Op s]\<rparr>
              (- 1) (- 1) [] INFINITE_SET) (\<lambda>y.
       Inr ([x, y], ss'))))))))"

section \<open>The \<open>tidxlen\<close> prologue\<close>

definition tidxlen_const :: "int \<Rightarrow> imeta res" where
  "tidxlen_const i =
     rbind (logical_register ''tidxlen'' 0 False False) (\<lambda>r.
       instr_meta (- 1) \<lparr>lin_engine = LOAD, lin_opcode = ''const'', lin_params = [Op r, Imm (i * int VLEN)]\<rparr>
         i (- 1) [] INFINITE_SET)"

definition tid_array_op :: "scratch_space \<Rightarrow> int \<Rightarrow> bool \<Rightarrow> bool \<Rightarrow> logical_op res" where
  "tid_array_op ss offset is_vector is_read = array_op_of ss ''tidxlen'' offset is_vector is_read"

definition tid_block_const :: "scratch_space \<Rightarrow> int \<Rightarrow> imeta res" where
  "tid_block_const ss i =
     rbind (tid_array_op ss i False False) (\<lambda>r.
       instr_meta (- 1) \<lparr>lin_engine = LOAD, lin_opcode = ''const'', lin_params = [Op r, Imm (i * int VLEN)]\<rparr>
         (- 1) (- 1) [] INFINITE_SET)"

definition tid_block_add :: "scratch_space \<Rightarrow> int \<Rightarrow> imeta res" where
  "tid_block_add ss start =
     rbind (tid_array_op ss start True False) (\<lambda>d.
     rbind (tid_array_op ss (start - int VLEN) True True) (\<lambda>a.
     rbind (constant_name ss 2 True) (\<lambda>cname.
     rbind (logical_register cname 0 True True) (\<lambda>k.
       instr_meta (- 1) \<lparr>lin_engine = VALU, lin_opcode = ''+'', lin_params = [Op d, Op a, Op k]\<rparr>
         (- 1) (- 1) [] INFINITE_SET))))"

text \<open>
  The start offsets of the loop \<open>while npos < cthreads\<close>; the last block is moved back so that it ends
  at \<open>cthreads\<close>.
\<close>

definition block_start :: "int \<Rightarrow> int \<Rightarrow> int" where
  "block_start cthreads npos =
     (if npos + int VLEN - 1 < cthreads then npos else cthreads - int VLEN)"

function tid_blocks :: "int \<Rightarrow> int \<Rightarrow> int list" where
  "tid_blocks cthreads npos =
     (if npos < cthreads
      then block_start cthreads npos # tid_blocks cthreads (block_start cthreads npos + int VLEN)
      else [])"
  by auto
termination
  by (relation "measure (\<lambda>(c, n). nat (c - n))") (auto simp: block_start_def VLEN_def)

declare tid_blocks.simps [simp del]

definition get_tidmetas ::
  "instr_graph \<Rightarrow> int \<Rightarrow> (imeta list \<times> imeta list \<times> instr_graph) res" where
  "get_tidmetas g cthreads =
     (let nthreads = num_threads g; ss = graph_ss g in
      rbind (check AssertionError (cthreads \<le> nthreads)) (\<lambda>_.
      if \<not> has_variable ss ''tidxlen'' then Inr ([], [], g)
      else if cthreads \<le> 2 * int VLEN then
        rbind (mapM tidxlen_const [0..nthreads - 1]) (\<lambda>ret. Inr (ret, [], g))
      else
        rbind (set_constant 2 (int (VLEN * VLEN)) ss) (\<lambda>(pre, ss1).
        rbind (mapM (tid_block_const ss1) [0..int VLEN - 1]) (\<lambda>firsts.
        rbind (mapM (tid_block_add ss1) (tid_blocks cthreads (int VLEN))) (\<lambda>adds.
        rbind (set_constant 2 2 ss1) (\<lambda>(post, ss2).
        rbind (mapM tidxlen_const [cthreads..nthreads - 1]) (\<lambda>tidspecific.
          Inr (tidspecific, pre @ firsts @ adds @ post, g\<lparr>graph_ss := ss2\<rparr>))))))))"

section \<open>Replication and numbering\<close>

definition work_slot_of :: "int \<Rightarrow> int \<Rightarrow> int res" where
  "work_slot_of t conc_threads =
     rbind (check ZeroDivisionError (conc_threads \<noteq> 0)) (\<lambda>_. Inr (t mod conc_threads))"

definition for_thread :: "int \<Rightarrow> imeta \<Rightarrow> imeta res" where
  "for_thread i x =
     instr_meta (instid x) (lin x) i (instid_in_thread x) (after x) (tidrange x)"

definition thread_insts :: "imeta list \<Rightarrow> imeta list \<Rightarrow> int \<Rightarrow> imeta list res" where
  "thread_insts tidmetas ims i =
     rbind (mapM (for_thread i) (filter (\<lambda>x. i \<in> tidrange x) ims)) (\<lambda>own.
       Inr (map (\<lambda>(idx, x). x\<lparr>instid_in_thread := int idx\<rparr>)
              (enumerate 0 (filter (\<lambda>x. tid x = i) tidmetas @ own))))"

definition all_insts :: "instr_graph \<Rightarrow> int \<Rightarrow> (imeta list \<times> instr_graph) res" where
  "all_insts g conc_threads =
     rbind (get_tidmetas g conc_threads) (\<lambda>(tidmetas, moreglobal, g').
     rbind (mapM (thread_insts tidmetas (graph_imetas g')) [0..num_threads g' - 1]) (\<lambda>tss.
       Inr (moreglobal @ globalimetas g' @ concat tss, g')))"

definition number_insts :: "nat heap_ops \<Rightarrow> bool \<Rightarrow> imeta list \<Rightarrow> imeta list" where
  "number_insts hp optimize ims =
     map (\<lambda>(idx, x). x\<lparr>instid := int idx,
        after := (if \<not> optimize \<and> idx + 1 < length ims \<and> tid x \<ge> 0 \<and> tid x = tid (ims ! (idx + 1))
                  then heap_initial hp [idx + 1] else [])\<rparr>)
       (enumerate 0 ims)"

section \<open>Linking conflicts\<close>

definition add_edge :: "nat heap_ops \<Rightarrow> nat \<Rightarrow> nat \<Rightarrow> imeta list \<Rightarrow> imeta list" where
  "add_edge hp i j ims = ims[i := (ims ! i)\<lparr>after := heap_add hp j (after (ims ! i))\<rparr>]"

definition handle_conflict ::
  "nat heap_ops \<Rightarrow> nat \<Rightarrow> nat \<Rightarrow> nat \<Rightarrow> imeta list \<Rightarrow> imeta list" where
  "handle_conflict hp loop_count prev cur ims =
     (if loop_count = 1 then add_edge hp cur (length ims - 1 - prev) ims
      else add_edge hp prev cur ims)"

definition link_loc ::
  "nat heap_ops \<Rightarrow> nat \<Rightarrow> nat \<Rightarrow> int list \<Rightarrow> imeta list \<Rightarrow> int \<Rightarrow> imeta list res" where
  "link_loc hp loop_count idx last_write ims loc =
     rbind (py_get last_write loc) (\<lambda>w.
       Inr (if w \<ge> 0 then handle_conflict hp loop_count (nat w) idx ims else ims))"

definition link_register ::
  "nat heap_ops \<Rightarrow> scratch_space \<Rightarrow> int \<Rightarrow> nat \<Rightarrow> nat \<Rightarrow> int list \<Rightarrow> imeta list \<Rightarrow> logical_op \<Rightarrow>
     imeta list res" where
  "link_register hp ss sl loop_count idx last_write ims r =
     (if is_mem r then Inr ims
      else rbind (op_range ss sl r) (\<lambda>rg.
             foldM (link_loc hp loop_count idx last_write) (range_values rg) ims))"

definition mark_register ::
  "scratch_space \<Rightarrow> int \<Rightarrow> nat \<Rightarrow> int list \<Rightarrow> logical_op \<Rightarrow> int list res" where
  "mark_register ss sl idx last_write r =
     (if op_is_read r then Inr last_write
      else rbind (op_range ss sl r) (\<lambda>rg.
             foldM (\<lambda>lw loc. py_set lw loc (int idx)) (range_values rg) last_write))"

definition link_instr ::
  "nat heap_ops \<Rightarrow> scratch_space \<Rightarrow> int \<Rightarrow> nat \<Rightarrow> imeta list \<times> int list \<Rightarrow> nat \<Rightarrow>
     (imeta list \<times> int list) res" where
  "link_instr hp ss conc_threads loop_count st idx =
     (let ims = fst st; last_write = snd st; x = ims ! idx in
      rbind (work_slot_of (tid x) conc_threads) (\<lambda>sl.
      rbind (foldM (link_register hp ss sl loop_count idx last_write) (registers x) ims) (\<lambda>ims'.
      rbind (foldM (mark_register ss sl idx) (registers x) last_write) (\<lambda>last_write'.
        Inr (ims', last_write')))))"

definition link_pass ::
  "nat heap_ops \<Rightarrow> scratch_space \<Rightarrow> int \<Rightarrow> imeta list \<Rightarrow> nat \<Rightarrow> imeta list res" where
  "link_pass hp ss conc_threads ims loop_count =
     rbind (foldM (link_instr hp ss conc_threads loop_count) [0..<length ims]
              (ims, replicate (ss_size ss + 1) (- 1))) (\<lambda>(ims', _).
       Inr (rev ims'))"

definition linked_work :: "nat heap_ops \<Rightarrow> instr_graph \<Rightarrow> int \<Rightarrow> bool \<Rightarrow> (imeta list \<times> instr_graph) res" where
  "linked_work hp g conc_threads optimize =
     rbind (all_insts g conc_threads) (\<lambda>(ims, g').
     rbind (foldM (link_pass hp (graph_ss g') conc_threads) [0, 1] (number_insts hp optimize ims))
       (\<lambda>ims'. Inr (ims', g')))"

section \<open>What one pass adds\<close>

text \<open>The cells of \<open>last_write\<close> an instruction looks at, and those it marks.\<close>

definition op_cells :: "scratch_space \<Rightarrow> int \<Rightarrow> logical_op \<Rightarrow> nat set" where
  "op_cells ss sl r = {k. \<exists>loc \<in> op_locs ss sl r. py_index (ss_size ss + 1) loc = Some k}"

definition looked_at :: "scratch_space \<Rightarrow> int \<Rightarrow> imeta \<Rightarrow> nat set" where
  "looked_at ss c x = (\<Union>r \<in> {r \<in> set (registers x). \<not> is_mem r}. op_cells ss (tid x mod c) r)"

definition marked :: "scratch_space \<Rightarrow> int \<Rightarrow> imeta \<Rightarrow> nat set" where
  "marked ss c x = (\<Union>r \<in> {r \<in> set (registers x). \<not> op_is_read r}. op_cells ss (tid x mod c) r)"

definition grown :: "imeta list \<Rightarrow> (nat \<times> nat) set \<Rightarrow> imeta list \<Rightarrow> bool" where
  "grown ims N ims' \<longleftrightarrow> length ims' = length ims \<and>
     (\<forall>i < length ims. \<exists>a. ims' ! i = (ims ! i)\<lparr>after := a\<rparr> \<and>
        set a = set (after (ims ! i)) \<union> {j. (i, j) \<in> N} \<and>
        (distinct (after (ims ! i)) \<longrightarrow> distinct a))"

lemma grown_refl: "grown ims {} ims"
  unfolding grown_def
proof (intro conjI allI impI)
  show "\<exists>a. ims ! i = (ims ! i)\<lparr>after := a\<rparr> \<and> set a = set (after (ims ! i)) \<union> {j. (i, j) \<in> {}} \<and>
      (distinct (after (ims ! i)) \<longrightarrow> distinct a)" for i
    by (rule exI [of _ "after (ims ! i)"]) simp
qed simp

lemma grown_trans:
  assumes "grown a N b" and "grown b M c"
  shows "grown a (N \<union> M) c"
  unfolding grown_def
proof (intro conjI allI impI)
  show "length c = length a" using assms by (simp add: grown_def)
  fix i assume i: "i < length a"
  from assms(1) i obtain u where u: "b ! i = (a ! i)\<lparr>after := u\<rparr>"
    "set u = set (after (a ! i)) \<union> {j. (i, j) \<in> N}" "distinct (after (a ! i)) \<longrightarrow> distinct u"
    unfolding grown_def by metis
  from assms i obtain v where v: "c ! i = (b ! i)\<lparr>after := v\<rparr>"
    "set v = set (after (b ! i)) \<union> {j. (i, j) \<in> M}" "distinct (after (b ! i)) \<longrightarrow> distinct v"
    unfolding grown_def by metis
  from u v have "c ! i = (a ! i)\<lparr>after := v\<rparr>" "set v = set (after (a ! i)) \<union> {j. (i, j) \<in> N \<union> M}"
    "distinct (after (a ! i)) \<longrightarrow> distinct v" by auto
  then show "\<exists>v. c ! i = (a ! i)\<lparr>after := v\<rparr> \<and> set v = set (after (a ! i)) \<union> {j. (i, j) \<in> N \<union> M} \<and>
      (distinct (after (a ! i)) \<longrightarrow> distinct v)" by blast
qed

lemma grown_length: "grown ims N ims' \<Longrightarrow> length ims' = length ims"
  by (simp add: grown_def)

lemma grown_cell:
  "grown ims N ims' \<Longrightarrow> i < length ims \<Longrightarrow> \<exists>a. ims' ! i = (ims ! i)\<lparr>after := a\<rparr> \<and>
     set a = set (after (ims ! i)) \<union> {j. (i, j) \<in> N} \<and> (distinct (after (ims ! i)) \<longrightarrow> distinct a)"
  by (simp add: grown_def)

lemma grown_nth:
  assumes "grown ims N ims'" and "i < length ims"
  shows "registers (ims' ! i) = registers (ims ! i)" "tid (ims' ! i) = tid (ims ! i)"
    "lin (ims' ! i) = lin (ims ! i)" "instid (ims' ! i) = instid (ims ! i)"
    "instid_in_thread (ims' ! i) = instid_in_thread (ims ! i)"
    "set (after (ims' ! i)) = set (after (ims ! i)) \<union> {j. (i, j) \<in> N}"
    "distinct (after (ims ! i)) \<Longrightarrow> distinct (after (ims' ! i))"
proof -
  from assms obtain a where "ims' ! i = (ims ! i)\<lparr>after := a\<rparr>"
    "set a = set (after (ims ! i)) \<union> {j. (i, j) \<in> N}" "distinct (after (ims ! i)) \<longrightarrow> distinct a"
    unfolding grown_def by metis
  then show "registers (ims' ! i) = registers (ims ! i)" "tid (ims' ! i) = tid (ims ! i)"
    "lin (ims' ! i) = lin (ims ! i)" "instid (ims' ! i) = instid (ims ! i)"
    "instid_in_thread (ims' ! i) = instid_in_thread (ims ! i)"
    "set (after (ims' ! i)) = set (after (ims ! i)) \<union> {j. (i, j) \<in> N}"
    "distinct (after (ims ! i)) \<Longrightarrow> distinct (after (ims' ! i))"
    by (simp_all add: registers_def)
qed

definition conflict_edge :: "nat \<Rightarrow> nat \<Rightarrow> nat \<Rightarrow> nat \<Rightarrow> nat \<times> nat" where
  "conflict_edge n loop_count prev cur = (if loop_count = 1 then (cur, n - 1 - prev) else (prev, cur))"

lemma mark_locs:
  "foldM (\<lambda>lw loc. py_set lw loc v) locs lw = Inr lw' \<Longrightarrow>
   length lw' = length lw \<and>
   (\<forall>k < length lw. lw' ! k = (if \<exists>loc \<in> set locs. py_index (length lw) loc = Some k then v else lw ! k))"
proof (induction locs arbitrary: lw)
  case (Cons loc locs)
  from Cons.prems obtain lw1 where lw1: "py_set lw loc v = Inr lw1"
    and rest: "foldM (\<lambda>lw loc. py_set lw loc v) locs lw1 = Inr lw'" by (auto simp: res_elims)
  then obtain k where "py_index (length lw) loc = Some k" "lw1 = lw[k := v]"
    by (auto simp: py_set_def split: option.splits)
  with Cons.IH [OF rest] show ?case by (auto simp: nth_list_update dest: py_index_Some_less)
qed simp

lemma mark_register:
  assumes "mark_register ss sl idx lw r = Inr lw'" and "length lw = ss_size ss + 1"
  shows "length lw' = length lw \<and> (\<forall>k < length lw.
    lw' ! k = (if \<not> op_is_read r \<and> k \<in> op_cells ss sl r then int idx else lw ! k))"
proof (cases "op_is_read r")
  case False
  with assms(1) obtain rg where "op_range ss sl r = Inr rg"
    and "foldM (\<lambda>lw loc. py_set lw loc (int idx)) (range_values rg) lw = Inr lw'"
    by (auto simp: mark_register_def res_elims)
  with mark_locs [OF this(2)] assms(2) False show ?thesis by (simp add: op_cells_def op_locs_def)
qed (use assms in \<open>simp add: mark_register_def\<close>)

lemma mark_registers:
  assumes "foldM (mark_register ss sl idx) rs lw = Inr lw'" and "length lw = ss_size ss + 1"
  shows "length lw' = length lw \<and> (\<forall>k < length lw.
    lw' ! k = (if \<exists>r \<in> set rs. \<not> op_is_read r \<and> k \<in> op_cells ss sl r then int idx else lw ! k))"
  using assms
proof (induction rs arbitrary: lw)
  case (Cons r rs)
  from Cons.prems(1) obtain lw1 where lw1: "mark_register ss sl idx lw r = Inr lw1"
    and rest: "foldM (mark_register ss sl idx) rs lw1 = Inr lw'" by (auto simp: res_elims)
  note m = mark_register [OF lw1 Cons.prems(2)]
  from Cons.IH [OF rest] m Cons.prems(2) show ?case by auto
qed simp

text \<open>
  \<open>last_before k p m\<close>: the last instruction before \<open>m\<close> that marks cell \<open>k\<close> is \<open>p\<close>.
\<close>

definition last_before :: "(nat \<Rightarrow> nat set) \<Rightarrow> nat \<Rightarrow> nat \<Rightarrow> nat \<Rightarrow> bool" where
  "last_before W k p m \<longleftrightarrow> p < m \<and> k \<in> W p \<and> (\<forall>q. p < q \<longrightarrow> q < m \<longrightarrow> k \<notin> W q)"

lemma last_before_unique: "last_before W k p m \<Longrightarrow> last_before W k q m \<Longrightarrow> p = q"
  unfolding last_before_def by (metis linorder_neqE_nat)

lemma last_before_Suc:
  "last_before W k p (Suc m) \<longleftrightarrow> (if k \<in> W m then p = m else last_before W k p m)"
  by (auto simp: last_before_def less_Suc_eq)

definition lw_ok :: "(nat \<Rightarrow> nat set) \<Rightarrow> nat \<Rightarrow> int list \<Rightarrow> bool" where
  "lw_ok W m lw \<longleftrightarrow> (\<forall>k < length lw.
     (lw ! k = - 1 \<and> (\<forall>p. \<not> last_before W k p m)) \<or> (\<exists>p. lw ! k = int p \<and> last_before W k p m))"

lemma lw_ok_iff: "lw_ok W m lw \<Longrightarrow> k < length lw \<Longrightarrow> lw ! k \<ge> 0 \<and> p = nat (lw ! k) \<longleftrightarrow> last_before W k p m"
  unfolding lw_ok_def using last_before_unique by fastforce

text \<open>
  Both passes: \<open>i\<close> is linked to the later \<open>j\<close> when they share a cell that one of them marks and
  nothing in between does.
\<close>

definition linked :: "(nat \<Rightarrow> nat set) \<Rightarrow> (nat \<Rightarrow> nat set) \<Rightarrow> nat \<Rightarrow> nat \<Rightarrow> bool" where
  "linked A W i j \<longleftrightarrow> i < j \<and>
     (\<exists>k. (k \<in> W i \<and> k \<in> A j \<or> k \<in> A i \<and> k \<in> W j) \<and> (\<forall>q. i < q \<longrightarrow> q < j \<longrightarrow> k \<notin> W q))"

lemma linked_iff:
  "linked A W i j \<longleftrightarrow> (\<exists>k. k \<in> A j \<and> last_before W k i j) \<or>
     (i < j \<and> (\<exists>k. k \<in> A i \<and> k \<in> W j \<and> (\<forall>q. i < q \<longrightarrow> q < j \<longrightarrow> k \<notin> W q)))"
  unfolding linked_def last_before_def by blast

lemma reversed_edge:
  assumes n: "length ims1 = n" and i: "i < n"
    and cells: "\<And>i. i < n \<Longrightarrow> looked_at ss c (ims1 ! i) = A (n - 1 - i)"
      "\<And>i. i < n \<Longrightarrow> marked ss c (ims1 ! i) = W (n - 1 - i)"
  shows "(n - 1 - i, j) \<in> {conflict_edge (length ims1) 1 p cur | p cur k.
      cur < length ims1 \<and> k \<in> looked_at ss c (ims1 ! cur) \<and>
      last_before (\<lambda>i. marked ss c (ims1 ! i)) k p cur} \<longleftrightarrow>
    i < j \<and> j < n \<and> (\<exists>k. k \<in> A i \<and> k \<in> W j \<and> (\<forall>q. i < q \<longrightarrow> q < j \<longrightarrow> k \<notin> W q))"
    (is "?L \<longleftrightarrow> ?R")
proof
  assume ?L
  then obtain p k where p: "j = n - 1 - p" and k: "k \<in> looked_at ss c (ims1 ! (n - 1 - i))"
    "last_before (\<lambda>i. marked ss c (ims1 ! i)) k p (n - 1 - i)"
    using n by (auto simp: conflict_edge_def)
  have pi: "p < n - 1 - i" "k \<in> marked ss c (ims1 ! p)" using k(2) by (auto simp: last_before_def)
  have "k \<notin> W q" if q: "i < q" "q < j" for q
  proof -
    have "p < n - 1 - q" "n - 1 - q < n - 1 - i" using q p pi(1) by auto
    then have "k \<notin> marked ss c (ims1 ! (n - 1 - q))" using k(2) by (auto simp: last_before_def)
    then show ?thesis using cells(2) [of "n - 1 - q"] q p by simp
  qed
  moreover have "k \<in> A i" using k(1) cells(1) [of "n - 1 - i"] i by simp
  moreover have "k \<in> W j" using pi cells(2) [of p] p by simp
  ultimately show ?R using p pi(1) by auto
next
  assume ?R
  then obtain k where r: "i < j" "j < n" "k \<in> A i" "k \<in> W j" "\<And>q. i < q \<Longrightarrow> q < j \<Longrightarrow> k \<notin> W q" by blast
  have "last_before (\<lambda>i. marked ss c (ims1 ! i)) k (n - 1 - j) (n - 1 - i)"
    unfolding last_before_def
  proof (intro conjI allI impI)
    show "n - 1 - j < n - 1 - i" using r by simp
    show "k \<in> marked ss c (ims1 ! (n - 1 - j))" using cells(2) [of "n - 1 - j"] r by simp
    fix q assume q: "n - 1 - j < q" "q < n - 1 - i"
    then have "k \<notin> W (n - 1 - q)" using r(5) [of "n - 1 - q"] r(2) by simp
    then show "k \<notin> marked ss c (ims1 ! q)" using cells(2) [of q] q by simp
  qed
  moreover have "k \<in> looked_at ss c (ims1 ! (n - 1 - i))" using cells(1) [of "n - 1 - i"] r i by simp
  moreover have "conflict_edge n 1 (n - 1 - j) (n - 1 - i) = (n - 1 - i, j)"
    using r(2) by (simp add: conflict_edge_def)
  ultimately show ?L using n i
    by (intro CollectI exI [of _ "n - 1 - j"] exI [of _ "n - 1 - i"] exI [of _ k] conjI) simp_all
qed

text \<open>
  A chain of links connects any two positions that share a cell one of them marks: between them,
  stop at each position that marks the cell.
\<close>

lemma linked_path:
  assumes "i < j" and "j < n" and "k \<in> A i" and "k \<in> A j" and "k \<in> W i \<or> k \<in> W j"
    and "\<And>q. q < n \<Longrightarrow> k \<in> W q \<Longrightarrow> k \<in> A q"
  shows "(i, j) \<in> {(i, j). j < n \<and> linked A W i j}\<^sup>+"
  using assms
proof (induction "j - i" arbitrary: i j rule: less_induct)
  case less
  show ?case
  proof (cases "\<exists>q. i < q \<and> q < j \<and> k \<in> W q")
    case True
    then obtain q where q: "i < q" "q < j" "k \<in> W q" by blast
    then have "k \<in> A q" using less.prems(2,6) by simp
    have "(i, q) \<in> {(i, j). j < n \<and> linked A W i j}\<^sup>+"
      by (rule less.hyps) (use q less.prems \<open>k \<in> A q\<close> in auto)
    moreover have "(q, j) \<in> {(i, j). j < n \<and> linked A W i j}\<^sup>+"
      by (rule less.hyps) (use q less.prems \<open>k \<in> A q\<close> in auto)
    ultimately show ?thesis by (rule trancl_trans)
  next
    case False
    then have "linked A W i j" unfolding linked_def using less.prems by blast
    then show ?thesis using less.prems(2) by (intro r_into_trancl) simp
  qed
qed

definition edges :: "imeta list \<Rightarrow> (nat \<times> nat) set" where
  "edges ims = {(i, j). i < length ims \<and> j \<in> set (after (ims ! i))}"

text \<open>The scratch words an instruction accesses and writes, memory left aside.\<close>

definition accesses :: "scratch_space \<Rightarrow> int \<Rightarrow> imeta \<Rightarrow> int set" where
  "accesses ss c x = (\<Union>r \<in> {r \<in> set (registers x). \<not> is_mem r}. op_locs ss (tid x mod c) r)"

definition writes_to :: "scratch_space \<Rightarrow> int \<Rightarrow> imeta \<Rightarrow> int set" where
  "writes_to ss c x =
     (\<Union>r \<in> {r \<in> set (registers x). \<not> is_mem r \<and> \<not> op_is_read r}. op_locs ss (tid x mod c) r)"

lemma op_cellsI: "l \<in> op_locs ss sl r \<Longrightarrow> 0 \<le> l \<Longrightarrow> l < int (ss_size ss) \<Longrightarrow> nat l \<in> op_cells ss sl r"
  unfolding op_cells_def by (intro CollectI bexI [of _ l]) (simp_all add: py_index_nonneg)

lemma mem_cells: "is_mem r \<Longrightarrow> op_cells ss sl r = {ss_size ss}"
  by (auto simp: op_cells_def op_locs_def op_range_def py_index_def)

lemma looked_atI:
  "l \<in> accesses ss c x \<Longrightarrow> 0 \<le> l \<Longrightarrow> l < int (ss_size ss) \<Longrightarrow> nat l \<in> looked_at ss c x"
  by (auto simp: accesses_def looked_at_def intro: op_cellsI)

lemma markedI:
  "l \<in> writes_to ss c x \<Longrightarrow> 0 \<le> l \<Longrightarrow> l < int (ss_size ss) \<Longrightarrow> nat l \<in> marked ss c x"
  by (auto simp: writes_to_def marked_def intro: op_cellsI)

lemma marked_looked_at: "k \<in> marked ss c x \<Longrightarrow> k < ss_size ss \<Longrightarrow> k \<in> looked_at ss c x"
proof -
  assume "k \<in> marked ss c x" and k: "k < ss_size ss"
  then obtain r where r: "r \<in> set (registers x)" "k \<in> op_cells ss (tid x mod c) r"
    by (auto simp: marked_def)
  have "\<not> is_mem r"
  proof
    assume "is_mem r"
    with r(2) have "k = ss_size ss" by (simp only: mem_cells singleton_iff)
    with k show False by simp
  qed
  with r show ?thesis by (auto simp: looked_at_def)
qed

lemma number_insts_nth:
  assumes "i < length ims"
  shows "registers (number_insts hp opt ims ! i) = registers (ims ! i)"
    "tid (number_insts hp opt ims ! i) = tid (ims ! i)" "lin (number_insts hp opt ims ! i) = lin (ims ! i)"
    "instid (number_insts hp opt ims ! i) = int i"
    "instid_in_thread (number_insts hp opt ims ! i) = instid_in_thread (ims ! i)"
    "after (number_insts hp opt ims ! i) =
       (if \<not> opt \<and> i + 1 < length ims \<and> tid (ims ! i) \<ge> 0 \<and> tid (ims ! i) = tid (ims ! (i + 1))
        then heap_initial hp [i + 1] else [])"
  using assms by (simp_all add: number_insts_def nth_enumerate_eq registers_def)

lemma length_number_insts [simp]: "length (number_insts hp opt ims) = length ims"
  by (simp add: number_insts_def)

text \<open>The heaps of positions.\<close>

locale after_heap = min_heap hp for hp :: "nat heap_ops"
begin

lemma grown_add_edge:
  assumes "i < length ims"
  shows "grown ims {(i, j)} (add_edge hp i j ims)"
  unfolding grown_def
proof (intro conjI allI impI)
  show "length (add_edge hp i j ims) = length ims" by (simp add: add_edge_def)
  fix k assume "k < length ims"
  show "\<exists>a. add_edge hp i j ims ! k = (ims ! k)\<lparr>after := a\<rparr> \<and>
      set a = set (after (ims ! k)) \<union> {l. (k, l) \<in> {(i, j)}} \<and>
      (distinct (after (ims ! k)) \<longrightarrow> distinct a)"
  proof (cases "k = i")
    case True
    then show ?thesis
      using assms add_set [of j "after (ims ! i)"] add_distinct [of "after (ims ! i)" j]
      by (intro exI [of _ "heap_add hp j (after (ims ! i))"]) (auto simp: add_edge_def)
  next
    case False
    then show ?thesis by (intro exI [of _ "after (ims ! k)"]) (simp add: add_edge_def)
  qed
qed

lemma grown_conflict:
  assumes "prev < length ims" and "cur < length ims"
  shows "grown ims {conflict_edge (length ims) lc prev cur} (handle_conflict hp lc prev cur ims)"
  using assms by (simp add: handle_conflict_def conflict_edge_def grown_add_edge)

lemma link_locs:
  assumes "foldM (link_loc hp lc idx lw) locs ims = Inr ims'" and "idx < length ims"
    and "\<forall>k < length lw. lw ! k < int (length ims)"
  shows "grown ims {conflict_edge (length ims) lc (nat (lw ! k)) idx | k.
    lw ! k \<ge> 0 \<and> (\<exists>loc \<in> set locs. py_index (length lw) loc = Some k)} ims'"
  using assms
proof (induction locs arbitrary: ims)
  case Nil
  then show ?case using grown_refl by simp
next
  case (Cons loc locs)
  from Cons.prems(1) obtain ims1 where ims1: "link_loc hp lc idx lw ims loc = Inr ims1"
    and rest: "foldM (link_loc hp lc idx lw) locs ims1 = Inr ims'" by (auto simp: res_elims)
  from ims1 obtain k where k: "py_index (length lw) loc = Some k"
    and ims1': "ims1 = (if lw ! k \<ge> 0 then handle_conflict hp lc (nat (lw ! k)) idx ims else ims)"
    by (auto simp: link_loc_def py_get_def split: option.splits)
  let ?N = "\<lambda>ls. {conflict_edge (length ims) lc (nat (lw ! k)) idx | k.
    lw ! k \<ge> 0 \<and> (\<exists>loc \<in> set ls. py_index (length lw) loc = Some k)}"
  have g: "grown ims (?N [loc]) ims1"
  proof (cases "lw ! k \<ge> 0")
    case True
    have "nat (lw ! k) < length ims"
      using Cons.prems(3) True py_index_Some_less [OF k] by (simp add: nat_less_iff)
    moreover have "?N [loc] = {conflict_edge (length ims) lc (nat (lw ! k)) idx}" using k True by auto
    ultimately show ?thesis using True Cons.prems(2) by (simp add: ims1' grown_conflict)
  next
    case False
    then have "?N [loc] = {}" using k by auto
    moreover have "ims1 = ims" using False by (simp add: ims1')
    ultimately show ?thesis using grown_refl by metis
  qed
  have "grown ims1 (?N locs) ims'"
    using Cons.IH [OF rest] Cons.prems grown_length [OF g] by simp
  from grown_trans [OF g this] show ?case by (rule back_subst [where P = "\<lambda>N. grown ims N ims'"]) auto
qed

lemma link_register:
  assumes "link_register hp ss sl lc idx lw ims r = Inr ims'" and "idx < length ims"
    and "\<forall>k < length lw. lw ! k < int (length ims)" and "length lw = ss_size ss + 1"
  shows "grown ims {conflict_edge (length ims) lc (nat (lw ! k)) idx | k.
    lw ! k \<ge> 0 \<and> \<not> is_mem r \<and> k \<in> op_cells ss sl r} ims'"
proof (cases "is_mem r")
  case False
  with assms(1) obtain rg where "op_range ss sl r = Inr rg"
    and "foldM (link_loc hp lc idx lw) (range_values rg) ims = Inr ims'"
    by (auto simp: link_register_def res_elims)
  with link_locs [OF this(2) assms(2,3)] assms(4) False show ?thesis
    by (simp add: op_cells_def op_locs_def)
qed (use assms grown_refl in \<open>simp add: link_register_def\<close>)

lemma link_registers:
  assumes "foldM (link_register hp ss sl lc idx lw) rs ims = Inr ims'" and "idx < length ims"
    and "\<forall>k < length lw. lw ! k < int (length ims)" and "length lw = ss_size ss + 1"
  shows "grown ims {conflict_edge (length ims) lc (nat (lw ! k)) idx | k.
    lw ! k \<ge> 0 \<and> (\<exists>r \<in> set rs. \<not> is_mem r \<and> k \<in> op_cells ss sl r)} ims'"
  using assms
proof (induction rs arbitrary: ims)
  case Nil
  then show ?case using grown_refl by simp
next
  case (Cons r rs)
  from Cons.prems(1) obtain ims1 where ims1: "link_register hp ss sl lc idx lw ims r = Inr ims1"
    and rest: "foldM (link_register hp ss sl lc idx lw) rs ims1 = Inr ims'" by (auto simp: res_elims)
  note g = link_register [OF ims1 Cons.prems(2-4)]
  have "grown ims1 {conflict_edge (length ims) lc (nat (lw ! k)) idx | k.
      lw ! k \<ge> 0 \<and> (\<exists>r \<in> set rs. \<not> is_mem r \<and> k \<in> op_cells ss sl r)} ims'"
    using Cons.IH [OF rest] Cons.prems grown_length [OF g] by simp
  from grown_trans [OF g this] show ?case by (rule back_subst [where P = "\<lambda>N. grown ims N ims'"]) auto
qed

lemma link_pass_invariant:
  assumes "m \<le> length ims"
    and "foldM (link_instr hp ss c lc) [0..<m] (ims, replicate (ss_size ss + 1) (- 1)) = Inr (ims', lw)"
  shows "grown ims {conflict_edge (length ims) lc p cur | p cur k.
      cur < m \<and> k \<in> looked_at ss c (ims ! cur) \<and> last_before (\<lambda>i. marked ss c (ims ! i)) k p cur} ims' \<and>
    length lw = ss_size ss + 1 \<and> lw_ok (\<lambda>i. marked ss c (ims ! i)) m lw"
  using assms
proof (induction m arbitrary: ims' lw)
  case 0
  then show ?case using grown_refl by (auto simp: lw_ok_def last_before_def nth_Cons split: nat.split)
next
  case (Suc m)
  let ?W = "\<lambda>i. marked ss c (ims ! i)"
  from Suc.prems(2) obtain ims1 lw1 where
    pre: "foldM (link_instr hp ss c lc) [0..<m] (ims, replicate (ss_size ss + 1) (- 1)) = Inr (ims1, lw1)"
    and step: "link_instr hp ss c lc (ims1, lw1) m = Inr (ims', lw)"
    by (auto simp: foldM_append res_elims)
  from Suc.IH [OF _ pre] Suc.prems(1) have
    g1: "grown ims {conflict_edge (length ims) lc p cur | p cur k.
      cur < m \<and> k \<in> looked_at ss c (ims ! cur) \<and> last_before ?W k p cur} ims1"
    and l1: "length lw1 = ss_size ss + 1" and w1: "lw_ok ?W m lw1" by auto
  have m: "m < length ims" using Suc.prems(1) by simp
  note same = grown_nth(1,2) [OF g1 m]
  let ?sl = "tid (ims ! m) mod c"
  from step same have
    link: "foldM (link_register hp ss ?sl lc m lw1) (registers (ims ! m)) ims1 = Inr ims'"
    and mark: "foldM (mark_register ss ?sl m) (registers (ims ! m)) lw1 = Inr lw"
    by (auto simp: link_instr_def work_slot_of_def res_elims)
  have "\<forall>k < length lw1. lw1 ! k < int (length ims1)"
    using w1 m grown_length [OF g1] unfolding lw_ok_def last_before_def by fastforce
  from link_registers [OF link _ this l1] m grown_length [OF g1]
  have "grown ims1 {conflict_edge (length ims) lc (nat (lw1 ! k)) m | k. lw1 ! k \<ge> 0 \<and>
      (\<exists>r \<in> set (registers (ims ! m)). \<not> is_mem r \<and> k \<in> op_cells ss ?sl r)} ims'" by simp
  also have "{conflict_edge (length ims) lc (nat (lw1 ! k)) m | k. lw1 ! k \<ge> 0 \<and>
      (\<exists>r \<in> set (registers (ims ! m)). \<not> is_mem r \<and> k \<in> op_cells ss ?sl r)} =
    {conflict_edge (length ims) lc p m | p k. k \<in> looked_at ss c (ims ! m) \<and> last_before ?W k p m}"
    (is "?L = ?R")
  proof -
    have small: "k < length lw1" if "k \<in> op_cells ss sl r" for k sl r
      using that l1 by (auto simp: op_cells_def dest: py_index_Some_less)
    note iff = lw_ok_iff [OF w1 small]
    show ?thesis
    proof (intro subset_antisym subsetI)
      fix e assume "e \<in> ?L"
      then obtain k r where k: "e = conflict_edge (length ims) lc (nat (lw1 ! k)) m" "lw1 ! k \<ge> 0"
        and r: "r \<in> set (registers (ims ! m))" "\<not> is_mem r" "k \<in> op_cells ss ?sl r" by blast
      have "last_before ?W k (nat (lw1 ! k)) m" using iff [OF r(3), of "nat (lw1 ! k)"] k(2) by simp
      moreover have "k \<in> looked_at ss c (ims ! m)" using r by (auto simp: looked_at_def)
      ultimately show "e \<in> ?R" using k(1) by blast
    next
      fix e assume "e \<in> ?R"
      then obtain p k where k: "e = conflict_edge (length ims) lc p m" "k \<in> looked_at ss c (ims ! m)"
        "last_before ?W k p m" by blast
      from k(2) obtain r where r: "r \<in> set (registers (ims ! m))" "\<not> is_mem r" "k \<in> op_cells ss ?sl r"
        by (auto simp: looked_at_def)
      have "lw1 ! k \<ge> 0 \<and> p = nat (lw1 ! k)" using iff [OF r(3), of p] k(3) by simp
      then show "e \<in> ?L" using k(1) r by blast
    qed
  qed
  finally have g2: "grown ims1 ?R ims'" .
  have eq: "{conflict_edge (length ims) lc p cur | p cur k.
      cur < m \<and> k \<in> looked_at ss c (ims ! cur) \<and> last_before ?W k p cur} \<union> ?R =
    {conflict_edge (length ims) lc p cur | p cur k.
      cur < Suc m \<and> k \<in> looked_at ss c (ims ! cur) \<and> last_before ?W k p cur}"
    by (auto simp: less_Suc_eq)
  note mk = mark_registers [OF mark l1]
  have lw: "lw ! k = (if k \<in> ?W m then int m else lw1 ! k)" if "k < length lw1" for k
    using mk that by (auto simp: marked_def)
  have "lw_ok ?W (Suc m) lw"
    unfolding lw_ok_def last_before_Suc
  proof (intro allI impI)
    fix k assume "k < length lw"
    then have k: "k < length lw1" using mk by simp
    show "lw ! k = - 1 \<and> (\<forall>p. \<not> (if k \<in> ?W m then p = m else last_before ?W k p m)) \<or>
        (\<exists>p. lw ! k = int p \<and> (if k \<in> ?W m then p = m else last_before ?W k p m))"
      using w1 k lw [OF k] unfolding lw_ok_def by (cases "k \<in> ?W m") simp_all
  qed
  with grown_trans [OF g1 g2] eq mk l1 show ?case by simp
qed

lemma link_pass:
  assumes "link_pass hp ss c ims lc = Inr ims'"
  shows "grown ims {conflict_edge (length ims) lc p cur | p cur k. cur < length ims \<and>
    k \<in> looked_at ss c (ims ! cur) \<and> last_before (\<lambda>i. marked ss c (ims ! i)) k p cur} (rev ims')"
proof -
  from assms obtain lw where
    "foldM (link_instr hp ss c lc) [0..<length ims] (ims, replicate (ss_size ss + 1) (- 1)) = Inr (rev ims', lw)"
    by (auto simp: link_pass_def res_elims)
  from link_pass_invariant [OF le_refl this] show ?thesis by blast
qed

lemma link_passes:
  assumes "foldM (link_pass hp ss c) [0, 1] ims = Inr ims'"
  shows "grown ims {(i, j). j < length ims \<and>
    linked (\<lambda>i. looked_at ss c (ims ! i)) (\<lambda>i. marked ss c (ims ! i)) i j} ims'"
proof -
  let ?n = "length ims"
  let ?A = "\<lambda>i. looked_at ss c (ims ! i)" and ?W = "\<lambda>i. marked ss c (ims ! i)"
  from assms obtain ims1 where p0: "link_pass hp ss c ims 0 = Inr ims1"
    and p1: "link_pass hp ss c ims1 1 = Inr ims'" by (auto simp: res_elims)
  note g0 = link_pass [OF p0] and g1 = link_pass [OF p1]
  have n1: "length ims1 = ?n" using grown_length [OF g0] by simp
  have n2: "length ims' = ?n" using grown_length [OF g1] n1 by simp
  have at1: "ims1 ! i = rev ims1 ! (?n - 1 - i)" if "i < ?n" for i
    using that n1 by (simp add: rev_nth)
  have cells: "looked_at ss c (ims1 ! i) = ?A (?n - 1 - i)" "marked ss c (ims1 ! i) = ?W (?n - 1 - i)"
    if "i < ?n" for i
  proof -
    have "?n - 1 - i < ?n" using that by simp
    from grown_nth(1,2) [OF g0 this] at1 [OF that]
    show "looked_at ss c (ims1 ! i) = ?A (?n - 1 - i)" "marked ss c (ims1 ! i) = ?W (?n - 1 - i)"
      by (simp_all add: looked_at_def marked_def)
  qed
  show ?thesis
    unfolding grown_def
  proof (intro conjI allI impI)
    show "length ims' = ?n" by (rule n2)
    fix i assume i: "i < ?n"
    let ?i = "?n - 1 - i"
    have i': "?i < ?n" "?n - 1 - ?i = i" using i by simp_all
    obtain a where a: "rev ims1 ! i = (ims ! i)\<lparr>after := a\<rparr>"
      "set a = set (after (ims ! i)) \<union> {j. (i, j) \<in> {conflict_edge ?n 0 p cur | p cur k.
         cur < ?n \<and> k \<in> ?A cur \<and> last_before ?W k p cur}}"
      "distinct (after (ims ! i)) \<longrightarrow> distinct a"
      using grown_cell [OF g0 i] by (elim exE conjE) (rule that)
    have i1: "?i < length ims1" using i' n1 by simp
    obtain b where b: "rev ims' ! ?i = (ims1 ! ?i)\<lparr>after := b\<rparr>"
      "set b = set (after (ims1 ! ?i)) \<union> {j. (?i, j) \<in> {conflict_edge (length ims1) 1 p cur | p cur k.
         cur < length ims1 \<and> k \<in> looked_at ss c (ims1 ! cur) \<and>
         last_before (\<lambda>i. marked ss c (ims1 ! i)) k p cur}}"
      "distinct (after (ims1 ! ?i)) \<longrightarrow> distinct b"
      using grown_cell [OF g1 i1] by (elim exE conjE) (rule that)
    have ims1: "ims1 ! ?i = (ims ! i)\<lparr>after := a\<rparr>" using at1 [OF i'(1)] i'(2) a(1) by simp
    have "ims' ! i = rev ims' ! ?i" using i i' n2 by (simp add: rev_nth)
    then have "ims' ! i = (ims ! i)\<lparr>after := b\<rparr>" using b(1) ims1 by simp
    moreover have "distinct (after (ims ! i)) \<longrightarrow> distinct b" using a(3) b(3) ims1 by simp
    moreover have "set b = set (after (ims ! i)) \<union> {j. (i, j) \<in> {(i, j). j < ?n \<and> linked ?A ?W i j}}"
    proof -
      have E0: "(i, j) \<in> {conflict_edge ?n 0 p cur | p cur k.
          cur < ?n \<and> k \<in> ?A cur \<and> last_before ?W k p cur} \<longleftrightarrow>
          j < ?n \<and> (\<exists>k. k \<in> ?A j \<and> last_before ?W k i j)" for j
        by (auto simp: conflict_edge_def)
      have E1: "(?i, j) \<in> {conflict_edge (length ims1) 1 p cur | p cur k.
          cur < length ims1 \<and> k \<in> looked_at ss c (ims1 ! cur) \<and>
          last_before (\<lambda>i. marked ss c (ims1 ! i)) k p cur} \<longleftrightarrow>
          i < j \<and> j < ?n \<and> (\<exists>k. k \<in> ?A i \<and> k \<in> ?W j \<and> (\<forall>q. i < q \<longrightarrow> q < j \<longrightarrow> k \<notin> ?W q))" for j
        by (rule reversed_edge [OF n1 i cells])
      have aft: "after (ims1 ! ?i) = a" unfolding ims1 by simp
      have m1: "j \<in> set b \<longleftrightarrow> j \<in> set a \<or> (i < j \<and> j < ?n \<and> (\<exists>k. k \<in> ?A i \<and> k \<in> ?W j \<and> (\<forall>q. i < q \<longrightarrow> q < j \<longrightarrow> k \<notin> ?W q)))" for j
        unfolding b(2) Un_iff mem_Collect_eq [of j] E1 aft ..
      have m2: "j \<in> set a \<longleftrightarrow> j \<in> set (after (ims ! i)) \<or> (j < ?n \<and> (\<exists>k. k \<in> ?A j \<and> last_before ?W k i j))" for j
        unfolding a(2) Un_iff mem_Collect_eq [of j] E0 ..
      have "j \<in> set b \<longleftrightarrow> j \<in> set (after (ims ! i)) \<or> (j < ?n \<and> linked ?A ?W i j)" for j
        unfolding m1 m2 linked_iff [of ?A ?W i j] by argo
      then show ?thesis by (simp add: set_eq_iff)
    qed
    ultimately show "\<exists>b. ims' ! i = (ims ! i)\<lparr>after := b\<rparr> \<and>
        set b = set (after (ims ! i)) \<union> {j. (i, j) \<in> {(i, j). j < ?n \<and> linked ?A ?W i j}} \<and>
        (distinct (after (ims ! i)) \<longrightarrow> distinct b)" by blast
  qed
qed

text \<open>The finished graph.\<close>

lemma linked_work_grown:
  assumes "linked_work hp g c opt = Inr (ims, g')"
  obtains ims0 where "all_insts g c = Inr (ims0, g')"
    and "grown (number_insts hp opt ims0) {(i, j). j < length ims0 \<and>
      linked (\<lambda>i. looked_at (graph_ss g') c (ims0 ! i)) (\<lambda>i. marked (graph_ss g') c (ims0 ! i)) i j} ims"
proof -
  from assms obtain ims0 where all: "all_insts g c = Inr (ims0, g')"
    and link: "foldM (link_pass hp (graph_ss g') c) [0, 1] (number_insts hp opt ims0) = Inr ims"
    unfolding linked_work_def by (auto simp: res_elims simp del: foldM.simps)
  let ?N = "number_insts hp opt ims0" and ?ss = "graph_ss g'"
  have "looked_at ?ss c (?N ! i) = looked_at ?ss c (ims0 ! i) \<and>
      marked ?ss c (?N ! i) = marked ?ss c (ims0 ! i)" if "i < length ims0" for i
    using number_insts_nth(1,2) [OF that] by (simp add: looked_at_def marked_def)
  then have "{(i, j). j < length ims0 \<and> linked (\<lambda>i. looked_at ?ss c (?N ! i)) (\<lambda>i. marked ?ss c (?N ! i)) i j} =
      {(i, j). j < length ims0 \<and> linked (\<lambda>i. looked_at ?ss c (ims0 ! i)) (\<lambda>i. marked ?ss c (ims0 ! i)) i j}"
    by (auto simp: linked_def)
  with link_passes [OF link] all that show thesis by simp
qed

lemma linked_work_cells:
  assumes "linked_work hp g c opt = Inr (ims, g')"
  shows "\<exists>ims0. all_insts g c = Inr (ims0, g') \<and> length ims = length ims0 \<and>
    (\<forall>i < length ims. lin (ims ! i) = lin (ims0 ! i) \<and> tid (ims ! i) = tid (ims0 ! i) \<and>
       instid (ims ! i) = int i \<and> distinct (after (ims ! i)) \<and>
       set (after (ims ! i)) =
         {j. \<not> opt \<and> j = i + 1 \<and> j < length ims \<and> tid (ims ! i) \<ge> 0 \<and> tid (ims ! i) = tid (ims ! j)} \<union>
         {j. j < length ims \<and>
           linked (\<lambda>i. looked_at (graph_ss g') c (ims ! i)) (\<lambda>i. marked (graph_ss g') c (ims ! i)) i j})"
proof -
  from linked_work_grown [OF assms] obtain ims0 where all: "all_insts g c = Inr (ims0, g')"
    and g: "grown (number_insts hp opt ims0) {(i, j). j < length ims0 \<and>
      linked (\<lambda>i. looked_at (graph_ss g') c (ims0 ! i)) (\<lambda>i. marked (graph_ss g') c (ims0 ! i)) i j} ims" .
  have len: "length ims = length ims0" using grown_length [OF g] by simp
  have same: "lin (ims ! i) = lin (ims0 ! i)" "tid (ims ! i) = tid (ims0 ! i)" if "i < length ims0" for i
    using grown_nth(2,3) [OF g] number_insts_nth(2,3) [OF that] that by simp_all
  have cells: "looked_at (graph_ss g') c (ims ! i) = looked_at (graph_ss g') c (ims0 ! i)"
    "marked (graph_ss g') c (ims ! i) = marked (graph_ss g') c (ims0 ! i)" if "i < length ims0" for i
    using same [OF that] by (simp_all add: looked_at_def marked_def registers_def)
  have lk: "linked (\<lambda>i. looked_at (graph_ss g') c (ims ! i)) (\<lambda>i. marked (graph_ss g') c (ims ! i)) i j =
      linked (\<lambda>i. looked_at (graph_ss g') c (ims0 ! i)) (\<lambda>i. marked (graph_ss g') c (ims0 ! i)) i j"
    if "j < length ims0" for i j
    using that cells by (auto simp: linked_def)
  show ?thesis
  proof (intro exI conjI allI impI)
    fix i assume "i < length ims"
    then have i: "i < length ims0" using len by simp
    note n = number_insts_nth [OF i, of hp opt] and gn = grown_nth [OF g, of i]
    show "lin (ims ! i) = lin (ims0 ! i)" "tid (ims ! i) = tid (ims0 ! i)" using same [OF i] by simp_all
    show "instid (ims ! i) = int i" using gn(4) i n(4) by simp
    show "distinct (after (ims ! i))" using gn(7) i n(6) initial_ok by simp
    show "set (after (ims ! i)) =
         {j. \<not> opt \<and> j = i + 1 \<and> j < length ims \<and> tid (ims ! i) \<ge> 0 \<and> tid (ims ! i) = tid (ims ! j)} \<union>
         {j. j < length ims \<and>
           linked (\<lambda>i. looked_at (graph_ss g') c (ims ! i)) (\<lambda>i. marked (graph_ss g') c (ims ! i)) i j}"
      using gn(6) i n(6) initial_ok(1) same len lk by (auto simp: set_eq_iff)
  qed (use all len in simp_all)
qed

lemma edges_forward:
  assumes "linked_work hp g c opt = Inr (ims, g')" and "(i, j) \<in> edges ims"
  shows "i < j \<and> j < length ims"
  using linked_work_cells [OF assms(1)] assms(2) by (auto simp: edges_def linked_def)

lemma conflicts_ordered:
  assumes work: "linked_work hp g c opt = Inr (ims, g')" and ij: "i < j" "j < length ims"
    and l: "0 \<le> l" "l < int (ss_size (graph_ss g'))"
    and acc: "l \<in> accesses (graph_ss g') c (ims ! i)" "l \<in> accesses (graph_ss g') c (ims ! j)"
    and wr: "l \<in> writes_to (graph_ss g') c (ims ! i) \<or> l \<in> writes_to (graph_ss g') c (ims ! j)"
  shows "(i, j) \<in> (edges ims)\<^sup>+"
proof -
  let ?A = "\<lambda>i. looked_at (graph_ss g') c (ims ! i)" and ?W = "\<lambda>i. marked (graph_ss g') c (ims ! i)"
  have k: "nat l < ss_size (graph_ss g')" using l by simp
  have "(i, j) \<in> {(i, j). j < length ims \<and> linked ?A ?W i j}\<^sup>+"
  proof (rule linked_path [OF ij, where k = "nat l"])
    show "nat l \<in> ?A i" "nat l \<in> ?A j" using acc l by (simp_all add: looked_atI)
    show "nat l \<in> ?W i \<or> nat l \<in> ?W j" using wr l markedI by blast
    show "nat l \<in> ?A q" if "nat l \<in> ?W q" for q using marked_looked_at [OF that k] .
  qed
  moreover have "{(i, j). j < length ims \<and> linked ?A ?W i j} \<subseteq> edges ims"
    using linked_work_cells [OF work] by (auto simp: edges_def linked_def)
  ultimately show ?thesis by (rule trancl_mono)
qed

end

text \<open>Lists kept in order serve as the heaps of positions.\<close>

interpretation list_after: after_heap "list_heap (\<lambda>k :: nat. k)"
  by (intro after_heap.intro list_heap_min_heap)

end
