(* ===== verification/Packer.thy ===== *)
theory Packer
  imports Instr_Graph Machine "HOL-Library.Product_Lexorder"
begin

text \<open>
  The list scheduler (\<open>GreedyWorkPacker\<close> in \<open>instr_graph_model.py\<close>). It keeps, for every instruction
  of the dependence graph, the number of unfinished instructions it waits for (\<open>incount\<close>); the
  issuable ones are in the heap \<open>free\<close> or, for threads that have not been started, in \<open>frontier\<close>.
  Each \<open>take\<close> fills one bundle, splitting vector instructions into scalar ones when ALU or flow slots
  are left, and retires what it issued.

  The sorted set behind \<open>free\<close> belongs to a package outside the repository: it is the parameter
  \<open>ss_of\<close>, a function from the key function to the operations on the set; \<open>hp\<close> are the
  operations on the sets of positions.
\<close>

section \<open>Priorities\<close>

definition EX_UNITS :: "engine list" where
  "EX_UNITS = [VALU, ALU, LOAD, STORE, FLOW]"

text \<open>
  The earliest real instruction that waits for a global one. The recursion follows the edges of the
  graph; the fuel is the length of the longest path that can be followed.
\<close>

fun next_real_instid :: "nat \<Rightarrow> imeta list \<Rightarrow> imeta \<Rightarrow> (int \<times> int \<times> int) res" where
  "next_real_instid 0 all x = Inl RecursionError"
| "next_real_instid (Suc n) all x =
     (if tid x \<ge> 0 then Inr (tid x, instid_in_thread x, instid x)
      else if after x = [] then Inr (- 1, - 1, - 1)
      else rbind (foldM (\<lambda>best nidx.
             rbind (py_get all (int nidx)) (\<lambda>nmeta.
             rbind (next_real_instid n all nmeta) (\<lambda>cand.
               Inr (case best of None \<Rightarrow> Some cand | Some b \<Rightarrow> if cand < b then Some cand else best))))
             (after x) None)
           (\<lambda>best. case best of None \<Rightarrow> Inl TypeError | Some b \<Rightarrow> Inr b))"

definition checkpoints :: "int list" where
  "checkpoints = [289, 100000]"

definition priority_block :: "imeta list \<Rightarrow> int \<Rightarrow> imeta \<Rightarrow> int list res" where
  "priority_block all conc_threads x =
     (if tid x < 0 then
        rbind (next_real_instid (Suc (length all)) all x) (\<lambda>(a, b, c). Inr [0, a, b, c])
      else
        (case find (\<lambda>(idx, c). instid_in_thread x < c) (enumerate 0 checkpoints) of
           None \<Rightarrow> Inl AssertionError
         | Some (idx, c) \<Rightarrow>
             rbind (work_slot_of (tid x) conc_threads) (\<lambda>sl. Inr [int idx, sl, instid_in_thread x])))"

type_synonym priority =
  "int \<times> int list \<times> int \<times> int \<times> logical_instr \<times> int \<times> int \<times> nat list"

definition imeta_priority_fn :: "imeta list \<Rightarrow> int \<Rightarrow> imeta \<Rightarrow> priority res" where
  "imeta_priority_fn all conc_threads x =
     rbind (priority_block all conc_threads x) (\<lambda>b.
       Inr (0, b, tid x, instid x, lin x, tid x, instid_in_thread x, after x))"

type_synonym sorted_set_of = "(imeta \<Rightarrow> priority res) \<Rightarrow> imeta heap_ops"

section \<open>State\<close>

record packer =
  pk_imetas :: "imeta list"
  pk_ss :: scratch_space
  pk_num_threads :: int
  pk_conc_threads :: int
  incount :: "int list"
  frontier :: "imeta list"
  free :: "imeta list"
  next_batch_tid :: int
  schedulable_count_by_tid :: "int \<Rightarrow> int"
  split_counts :: "string \<Rightarrow> int"
  cycle_number :: int

definition free_ops :: "sorted_set_of \<Rightarrow> packer \<Rightarrow> imeta heap_ops" where
  "free_ops ss_of p = ss_of (imeta_priority_fn (pk_imetas p) (pk_conc_threads p))"

definition add_free :: "sorted_set_of \<Rightarrow> imeta \<Rightarrow> packer \<Rightarrow> packer" where
  "add_free ss_of x p = p\<lparr>free := heap_add (free_ops ss_of p) x (free p)\<rparr>"

definition remove_free :: "sorted_set_of \<Rightarrow> imeta \<Rightarrow> packer \<Rightarrow> packer res" where
  "remove_free ss_of x p =
     rbind (heap_remove (free_ops ss_of p) x (free p)) (\<lambda>f. Inr (p\<lparr>free := f\<rparr>))"

definition add_incount :: "int \<Rightarrow> packer \<Rightarrow> nat \<Rightarrow> packer res" where
  "add_incount d p idx =
     rbind (py_get (incount p) (int idx)) (\<lambda>v.
     rbind (py_set (incount p) (int idx) (v + d)) (\<lambda>ic. Inr (p\<lparr>incount := ic\<rparr>)))"

definition add_schedulable :: "int \<Rightarrow> int \<Rightarrow> packer \<Rightarrow> packer" where
  "add_schedulable t d p =
     p\<lparr>schedulable_count_by_tid :=
         (schedulable_count_by_tid p)(t := schedulable_count_by_tid p t + d)\<rparr>"

definition count_split :: "string \<Rightarrow> packer \<Rightarrow> packer" where
  "count_split op p = p\<lparr>split_counts := (split_counts p)(op := split_counts p op + 1)\<rparr>"

text \<open>An instruction whose count reached zero: issuable now, or parked until its thread may start.\<close>

definition make_issuable :: "sorted_set_of \<Rightarrow> imeta \<Rightarrow> packer \<Rightarrow> packer" where
  "make_issuable ss_of x p =
     add_schedulable (tid x) 1
       (if tid x < next_batch_tid p then add_free ss_of x p
        else p\<lparr>frontier := frontier p @ [x]\<rparr>)"

definition packer_start :: "imeta list \<Rightarrow> int \<Rightarrow> int \<Rightarrow> scratch_space \<Rightarrow> packer" where
  "packer_start ims nthreads conc ss =
     \<lparr>pk_imetas = ims, pk_ss = ss, pk_num_threads = nthreads, pk_conc_threads = conc,
      incount = replicate (length ims) 0, frontier = [], free = [], next_batch_tid = conc,
      schedulable_count_by_tid = (\<lambda>_. 0), split_counts = (\<lambda>_. 0), cycle_number = 0\<rparr>"

definition packer_initialize :: "sorted_set_of \<Rightarrow> packer \<Rightarrow> packer res" where
  "packer_initialize ss_of p =
     rbind (foldM (\<lambda>p x. foldM (add_incount 1) (after x) p) (pk_imetas p) p) (\<lambda>p.
       Inr (fold (\<lambda>(idx, x) p. if incount p ! idx = 0 then make_issuable ss_of x p else p)
              (enumerate 0 (pk_imetas p)) p))"

definition new_packer ::
  "sorted_set_of \<Rightarrow> imeta list \<Rightarrow> int \<Rightarrow> int \<Rightarrow> scratch_space \<Rightarrow> packer res" where
  "new_packer ss_of ims nthreads conc ss = packer_initialize ss_of (packer_start ims nthreads conc ss)"

definition get_work ::
  "sorted_set_of \<Rightarrow> nat heap_ops \<Rightarrow> instr_graph \<Rightarrow> int \<Rightarrow> bool \<Rightarrow> packer res" where
  "get_work ss_of hp g conc_threads optimize =
     rbind (linked_work hp g conc_threads optimize) (\<lambda>(ims, g').
       new_packer ss_of ims (num_threads g') conc_threads (graph_ss g'))"

section \<open>Retiring\<close>

text \<open>\<open>list.remove\<close>: the first equal element.\<close>

definition py_remove :: "'a \<Rightarrow> 'a list \<Rightarrow> 'a list res" where
  "py_remove x xs = (if x \<in> set xs then Inr (remove1 x xs) else Inl ValueError)"

definition fall_down_to_free :: "sorted_set_of \<Rightarrow> packer \<Rightarrow> packer res" where
  "fall_down_to_free ss_of p =
     foldM (\<lambda>p x.
       if tid x < next_batch_tid p then
         rbind (py_remove x (frontier (add_free ss_of x p))) (\<lambda>fr. Inr ((add_free ss_of x p)\<lparr>frontier := fr\<rparr>))
       else Inr p) (frontier p) p"

definition unlock :: "sorted_set_of \<Rightarrow> packer \<Rightarrow> nat \<Rightarrow> packer res" where
  "unlock ss_of p idx =
     rbind (add_incount (- 1) p idx) (\<lambda>p.
     rbind (py_get (incount p) (int idx)) (\<lambda>v.
       if v = 0 then rbind (py_get (pk_imetas p) (int idx)) (\<lambda>y. Inr (make_issuable ss_of y p))
       else Inr p))"

definition retire :: "sorted_set_of \<Rightarrow> packer \<Rightarrow> imeta \<Rightarrow> packer res" where
  "retire ss_of p x =
     rbind (remove_free ss_of x p) (\<lambda>p.
     let p = add_schedulable (tid x) (- 1) p;
         newly = (schedulable_count_by_tid p (tid x) = 0 \<and> next_batch_tid p < pk_num_threads p);
         p = (if newly then p\<lparr>next_batch_tid := next_batch_tid p + 1\<rparr> else p) in
     rbind (foldM (unlock ss_of) (after x) p) (\<lambda>p.
       if newly then fall_down_to_free ss_of p else Inr p))"

section \<open>Issuing\<close>

definition serialize_param :: "scratch_space \<Rightarrow> int \<Rightarrow> param \<Rightarrow> int res" where
  "serialize_param ss sl q = (case q of Op r \<Rightarrow> op_addr ss sl r | Imm v \<Rightarrow> Inr v)"

definition to_serialized :: "packer \<Rightarrow> logical_instr \<Rightarrow> int \<Rightarrow> (engine \<times> slot) res" where
  "to_serialized p l sl =
     rbind (mapM (serialize_param (pk_ss p) sl) (lin_params l)) (\<lambda>as.
       Inr (lin_engine l, (lin_opcode l, as)))"

definition obtain_step ::
  "packer \<Rightarrow> engine \<Rightarrow> nat \<times> (engine \<times> slot) list \<times> imeta list \<Rightarrow> imeta \<Rightarrow>
     (nat \<times> (engine \<times> slot) list \<times> imeta list) res" where
  "obtain_step p e st x =
     (case st of (rem_slots, ret, to_retire) \<Rightarrow>
        if rem_slots > 0 \<and> lin_engine (lin x) = e then
          rbind (work_slot_of (tid x) (pk_conc_threads p)) (\<lambda>sl.
          rbind (to_serialized p (lin x) sl) (\<lambda>s.
            Inr (rem_slots - 1, ret @ [s], to_retire @ [x])))
        else Inr st)"

definition obtain_for_engine ::
  "packer \<Rightarrow> engine \<Rightarrow> nat \<Rightarrow> ((engine \<times> slot) list \<times> imeta list) res" where
  "obtain_for_engine p e slots =
     rbind (foldM (obtain_step p e) (free p) (slots, [], [])) (\<lambda>(_, ret, to_retire). Inr (ret, to_retire))"

section \<open>Splitting\<close>

definition part :: "imeta \<Rightarrow> logical_instr \<Rightarrow> nat list \<Rightarrow> imeta res" where
  "part x l af = instr_meta (instid x) l (tid x) (instid_in_thread x) af INFINITE_SET"

text \<open>
  The four lines all splits end with: every successor waits for \<open>VLEN - 1\<close> more instructions, and
  the parts take the place of the instruction.
\<close>

definition put_parts :: "sorted_set_of \<Rightarrow> imeta \<Rightarrow> imeta list \<Rightarrow> packer \<Rightarrow> packer res" where
  "put_parts ss_of x parts p =
     rbind (foldM (add_incount (int VLEN - 1)) (after x) p) (\<lambda>p.
     rbind (remove_free ss_of x p) (\<lambda>p.
       Inr (add_schedulable (tid x) (int VLEN - 1) (fold (add_free ss_of) parts p))))"

definition lane3 :: "engine \<Rightarrow> string \<Rightarrow> logical_op \<Rightarrow> logical_op \<Rightarrow> logical_op \<Rightarrow> int \<Rightarrow> logical_instr res" where
  "lane3 e op d a b i =
     rbind (scalar_at_offset d i) (\<lambda>d'.
     rbind (scalar_at_offset a i) (\<lambda>a'.
     rbind (scalar_at_offset b i) (\<lambda>b'.
       Inr \<lparr>lin_engine = e, lin_opcode = op, lin_params = [Op d', Op a', Op b']\<rparr>)))"

definition split_one_free_valu_to_alu :: "sorted_set_of \<Rightarrow> imeta \<Rightarrow> packer \<Rightarrow> packer res" where
  "split_one_free_valu_to_alu ss_of x p =
     (let regs = registers x in
      rbind (check AssertionError (length regs = 3)) (\<lambda>_.
      rbind (check AssertionError (list_all (\<lambda>r. is_array_op r \<or> op_offset r = 0) regs)) (\<lambda>_.
      rbind (mapM (\<lambda>i. rbind (lane3 ALU (opcode x) (regs ! 0) (regs ! 1) (regs ! 2) i)
                         (\<lambda>l. part x l (after x))) lanes) (\<lambda>nmetas.
      rbind (put_parts ss_of x nmetas p) (\<lambda>p. Inr (count_split (opcode x) p))))))"

definition split_one_free_multiply_add ::
  "sorted_set_of \<Rightarrow> nat heap_ops \<Rightarrow> imeta \<Rightarrow> packer \<Rightarrow> (bool \<times> packer) res" where
  "split_one_free_multiply_add ss_of hp x p =
     (let regs = registers x; dest = regs ! 0; a = regs ! 1; b = regs ! 2; c = regs ! 3;
          clen = length (pk_imetas p) in
      rbind (check AssertionError (opcode x = ''multiply_add'')) (\<lambda>_.
      rbind (check AssertionError (length regs = 4)) (\<lambda>_.
      rbind (check AssertionError (list_all (\<lambda>r. op_offset r = 0) regs)) (\<lambda>_.
      rbind (work_slot_of (tid x) (pk_conc_threads p)) (\<lambda>sl.
      rbind (overlaps (pk_ss p) sl dest c) (\<lambda>ov.
      if ov then Inr (False, p)
      else
        rbind (mapM (\<lambda>i. rbind (lane3 ALU ''*'' dest a b i)
                  (\<lambda>l. part x l (heap_initial hp [clen + nat i]))) lanes) (\<lambda>first.
        rbind (mapM (\<lambda>i. rbind (lane3 ALU ''+'' dest dest c i)
                  (\<lambda>l. part (x\<lparr>instid := int clen + i\<rparr>) l (after x))) lanes) (\<lambda>second.
        rbind (put_parts ss_of x first
                 (p\<lparr>pk_imetas := pk_imetas p @ second, incount := incount p @ replicate VLEN 1\<rparr>)) (\<lambda>p.
          Inr (True, count_split (opcode x) p))))))))))"

definition split_one_free_broadcast ::
  "sorted_set_of \<Rightarrow> imeta \<Rightarrow> packer \<Rightarrow> (bool \<times> packer) res" where
  "split_one_free_broadcast ss_of x p =
     (let regs = registers x; dest = regs ! 0; src = regs ! 1 in
      rbind (check AssertionError (opcode x = ''vbroadcast'')) (\<lambda>_.
      rbind (check AssertionError (length regs = 2)) (\<lambda>_.
      rbind (work_slot_of (tid x) (pk_conc_threads p)) (\<lambda>sl.
      rbind (overlaps (pk_ss p) sl dest src) (\<lambda>ov.
      if ov then Inr (False, p)
      else
        rbind (mapM (\<lambda>i. rbind (scalar_at_offset dest i) (\<lambda>d.
                  part x \<lparr>lin_engine = ALU, lin_opcode = ''|'', lin_params = [Op d, Op src, Op src]\<rparr> (after x)))
                 lanes) (\<lambda>nmetas.
        rbind (put_parts ss_of x nmetas p) (\<lambda>p. Inr (True, count_split (opcode x) p))))))))"

text \<open>
  What an iteration over \<open>free\<close> that has yielded \<open>x\<close> goes on with: the rest of it when \<open>free\<close> is
  unchanged, whatever the package does when it is not.
\<close>

definition iter_rest ::
  "sorted_set_of \<Rightarrow> packer \<Rightarrow> imeta \<Rightarrow> imeta list \<Rightarrow> packer \<Rightarrow> imeta list res" where
  "iter_rest ss_of p x rest p' =
     (if free p' = free p then Inr rest else heap_rest (free_ops ss_of p) x rest (free p'))"

text \<open>
  The first loop of \<open>__split_valu_into_alu\<close> iterates over \<open>free\<close> while it splits elements of it.
\<close>

function split_valu_loop ::
  "sorted_set_of \<Rightarrow> imeta list \<Rightarrow> int \<Rightarrow> imeta list \<Rightarrow> packer \<times> int \<times> imeta list \<times> imeta list \<Rightarrow>
     (packer \<times> int \<times> imeta list \<times> imeta list) res" where
  "split_valu_loop ss_of taken to_split [] st = Inr st"
| "split_valu_loop ss_of taken to_split (x # rest) (p, so_far, mul_adds, broadcasts) =
     (if so_far \<ge> to_split then Inr (p, so_far, mul_adds, broadcasts)
      else if lin_engine (lin x) \<noteq> VALU \<or> x \<in> set taken
      then split_valu_loop ss_of taken to_split rest (p, so_far, mul_adds, broadcasts)
      else if opcode x = ''multiply_add''
      then split_valu_loop ss_of taken to_split rest (p, so_far, mul_adds @ [x], broadcasts)
      else if opcode x = ''vbroadcast''
      then split_valu_loop ss_of taken to_split rest (p, so_far, mul_adds, broadcasts @ [x])
      else if length (opcode x) > 5
      then split_valu_loop ss_of taken to_split rest (p, so_far, mul_adds, broadcasts)
      else rbind (split_one_free_valu_to_alu ss_of x p) (\<lambda>p'.
           rbind (iter_rest ss_of p x rest p') (\<lambda>rest'.
             split_valu_loop ss_of taken to_split rest' (p', so_far + 1, mul_adds, broadcasts))))"
  by pat_completeness auto
termination
  by (relation "measures [\<lambda>(S, taken, n, rest, p, k, ms, bs). nat (n - k),
        \<lambda>(S, taken, n, rest, p, k, ms, bs). length rest]") auto

fun split_deferred ::
  "(imeta \<Rightarrow> packer \<Rightarrow> (bool \<times> packer) res) \<Rightarrow> int \<Rightarrow> imeta list \<Rightarrow> packer \<times> int \<Rightarrow> (packer \<times> int) res" where
  "split_deferred sp to_split [] st = Inr st"
| "split_deferred sp to_split (x # xs) (p, so_far) =
     (if so_far \<ge> to_split then Inr (p, so_far)
      else rbind (sp x p) (\<lambda>(done, p').
             split_deferred sp to_split xs (p', if done then so_far + 1 else so_far)))"

definition split_valu_into_alu ::
  "sorted_set_of \<Rightarrow> nat heap_ops \<Rightarrow> nat \<Rightarrow> imeta list \<Rightarrow> packer \<Rightarrow> packer res" where
  "split_valu_into_alu ss_of hp alu_slots taken p =
     (let to_split = int ((alu_slots + VLEN - 1) div VLEN) in
      rbind (split_valu_loop ss_of taken to_split (free p) (p, 0, [], [])) (\<lambda>(p, so_far, mul_adds, broadcasts).
      rbind (split_deferred (split_one_free_broadcast ss_of) to_split broadcasts (p, so_far)) (\<lambda>(p, so_far).
      rbind (split_deferred (split_one_free_multiply_add ss_of hp) to_split mul_adds (p, so_far)) (\<lambda>(p, _).
        Inr p))))"

definition split_one_vector_imm_add :: "sorted_set_of \<Rightarrow> imeta \<Rightarrow> packer \<Rightarrow> packer res" where
  "split_one_vector_imm_add ss_of x p =
     (let regs = registers x in
      rbind (check AssertionError (length regs = 3)) (\<lambda>_.
      rbind (foldM (\<lambda>stop r. if stop then Inr True
               else rbind (check AssertionError (op_is_vector r)) (\<lambda>_. Inr (is_array_op r))) regs False) (\<lambda>stop.
      if stop then Inr p
      else
        rbind (is_vector_constant (pk_ss p) (regs ! 2)) (\<lambda>c.
        rbind (check AssertionError c) (\<lambda>_.
        rbind (mapM (\<lambda>i.
                 rbind (scalar_at_offset (regs ! 0) i) (\<lambda>d.
                 rbind (scalar_at_offset (regs ! 1) i) (\<lambda>a.
                 rbind (constant_value (pk_ss p) (regs ! 2)) (\<lambda>v.
                   part x \<lparr>lin_engine = FLOW, lin_opcode = ''add_imm'', lin_params = [Op d, Op a, Imm v]\<rparr>
                     (after x))))) lanes) (\<lambda>nmetas.
          put_parts ss_of x nmetas p))))))"

definition convert_one_scalar_imm_add :: "sorted_set_of \<Rightarrow> imeta \<Rightarrow> packer \<Rightarrow> packer res" where
  "convert_one_scalar_imm_add ss_of x p =
     (let regs = registers x in
      rbind (check AssertionError (length regs = 3)) (\<lambda>_.
      rbind (check AssertionError (list_all (\<lambda>r. \<not> op_is_vector r) regs)) (\<lambda>_.
      rbind (is_scalar_constant (pk_ss p) (regs ! 2)) (\<lambda>c.
      rbind (check AssertionError c) (\<lambda>_.
      rbind (constant_value (pk_ss p) (regs ! 2)) (\<lambda>v.
      rbind (part x \<lparr>lin_engine = FLOW, lin_opcode = ''add_imm'',
                      lin_params = [Op (regs ! 0), Op (regs ! 1), Imm v]\<rparr> (after x)) (\<lambda>nmeta.
      rbind (remove_free ss_of x p) (\<lambda>p. Inr (add_free ss_of nmeta p)))))))))"

function split_add_loop ::
  "sorted_set_of \<Rightarrow> imeta list \<Rightarrow> int \<Rightarrow> imeta list \<Rightarrow> packer \<times> int \<Rightarrow> packer res" where
  "split_add_loop ss_of taken to_split [] (p, so_far) = Inr p"
| "split_add_loop ss_of taken to_split (x # rest) (p, so_far) =
     (if so_far \<ge> to_split then Inr p
      else if x \<in> set taken then split_add_loop ss_of taken to_split rest (p, so_far)
      else rbind (is_vector_imm_add (pk_ss p) x) (\<lambda>vec.
        if vec then
          rbind (split_one_vector_imm_add ss_of x p) (\<lambda>p'.
          rbind (iter_rest ss_of p x rest p') (\<lambda>rest'.
            split_add_loop ss_of taken to_split rest' (p', so_far + 1)))
        else rbind (is_scalar_imm_add (pk_ss p) x) (\<lambda>sc.
          if sc then
            rbind (convert_one_scalar_imm_add ss_of x p) (\<lambda>p'.
            rbind (iter_rest ss_of p x rest p') (\<lambda>rest'.
              split_add_loop ss_of taken to_split rest' (p', so_far + 1)))
          else split_add_loop ss_of taken to_split rest (p, so_far))))"
  by pat_completeness auto
termination
  by (relation "measures [\<lambda>(S, taken, n, rest, p, k). nat (n - k), \<lambda>(S, taken, n, rest, p, k). length rest]") auto

definition split_add_into_imm :: "sorted_set_of \<Rightarrow> nat \<Rightarrow> imeta list \<Rightarrow> packer \<Rightarrow> packer res" where
  "split_add_into_imm ss_of flow_slots taken p =
     split_add_loop ss_of taken (int ((flow_slots + VLEN - 1) div VLEN)) (free p) (p, 0)"

section \<open>One bundle\<close>

definition have_more :: "sorted_set_of \<Rightarrow> packer \<Rightarrow> (bool \<times> packer) res" where
  "have_more ss_of p =
     (if length (free p) > 0 then Inr (True, p)
      else if length (frontier p) > 0 then
        rbind (fall_down_to_free ss_of p) (\<lambda>p. Inr (length (free p) > 0, p))
      else Inr (False, p))"

definition take_engine ::
  "sorted_set_of \<Rightarrow> nat heap_ops \<Rightarrow> packer \<times> instr \<times> imeta list \<Rightarrow> engine \<Rightarrow>
     (packer \<times> instr \<times> imeta list) res" where
  "take_engine ss_of hp st e =
     (case st of (p, insts, to_retire) \<Rightarrow>
        rbind (obtain_for_engine p e (SLOT_LIMITS e)) (\<lambda>(cur, done).
        let rem_slots = SLOT_LIMITS e - length cur in
        rbind (if e = ALU \<and> rem_slots > 0 then
                 rbind (split_valu_into_alu ss_of hp rem_slots to_retire p) (\<lambda>p.
                 rbind (obtain_for_engine p e (SLOT_LIMITS e)) (\<lambda>cd. Inr (p, cd)))
               else if e = FLOW \<and> rem_slots > 0 then
                 rbind (split_add_into_imm ss_of rem_slots to_retire p) (\<lambda>p.
                 rbind (obtain_for_engine p e (SLOT_LIMITS e)) (\<lambda>cd. Inr (p, cd)))
               else Inr (p, (cur, done))) (\<lambda>(p, (cur, done)).
          Inr (p, insts @ [Group e (map snd cur)], to_retire @ done))))"

text \<open>The bundle, the instructions it retires, and the state after it.\<close>

definition take_traced ::
  "sorted_set_of \<Rightarrow> nat heap_ops \<Rightarrow> packer \<Rightarrow> (instr \<times> imeta list \<times> packer) res" where
  "take_traced ss_of hp p =
     rbind (foldM (take_engine ss_of hp) EX_UNITS (p\<lparr>cycle_number := cycle_number p + 1\<rparr>, [], []))
       (\<lambda>(p, insts, to_retire).
     rbind (foldM (retire ss_of) to_retire p) (\<lambda>p. Inr (insts, to_retire, p)))"

definition take_bundle :: "sorted_set_of \<Rightarrow> nat heap_ops \<Rightarrow> packer \<Rightarrow> (instr \<times> packer) res" where
  "take_bundle ss_of hp p = rbind (take_traced ss_of hp p) (\<lambda>(insts, _, p). Inr (insts, p))"

text \<open>\<open>work_to_instrs\<close>: the loop of \<open>kernel_builder.py\<close>; \<open>None\<close> stands for a loop that does not end.\<close>

partial_function (option) work_loop ::
  "sorted_set_of \<Rightarrow> nat heap_ops \<Rightarrow> packer \<Rightarrow> instr list \<Rightarrow> (instr list \<times> packer) res option" where
  "work_loop ss_of hp p insts =
     (case have_more ss_of p of
        Inl e \<Rightarrow> Some (Inl e)
      | Inr bp \<Rightarrow>
          if fst bp then
            (case take_bundle ss_of hp (snd bp) of
               Inl e \<Rightarrow> Some (Inl e)
             | Inr ip \<Rightarrow> work_loop ss_of hp (snd ip) (insts @ [fst ip]))
          else Some (Inr (insts, snd bp)))"

declare work_loop.simps [code]

definition work_to_instrs ::
  "sorted_set_of \<Rightarrow> nat heap_ops \<Rightarrow> packer \<Rightarrow> (instr list \<times> packer) res option" where
  "work_to_instrs ss_of hp p = work_loop ss_of hp p []"

end
