(* ===== verification/Unfolding.thy ===== *)
theory Unfolding
  imports Packer
begin

text \<open>
  What the splits of the scheduler do to one instruction, as a relation on instructions: the parts
  that take its place among the issuable ones, and the new positions that wait for them. It is the
  specification the packing loop is proved against, and the input of the semantic argument.
\<close>

section \<open>Parts\<close>

definition part_at :: "imeta \<Rightarrow> logical_instr \<Rightarrow> nat list \<Rightarrow> imeta" where
  "part_at x l af = \<lparr>instid = instid x, lin = l, tid = tid x, instid_in_thread = instid_in_thread x, after = af,
     tidrange = INFINITE_SET\<rparr>"

definition alu_part :: "string \<Rightarrow> logical_op list \<Rightarrow> logical_instr" where
  "alu_part op ps = \<lparr>lin_engine = ALU, lin_opcode = op, lin_params = map Op ps\<rparr>"

definition imm_part :: "logical_op \<Rightarrow> logical_op \<Rightarrow> int \<Rightarrow> logical_instr" where
  "imm_part d a v = \<lparr>lin_engine = FLOW, lin_opcode = ''add_imm'', lin_params = [Op d, Op a, Imm v]\<rparr>"

lemma part_at_sel [simp]:
  "instid (part_at x l af) = instid x" "lin (part_at x l af) = l" "tid (part_at x l af) = tid x"
  "after (part_at x l af) = af"
  by (simp_all add: part_at_def)

lemma parts_sel [simp]:
  "lin_engine (alu_part op ps) = ALU" "lin_opcode (alu_part op ps) = op" "lin_params (alu_part op ps) = map Op ps"
  "lin_engine (imm_part d a v) = FLOW" "lin_opcode (imm_part d a v) = ''add_imm''"
  "lin_params (imm_part d a v) = [Op d, Op a, Imm v]"
  by (simp_all add: alu_part_def imm_part_def)

lemma part_iff:
  "part x l af = Inr y \<longleftrightarrow> (tid x = - 2 \<or> tid x \<in> INFINITE_SET) \<and>
     y = \<lparr>instid = instid x, lin = l, tid = tid x, instid_in_thread = instid_in_thread x, after = af,
          tidrange = INFINITE_SET\<rparr>"
  by (auto simp: part_def instr_meta_def res_elims)

lemma part_InrD: "part x l af = Inr y \<Longrightarrow> y = part_at x l af"
  by (simp add: part_iff part_at_def)

lemma lane3_Inr:
  assumes "lane3 e op d a b i = Inr l"
  obtains d' a' b' where "scalar_at_offset d i = Inr d'" "scalar_at_offset a i = Inr a'"
    "scalar_at_offset b i = Inr b'"
    "l = \<lparr>lin_engine = e, lin_opcode = op, lin_params = [Op d', Op a', Op b']\<rparr>"
  using assms by (auto simp: lane3_def res_elims)

lemma lane3_lane:
  "k < VLEN \<Longrightarrow> lane3 ALU op d a b (int k) = Inr (alu_part op [lane d k, lane a k, lane b k])"
  by (simp add: lane3_def scalar_at_offset_lane alu_part_def)

lemma lanes_int: "lanes = map int [0..<VLEN]"
  by (simp add: lanes_def)

lemma mapM_lane_parts:
  assumes "mapM f lanes = Inr ys" and "\<And>k y. k < VLEN \<Longrightarrow> f (int k) = Inr y \<Longrightarrow> y = g k"
  shows "ys = map g [0..<VLEN]"
proof (rule nth_equalityI)
  show "length ys = length (map g [0..<VLEN])" using assms(1) by (simp add: mapM_Inr_iff)
  fix k assume "k < length ys"
  then have k: "k < VLEN" using assms(1) by (simp add: mapM_Inr_iff)
  then have "f (int k) = Inr (ys ! k)" using assms(1) by (simp add: mapM_Inr_iff lanes_int)
  with assms(2) [OF k] k show "ys ! k = map g [0..<VLEN] ! k" by simp
qed

lemma mapM_each: "mapM f xs = Inr ys \<Longrightarrow> x \<in> set xs \<Longrightarrow> (\<And>y. f x = Inr y \<Longrightarrow> P) \<Longrightarrow> P"
  by (induction xs arbitrary: ys) (auto simp: res_elims)

section \<open>The splits as a relation\<close>

definition at_start :: "logical_op \<Rightarrow> bool" where
  "at_start r \<longleftrightarrow> is_array_op r \<or> op_offset r = 0"

inductive unfolds :: "scratch_space \<Rightarrow> int \<Rightarrow> nat \<Rightarrow> imeta \<Rightarrow> imeta list \<Rightarrow> imeta list \<Rightarrow> bool"
  for ss c n x where
  to_alu: "lin_engine (lin x) = VALU \<Longrightarrow> registers x = [d, a, b] \<Longrightarrow> list_all at_start [d, a, b] \<Longrightarrow>
    unfolds ss c n x
      (map (\<lambda>k. part_at x (alu_part (opcode x) [lane d k, lane a k, lane b k]) (after x)) [0..<VLEN]) []"
| broadcast_to_alu: "lin_engine (lin x) = VALU \<Longrightarrow> opcode x = ''vbroadcast'' \<Longrightarrow> registers x = [d, a] \<Longrightarrow>
    overlaps ss (tid x mod c) d a = Inr False \<Longrightarrow>
    unfolds ss c n x (map (\<lambda>k. part_at x (alu_part ''|'' [lane d k, a, a]) (after x)) [0..<VLEN]) []"
| to_imm: "lin_engine (lin x) = VALU \<Longrightarrow> opcode x = ''+'' \<Longrightarrow> registers x = [d, a, w] \<Longrightarrow>
    list_all op_is_vector [d, a, w] \<Longrightarrow> list_all (\<lambda>r. \<not> is_array_op r) [d, a, w] \<Longrightarrow>
    is_vector_constant ss w = Inr True \<Longrightarrow> constant_value ss w = Inr v \<Longrightarrow>
    unfolds ss c n x (map (\<lambda>k. part_at x (imm_part (lane d k) (lane a k) v) (after x)) [0..<VLEN]) []"
| scalar_to_imm: "lin_engine (lin x) = ALU \<Longrightarrow> opcode x = ''+'' \<Longrightarrow> registers x = [d, a, w] \<Longrightarrow>
    list_all (\<lambda>r. \<not> op_is_vector r) [d, a, w] \<Longrightarrow> is_scalar_constant ss w = Inr True \<Longrightarrow>
    constant_value ss w = Inr v \<Longrightarrow> unfolds ss c n x [part_at x (imm_part d a v) (after x)] []"
| mul_add_to_alu: "lin_engine (lin x) = VALU \<Longrightarrow> opcode x = ''multiply_add'' \<Longrightarrow> registers x = [d, a, b, w] \<Longrightarrow>
    list_all (\<lambda>r. op_offset r = 0) [d, a, b, w] \<Longrightarrow> overlaps ss (tid x mod c) d w = Inr False \<Longrightarrow>
    (\<And>k. k < VLEN \<Longrightarrow> set (aft k) = {n + k}) \<Longrightarrow>
    unfolds ss c n x
      (map (\<lambda>k. part_at x (alu_part ''*'' [lane d k, lane a k, lane b k]) (aft k)) [0..<VLEN])
      (map (\<lambda>k. part_at (x\<lparr>instid := int (n + k)\<rparr>) (alu_part ''+'' [lane d k, lane d k, lane w k]) (after x)) [0..<VLEN])"

lemma unfolds_engine: "unfolds ss c n x parts new \<Longrightarrow> lin_engine (lin x) = VALU \<or> lin_engine (lin x) = ALU"
  by (erule unfolds.cases) simp_all

text \<open>What the operations compute are unfoldings.\<close>

lemma three: "length xs = 3 \<Longrightarrow> (\<And>a b c. xs = [a, b, c] \<Longrightarrow> P) \<Longrightarrow> P"
  by (auto simp: numeral_3_eq_3 length_Suc_conv)

lemma valu_unfolds:
  assumes "lin_engine (lin x) = VALU" "length (registers x) = 3"
    and "list_all (\<lambda>r. is_array_op r \<or> op_offset r = 0) (registers x)"
    and "mapM (\<lambda>i. rbind (lane3 ALU (opcode x) (registers x ! 0) (registers x ! 1) (registers x ! 2) i)
      (\<lambda>l. part x l (after x))) lanes = Inr nmetas"
  shows "unfolds ss c n x nmetas []"
proof -
  obtain d a b where r: "registers x = [d, a, b]" using assms(2) by (rule three)
  have "nmetas = map (\<lambda>k. part_at x (alu_part (opcode x) [lane d k, lane a k, lane b k]) (after x)) [0..<VLEN]"
    by (rule mapM_lane_parts [OF assms(4)]) (auto simp: r lane3_lane dest!: part_InrD)
  then show ?thesis using to_alu [OF assms(1) r] assms(3) r by (simp add: at_start_def)
qed

lemma broadcast_unfolds:
  assumes "lin_engine (lin x) = VALU" "opcode x = ''vbroadcast''" "length (registers x) = 2"
    and "overlaps ss (tid x mod c) (registers x ! 0) (registers x ! 1) = Inr False"
    and "mapM (\<lambda>i. rbind (scalar_at_offset (registers x ! 0) i) (\<lambda>d.
      part x \<lparr>lin_engine = ALU, lin_opcode = ''|'', lin_params = [Op d, Op (registers x ! 1), Op (registers x ! 1)]\<rparr>
        (after x))) lanes = Inr nmetas"
  shows "unfolds ss c n x nmetas []"
proof -
  obtain d a where r: "registers x = [d, a]" using assms(3) by (auto simp: numeral_2_eq_2 length_Suc_conv)
  have "nmetas = map (\<lambda>k. part_at x (alu_part ''|'' [lane d k, a, a]) (after x)) [0..<VLEN]"
    by (rule mapM_lane_parts [OF assms(5)]) (auto simp: r scalar_at_offset_lane alu_part_def dest!: part_InrD)
  then show ?thesis using broadcast_to_alu [OF assms(1,2) r] assms(4) r by simp
qed

lemma vector_imm_unfolds:
  assumes "is_vector_imm_add ss x = Inr True" "list_all (\<lambda>r. \<not> is_array_op r) (registers x)"
    and "mapM (\<lambda>i. rbind (scalar_at_offset (registers x ! 0) i) (\<lambda>d.
      rbind (scalar_at_offset (registers x ! 1) i) (\<lambda>a. rbind (constant_value ss (registers x ! 2)) (\<lambda>v.
        part x \<lparr>lin_engine = FLOW, lin_opcode = ''add_imm'', lin_params = [Op d, Op a, Imm v]\<rparr> (after x))))) lanes
      = Inr nmetas"
  shows "unfolds ss c n x nmetas []"
proof -
  from assms(1) have x: "lin_engine (lin x) = VALU" "opcode x = ''+''" "length (registers x) = 3"
    "list_all op_is_vector (registers x)" "is_vector_constant ss (registers x ! 2) = Inr True"
    by (auto simp: is_vector_imm_add_def Let_def opcode_def list_all_iff list_ex_iff split: if_splits)
  obtain d a w where r: "registers x = [d, a, w]" using x(3) by (rule three)
  have "0 \<in> set lanes" by (simp add: lanes_def VLEN_def)
  then obtain y where "rbind (scalar_at_offset (registers x ! 0) 0) (\<lambda>d.
      rbind (scalar_at_offset (registers x ! 1) 0) (\<lambda>a. rbind (constant_value ss (registers x ! 2)) (\<lambda>v.
        part x \<lparr>lin_engine = FLOW, lin_opcode = ''add_imm'', lin_params = [Op d, Op a, Imm v]\<rparr> (after x)))) = Inr y"
    by (rule mapM_each [OF assms(3)])
  then obtain v where v: "constant_value ss w = Inr v" by (auto simp: r res_elims)
  have "nmetas = map (\<lambda>k. part_at x (imm_part (lane d k) (lane a k) v) (after x)) [0..<VLEN]"
    by (rule mapM_lane_parts [OF assms(3)]) (auto simp: r scalar_at_offset_lane imm_part_def v dest!: part_InrD)
  then show ?thesis using to_imm [OF x(1,2) r _ _ _ v] x(4,5) assms(2) r by simp
qed

lemma scalar_imm_unfolds:
  assumes "is_scalar_imm_add ss x = Inr True" "constant_value ss (registers x ! 2) = Inr v"
    and "part x \<lparr>lin_engine = FLOW, lin_opcode = ''add_imm'',
      lin_params = [Op (registers x ! 0), Op (registers x ! 1), Imm v]\<rparr> (after x) = Inr y"
  shows "unfolds ss c n x [y] []"
proof -
  from assms(1) have x: "lin_engine (lin x) = ALU" "opcode x = ''+''" "length (registers x) = 3"
    "list_all (\<lambda>r. \<not> op_is_vector r) (registers x)" "is_scalar_constant ss (registers x ! 2) = Inr True"
    by (auto simp: is_scalar_imm_add_def Let_def opcode_def list_all_iff list_ex_iff split: if_splits)
  obtain d a w where r: "registers x = [d, a, w]" using x(3) by (rule three)
  have "y = part_at x (imm_part d a v) (after x)" using part_InrD [OF assms(3)] by (simp add: r imm_part_def)
  then show ?thesis using scalar_to_imm [OF x(1,2) r] x(4,5) assms(2) r by simp
qed

lemma mul_add_unfolds:
  assumes "lin_engine (lin x) = VALU" "opcode x = ''multiply_add''" "length (registers x) = 4"
    and "list_all (\<lambda>r. op_offset r = 0) (registers x)"
    and "overlaps ss (tid x mod c) (registers x ! 0) (registers x ! 3) = Inr False"
    and "mapM (\<lambda>i. rbind (lane3 ALU ''*'' (registers x ! 0) (registers x ! 1) (registers x ! 2) i)
      (\<lambda>l. part x l (aft (nat i)))) lanes = Inr first"
    and "mapM (\<lambda>i. rbind (lane3 ALU ''+'' (registers x ! 0) (registers x ! 0) (registers x ! 3) i)
      (\<lambda>l. part (x\<lparr>instid := int n + i\<rparr>) l (after x))) lanes = Inr second"
    and "\<And>k. k < VLEN \<Longrightarrow> set (aft k) = {n + k}"
  shows "unfolds ss c n x first second"
proof -
  obtain d a b w where r: "registers x = [d, a, b, w]" using assms(3) by (auto simp: eval_nat_numeral length_Suc_conv)
  have 1: "first = map (\<lambda>k. part_at x (alu_part ''*'' [lane d k, lane a k, lane b k]) (aft k)) [0..<VLEN]"
    by (rule mapM_lane_parts [OF assms(6)]) (auto simp: r lane3_lane dest!: part_InrD)
  have 2: "second = map (\<lambda>k. part_at (x\<lparr>instid := int (n + k)\<rparr>) (alu_part ''+'' [lane d k, lane d k, lane w k])
      (after x)) [0..<VLEN]"
    by (rule mapM_lane_parts [OF assms(7)]) (auto simp: r lane3_lane dest!: part_InrD)
  show ?thesis unfolding 1 2 by (rule mul_add_to_alu [OF assms(1,2) r]) (use assms(4,5,8) r in simp_all)
qed

end
