(* ===== verification/Packer_Props.thy ===== *)
theory Packer_Props
  imports Unfolding
begin

text \<open>
  The invariant of the scheduler. \<open>pending\<close> collects the instructions that are not yet issued: the
  free ones, the parked ones, and those still waiting. Every count in \<open>incount\<close> is the number of
  pending instructions that unlock the position, issuable instructions have count zero, and no
  instruction is pending twice. Every operation keeps it, the splits included, so an instruction is
  issued only after everything it depends on.
\<close>

section \<open>Pending instructions\<close>

definition waiting :: "packer \<Rightarrow> imeta multiset" where
  "waiting p = image_mset ((!) (pk_imetas p))
     (mset_set {i. i < length (pk_imetas p) \<and> incount p ! i > 0})"

definition pending :: "packer \<Rightarrow> imeta multiset" where
  "pending p = mset (free p) + mset (frontier p) + waiting p"

definition demand :: "imeta multiset \<Rightarrow> nat \<Rightarrow> int" where
  "demand M i = int (size (filter_mset (\<lambda>y. i \<in> set (after y)) M))"

definition part_key :: "imeta \<Rightarrow> int \<times> logical_op list" where
  "part_key y = (instid y, take 1 (registers y))"

definition pending_ok :: "nat \<Rightarrow> imeta multiset \<Rightarrow> bool" where
  "pending_ok n M \<longleftrightarrow>
     (\<forall>y \<in># M. 0 \<le> instid y \<and> instid y < int n \<and> distinct (after y) \<and> set (after y) \<subseteq> {..<n}) \<and>
     (\<forall>k. count (image_mset part_key M) k \<le> 1) \<and>
     (\<forall>y \<in># M. lin_engine (lin y) = VALU \<longrightarrow> (\<forall>z \<in># M. instid z = instid y \<longrightarrow> z = y))"

definition packer_inv :: "packer \<Rightarrow> (nat \<Rightarrow> int) \<Rightarrow> bool" where
  "packer_inv p e \<longleftrightarrow>
     length (incount p) = length (pk_imetas p) \<and>
     (\<forall>i < length (pk_imetas p). instid (pk_imetas p ! i) = int i) \<and>
     pending_ok (length (pk_imetas p)) (pending p) \<and>
     (\<forall>i < length (pk_imetas p). incount p ! i = demand (pending p) i + e i) \<and>
     (\<forall>y \<in> set (free p) \<union> set (frontier p). incount p ! nat (instid y) = 0) \<and>
     distinct (free p)"

abbreviation packer_ok :: "packer \<Rightarrow> bool" where
  "packer_ok p \<equiv> packer_inv p (\<lambda>_. 0)"

lemma demand_simps [simp]:
  "demand {#} i = 0"
  "demand (add_mset y M) i = demand M i + (if i \<in> set (after y) then 1 else 0)"
  "demand (M + N) i = demand M i + demand N i"
  by (simp_all add: demand_def)

lemma demand_nonneg [simp]: "0 \<le> demand M i"
  by (simp add: demand_def)

lemma demand_pos: "y \<in># M \<Longrightarrow> i \<in> set (after y) \<Longrightarrow> 0 < demand M i"
proof -
  assume "y \<in># M" and i: "i \<in> set (after y)"
  then obtain N where "M = add_mset y N" by (metis multi_member_split)
  with i demand_nonneg [of N i] show "0 < demand M i" by (simp del: demand_nonneg)
qed

lemma demand_zero: "demand M i = 0 \<longleftrightarrow> (\<forall>y \<in># M. i \<notin> set (after y))"
proof
  assume z: "demand M i = 0"
  show "\<forall>y \<in># M. i \<notin> set (after y)"
    using z demand_pos [of _ M i] by (metis less_irrefl)
next
  show "\<forall>y \<in># M. i \<notin> set (after y) \<Longrightarrow> demand M i = 0" by (induction M) auto
qed

lemma pending_ok_once:
  assumes "pending_ok n (add_mset x M)"
  shows "x \<notin># M" "part_key x \<notin> part_key ` set_mset M"
proof -
  have "count (image_mset part_key (add_mset x M)) (part_key x) \<le> 1"
    using assms by (simp only: pending_ok_def)
  then have "count (image_mset part_key M) (part_key x) = 0" by simp
  then have "part_key x \<notin> set_mset (image_mset part_key M)" by (simp only: count_eq_zero_iff not_False_eq_True)
  then show "part_key x \<notin> part_key ` set_mset M" "x \<notin># M" by auto
qed

lemma set_waiting:
  "set_mset (waiting p) = (!) (pk_imetas p) ` {i. i < length (pk_imetas p) \<and> incount p ! i > 0}"
  by (simp add: waiting_def)

lemma waiting_cong:
  assumes "pk_imetas p = pk_imetas q"
    and "\<And>i. i < length (pk_imetas q) \<Longrightarrow> incount p ! i > 0 \<longleftrightarrow> incount q ! i > 0"
  shows "waiting p = waiting q"
  unfolding waiting_def assms(1) using assms(2) by (metis (mono_tags, lifting) Collect_cong)

lemma waiting_done:
  assumes "pk_imetas q = pk_imetas p" and "i < length (pk_imetas p)" and "incount p ! i > 0"
    and "incount q ! i = 0" and "\<And>j. j \<noteq> i \<Longrightarrow> incount q ! j = incount p ! j"
  shows "waiting p = add_mset (pk_imetas p ! i) (waiting q)"
proof -
  let ?W = "\<lambda>p. {i. i < length (pk_imetas p) \<and> incount p ! i > 0}"
  have "j \<in> ?W p - {i} \<longleftrightarrow> j \<in> ?W q" for j
    using assms(1,4,5) by (cases "j = i") simp_all
  then have W: "?W p - {i} = ?W q" by blast
  have "i \<in> ?W p" "finite (?W p)" using assms(2,3) by simp_all
  from mset_set.remove [OF this(2,1)] have "mset_set (?W p) = add_mset i (mset_set (?W q))"
    unfolding W .
  then show ?thesis unfolding waiting_def assms(1) by simp
qed

lemma packer_invD:
  assumes "packer_inv p e"
  shows "length (incount p) = length (pk_imetas p)"
    "i < length (pk_imetas p) \<Longrightarrow> instid (pk_imetas p ! i) = int i"
    "pending_ok (length (pk_imetas p)) (pending p)"
    "i < length (pk_imetas p) \<Longrightarrow> incount p ! i = demand (pending p) i + e i"
    "y \<in> set (free p) \<or> y \<in> set (frontier p) \<Longrightarrow> incount p ! nat (instid y) = 0"
    "distinct (free p)"
  using assms by (auto simp: packer_inv_def)

lemma pending_okD:
  assumes "pending_ok n M" and "y \<in># M"
  shows "0 \<le> instid y" "instid y < int n" "nat (instid y) < n" "distinct (after y)"
    "i \<in> set (after y) \<Longrightarrow> i < n"
    "lin_engine (lin y) = VALU \<Longrightarrow> z \<in># M \<Longrightarrow> instid z = instid y \<Longrightarrow> z = y"
  using assms by (auto simp: pending_ok_def)

lemma in_pending:
  "y \<in> set (free p) \<Longrightarrow> y \<in># pending p" "y \<in> set (frontier p) \<Longrightarrow> y \<in># pending p"
  "y \<in># waiting p \<Longrightarrow> y \<in># pending p"
  by (simp_all add: pending_def)

section \<open>Single updates\<close>

lemma add_incount_eq:
  "idx < length (incount p) \<Longrightarrow> add_incount d p idx = Inr (p\<lparr>incount := (incount p)[idx := incount p ! idx + d]\<rparr>)"
  by (simp add: add_incount_def py_simps)

lemma add_incounts:
  assumes "distinct xs" and "set xs \<subseteq> {..<length (incount p)}"
  shows "\<exists>ic. foldM (add_incount d) xs p = Inr (p\<lparr>incount := ic\<rparr>) \<and> length ic = length (incount p) \<and>
    (\<forall>i < length (incount p). ic ! i = incount p ! i + (if i \<in> set xs then d else 0))"
  using assms
proof (induction xs arbitrary: p)
  case Nil
  show ?case by (auto intro: exI [of _ "incount p"])
next
  case (Cons x xs)
  let ?ic = "(incount p)[x := incount p ! x + d]"
  from Cons.prems have "add_incount d p x = Inr (p\<lparr>incount := ?ic\<rparr>)" by (simp add: add_incount_eq)
  moreover from Cons.IH [of "p\<lparr>incount := ?ic\<rparr>"] Cons.prems
  obtain ic where "foldM (add_incount d) xs (p\<lparr>incount := ?ic\<rparr>) = Inr (p\<lparr>incount := ic\<rparr>)"
    "length ic = length (incount p)"
    "\<forall>i < length (incount p). ic ! i = ?ic ! i + (if i \<in> set xs then d else 0)" by auto
  ultimately show ?case using Cons.prems by (auto simp: nth_list_update)
qed

lemma pending_ok_sub:
  assumes "pending_ok n (M + N)"
  shows "pending_ok n M"
proof -
  have "count (image_mset part_key M) k \<le> 1" for k
  proof -
    have "count (image_mset part_key (M + N)) k \<le> 1" using assms by (simp only: pending_ok_def)
    then show ?thesis by simp
  qed
  then show ?thesis using assms unfolding pending_ok_def by simp
qed

lemma pending_ok_twice: "pending_ok n (add_mset x (add_mset x M)) \<Longrightarrow> False"
  using pending_ok_once(1) [of n x "add_mset x M"] by simp

text \<open>The parts that replace a vector instruction: one per lane, unlocking what it unlocked.\<close>

definition parts_of :: "imeta \<Rightarrow> imeta list \<Rightarrow> bool" where
  "parts_of x parts \<longleftrightarrow> length parts = VLEN \<and> distinct (map part_key parts) \<and>
     (\<forall>y \<in> set parts. instid y = instid x \<and> lin_engine (lin y) \<noteq> VALU)"

lemma scalar_at_offset_inject:
  "scalar_at_offset r i = Inr q \<Longrightarrow> scalar_at_offset r j = Inr q \<Longrightarrow> i = j"
  by (cases r) (auto simp: scalar_at_offset_def logical_register_iff)

lemma mapM_parts:
  assumes "mapM f lanes = Inr parts"
    and part: "\<And>i y. f i = Inr y \<Longrightarrow> instid y = instid x \<and> lin_engine (lin y) \<noteq> VALU \<and>
      (\<exists>d. scalar_at_offset r i = Inr d \<and> take 1 (registers y) = [d])"
  shows "parts_of x parts"
proof -
  have len: "length parts = length lanes" and nth: "\<And>k. k < length lanes \<Longrightarrow> f (lanes ! k) = Inr (parts ! k)"
    using assms(1) by (simp_all add: mapM_Inr_iff)
  have "distinct (map part_key parts)"
    unfolding distinct_conv_nth
  proof (intro allI impI)
    fix i j assume ij: "i < length (map part_key parts)" "j < length (map part_key parts)" "i \<noteq> j"
    then have k: "i < length lanes" "j < length lanes" using len by simp_all
    obtain d where d: "scalar_at_offset r (lanes ! i) = Inr d" "take 1 (registers (parts ! i)) = [d]"
      using part [OF nth [OF k(1)]] by blast
    obtain e where e: "scalar_at_offset r (lanes ! j) = Inr e" "take 1 (registers (parts ! j)) = [e]"
      using part [OF nth [OF k(2)]] by blast
    have "d \<noteq> e"
    proof
      assume "d = e"
      then have "lanes ! i = lanes ! j" using scalar_at_offset_inject d(1) e(1) by blast
      moreover have "distinct lanes" by simp
      ultimately show False using k ij(3) nth_eq_iff_index_eq by blast
    qed
    then show "map part_key parts ! i \<noteq> map part_key parts ! j"
      using ij d(2) e(2) by (simp add: part_key_def)
  qed
  moreover have "\<forall>y \<in> set parts. instid y = instid x \<and> lin_engine (lin y) \<noteq> VALU"
    using part nth len by (metis in_set_conv_nth)
  moreover have "length lanes = VLEN" by simp
  ultimately show ?thesis using len by (simp add: parts_of_def)
qed

lemma parts_of_fresh:
  assumes "pending_ok n (add_mset x M)" and "lin_engine (lin x) = VALU" and "parts_of x parts"
  shows "y \<in># M \<Longrightarrow> instid y \<noteq> instid x" "set parts \<inter> set_mset (add_mset x M) = {}"
proof -
  have alone: "instid y \<noteq> instid x" if "y \<in># M" for y
  proof
    assume "instid y = instid x"
    then have "y = x" using pending_okD(6) [OF assms(1), of x y] assms(2) that by simp
    then show False using pending_ok_once(1) [OF assms(1)] that by simp
  qed
  then show "y \<in># M \<Longrightarrow> instid y \<noteq> instid x" .
  show "set parts \<inter> set_mset (add_mset x M) = {}"
    using assms(2,3) alone by (auto simp: parts_of_def)
qed

lemma count_distinct_le: "distinct xs \<Longrightarrow> count (mset xs) k \<le> 1"
  by (simp add: distinct_count_atmost_1)

lemma pending_ok_parts:
  assumes ok: "pending_ok n (add_mset x M)" and valu: "lin_engine (lin x) = VALU" and parts: "parts_of x parts"
    and aft: "\<forall>y \<in> set parts. distinct (after y) \<and> set (after y) \<subseteq> {..<n}"
  shows "pending_ok n (M + mset parts)"
proof -
  have M: "pending_ok n M" using pending_ok_sub [of n M "{#x#}"] ok by simp
  note fresh = parts_of_fresh(1) [OF ok valu parts]
  have x: "0 \<le> instid x" "instid x < int n" using pending_okD(1,2) [OF ok, of x] by simp_all
  have keys: "count (image_mset part_key (M + mset parts)) k \<le> 1" for k
  proof (cases "fst k = instid x")
    case True
    then have "k \<notin># image_mset part_key M" using fresh by (auto simp: part_key_def)
    then have "count (image_mset part_key M) k = 0" by (simp only: not_in_iff)
    moreover have "count (mset (map part_key parts)) k \<le> 1"
      by (rule count_distinct_le) (use parts in \<open>simp add: parts_of_def\<close>)
    ultimately show ?thesis by simp
  next
    case False
    then have "k \<notin># image_mset part_key (mset parts)" using parts by (auto simp: part_key_def parts_of_def)
    then have "count (image_mset part_key (mset parts)) k = 0" by (simp only: not_in_iff)
    moreover have "count (image_mset part_key M) k \<le> 1" using M by (simp only: pending_ok_def)
    ultimately show ?thesis by simp
  qed
  have valus: "z = y" if "y \<in># M + mset parts" "lin_engine (lin y) = VALU" "z \<in># M + mset parts"
      "instid z = instid y" for y z
  proof -
    have y: "y \<in># M" using that(1,2) parts by (auto simp: parts_of_def)
    then have "instid z \<noteq> instid x" using fresh that(4) by simp
    then have "z \<in># M" using that(3) parts by (auto simp: parts_of_def)
    then show ?thesis using pending_okD(6) [OF M y that(2)] that(4) by simp
  qed
  show ?thesis
    unfolding pending_ok_def
  proof (intro conjI ballI impI allI)
    fix y assume "y \<in># M + mset parts"
    then have "0 \<le> instid y \<and> instid y < int n \<and> distinct (after y) \<and> set (after y) \<subseteq> {..<n}"
      using M parts aft x by (auto simp: pending_ok_def parts_of_def)
    then show "0 \<le> instid y" "instid y < int n" "distinct (after y)" "set (after y) \<subseteq> {..<n}" by simp_all
  qed (rule keys, rule valus)
qed

lemma pending_ok_new:
  assumes ok: "pending_ok n M" and new: "\<And>k. k < length ys \<Longrightarrow> instid (ys ! k) = int (n + k)"
    and ys: "\<forall>y \<in> set ys. lin_engine (lin y) \<noteq> VALU \<and> distinct (after y) \<and> set (after y) \<subseteq> {..<n}"
  shows "pending_ok (n + length ys) (M + mset ys)"
proof -
  have fresh: "int n \<le> instid y \<and> instid y < int (n + length ys)" if "y \<in> set ys" for y
    using that new by (metis in_set_conv_nth le_add1 nat_add_left_cancel_less of_nat_le_iff of_nat_less_iff)
  have old: "instid y < int n" if "y \<in># M" for y using pending_okD(2) [OF ok that] .
  have "inj_on part_key (set ys)"
  proof (rule inj_onI)
    fix y z assume "y \<in> set ys" "z \<in> set ys" and k: "part_key y = part_key z"
    then obtain i j where i: "i < length ys" "y = ys ! i" "j < length ys" "z = ys ! j" by (metis in_set_conv_nth)
    with k new have "int (n + i) = int (n + j)" by (metis part_key_def prod.inject)
    with i show "y = z" by simp
  qed
  moreover have "distinct ys"
  proof (unfold distinct_conv_nth, intro allI impI)
    fix i j assume "i < length ys" "j < length ys" "i \<noteq> j"
    then have "instid (ys ! i) \<noteq> instid (ys ! j)" using new by simp
    then show "ys ! i \<noteq> ys ! j" by metis
  qed
  ultimately have dist: "distinct (map part_key ys)" by (simp add: distinct_map)
  have keys: "count (image_mset part_key (M + mset ys)) k \<le> 1" for k
  proof (cases "fst k < int n")
    case True
    then have "k \<notin># mset (map part_key ys)" using fresh by (fastforce simp: part_key_def)
    then have "count (mset (map part_key ys)) k = 0" by (simp only: not_in_iff)
    moreover have "count (image_mset part_key M) k \<le> 1" using ok by (simp only: pending_ok_def)
    ultimately show ?thesis by simp
  next
    case False
    then have "k \<notin># image_mset part_key M" using old by (auto simp: part_key_def)
    then have "count (image_mset part_key M) k = 0" by (simp only: not_in_iff)
    moreover have "count (mset (map part_key ys)) k \<le> 1" by (rule count_distinct_le [OF dist])
    ultimately show ?thesis by simp
  qed
  have valus: "z = y" if "y \<in># M + mset ys" "lin_engine (lin y) = VALU" "z \<in># M + mset ys"
      "instid z = instid y" for y z
  proof -
    have y: "y \<in># M" using that(1,2) ys by auto
    then have "z \<in># M" using that(3,4) old [OF y] fresh by fastforce
    then show ?thesis using pending_okD(6) [OF ok y that(2)] that(4) by simp
  qed
  show ?thesis
    unfolding pending_ok_def
  proof (intro conjI ballI impI allI)
    fix y assume y: "y \<in># M + mset ys"
    then consider "y \<in># M" | "y \<in> set ys" by auto
    then have "0 \<le> instid y \<and> instid y < int (n + length ys) \<and> distinct (after y) \<and>
        set (after y) \<subseteq> {..<n + length ys}"
    proof cases
      case 1
      then show ?thesis using pending_okD(1-5) [OF ok 1] by fastforce
    next
      case 2
      then show ?thesis using fresh [OF 2] ys by fastforce
    qed
    then show "0 \<le> instid y" "instid y < int (n + length ys)" "distinct (after y)"
      "set (after y) \<subseteq> {..<n + length ys}" by simp_all
  qed (rule keys, rule valus)
qed

lemma pending_ok_exchange:
  assumes ok: "pending_ok n (add_mset x M)" and x: "lin_engine (lin x) \<noteq> VALU"
    and y: "part_key y = part_key x" "after y = after x" "lin_engine (lin y) \<noteq> VALU"
  shows "pending_ok n (add_mset y M)"
proof -
  have i: "instid y = instid x" using y(1) by (simp add: part_key_def)
  have "count (image_mset part_key (add_mset y M)) k \<le> 1" for k
  proof -
    have "count (image_mset part_key (add_mset x M)) k \<le> 1" using ok by (simp only: pending_ok_def)
    then show ?thesis by (simp only: image_mset_add_mset y(1))
  qed
  moreover have "z = w" if "w \<in># add_mset y M" "lin_engine (lin w) = VALU" "z \<in># add_mset y M"
      "instid z = instid w" for w z
  proof -
    have w: "w \<in># M" using that(1,2) y(3) by auto
    have "z \<noteq> y"
    proof
      assume "z = y"
      then have "x = w" using pending_okD(6) [OF ok, of w x] that(2,4) w i by simp
      then show False using x that(2) by simp
    qed
    then show "z = w" using pending_okD(6) [OF ok, of w z] that w by simp
  qed
  ultimately show ?thesis using ok i y(2) unfolding pending_ok_def by simp
qed

lemma waiting_append:
  assumes "length (incount p) = length (pk_imetas p)"
  shows "waiting (p\<lparr>pk_imetas := pk_imetas p @ ys, incount := incount p @ replicate (length ys) 1\<rparr>) =
    waiting p + mset ys"
proof -
  let ?n = "length (pk_imetas p)" and ?m = "length ys"
  let ?W = "{i. i < ?n \<and> incount p ! i > 0}"
  have "{i. i < ?n + ?m \<and> (incount p @ replicate ?m 1) ! i > 0} = ?W \<union> {?n..<?n + ?m}"
    using assms by (auto simp: nth_append)
  moreover have "mset_set (?W \<union> {?n..<?n + ?m}) = mset_set ?W + mset_set {?n..<?n + ?m}"
    by (intro mset_set_Union) auto
  moreover have "image_mset ((!) (pk_imetas p @ ys)) (mset_set ?W) = image_mset ((!) (pk_imetas p)) (mset_set ?W)"
    by (intro image_mset_cong) (simp add: nth_append)
  moreover have "image_mset ((!) (pk_imetas p @ ys)) (mset_set {?n..<?n + ?m}) = mset ys"
  proof -
    have "map ((!) (pk_imetas p @ ys)) [?n..<?n + ?m] = ys"
      by (rule nth_equalityI) (simp_all add: nth_append)
    then show ?thesis by (metis mset_map mset_upt)
  qed
  ultimately show ?thesis by (simp add: waiting_def)
qed

lemma demand_chain:
  "(\<And>k. k < length xs \<Longrightarrow> set (after (xs ! k)) = {n + k}) \<Longrightarrow>
   demand (mset xs) i = (if n \<le> i \<and> i < n + length xs then 1 else 0)"
proof (induction xs rule: rev_induct)
  case (snoc x xs)
  have "set (after (xs ! k)) = {n + k}" if "k < length xs" for k
    using snoc.prems [of k] that by (simp add: nth_append)
  moreover have "set (after x) = {n + length xs}" using snoc.prems [of "length xs"] by simp
  ultimately show ?case using snoc.IH by auto
qed simp

lemma demand_parts:
  "\<forall>y \<in> set parts. after y = af \<Longrightarrow> demand (mset parts) i = (if i \<in> set af then int (length parts) else 0)"
  by (induction parts) auto

text \<open>
  What the scheduler never changes while it packs: its parameters; \<open>pk_imetas\<close> only ever grows, stays
  free of cycles, and a position nothing waits for any more stays so.
\<close>

definition graph_acyclic :: "imeta list \<Rightarrow> bool" where
  "graph_acyclic ims \<longleftrightarrow> (\<exists>r :: nat \<Rightarrow> nat. \<forall>i < length ims. \<forall>j \<in> set (after (ims ! i)). j < length ims \<and> r i < r j)"

lemma graph_acyclic_append:
  assumes "graph_acyclic ims" and "\<forall>z \<in> set zs. set (after z) \<subseteq> {..<length ims}"
  shows "graph_acyclic (ims @ zs)"
proof -
  from assms(1) obtain r :: "nat \<Rightarrow> nat" where r: "\<forall>i < length ims. \<forall>j \<in> set (after (ims ! i)). j < length ims \<and> r i < r j"
    by (auto simp: graph_acyclic_def)
  let ?r = "\<lambda>i. if i < length ims then Suc (r i) else 0"
  have "j < length (ims @ zs) \<and> ?r i < ?r j" if "i < length (ims @ zs)" "j \<in> set (after ((ims @ zs) ! i))" for i j
  proof (cases "i < length ims")
    case True
    then have "j \<in> set (after (ims ! i))" using that(2) by (simp add: nth_append)
    from r [rule_format, OF True this] True show ?thesis by simp
  next
    case False
    then have "(ims @ zs) ! i \<in> set zs" using that(1) by (simp add: nth_append)
    then have "j < length ims" using assms(2) that(2) by auto
    then show ?thesis using False by simp
  qed
  then show ?thesis
    unfolding graph_acyclic_def by (intro exI [of _ ?r] allI impI ballI)
qed

definition later :: "packer \<Rightarrow> packer \<Rightarrow> bool" where
  "later p q \<longleftrightarrow> pk_ss q = pk_ss p \<and> pk_num_threads q = pk_num_threads p \<and>
     pk_conc_threads q = pk_conc_threads p \<and>
     (\<exists>zs. pk_imetas q = pk_imetas p @ zs) \<and>
     (graph_acyclic (pk_imetas p) \<longrightarrow> graph_acyclic (pk_imetas q)) \<and>
     (\<forall>i < length (pk_imetas p). incount p ! i = 0 \<longrightarrow> incount q ! i = 0)"

lemma later_refl [simp]: "later p p"
  by (simp add: later_def)

lemma later_trans: "later p q \<Longrightarrow> later q r \<Longrightarrow> later p r"
  by (auto simp: later_def)

lemma laterI:
  "pk_ss q = pk_ss p \<Longrightarrow> pk_num_threads q = pk_num_threads p \<Longrightarrow> pk_conc_threads q = pk_conc_threads p \<Longrightarrow>
     pk_imetas q = pk_imetas p \<Longrightarrow>
     (\<And>i. i < length (pk_imetas p) \<Longrightarrow> incount p ! i = 0 \<Longrightarrow> incount q ! i = 0) \<Longrightarrow> later p q"
  by (simp add: later_def)

text \<open>
  What is left to do: a vector instruction counts more than the sixteen scalar ones it can become.
\<close>

definition weight_of :: "imeta \<Rightarrow> nat" where
  "weight_of y = (if lin_engine (lin y) = VALU then 2 * VLEN + 1 else 1)"

definition weight :: "packer \<Rightarrow> nat" where
  "weight p = sum_mset (image_mset weight_of (pending p))"

text \<open>
  The positions that still have work; and that every edge of the graph is still in force: a pending
  instruction either holds it itself or, after a multiply-add was split, through one other pending
  instruction that it unlocks. A split conserves both and never makes the work heavier.
\<close>

definition ids :: "packer \<Rightarrow> int set" where
  "ids p = instid ` set_mset (pending p)"

definition edge_held :: "imeta multiset \<Rightarrow> imeta \<Rightarrow> nat \<Rightarrow> bool" where
  "edge_held M y j \<longleftrightarrow> j \<in> set (after y) \<or>
     (\<exists>w \<in># M. nat (instid w) \<in> set (after y) \<and> j \<in> set (after w))"

definition edges_held :: "imeta list \<Rightarrow> imeta multiset \<Rightarrow> bool" where
  "edges_held ims M \<longleftrightarrow>
     (\<forall>y \<in># M. \<forall>j \<in> set (after (ims ! nat (instid y))). edge_held M y j) \<and>
     (\<forall>y \<in># M. lin_engine (lin y) = VALU \<longrightarrow> set (after (ims ! nat (instid y))) \<subseteq> set (after y))"

definition conserves :: "packer \<Rightarrow> packer \<Rightarrow> bool" where
  "conserves p q \<longleftrightarrow> weight q \<le> weight p \<and> ids p \<subseteq> ids q \<and>
     length (pk_imetas p) \<le> length (pk_imetas q) \<and> ids q \<subseteq> ids p \<union> {int (length (pk_imetas p))..} \<and>
     (edges_held (pk_imetas p) (pending p) \<longrightarrow> edges_held (pk_imetas q) (pending q))"

lemma conserves_refl [simp]: "conserves p p"
  by (simp add: conserves_def)

lemma conserves_trans: "conserves p q \<Longrightarrow> conserves q r \<Longrightarrow> conserves p r"
  unfolding conserves_def by force

text \<open>Nothing points to a free instruction, so it can be removed or replaced.\<close>

lemma edge_held_sub:
  assumes "edge_held (add_mset x M) y j" and "nat (instid x) \<notin> set (after y)" and "set_mset M \<subseteq> set_mset N"
  shows "edge_held N y j"
  using assms by (auto simp: edge_held_def)

lemma edges_held_exchange:
  assumes held: "edges_held ims (add_mset x M)" and none: "\<forall>y \<in># add_mset x M. nat (instid x) \<notin> set (after y)"
    and parts: "\<forall>y \<in> set parts. instid y = instid x \<and> set (after y) = set (after x) \<and> lin_engine (lin y) \<noteq> VALU"
  shows "edges_held ims (M + mset parts)"
proof -
  have old: "edge_held (M + mset parts) y j" if "y \<in># add_mset x M" "j \<in> set (after (ims ! nat (instid y)))" for y j
    by (rule edge_held_sub [where x = x and M = M]) (use held none that in \<open>auto simp: edges_held_def\<close>)
  have new: "edge_held (M + mset parts) y j" if "y \<in> set parts" "j \<in> set (after (ims ! nat (instid y)))" for y j
    using old [of x j] parts that by (simp add: edge_held_def)
  show ?thesis
    unfolding edges_held_def using old new held parts by (auto simp: edges_held_def)
qed

lemma edges_held_chain:
  assumes held: "edges_held ims (add_mset x M)" and none: "\<forall>y \<in># add_mset x M. nat (instid x) \<notin> set (after y)"
    and x: "lin_engine (lin x) = VALU" "nat (instid x) < length ims"
    and ids: "\<forall>y \<in># M. nat (instid y) < length ims"
    and first: "\<forall>y \<in> set first. instid y = instid x \<and> lin_engine (lin y) \<noteq> VALU \<and>
      (\<exists>w \<in> set second. nat (instid w) \<in> set (after y))"
    and second: "\<forall>k < length second. instid (second ! k) = int (length ims + k)"
    and after2: "\<forall>y \<in> set second. set (after y) = set (after x) \<and> lin_engine (lin y) \<noteq> VALU"
  shows "edges_held (ims @ second) (M + mset second + mset first)"
proof -
  let ?N = "M + mset second + mset first"
  have old: "edge_held ?N y j" if "y \<in># M" "j \<in> set (after ((ims @ second) ! nat (instid y)))" for y j
    by (rule edge_held_sub [where x = x and M = M])
      (use held none ids that in \<open>auto simp: edges_held_def nth_append\<close>)
  have new1: "edge_held ?N y j" if y: "y \<in> set first" and j: "j \<in> set (after ((ims @ second) ! nat (instid y)))" for y j
  proof -
    have "j \<in> set (after x)" using held x first y j by (auto simp: edges_held_def nth_append)
    moreover obtain w where w: "w \<in> set second" "nat (instid w) \<in> set (after y)" using first y by blast
    moreover have "set (after w) = set (after x)" using after2 w(1) by blast
    ultimately show ?thesis unfolding edge_held_def by auto
  qed
  have new2: "j \<in> set (after y)" if y: "y \<in> set second" and j: "j \<in> set (after ((ims @ second) ! nat (instid y)))" for y j
  proof -
    obtain k where "k < length second" "y = second ! k" using y by (metis in_set_conv_nth)
    moreover from this have "nat (instid y) = length ims + k" using second nat_int by metis
    ultimately have "(ims @ second) ! nat (instid y) = y" by (simp add: nth_append)
    with j show ?thesis by simp
  qed
  have valu: "set (after ((ims @ second) ! nat (instid y))) \<subseteq> set (after y)"
    if "y \<in># ?N" "lin_engine (lin y) = VALU" for y
  proof -
    have "y \<in># M" using that first after2 by auto
    then show ?thesis using held ids that(2) by (auto simp: edges_held_def nth_append)
  qed
  have "edge_held ?N y j" if "y \<in># ?N" "j \<in> set (after ((ims @ second) ! nat (instid y)))" for y j
    using that old [of y j] new1 [of y j] new2 [of y j] by (auto simp: edge_held_def)
  with valu show ?thesis unfolding edges_held_def by blast
qed

lemma free_unneeded:
  assumes "packer_ok p" and "x \<in> set (free p)"
  shows "\<forall>y \<in># pending p. nat (instid x) \<notin> set (after y)"
proof -
  note D = packer_invD [OF assms(1)]
  have "nat (instid x) < length (pk_imetas p)"
    using pending_okD(3) [OF D(3) in_pending(1) [OF assms(2)]] .
  then have "demand (pending p) (nat (instid x)) = 0" using D(4) D(5) [of x] assms(2) by simp
  then show ?thesis by (simp add: demand_zero)
qed

lemma weight_parts:
  "\<forall>y \<in> set parts. lin_engine (lin y) \<noteq> VALU \<Longrightarrow> sum_mset (image_mset weight_of (mset parts)) = length parts"
  by (induction parts) (auto simp: weight_of_def)

text \<open>
  \<open>replaced x p p'\<close>: the instruction \<open>x\<close> was free and its parts took its place; what they wait for
  was appended to the positions.
\<close>

definition unfolded :: "imeta \<Rightarrow> imeta list \<Rightarrow> packer \<Rightarrow> packer \<Rightarrow> bool" where
  "unfolded x parts p p' \<longleftrightarrow> (\<exists>new M. unfolds (pk_ss p) (pk_conc_threads p) (length (pk_imetas p)) x parts new \<and>
     pending p = add_mset x M \<and> pending p' = M + mset new + mset parts \<and> pk_imetas p' = pk_imetas p @ new)"

definition replaced :: "imeta \<Rightarrow> packer \<Rightarrow> packer \<Rightarrow> bool" where
  "replaced x p p' \<longleftrightarrow> packer_ok p' \<and> later p p' \<and> x \<in> set (free p) \<and>
     conserves p p' \<and>
     (\<exists>parts. parts \<noteq> [] \<and> set (free p') = set (free p) - {x} \<union> set parts \<and> unfolded x parts p p' \<and>
        (\<forall>y \<in> set parts. instid y = instid x \<and> lin_engine (lin y) \<noteq> VALU))"

text \<open>
  \<open>splits P p p'\<close>: \<open>p'\<close> came out of \<open>p\<close> by splits of instructions that satisfy \<open>P\<close>.
\<close>

inductive splits :: "(imeta \<Rightarrow> bool) \<Rightarrow> packer \<Rightarrow> packer \<Rightarrow> bool" for P where
  splits_refl: "packer_ok p \<Longrightarrow> splits P p p"
| splits_step: "splits P p q \<Longrightarrow> replaced x q r \<Longrightarrow> P x \<Longrightarrow> splits P p r"

lemma splits_ok: "splits P p q \<Longrightarrow> packer_ok q"
  by (induction rule: splits.induct) (auto simp: replaced_def)

lemma splits_later: "splits P p q \<Longrightarrow> later p q"
  by (induction rule: splits.induct) (auto simp: replaced_def intro: later_trans)

lemma splits_weight: "splits P p q \<Longrightarrow> conserves p q"
  by (induction rule: splits.induct) (auto simp: replaced_def intro: conserves_trans)

lemma splits_trans: "splits P q r \<Longrightarrow> splits P p q \<Longrightarrow> splits P p r"
  by (induction rule: splits.induct) (auto intro: splits_step)

lemma splits_kept: "splits P p q \<Longrightarrow> y \<in> set (free p) \<Longrightarrow> \<not> P y \<Longrightarrow> y \<in> set (free q)"
  by (induction rule: splits.induct) (auto simp: replaced_def)

lemma scalar_imm_add:
  assumes "is_scalar_imm_add ss x = Inr True"
  shows "lin_engine (lin x) = ALU"
  using assms by (auto simp: is_scalar_imm_add_def Let_def split: if_splits)

lemma vector_imm_add:
  assumes "is_vector_imm_add ss x = Inr True"
  shows "lin_engine (lin x) = VALU"
  using assms by (auto simp: is_vector_imm_add_def Let_def split: if_splits)

locale packing = after_heap hp for hp :: "nat heap_ops" +
  fixes ss_of :: sorted_set_of
  assumes sorted_sets: "min_heap (ss_of key)"
begin

lemma add_free:
  assumes "distinct (free p)" and "x \<notin> set (free p)"
  shows "distinct (free (add_free ss_of x p))" "set (free (add_free ss_of x p)) = insert x (set (free p))"
    "mset (free (add_free ss_of x p)) = add_mset x (mset (free p))"
    "add_free ss_of x p = p\<lparr>free := free (add_free ss_of x p)\<rparr>"
  using assms min_heap.add_distinct [OF sorted_sets] min_heap.add_set [OF sorted_sets]
    min_heap.mset_heap_add [OF sorted_sets]
  by (simp_all add: add_free_def free_ops_def)

lemma remove_free:
  assumes "remove_free ss_of x p = Inr p'" and "distinct (free p)"
  shows "x \<in> set (free p)" "distinct (free p')" "set (free p') = set (free p) - {x}"
    "mset (free p) = add_mset x (mset (free p'))" "p' = p\<lparr>free := free p'\<rparr>"
proof -
  from assms(1) obtain f where f: "heap_remove (free_ops ss_of p) x (free p) = Inr f" and "p' = p\<lparr>free := f\<rparr>"
    by (auto simp: remove_free_def res_elims)
  then show "x \<in> set (free p)" "distinct (free p')" "set (free p') = set (free p) - {x}"
    "mset (free p) = add_mset x (mset (free p'))" "p' = p\<lparr>free := free p'\<rparr>"
    using min_heap.remove_InrD [OF sorted_sets f [unfolded free_ops_def] assms(2)]
      min_heap.remove_mset [OF sorted_sets f [unfolded free_ops_def] assms(2)] by simp_all
qed

lemma remove_free_ok: "x \<in> set (free p) \<Longrightarrow> distinct (free p) \<Longrightarrow> \<exists>p'. remove_free ss_of x p = Inr p'"
  using min_heap.remove_in [OF sorted_sets, of "free p" x "imeta_priority_fn (pk_imetas p) (pk_conc_threads p)"]
  by (auto simp: remove_free_def free_ops_def)

lemma add_frees:
  assumes "distinct (free p)" and "distinct xs" and "set xs \<inter> set (free p) = {}"
  shows "distinct (free (fold (add_free ss_of) xs p)) \<and>
    mset (free (fold (add_free ss_of) xs p)) = mset (free p) + mset xs \<and>
    set (free (fold (add_free ss_of) xs p)) = set (free p) \<union> set xs \<and>
    fold (add_free ss_of) xs p = p\<lparr>free := free (fold (add_free ss_of) xs p)\<rparr>"
  using assms
proof (induction xs arbitrary: p)
  case (Cons x xs)
  have x: "x \<notin> set (free p)" using Cons.prems(3) by auto
  note a = add_free [OF Cons.prems(1) x]
  let ?p = "add_free ss_of x p"
  have "distinct (free (fold (add_free ss_of) xs ?p)) \<and>
    mset (free (fold (add_free ss_of) xs ?p)) = mset (free ?p) + mset xs \<and>
    set (free (fold (add_free ss_of) xs ?p)) = set (free ?p) \<union> set xs \<and>
    fold (add_free ss_of) xs ?p = ?p\<lparr>free := free (fold (add_free ss_of) xs ?p)\<rparr>"
    using Cons.prems a by (intro Cons.IH) auto
  moreover have "?p\<lparr>free := f\<rparr> = p\<lparr>free := f\<rparr>" for f by (subst a(4)) simp
  ultimately show ?case using a(2,3) by simp
qed simp

text \<open>A position whose last predecessor has retired moves from waiting to issuable.\<close>

lemma make_issuable:
  assumes "distinct (free p)" and "x \<notin> set (free p)"
  shows "mset (free (make_issuable ss_of x p)) + mset (frontier (make_issuable ss_of x p)) =
      add_mset x (mset (free p) + mset (frontier p))"
    "distinct (free (make_issuable ss_of x p))"
    "set (free (make_issuable ss_of x p)) \<union> set (frontier (make_issuable ss_of x p)) =
      insert x (set (free p) \<union> set (frontier p))"
    "incount (make_issuable ss_of x p) = incount p" "pk_imetas (make_issuable ss_of x p) = pk_imetas p"
    "waiting (make_issuable ss_of x p) = waiting p"
    "next_batch_tid (make_issuable ss_of x p) = next_batch_tid p"
    "pk_num_threads (make_issuable ss_of x p) = pk_num_threads p"
    "pk_conc_threads (make_issuable ss_of x p) = pk_conc_threads p"
    "pk_ss (make_issuable ss_of x p) = pk_ss p"
  using assms add_free(1-3) [OF assms]
  by (auto simp: make_issuable_def add_schedulable_def waiting_def add_free_def)

section \<open>Retiring keeps the invariant\<close>

lemma unlock:
  assumes inv: "packer_inv p e" and idx: "idx < length (pk_imetas p)" and e: "e idx \<ge> 1"
  shows "\<exists>p'. unlock ss_of p idx = Inr p' \<and> packer_inv p' (e(idx := e idx - 1)) \<and>
    pending p' = pending p \<and> pk_imetas p' = pk_imetas p \<and> later p p' \<and> set (free p) \<subseteq> set (free p')"
proof -
  note D = packer_invD [OF inv]
  let ?v = "incount p ! idx - 1"
  let ?p = "p\<lparr>incount := (incount p)[idx := ?v]\<rparr>"
  have pos: "incount p ! idx \<ge> 1" using D(4) [OF idx] e demand_nonneg [of "pending p" idx] by linarith
  have len: "idx < length (incount p)" using D(1) idx by simp
  have dec: "add_incount (- 1) p idx = Inr ?p" using len by (simp add: add_incount_eq)
  have idle: "incount ?p ! nat (instid y) = 0" if "y \<in> set (free p) \<or> y \<in> set (frontier p)" for y
    using D(5) [OF that] pos by (cases "nat (instid y) = idx") auto
  have zeros: "incount ?p ! i = 0" if "incount p ! i = 0" for i
    using that pos by (cases "i = idx") auto
  show ?thesis
  proof (cases "?v = 0")
    case False
    have w: "waiting ?p = waiting p"
      by (rule waiting_cong) (use False pos len in \<open>auto simp: nth_list_update\<close>)
    then have "pending ?p = pending p" by (simp add: pending_def)
    moreover have "packer_inv ?p (e(idx := e idx - 1))"
      unfolding packer_inv_def calculation
      using D(1-4,6) idle len by (auto simp: nth_list_update)
    moreover have "unlock ss_of p idx = Inr ?p" using dec False len by (simp add: unlock_def py_simps)
    ultimately show ?thesis using zeros by (auto simp: later_def)
  next
    case True
    let ?y = "pk_imetas p ! idx"
    let ?q = "make_issuable ss_of ?y ?p"
    have w: "waiting p = add_mset ?y (waiting ?p)"
      by (rule waiting_done) (use True pos idx len in \<open>auto simp: nth_list_update\<close>)
    have notin: "?y \<notin> set (free ?p)"
    proof
      assume "?y \<in> set (free ?p)"
      then have "?y \<in># mset (free p)" by simp
      then obtain F where "mset (free p) = add_mset ?y F" by (metis multi_member_split)
      with w D(3) show False unfolding pending_def by (auto dest: pending_ok_twice)
    qed
    have dist: "distinct (free ?p)" using D(6) by simp
    note m = make_issuable [OF dist notin]
    have pend: "pending ?q = pending p"
      unfolding pending_def m(6) w using m(1) by simp
    have "packer_inv ?q (e(idx := e idx - 1))"
      unfolding packer_inv_def pend m(4,5)
    proof (intro conjI allI impI)
      show "\<forall>y \<in> set (free ?q) \<union> set (frontier ?q). incount ?p ! nat (instid y) = 0"
        unfolding m(3) using idle D(2) [OF idx] True len by auto
    qed (use D(1-4) len m(2) in \<open>auto simp: nth_list_update\<close>)
    moreover have "unlock ss_of p idx = Inr ?q" using dec True len idx by (simp add: unlock_def py_simps)
    moreover have "set (free p) \<subseteq> set (free ?q)"
      using add_free(2) [OF dist notin] by (auto simp: make_issuable_def add_schedulable_def)
    ultimately show ?thesis using pend m(4-) zeros by (intro exI [of _ ?q]) (simp add: later_def)
  qed
qed

lemma unlocks:
  assumes "packer_inv p (\<lambda>i. if i \<in> set xs then 1 else 0)" and "distinct xs"
    and "set xs \<subseteq> {..<length (pk_imetas p)}"
  shows "\<exists>p'. foldM (unlock ss_of) xs p = Inr p' \<and> packer_ok p' \<and> pending p' = pending p \<and>
    pk_imetas p' = pk_imetas p \<and> later p p' \<and> set (free p) \<subseteq> set (free p')"
  using assms
proof (induction xs arbitrary: p)
  case (Cons x xs)
  let ?e = "\<lambda>i. if i \<in> set (x # xs) then 1 else 0 :: int"
  from unlock [OF Cons.prems(1), of x] Cons.prems(3)
  obtain q where q: "unlock ss_of p x = Inr q" "packer_inv q (?e(x := ?e x - 1))" "pending q = pending p"
    "pk_imetas q = pk_imetas p" "later p q" "set (free p) \<subseteq> set (free q)" by auto
  have "?e(x := ?e x - 1) = (\<lambda>i. if i \<in> set xs then 1 else 0)" using Cons.prems(2) by auto
  with q(2) have "packer_inv q (\<lambda>i. if i \<in> set xs then 1 else 0)" by simp
  from Cons.IH [OF this] Cons.prems q(4) obtain p' where "foldM (unlock ss_of) xs q = Inr p'" "packer_ok p'"
    "pending p' = pending q" "pk_imetas p' = pk_imetas q" "later q p'" "set (free q) \<subseteq> set (free p')" by auto
  with q later_trans [OF q(5)] show ?case by auto
qed simp

lemma fall_down_step:
  assumes inv: "packer_inv p e" and fr: "mset (x # xs) \<subseteq># mset (frontier p)"
  shows "\<exists>p'. (if tid x < next_batch_tid p then
      rbind (py_remove x (frontier (add_free ss_of x p))) (\<lambda>fr. Inr ((add_free ss_of x p)\<lparr>frontier := fr\<rparr>))
      else Inr p) = Inr p' \<and> packer_inv p' e \<and> mset xs \<subseteq># mset (frontier p') \<and> pending p' = pending p \<and>
    pk_imetas p' = pk_imetas p \<and> next_batch_tid p' = next_batch_tid p \<and> later p p' \<and>
    set (free p') = set (free p) \<union> {y. y = x \<and> tid x < next_batch_tid p}"
proof (cases "tid x < next_batch_tid p")
  case True
  note D = packer_invD [OF inv]
  have x: "x \<in> set (frontier p)" using mset_subset_eqD [OF fr, of x] by simp
  then obtain F where F: "mset (frontier p) = add_mset x F" by (metis multi_member_split set_mset_mset)
  have "x \<notin> set (free p)"
  proof
    assume "x \<in> set (free p)"
    then obtain G where "mset (free p) = add_mset x G" by (metis multi_member_split set_mset_mset)
    with F D(3) show False unfolding pending_def by (auto dest: pending_ok_twice)
  qed
  note a = add_free [OF D(6) this]
  let ?q = "(add_free ss_of x p)\<lparr>frontier := remove1 x (frontier p)\<rparr>"
  have q: "?q = p\<lparr>free := free (add_free ss_of x p), frontier := remove1 x (frontier p)\<rparr>"
    by (subst a(4)) simp
  have "waiting ?q = waiting p" unfolding q by (simp add: waiting_def)
  then have pend: "pending ?q = pending p" unfolding pending_def using a(3) F by (simp add: q)
  have "set (remove1 x (frontier p)) \<subseteq> set (frontier p)" by (rule set_remove1_subset)
  then have "packer_inv ?q e"
    unfolding packer_inv_def pend using D(1-6) x a(1,2) by (auto simp: q)
  moreover have "mset xs \<subseteq># mset (remove1 x (frontier p))" using fr F by simp
  moreover have "frontier (add_free ss_of x p) = frontier p" by (simp add: add_free_def)
  ultimately show ?thesis
    using True x pend a(2) by (auto simp: py_remove_def q later_def)
next
  case False
  have "mset xs \<subseteq># mset (frontier p)" by (rule subset_mset.order_trans [OF _ fr]) simp
  with False inv show ?thesis by simp
qed

lemma fall_down_fold:
  assumes "packer_inv p e" and "mset xs \<subseteq># mset (frontier p)"
  shows "\<exists>p'. foldM (\<lambda>p x. if tid x < next_batch_tid p then
        rbind (py_remove x (frontier (add_free ss_of x p))) (\<lambda>fr. Inr ((add_free ss_of x p)\<lparr>frontier := fr\<rparr>))
        else Inr p) xs p = Inr p' \<and> packer_inv p' e \<and> pending p' = pending p \<and>
    pk_imetas p' = pk_imetas p \<and> next_batch_tid p' = next_batch_tid p \<and> later p p' \<and>
    set (free p') = set (free p) \<union> {x \<in> set xs. tid x < next_batch_tid p}"
  using assms
proof (induction xs arbitrary: p)
  case (Cons x xs)
  let ?f = "\<lambda>p x. if tid x < next_batch_tid p then
        rbind (py_remove x (frontier (add_free ss_of x p))) (\<lambda>fr. Inr ((add_free ss_of x p)\<lparr>frontier := fr\<rparr>))
        else Inr p"
  obtain q where q: "?f p x = Inr q" "packer_inv q e" "mset xs \<subseteq># mset (frontier q)" "pending q = pending p"
    "pk_imetas q = pk_imetas p" "next_batch_tid q = next_batch_tid p" "later p q"
    "set (free q) = set (free p) \<union> {y. y = x \<and> tid x < next_batch_tid p}"
    using fall_down_step [OF Cons.prems] by (elim exE conjE) (rule that)
  from Cons.IH [OF q(2,3)] obtain p' where p': "foldM ?f xs q = Inr p'" "packer_inv p' e" "pending p' = pending q"
    "pk_imetas p' = pk_imetas q" "next_batch_tid p' = next_batch_tid q" "later q p'"
    "set (free p') = set (free q) \<union> {x \<in> set xs. tid x < next_batch_tid q}"
    by (elim exE conjE) (rule that)
  have "foldM ?f (x # xs) p = Inr p'" unfolding foldM.simps q(1) rbind_simps by (rule p'(1))
  moreover have "set (free p') = set (free p) \<union> {y \<in> set (x # xs). tid y < next_batch_tid p}"
    unfolding p'(7) q(6,8) by auto
  ultimately show ?case using p'(2-5) q(4-6) later_trans [OF q(7) p'(6)] by (intro exI conjI) simp_all
qed simp

lemma fall_down_to_free:
  assumes "packer_inv p e"
  shows "\<exists>p'. fall_down_to_free ss_of p = Inr p' \<and> packer_inv p' e \<and> pending p' = pending p \<and>
    pk_imetas p' = pk_imetas p \<and> next_batch_tid p' = next_batch_tid p \<and> later p p' \<and>
    set (free p') = set (free p) \<union> {x \<in> set (frontier p). tid x < next_batch_tid p}"
  unfolding fall_down_to_free_def by (rule fall_down_fold [OF assms]) simp

text \<open>Retiring a free instruction removes it from the pending ones, and nothing else.\<close>

lemma retire:
  assumes inv: "packer_ok p" and x: "x \<in> set (free p)"
  shows "\<exists>p'. retire ss_of p x = Inr p' \<and> packer_ok p' \<and> pending p = add_mset x (pending p') \<and>
    pk_imetas p' = pk_imetas p \<and> later p p' \<and> set (free p) - {x} \<subseteq> set (free p')"
proof -
  note D = packer_invD [OF inv]
  obtain q where q: "remove_free ss_of x p = Inr q" using remove_free_ok [OF x D(6)] by blast
  note r = remove_free [OF q D(6)]
  let ?q1 = "add_schedulable (tid x) (- 1) q"
  let ?newly = "schedulable_count_by_tid ?q1 (tid x) = 0 \<and> next_batch_tid ?q1 < pk_num_threads ?q1"
  let ?q2 = "if ?newly then ?q1\<lparr>next_batch_tid := next_batch_tid ?q1 + 1\<rparr> else ?q1"
  have same: "incount ?q2 = incount p" "pk_imetas ?q2 = pk_imetas p" "frontier ?q2 = frontier p"
    "free ?q2 = free q" "pk_ss ?q2 = pk_ss p" "pk_num_threads ?q2 = pk_num_threads p"
    "pk_conc_threads ?q2 = pk_conc_threads p"
    by (subst r(5), simp add: add_schedulable_def)+
  have pend: "pending p = add_mset x (pending ?q2)"
    unfolding pending_def using r(4) by (simp add: same waiting_def)
  have ok2: "pending_ok (length (pk_imetas p)) (pending ?q2)"
    using D(3) pending_ok_sub [of _ "pending ?q2" "{#x#}"] unfolding pend by simp
  have xp: "x \<in># pending p" using pend by simp
  have inv2: "packer_inv ?q2 (\<lambda>i. if i \<in> set (after x) then 1 else 0)"
    unfolding packer_inv_def same using D(1,2) ok2 r(2) D(5) D(4) pend r(3) by auto
  have "set (after x) \<subseteq> {..<length (pk_imetas ?q2)}"
    using pending_okD(5) [OF D(3) xp] same(2) by auto
  from unlocks [OF inv2 pending_okD(4) [OF D(3) xp] this]
  obtain q3 where q3: "foldM (unlock ss_of) (after x) ?q2 = Inr q3" "packer_ok q3" "pending q3 = pending ?q2"
    "pk_imetas q3 = pk_imetas ?q2" "later ?q2 q3" "set (free ?q2) \<subseteq> set (free q3)"
    by (elim exE conjE) (rule that)
  have fr3: "set (free p) - {x} \<subseteq> set (free q3)" using q3(6) unfolding same(4) r(3) .
  have retire: "retire ss_of p x = (if ?newly then fall_down_to_free ss_of q3 else Inr q3)"
    unfolding retire_def q rbind_simps Let_def q3(1) ..
  have env: "later p q3" using q3(5) same unfolding later_def by simp
  have pend3: "pending p = add_mset x (pending q3)" unfolding q3(3) by (rule pend)
  have im3: "pk_imetas q3 = pk_imetas p" unfolding q3(4) by (rule same(2))
  show ?thesis
  proof (cases ?newly)
    case True
    from fall_down_to_free [OF q3(2)] obtain p' where "fall_down_to_free ss_of q3 = Inr p'" "packer_ok p'"
      "pending p' = pending q3" "pk_imetas p' = pk_imetas q3" "later q3 p'"
      "set (free q3) \<subseteq> set (free p')" by blast
    moreover have "retire ss_of p x = fall_down_to_free ss_of q3" unfolding retire using True by (rule if_P)
    ultimately show ?thesis using pend3 im3 fr3 later_trans [OF env] by (intro exI [of _ p']) auto
  next
    case False
    have "retire ss_of p x = Inr q3" unfolding retire using False by (rule if_not_P)
    then show ?thesis using pend3 im3 q3(2) env fr3 by (intro exI [of _ q3]) simp
  qed
qed

lemma retires:
  assumes "packer_ok p" and "distinct xs" and "set xs \<subseteq> set (free p)"
  shows "\<exists>p'. foldM (retire ss_of) xs p = Inr p' \<and> packer_ok p' \<and> pending p = mset xs + pending p' \<and>
    pk_imetas p' = pk_imetas p \<and> later p p'"
  using assms
proof (induction xs arbitrary: p)
  case (Cons x xs)
  from retire [OF Cons.prems(1), of x] Cons.prems(3) obtain q where q: "retire ss_of p x = Inr q" "packer_ok q"
    "pending p = add_mset x (pending q)" "pk_imetas q = pk_imetas p" "later p q"
    "set (free p) - {x} \<subseteq> set (free q)" by auto
  have "set xs \<subseteq> set (free q)" using Cons.prems(2,3) q(6) by auto
  from Cons.IH [OF q(2) _ this] Cons.prems(2) obtain p' where "foldM (retire ss_of) xs q = Inr p'"
    "packer_ok p'" "pending q = mset xs + pending p'" "pk_imetas p' = pk_imetas q" "later q p'" by auto
  with q later_trans [OF q(5)] show ?case by (intro exI [of _ p']) simp
qed simp

section \<open>Splitting keeps the invariant\<close>

lemma put_parts:
  assumes "length (incount p) = length (pk_imetas p)" and "distinct (free p)" and x: "x \<in> set (free p)"
    and "distinct (after x)" "set (after x) \<subseteq> {..<length (pk_imetas p)}"
    and pos: "\<forall>i \<in> set (after x). incount p ! i > 0"
    and parts: "distinct parts" "set parts \<inter> set (free p) = {}"
  shows "\<exists>p'. put_parts ss_of x parts p = Inr p' \<and>
    (\<exists>M. pending p = add_mset x M \<and> pending p' = M + mset parts) \<and>
    length (incount p') = length (incount p) \<and>
    (\<forall>i < length (incount p). incount p' ! i = incount p ! i + (if i \<in> set (after x) then int VLEN - 1 else 0)) \<and>
    set (free p') = set (free p) - {x} \<union> set parts \<and> distinct (free p') \<and> frontier p' = frontier p \<and>
    pk_imetas p' = pk_imetas p \<and> later p p'"
proof -
  from add_incounts [OF assms(4), of p "int VLEN - 1"] assms(1,5)
  obtain ic where ic: "foldM (add_incount (int VLEN - 1)) (after x) p = Inr (p\<lparr>incount := ic\<rparr>)"
    "length ic = length (incount p)"
    "\<forall>i < length (incount p). ic ! i = incount p ! i + (if i \<in> set (after x) then int VLEN - 1 else 0)"
    by (auto simp del: of_nat_diff)
  let ?p = "p\<lparr>incount := ic\<rparr>"
  have fp: "free ?p = free p" "distinct (free ?p)" "x \<in> set (free ?p)" using assms(2) x by simp_all
  obtain q where q: "remove_free ss_of x ?p = Inr q" using remove_free_ok [OF fp(3,2)] by blast
  note r = remove_free [OF q fp(2)]
  have disj: "set parts \<inter> set (free q) = {}" using r(3) parts(2) fp(1) by auto
  note a = add_frees [OF r(2) parts(1) disj]
  let ?r = "fold (add_free ss_of) parts q"
  let ?p' = "add_schedulable (tid x) (int VLEN - 1) ?r"
  have same: "incount ?p' = ic" "pk_imetas ?p' = pk_imetas p" "frontier ?p' = frontier p"
    "pk_ss ?p' = pk_ss p" "pk_num_threads ?p' = pk_num_threads p" "pk_conc_threads ?p' = pk_conc_threads p"
    by (subst a [THEN conjunct2, THEN conjunct2, THEN conjunct2], subst r(5), simp add: add_schedulable_def)+
  have fr: "free ?p' = free ?r" by (simp add: add_schedulable_def)
  have "waiting ?p' = waiting p"
  proof (rule waiting_cong [OF same(2)])
    fix i assume "i < length (pk_imetas p)"
    then show "incount ?p' ! i > 0 \<longleftrightarrow> incount p ! i > 0"
      unfolding same(1) using ic(3) assms(1) pos by (auto simp: VLEN_def)
  qed
  then have "pending ?p' = (mset (free q) + mset (frontier p) + waiting p) + mset parts"
    unfolding pending_def fr same(3) using a by simp
  moreover have "pending p = add_mset x (mset (free q) + mset (frontier p) + waiting p)"
    unfolding pending_def using r(4) by simp
  moreover have "put_parts ss_of x parts p = Inr ?p'"
    unfolding put_parts_def ic(1) rbind_simps q ..
  moreover have "set (free ?p') = set (free p) - {x} \<union> set parts" "distinct (free ?p')"
    unfolding fr using a r(3) by simp_all
  moreover have "later p ?p'"
  proof (rule laterI)
    fix i assume "i < length (pk_imetas p)" "incount p ! i = 0"
    then show "incount ?p' ! i = 0" unfolding same(1) using ic(3) assms(1) pos by auto
  qed (rule same(4) same(5) same(6) same(2))+
  ultimately show ?thesis
    using ic(2,3) same(1-3) by (intro exI [of _ ?p'] conjI exI) (assumption | simp only:)+
qed

lemma packer_parts:
  assumes inv: "packer_ok p" and x: "x \<in> set (free p)" and valu: "lin_engine (lin x) = VALU"
    and parts: "parts_of x parts" and aft: "\<forall>y \<in> set parts. after y = after x"
  shows "\<exists>p'. put_parts ss_of x parts p = Inr p' \<and> packer_ok p' \<and>
    (\<exists>M. pending p = add_mset x M \<and> pending p' = M + mset parts) \<and>
    set (free p') = set (free p) - {x} \<union> set parts \<and> pk_imetas p' = pk_imetas p \<and> later p p'"
proof -
  note D = packer_invD [OF inv]
  have xp: "x \<in># pending p" using x by (rule in_pending)
  have pos: "\<forall>i \<in> set (after x). incount p ! i > 0"
    using D(4) pending_okD(5) [OF D(3) xp] demand_pos [OF xp] by simp
  obtain M where M: "pending p = add_mset x M" using xp by (metis multi_member_split)
  note fresh = parts_of_fresh [OF D(3) [unfolded M] valu parts]
  have disj: "set parts \<inter> set (free p) = {}"
    using fresh(2) in_pending(1) [of _ p] unfolding M by blast
  have dist: "distinct parts" using parts by (auto simp: parts_of_def simp: distinct_map)
  have sub: "set (after x) \<subseteq> {..<length (pk_imetas p)}" using pending_okD(5) [OF D(3) xp] by auto
  from put_parts [OF D(1) D(6) x pending_okD(4) [OF D(3) xp] sub pos dist disj]
  obtain p' M' where p': "put_parts ss_of x parts p = Inr p'" "pending p = add_mset x M'"
    "pending p' = M' + mset parts" "length (incount p') = length (incount p)"
    "\<forall>i < length (incount p). incount p' ! i = incount p ! i + (if i \<in> set (after x) then int VLEN - 1 else 0)"
    "set (free p') = set (free p) - {x} \<union> set parts" "distinct (free p')" "frontier p' = frontier p"
    "pk_imetas p' = pk_imetas p" "later p p'" by (elim exE conjE) (rule that)
  have MM: "M' = M" using p'(2) M by simp
  have aft': "\<forall>y \<in> set parts. distinct (after y) \<and> set (after y) \<subseteq> {..<length (pk_imetas p)}"
    using aft pending_okD(4) [OF D(3) xp] sub by simp
  have "packer_ok p'"
    unfolding packer_inv_def p'(9)
  proof (intro conjI allI impI)
    show "pending_ok (length (pk_imetas p)) (pending p')"
      unfolding p'(3) MM by (rule pending_ok_parts [OF D(3) [unfolded M] valu parts aft'])
    show "incount p' ! i = demand (pending p') i + 0" if "i < length (pk_imetas p)" for i
      using p'(5) D(4) [OF that] that D(1) demand_parts [OF aft, of i] parts
      unfolding p'(3) MM M by (auto simp: parts_of_def)
    have zero: "incount p' ! nat (instid y) = 0" if "y \<in># pending p" "incount p ! nat (instid y) = 0" for y
    proof -
      have "nat (instid y) < length (incount p)" using pending_okD(3) [OF D(3) that(1)] D(1) by simp
      moreover have "nat (instid y) \<notin> set (after x)" using pos that(2) by auto
      ultimately show ?thesis using p'(5) that(2) by simp
    qed
    show "\<forall>y \<in> set (free p') \<union> set (frontier p'). incount p' ! nat (instid y) = 0"
    proof
      fix y assume "y \<in> set (free p') \<union> set (frontier p')"
      then consider "y \<in> set (free p) \<or> y \<in> set (frontier p)" | "y \<in> set parts"
        unfolding p'(6,8) by blast
      then show "incount p' ! nat (instid y) = 0"
      proof cases
        case 1
        then show ?thesis using zero D(5) in_pending by blast
      next
        case 2
        then have "instid y = instid x" using parts by (simp add: parts_of_def)
        then show ?thesis using zero [OF xp] D(5) [of x] x by simp
      qed
    qed
  qed (use p'(4,7) D(1,2) in simp_all)
  then show ?thesis using p' by blast
qed

end

lemma mapM_after:
  "mapM f xs = Inr ys \<Longrightarrow> (\<And>i y. f i = Inr y \<Longrightarrow> after y = af) \<Longrightarrow> \<forall>y \<in> set ys. after y = af"
  unfolding mapM_Inr_iff by (metis in_set_conv_nth)

lemma count_split_frame [simp]:
  "packer_inv (count_split op p) e = packer_inv p e" "pending (count_split op p) = pending p"
  "pk_imetas (count_split op p) = pk_imetas p" "free (count_split op p) = free p"
  "later q (count_split op p) = later q p" "conserves q (count_split op p) = conserves q p"
  "unfolded x parts q (count_split op p) = unfolded x parts q p"
  by (simp_all add: count_split_def packer_inv_def pending_def waiting_def later_def weight_def conserves_def ids_def
      unfolded_def)

context packing
begin

text \<open>
  The splits of one instruction: a free VALU instruction is replaced by its parts.
\<close>

lemma put_parts_free:
  assumes "put_parts ss_of x parts p = Inr p'" and "distinct (free p)"
  shows "x \<in> set (free p)"
proof -
  from assms(1) obtain q r where q: "foldM (add_incount (int VLEN - 1)) (after x) p = Inr q"
    and r: "remove_free ss_of x q = Inr r"
    unfolding put_parts_def by (auto simp: res_elims simp del: foldM.simps)
  have "free q = free p"
    using q by (rule foldM_invariant [where P = "\<lambda>q. free q = free p"]) (auto simp: add_incount_def res_elims)
  with remove_free(1) [OF r] assms(2) show ?thesis by simp
qed

lemma replaced_parts:
  assumes "packer_ok p" "lin_engine (lin x) = VALU" "parts_of x parts" "\<forall>y \<in> set parts. after y = after x"
    and "put_parts ss_of x parts p = Inr p'"
    and u: "unfolds (pk_ss p) (pk_conc_threads p) (length (pk_imetas p)) x parts []"
  shows "replaced x p p'"
proof -
  have x: "x \<in> set (free p)" by (rule put_parts_free [OF assms(5) packer_invD(6) [OF assms(1)]])
  obtain M where p': "packer_ok p'" "pending p = add_mset x M" "pending p' = M + mset parts"
    "set (free p') = set (free p) - {x} \<union> set parts" "later p p'" "pk_imetas p' = pk_imetas p"
    using packer_parts [OF assms(1) x assms(2-4)] unfolding assms(5) by auto
  have "weight p' \<le> weight p"
    using weight_parts [of parts] assms(2,3) unfolding weight_def p'(2,3)
    by (simp add: parts_of_def weight_of_def)
  moreover have ne: "parts \<noteq> []" using assms(3) by (auto simp: parts_of_def)
  moreover have "ids p = ids p'"
    unfolding ids_def p'(2,3) using assms(3) ne by (cases parts) (auto simp: parts_of_def)
  moreover have "edges_held (pk_imetas p') (pending p')" if "edges_held (pk_imetas p) (pending p)"
    unfolding p'(3,6)
    by (rule edges_held_exchange [where x = x])
      (use that free_unneeded [OF assms(1) x] assms(3,4) p'(2) in \<open>auto simp: parts_of_def\<close>)
  ultimately have "conserves p p'" "parts \<noteq> []" using p'(6) by (simp_all add: conserves_def)
  moreover have "unfolded x parts p p'" using u p'(2,3,6) by (auto simp: unfolded_def)
  ultimately show ?thesis
    using p' assms(3) x unfolding replaced_def by (auto simp: parts_of_def)
qed

lemma split_valu_ok:
  assumes inv: "packer_ok p" and valu: "lin_engine (lin x) = VALU"
    and sp: "split_one_free_valu_to_alu ss_of x p = Inr p'"
  shows "replaced x p p'"
proof -
  from sp obtain nmetas q where ms: "mapM (\<lambda>i. rbind (lane3 ALU (opcode x) (registers x ! 0) (registers x ! 1)
      (registers x ! 2) i) (\<lambda>l. part x l (after x))) lanes = Inr nmetas"
    and shape: "length (registers x) = 3" "list_all (\<lambda>r. is_array_op r \<or> op_offset r = 0) (registers x)"
    and q: "put_parts ss_of x nmetas p = Inr q" and p': "p' = count_split (opcode x) q"
    unfolding split_one_free_valu_to_alu_def Let_def by (auto simp: res_elims)
  have parts: "parts_of x nmetas"
    by (rule mapM_parts [OF ms, where r = "registers x ! 0"])
      (auto simp: res_elims part_iff registers_def lin_registers_def param_ops_def elim!: lane3_Inr)
  have aft: "\<forall>y \<in> set nmetas. after y = after x"
    by (rule mapM_after [OF ms]) (auto simp: res_elims part_iff)
  from replaced_parts [OF inv valu parts aft q valu_unfolds [OF valu shape ms]] p' show ?thesis
    by (simp add: replaced_def)
qed

lemma split_broadcast_ok:
  assumes inv: "packer_ok p" and valu: "lin_engine (lin x) = VALU"
    and sp: "split_one_free_broadcast ss_of x p = Inr (b, p')"
  shows "if b then replaced x p p' else p' = p"
proof (cases b)
  case True
  with sp obtain nmetas q where ms: "mapM (\<lambda>i. rbind (scalar_at_offset (registers x ! 0) i) (\<lambda>d.
      part x \<lparr>lin_engine = ALU, lin_opcode = ''|'', lin_params = [Op d, Op (registers x ! 1), Op (registers x ! 1)]\<rparr>
        (after x))) lanes = Inr nmetas"
    and shape: "opcode x = ''vbroadcast''" "length (registers x) = 2"
      "overlaps (pk_ss p) (tid x mod pk_conc_threads p) (registers x ! 0) (registers x ! 1) = Inr False"
    and q: "put_parts ss_of x nmetas p = Inr q" and p': "p' = count_split (opcode x) q"
    unfolding split_one_free_broadcast_def Let_def by (auto simp: res_elims work_slot_of_def split: if_splits)
  have parts: "parts_of x nmetas"
    by (rule mapM_parts [OF ms, where r = "registers x ! 0"])
      (auto simp: res_elims part_iff registers_def lin_registers_def param_ops_def)
  have aft: "\<forall>y \<in> set nmetas. after y = after x"
    by (rule mapM_after [OF ms]) (auto simp: res_elims part_iff)
  from replaced_parts [OF inv valu parts aft q broadcast_unfolds [OF valu shape ms]] p' True show ?thesis
    by (simp add: replaced_def)
next
  case False
  with sp show ?thesis
    unfolding split_one_free_broadcast_def Let_def by (auto simp: res_elims split: if_splits)
qed

lemma exchange_free:
  assumes inv: "packer_ok p" and x: "lin_engine (lin x) \<noteq> VALU"
    and y: "part_key y = part_key x" "after y = after x" "lin_engine (lin y) \<noteq> VALU"
    and q: "remove_free ss_of x p = Inr q"
    and u: "unfolds (pk_ss p) (pk_conc_threads p) (length (pk_imetas p)) x [y] []"
  shows "replaced x p (add_free ss_of y q)"
proof -
  note D = packer_invD [OF inv]
  note r = remove_free [OF q D(6)]
  let ?M = "mset (free q) + mset (frontier p) + waiting p"
  have pend: "pending p = add_mset x ?M" unfolding pending_def using r(4) by simp
  have "y \<notin> set (free q)"
  proof
    assume "y \<in> set (free q)"
    then have "part_key x \<in> part_key ` set_mset ?M" using y(1) by (metis UnCI image_eqI set_mset_mset set_mset_union)
    with pending_ok_once(2) [OF D(3) [unfolded pend]] show False by blast
  qed
  note a = add_free [OF r(2) this]
  let ?p = "add_free ss_of y q"
  have same: "incount ?p = incount p" "pk_imetas ?p = pk_imetas p" "frontier ?p = frontier p" "pk_ss ?p = pk_ss p"
    "pk_num_threads ?p = pk_num_threads p" "pk_conc_threads ?p = pk_conc_threads p"
    by (subst a(4), subst r(5), simp)+
  have pend': "pending ?p = add_mset y ?M"
    unfolding pending_def same(3) using a(3) by (simp add: waiting_def same)
  have i: "instid y = instid x" using y(1) by (simp add: part_key_def)
  have held: "edges_held (pk_imetas ?p) (pending ?p)" if "edges_held (pk_imetas p) (pending p)"
    unfolding same(2) pend'
    using edges_held_exchange [OF that [unfolded pend] free_unneeded [OF inv r(1), unfolded pend], of "[y]"] i y(2,3)
    by simp
  have "packer_ok ?p"
    unfolding packer_inv_def pend' same
  proof (intro conjI allI impI)
    show "pending_ok (length (pk_imetas p)) (add_mset y ?M)"
      by (rule pending_ok_exchange [OF D(3) [unfolded pend] x y])
    show "incount p ! i = demand (add_mset y ?M) i + 0" if "i < length (pk_imetas p)" for i
      using D(4) [OF that] pend y(2) by simp
    show "\<forall>z \<in> set (free ?p) \<union> set (frontier p). incount p ! nat (instid z) = 0"
      using D(5) r(1,3) a(2) i by auto
  qed (use D(1,2) a(1) in simp_all)
  moreover have "later p ?p" by (rule laterI) (use same in simp_all)
  moreover have "set (free ?p) = set (free p) - {x} \<union> set [y]" using a(2) r(3) by auto
  moreover have "conserves p ?p"
    using held unfolding conserves_def weight_def ids_def pend pend' same using x y(3) i by (auto simp: weight_of_def)
  moreover have "unfolded x [y] p ?p" using u pend pend' same(2) by (auto simp: unfolded_def)
  ultimately show ?thesis using r(1) i y(3) unfolding replaced_def by (metis (no_types) empty_iff insert_iff list.distinct(1) list.set(1) list.set(2))
qed

lemma convert_ok:
  assumes inv: "packer_ok p" and alu: "lin_engine (lin x) \<noteq> VALU" and imm: "is_scalar_imm_add (pk_ss p) x = Inr True"
    and sp: "convert_one_scalar_imm_add ss_of x p = Inr p'"
  shows "replaced x p p'"
proof -
  from sp obtain v y q where len: "length (registers x) = 3" and v: "constant_value (pk_ss p) (registers x ! 2) = Inr v"
    and y: "part x \<lparr>lin_engine = FLOW, lin_opcode = ''add_imm'',
      lin_params = [Op (registers x ! 0), Op (registers x ! 1), Imm v]\<rparr> (after x) = Inr y"
    and q: "remove_free ss_of x p = Inr q" and p': "p' = add_free ss_of y q"
    unfolding convert_one_scalar_imm_add_def Let_def by (auto simp: res_elims)
  have "take 1 (registers x) = [registers x ! 0]" using len by (cases "registers x") simp_all
  moreover have "take 1 (registers y) = [registers x ! 0]"
    using y by (auto simp: part_iff registers_def lin_registers_def param_ops_def)
  ultimately have "part_key y = part_key x" using y by (simp add: part_key_def part_iff)
  then show ?thesis
    unfolding p' by (rule exchange_free [OF inv alu _ _ _ q scalar_imm_unfolds [OF imm v y]])
      (use y in \<open>simp_all add: part_iff\<close>)
qed

lemma no_arrays:
  "foldM (\<lambda>stop r. if stop then Inr True else rbind (check AssertionError (op_is_vector r)) (\<lambda>_. Inr (is_array_op r)))
     rs b = Inr False \<Longrightarrow> list_all (\<lambda>r. \<not> is_array_op r) rs \<and> \<not> b"
  by (induction rs arbitrary: b) (auto simp: res_elims split: if_splits)

lemma split_vector_imm_ok:
  assumes inv: "packer_ok p" and valu: "lin_engine (lin x) = VALU" and imm: "is_vector_imm_add (pk_ss p) x = Inr True"
    and sp: "split_one_vector_imm_add ss_of x p = Inr p'"
  shows "replaced x p p' \<or> p' = p"
proof -
  from sp consider "p' = p"
    | nmetas where "mapM (\<lambda>i. rbind (scalar_at_offset (registers x ! 0) i) (\<lambda>d.
        rbind (scalar_at_offset (registers x ! 1) i) (\<lambda>a. rbind (constant_value (pk_ss p) (registers x ! 2)) (\<lambda>v.
          part x \<lparr>lin_engine = FLOW, lin_opcode = ''add_imm'', lin_params = [Op d, Op a, Imm v]\<rparr> (after x))))) lanes
        = Inr nmetas" "put_parts ss_of x nmetas p = Inr p'" "list_all (\<lambda>r. \<not> is_array_op r) (registers x)"
    unfolding split_one_vector_imm_add_def Let_def
    by (auto simp: res_elims split: if_splits simp del: foldM.simps dest!: no_arrays)
  then show ?thesis
  proof cases
    case 2
    have parts: "parts_of x nmetas"
      by (rule mapM_parts [OF 2(1), where r = "registers x ! 0"])
        (auto simp: res_elims part_iff registers_def lin_registers_def param_ops_def)
    have aft: "\<forall>y \<in> set nmetas. after y = after x"
      by (rule mapM_after [OF 2(1)]) (auto simp: res_elims part_iff)
    from replaced_parts [OF inv valu parts aft 2(2) vector_imm_unfolds [OF imm 2(3,1)]] show ?thesis ..
  qed simp
qed

text \<open>
  A multiply-add becomes eight products, free, and eight sums, new positions that wait for one
  product each.
\<close>

lemma packer_chain:
  assumes inv: "packer_ok p" and valu: "lin_engine (lin x) = VALU" and first: "parts_of x first"
    and after1: "\<And>k. k < length first \<Longrightarrow> distinct (after (first ! k)) \<and>
      set (after (first ! k)) = {length (pk_imetas p) + k}"
    and len: "length second = VLEN"
    and second: "\<And>k. k < length second \<Longrightarrow> instid (second ! k) = int (length (pk_imetas p) + k)"
    and after2: "\<forall>y \<in> set second. after y = after x \<and> lin_engine (lin y) \<noteq> VALU"
    and sp: "put_parts ss_of x first
      (p\<lparr>pk_imetas := pk_imetas p @ second, incount := incount p @ replicate VLEN 1\<rparr>) = Inr p'"
    and u: "unfolds (pk_ss p) (pk_conc_threads p) (length (pk_imetas p)) x first second"
  shows "replaced x p p'"
proof -
  note D = packer_invD [OF inv]
  let ?n = "length (pk_imetas p)"
  let ?q = "p\<lparr>pk_imetas := pk_imetas p @ second, incount := incount p @ replicate VLEN 1\<rparr>"
  have fq: "free ?q = free p" by simp
  have x: "x \<in> set (free p)" using put_parts_free [OF sp] D(6) by simp
  have xp: "x \<in># pending p" using x by (rule in_pending)
  note X = pending_okD [OF D(3) xp]
  obtain M where M: "pending p = add_mset x M" using xp by (metis multi_member_split)
  have pend_q: "pending ?q = add_mset x (M + mset second)"
  proof -
    have "pending ?q = pending p + mset second"
      using waiting_append [OF D(1), of second] by (simp add: pending_def len)
    then show ?thesis unfolding M by simp
  qed
  have ok_q: "pending_ok (?n + VLEN) (add_mset x (M + mset second))"
  proof -
    have "pending_ok (?n + length second) (pending p + mset second)"
      by (rule pending_ok_new [OF D(3) second]) (use after2 X(4,5) in auto)
    then show ?thesis using M len by simp
  qed
  have pos: "\<forall>i \<in> set (after x). incount p ! i > 0"
    using D(4) X(5) demand_pos [OF xp] by simp
  have sub: "set (after x) \<subseteq> {..<?n}" using X(5) by auto
  have nth_q: "incount ?q ! i = incount p ! i" if "i < ?n" for i using that D(1) by (simp add: nth_append)
  have nth_q': "incount ?q ! i = 1" if "?n \<le> i" "i < ?n + VLEN" for i using that D(1) by (simp add: nth_append)
  have disj: "set first \<inter> set (free ?q) = {}"
    using parts_of_fresh(2) [OF ok_q valu first] in_pending(1) [of _ ?q] unfolding pend_q by blast
  have dist: "distinct first" using first by (auto simp: parts_of_def distinct_map)
  have "\<exists>p'. put_parts ss_of x first ?q = Inr p' \<and>
    (\<exists>M. pending ?q = add_mset x M \<and> pending p' = M + mset first) \<and>
    length (incount p') = length (incount ?q) \<and>
    (\<forall>i < length (incount ?q). incount p' ! i = incount ?q ! i + (if i \<in> set (after x) then int VLEN - 1 else 0)) \<and>
    set (free p') = set (free ?q) - {x} \<union> set first \<and> distinct (free p') \<and> frontier p' = frontier ?q \<and>
    pk_imetas p' = pk_imetas ?q \<and> later ?q p'"
  proof (rule put_parts [OF _ _ _ X(4) _ _ dist disj])
    show "length (incount ?q) = length (pk_imetas ?q)" using D(1) len by simp
    show "distinct (free ?q)" "x \<in> set (free ?q)" using D(6) x by simp_all
    show "set (after x) \<subseteq> {..<length (pk_imetas ?q)}" using sub by auto
    show "\<forall>i \<in> set (after x). incount ?q ! i > 0" using pos sub nth_q by auto
  qed
  then obtain M' where p': "pending ?q = add_mset x M'" "pending p' = M' + mset first"
    "length (incount p') = length (incount ?q)"
    "\<forall>i < length (incount ?q). incount p' ! i = incount ?q ! i + (if i \<in> set (after x) then int VLEN - 1 else 0)"
    "set (free p') = set (free ?q) - {x} \<union> set first" "distinct (free p')" "frontier p' = frontier ?q"
    "pk_imetas p' = pk_imetas ?q" "later ?q p'" unfolding sp by auto
  have MM: "M' = M + mset second" using p'(1) pend_q by simp
  have inc: "incount p' ! i = incount p ! i + (if i \<in> set (after x) then int VLEN - 1 else 0)" if "i < ?n" for i
    using p'(4) nth_q [OF that] that D(1) by simp
  have inc': "incount p' ! i = 1" if "?n \<le> i" "i < ?n + VLEN" for i
    using p'(4) nth_q' [OF that] that D(1) sub by auto
  have chain: "demand (mset first) i = (if ?n \<le> i \<and> i < ?n + VLEN then 1 else 0)" for i
    using demand_chain [of first ?n i] after1 first by (simp add: parts_of_def)
  have below: "demand M i = 0" if "?n \<le> i" for i
    unfolding demand_zero using pending_okD(5) [OF D(3)] that M by fastforce
  have zero: "incount p' ! nat (instid y) = 0" if "y \<in># pending p" "incount p ! nat (instid y) = 0" for y
    using inc [OF pending_okD(3) [OF D(3) that(1)]] pos that(2) by auto
  have im: "pk_imetas p' = pk_imetas p @ second" using p'(8) by simp
  have aft1: "\<forall>y \<in> set first. distinct (after y) \<and> set (after y) \<subseteq> {..<?n + VLEN}"
  proof
    fix y assume "y \<in> set first"
    then obtain k where "k < length first" "y = first ! k" by (metis in_set_conv_nth)
    with after1 [of k] first show "distinct (after y) \<and> set (after y) \<subseteq> {..<?n + VLEN}"
      by (simp add: parts_of_def)
  qed
  have "packer_ok p'"
    unfolding packer_inv_def im
  proof (intro conjI allI impI)
    show "length (incount p') = length (pk_imetas p @ second)" using p'(3) D(1) len by simp
    show "instid ((pk_imetas p @ second) ! i) = int i" if "i < length (pk_imetas p @ second)" for i
      using that D(2) second [of "i - ?n"] by (cases "i < ?n") (auto simp: nth_append)
    show "pending_ok (length (pk_imetas p @ second)) (pending p')"
      unfolding p'(2) MM using pending_ok_parts [OF ok_q valu first aft1] len by simp
    show "incount p' ! i = demand (pending p') i + 0" if "i < length (pk_imetas p @ second)" for i
    proof (cases "i < ?n")
      case True
      have "demand (mset second) i = (if i \<in> set (after x) then int VLEN else 0)"
        using demand_parts [of second "after x" i] after2 len by simp
      then show ?thesis
        using inc [OF True] D(4) [OF True] chain [of i] True unfolding p'(2) MM M by simp
    next
      case False
      have "i \<notin> set (after x)" using False sub by auto
      then have "demand (mset second) i = 0"
        using demand_parts [of second "after x" i] after2 by simp
      then show ?thesis
        using inc' [of i] chain [of i] below [of i] False that len unfolding p'(2) MM by simp
    qed
    show "\<forall>y \<in> set (free p') \<union> set (frontier p'). incount p' ! nat (instid y) = 0"
    proof
      fix y assume "y \<in> set (free p') \<union> set (frontier p')"
      then consider "y \<in> set (free p) \<or> y \<in> set (frontier p)" | "y \<in> set first"
        unfolding p'(5,7) by auto
      then show "incount p' ! nat (instid y) = 0"
      proof cases
        case 1
        then show ?thesis using zero D(5) in_pending by blast
      next
        case 2
        then have "instid y = instid x" using first by (simp add: parts_of_def)
        then show ?thesis using zero [OF xp] D(5) [of x] x by simp
      qed
    qed
  qed (rule p'(6))
  moreover have "later p p'"
    unfolding later_def
  proof (intro conjI allI impI)
    fix i assume i: "i < ?n" "incount p ! i = 0"
    then show "incount p' ! i = 0" using inc [OF i(1)] pos by auto
  next
    show "graph_acyclic (pk_imetas p')" if "graph_acyclic (pk_imetas p)"
      unfolding im by (rule graph_acyclic_append [OF that]) (use after2 sub in auto)
  qed (use p'(9) im in \<open>simp_all add: later_def\<close>)
  moreover have w: "weight p' \<le> weight p"
    using weight_parts [of first] weight_parts [of second] first len after2 valu
    unfolding weight_def p'(2) MM M by (simp add: parts_of_def weight_of_def)
  moreover have ne: "first \<noteq> []" using first by (auto simp: parts_of_def)
  have i1: "ids p \<subseteq> ids p'"
    unfolding ids_def p'(2) MM M using first ne by (cases first) (auto simp: parts_of_def)
  have i2: "ids p' \<subseteq> ids p \<union> {int ?n..}"
  proof
    fix k assume "k \<in> ids p'"
    then obtain y where k: "k = instid y" and "y \<in># M \<or> y \<in> set second \<or> y \<in> set first"
      unfolding ids_def p'(2) MM by auto
    then show "k \<in> ids p \<union> {int ?n..}"
    proof (elim disjE)
      assume "y \<in> set second"
      then obtain j where "j < length second" "y = second ! j" by (metis in_set_conv_nth)
      then show ?thesis using second k by simp
    next
      assume "y \<in> set first"
      then have "instid y = instid x" using first by (simp add: parts_of_def)
      then show ?thesis using k by (simp add: ids_def M)
    qed (simp add: k ids_def M)
  qed
  have held: "edges_held (pk_imetas p') (pending p')" if "edges_held (pk_imetas p) (pending p)"
    unfolding p'(2) MM im
  proof (rule edges_held_chain [OF that [unfolded M] free_unneeded [OF inv x, unfolded M] valu])
    show "nat (instid x) < ?n" using X(3) by simp
    show "\<forall>y \<in># M. nat (instid y) < ?n" using pending_okD(3) [OF D(3)] M by simp
    show "\<forall>y \<in> set first. instid y = instid x \<and> lin_engine (lin y) \<noteq> VALU \<and>
      (\<exists>w \<in> set second. nat (instid w) \<in> set (after y))"
    proof
      fix y assume y: "y \<in> set first"
      then obtain k where k: "k < length first" "y = first ! k" by (metis in_set_conv_nth)
      then have "k < length second" using len first by (simp add: parts_of_def)
      then have "second ! k \<in> set second" "nat (instid (second ! k)) = ?n + k" using second nat_int by auto
      then show "instid y = instid x \<and> lin_engine (lin y) \<noteq> VALU \<and> (\<exists>w \<in> set second. nat (instid w) \<in> set (after y))"
        using first y k after1 [OF k(1)] by (auto simp: parts_of_def)
    qed
  qed (use second after2 in auto)
  have "conserves p p'"
    unfolding conserves_def using w i1 i2 held im by simp
  moreover have "set (free p') = set (free p) - {x} \<union> set first" using p'(5) unfolding fq .
  moreover have "unfolded x first p p'" using u M p'(2) MM im by (auto simp: unfolded_def)
  ultimately show ?thesis using x first ne unfolding replaced_def by (auto simp: parts_of_def)
qed

lemma split_multiply_add_ok:
  assumes inv: "packer_ok p" and valu: "lin_engine (lin x) = VALU"
    and sp: "split_one_free_multiply_add ss_of hp x p = Inr (b, p')"
  shows "if b then replaced x p p' else p' = p"
proof (cases b)
  case True
  let ?r = "\<lambda>k. registers x ! k" and ?n = "length (pk_imetas p)"
  from sp True obtain first second q where
    shape: "opcode x = ''multiply_add''" "length (registers x) = 4" "list_all (\<lambda>r. op_offset r = 0) (registers x)"
      "overlaps (pk_ss p) (tid x mod pk_conc_threads p) (?r 0) (?r 3) = Inr False" and
    ms1: "mapM (\<lambda>i. rbind (lane3 ALU ''*'' (?r 0) (?r 1) (?r 2) i)
      (\<lambda>l. part x l (heap_initial hp [?n + nat i]))) lanes = Inr first"
    and ms2: "mapM (\<lambda>i. rbind (lane3 ALU ''+'' (?r 0) (?r 0) (?r 3) i)
      (\<lambda>l. part (x\<lparr>instid := int ?n + i\<rparr>) l (after x))) lanes = Inr second"
    and q: "put_parts ss_of x first
      (p\<lparr>pk_imetas := pk_imetas p @ second, incount := incount p @ replicate VLEN 1\<rparr>) = Inr q"
    and p': "p' = count_split (opcode x) q"
    unfolding split_one_free_multiply_add_def Let_def by (auto simp: res_elims work_slot_of_def split: if_splits)
  have aft: "set (heap_initial hp [?n + k]) = {?n + k}" for k using initial_ok by simp
  note u = mul_add_unfolds [OF valu shape, where aft = "\<lambda>k. heap_initial hp [length (pk_imetas p) + k]", OF ms1 ms2 aft]
  have first: "parts_of x first"
    by (rule mapM_parts [OF ms1, where r = "?r 0"])
      (auto simp: res_elims part_iff registers_def lin_registers_def param_ops_def elim!: lane3_Inr)
  have l1: "length first = VLEN" and n1: "\<And>k. k < VLEN \<Longrightarrow> rbind (lane3 ALU ''*'' (?r 0) (?r 1) (?r 2) (lanes ! k))
      (\<lambda>l. part x l (heap_initial hp [?n + nat (lanes ! k)])) = Inr (first ! k)"
    using ms1 by (simp_all add: mapM_Inr_iff)
  have l2: "length second = VLEN" and n2: "\<And>k. k < VLEN \<Longrightarrow> rbind (lane3 ALU ''+'' (?r 0) (?r 0) (?r 3) (lanes ! k))
      (\<lambda>l. part (x\<lparr>instid := int ?n + lanes ! k\<rparr>) l (after x)) = Inr (second ! k)"
    using ms2 by (simp_all add: mapM_Inr_iff)
  have lane: "lanes ! k = int k" if "k < VLEN" for k using that by (simp add: lanes_def)
  have a1: "distinct (after (first ! k)) \<and> set (after (first ! k)) = {?n + k}" if "k < length first" for k
    using n1 [of k] that l1 lane [of k] initial_ok by (auto simp: res_elims part_iff)
  have s2: "instid (second ! k) = int (?n + k)" if "k < length second" for k
    using n2 [of k] that l2 lane [of k] by (auto simp: res_elims part_iff)
  have "after (second ! k) = after x \<and> lin_engine (lin (second ! k)) \<noteq> VALU" if "k < length second" for k
    using n2 [of k] that l2 by (auto simp: res_elims part_iff elim!: lane3_Inr)
  then have a2: "\<forall>y \<in> set second. after y = after x \<and> lin_engine (lin y) \<noteq> VALU"
    by (metis in_set_conv_nth)
  from packer_chain [OF inv valu first a1 l2 s2 a2 q u] p' True show ?thesis by (simp add: replaced_def)
next
  case False
  with sp show ?thesis
    unfolding split_one_free_multiply_add_def Let_def by (auto simp: res_elims split: if_splits)
qed

end

section \<open>The loops around the splits\<close>

lemma split_valu_loop_ok:
  assumes "packing hp S" and "split_valu_loop S taken n rest st = Inr (p', k', ms', bs')"
    and "st = (p, k, ms, bs)" and "packer_ok p"
    and "\<forall>x \<in> set (ms @ bs). lin_engine (lin x) = VALU \<and> x \<notin> set taken"
  shows "splits (\<lambda>x. lin_engine (lin x) = VALU \<and> x \<notin> set taken) p p' \<and> (\<forall>x \<in> set (ms' @ bs'). lin_engine (lin x) = VALU \<and> x \<notin> set taken)"
  using assms
proof (induction S taken n rest st arbitrary: p k ms bs rule: split_valu_loop.induct)
  case (1 S taken n st)
  then have "p' = p" "ms' = ms" "bs' = bs" by simp_all
  with 1 show ?case by (simp add: splits_refl)
next
  case (2 S taken n x rest p0 k0 ms0 bs0)
  have st: "p0 = p" "k0 = k" "ms0 = ms" "bs0 = bs" using 2(8) by simp_all
  note IH = 2(1-5) [unfolded st] and ok = 2(9,10)
  have run: "split_valu_loop S taken n (x # rest) (p, k, ms, bs) = Inr (p', k', ms', bs')"
    using 2(7) unfolding st .
  consider (stop) "k \<ge> n" | (skip) "k < n" "lin_engine (lin x) \<noteq> VALU \<or> x \<in> set taken"
    | (valu) "k < n" "lin_engine (lin x) = VALU" "x \<notin> set taken" by force
  then show ?case
  proof cases
    case stop
    with run have "p' = p" "ms' = ms" "bs' = bs" by simp_all
    with ok show ?thesis by (simp add: splits_refl)
  next
    case skip
    then have k: "\<not> n \<le> k" by simp
    from run k skip(2) have "split_valu_loop S taken n rest (p, k, ms, bs) = Inr (p', k', ms', bs')"
      unfolding split_valu_loop.simps by (simp only: if_False if_True)
    then show ?thesis by (rule IH(1) [OF k skip(2) 2(6) _ refl ok])
  next
    case valu
    then have c: "\<not> n \<le> k" "\<not> (lin_engine (lin x) \<noteq> VALU \<or> x \<in> set taken)" by simp_all
    consider (mul) "opcode x = ''multiply_add''" | (brd) "opcode x = ''vbroadcast''"
      | (long) "opcode x \<noteq> ''multiply_add''" "opcode x \<noteq> ''vbroadcast''" "length (opcode x) > 5"
      | (split) "opcode x \<noteq> ''multiply_add''" "opcode x \<noteq> ''vbroadcast''" "\<not> length (opcode x) > 5" by blast
    then show ?thesis
    proof cases
      case mul
      with run c have "split_valu_loop S taken n rest (p, k, ms @ [x], bs) = Inr (p', k', ms', bs')" by simp
      then show ?thesis by (rule IH(2) [OF c mul 2(6) _ refl ok(1)]) (use valu ok(2) in auto)
    next
      case brd
      have m: "opcode x \<noteq> ''multiply_add''" using brd by simp
      with run c brd have "split_valu_loop S taken n rest (p, k, ms, bs @ [x]) = Inr (p', k', ms', bs')" by simp
      then show ?thesis by (rule IH(3) [OF c m brd 2(6) _ refl ok(1)]) (use valu ok(2) in auto)
    next
      case long
      with run c have "split_valu_loop S taken n rest (p, k, ms, bs) = Inr (p', k', ms', bs')" by simp
      then show ?thesis by (rule IH(4) [OF c long 2(6) _ refl ok])
    next
      case split
      with run c obtain q rest' where q: "split_one_free_valu_to_alu S x p = Inr q"
        and r: "iter_rest S p x rest q = Inr rest'"
        and next_run: "split_valu_loop S taken n rest' (q, k + 1, ms, bs) = Inr (p', k', ms', bs')"
        by (auto simp: res_elims)
      have rep: "replaced x p q" by (rule packing.split_valu_ok [OF 2(6) ok(1) valu(2) q])
      have "packer_ok q" using rep by (simp add: replaced_def)
      from IH(5) [OF c split q r 2(6) next_run refl this ok(2)]
      have "splits (\<lambda>x. lin_engine (lin x) = VALU \<and> x \<notin> set taken) q p'" "\<forall>x \<in> set (ms' @ bs'). lin_engine (lin x) = VALU \<and> x \<notin> set taken" by simp_all
      moreover have "splits (\<lambda>x. lin_engine (lin x) = VALU \<and> x \<notin> set taken) p q"
        by (rule splits_step [OF splits_refl [OF ok(1)] rep]) (simp add: valu)
      ultimately show ?thesis by (blast intro: splits_trans)
    qed
  qed
qed

lemma split_deferred_ok:
  assumes "split_deferred sp n xs (p, k) = Inr (p', k')" and "packer_ok p" and "\<forall>x \<in> set xs. P x"
    and "\<And>x p b p'. packer_ok p \<Longrightarrow> P x \<Longrightarrow> sp x p = Inr (b, p') \<Longrightarrow> if b then replaced x p p' else p' = p"
  shows "splits P p p'"
  using assms(1-3)
proof (induction xs arbitrary: p k)
  case Nil
  then show ?case by (simp add: splits_refl)
next
  case (Cons x xs)
  show ?case
  proof (cases "k \<ge> n")
    case True
    with Cons.prems show ?thesis by (simp add: splits_refl)
  next
    case False
    with Cons.prems(1) obtain b q where q: "sp x p = Inr (b, q)"
      and rest: "split_deferred sp n xs (q, if b then k + 1 else k) = Inr (p', k')"
      by (auto simp: res_elims)
    have step: "if b then replaced x p q else q = p"
      using assms(4) [OF Cons.prems(2) _ q] Cons.prems(3) by simp
    then have "splits P p q"
      using Cons.prems(2,3) splits_step [OF splits_refl [OF Cons.prems(2)], of x q P]
      by (cases b) (simp_all add: splits_refl)
    moreover from this have "splits P q p'"
      using Cons.IH [OF rest splits_ok] Cons.prems(3) by simp
    ultimately show ?thesis by (blast intro: splits_trans)
  qed
qed

context packing
begin

lemma split_valu_into_alu_ok:
  assumes "split_valu_into_alu ss_of hp slots taken p = Inr p'" and "packer_ok p"
  shows "splits (\<lambda>x. lin_engine (lin x) = VALU \<and> x \<notin> set taken) p p'"
proof -
  let ?n = "int ((slots + VLEN - 1) div VLEN)"
  let ?P = "\<lambda>x. lin_engine (lin x) = VALU \<and> x \<notin> set taken"
  from assms(1) obtain p1 k1 ms bs p2 k2 k3 where
    1: "split_valu_loop ss_of taken ?n (free p) (p, 0, [], []) = Inr (p1, k1, ms, bs)"
    and 2: "split_deferred (split_one_free_broadcast ss_of) ?n bs (p1, k1) = Inr (p2, k2)"
    and 3: "split_deferred (split_one_free_multiply_add ss_of hp) ?n ms (p2, k2) = Inr (p', k3)"
    unfolding split_valu_into_alu_def Let_def by (auto simp: res_elims)
  have s1: "splits ?P p p1" and bm: "\<forall>x \<in> set (ms @ bs). ?P x"
    using split_valu_loop_ok [OF packing_axioms 1 refl assms(2)] by simp_all
  have s2: "splits ?P p1 p2"
    by (rule split_deferred_ok [OF 2 splits_ok [OF s1]]) (use bm split_broadcast_ok in auto)
  have s3: "splits ?P p2 p'"
    by (rule split_deferred_ok [OF 3 splits_ok [OF s2]]) (use bm split_multiply_add_ok in auto)
  show ?thesis by (rule splits_trans [OF s3 splits_trans [OF s2 s1]])
qed

end

lemma split_add_loop_ok:
  assumes "packing hp S" and "split_add_loop S taken n rest st = Inr p'" and "st = (p, k)" and "packer_ok p"
  shows "splits (\<lambda>x. lin_engine (lin x) \<in> {VALU, ALU} \<and> x \<notin> set taken) p p'"
  using assms
proof (induction S taken n rest st arbitrary: p k rule: split_add_loop.induct)
  case (1 S taken n p0 k0)
  then show ?case by (simp add: splits_refl)
next
  case (2 S taken n x rest p0 k0)
  have st: "p0 = p" "k0 = k" using 2(7) by simp_all
  note IH = 2(1-4) [unfolded st] and ok = 2(8)
  let ?P = "\<lambda>x. lin_engine (lin x) \<in> {VALU, ALU} \<and> x \<notin> set taken"
  have run: "split_add_loop S taken n (x # rest) (p, k) = Inr p'" using 2(6) unfolding st .
  show ?case
  proof (cases "k \<ge> n")
    case True
    with run ok show ?thesis by (simp add: splits_refl)
  next
    case k: False
    show ?thesis
    proof (cases "x \<in> set taken")
      case True
      from run k True have "split_add_loop S taken n rest (p, k) = Inr p'" by simp
      then show ?thesis by (rule IH(1) [OF k True 2(5) _ refl ok])
    next
      case x: False
      from run k x obtain vec where vec: "is_vector_imm_add (pk_ss p) x = Inr vec"
        and run1: "(if vec then
          rbind (split_one_vector_imm_add S x p) (\<lambda>p'. rbind (iter_rest S p x rest p') (\<lambda>rest'.
            split_add_loop S taken n rest' (p', k + 1)))
        else rbind (is_scalar_imm_add (pk_ss p) x) (\<lambda>sc. if sc then
            rbind (convert_one_scalar_imm_add S x p) (\<lambda>p'. rbind (iter_rest S p x rest p') (\<lambda>rest'.
              split_add_loop S taken n rest' (p', k + 1)))
          else split_add_loop S taken n rest (p, k))) = Inr p'"
        unfolding split_add_loop.simps by (simp only: if_False) (elim rbind_InrE, rule that)
      show ?thesis
      proof (cases vec)
        case True
        with run1 obtain q rest' where q: "split_one_vector_imm_add S x p = Inr q"
          and r: "iter_rest S p x rest q = Inr rest'"
          and next_run: "split_add_loop S taken n rest' (q, k + 1) = Inr p'"
          by (auto simp: res_elims)
        have vec1: "is_vector_imm_add (pk_ss p) x = Inr True" using vec True by simp
        then have valu: "lin_engine (lin x) = VALU" by (rule vector_imm_add)
        have "splits ?P p q"
          using packing.split_vector_imm_ok [OF 2(5) ok valu vec1 q] splits_refl [OF ok]
            splits_step [OF splits_refl [OF ok], of x q ?P] valu x by auto
        moreover from this have "splits ?P q p'"
          using IH(2) [OF k x vec True q r 2(5) next_run refl] splits_ok by blast
        ultimately show ?thesis by (blast intro: splits_trans)
      next
        case False
        with run1 obtain sc where sc: "is_scalar_imm_add (pk_ss p) x = Inr sc"
          and run2: "(if sc then rbind (convert_one_scalar_imm_add S x p) (\<lambda>p'.
              rbind (iter_rest S p x rest p') (\<lambda>rest'. split_add_loop S taken n rest' (p', k + 1)))
            else split_add_loop S taken n rest (p, k)) = Inr p'"
          by (simp only: if_False) (elim rbind_InrE, rule that)
        show ?thesis
        proof (cases sc)
          case True
          with run2 obtain q rest' where q: "convert_one_scalar_imm_add S x p = Inr q"
            and r: "iter_rest S p x rest q = Inr rest'"
            and next_run: "split_add_loop S taken n rest' (q, k + 1) = Inr p'"
            by (auto simp: res_elims)
          have sc1: "is_scalar_imm_add (pk_ss p) x = Inr True" using sc True by simp
          then have alu: "lin_engine (lin x) = ALU" by (rule scalar_imm_add)
          then have "replaced x p q" using packing.convert_ok [OF 2(5) ok _ sc1 q] by simp
          then have "splits ?P p q" by (rule splits_step [OF splits_refl [OF ok]]) (simp add: alu x)
          moreover from this have "splits ?P q p'"
            using IH(3) [OF k x vec False sc True q r 2(5) next_run refl] splits_ok by blast
          ultimately show ?thesis by (blast intro: splits_trans)
        next
          case nsc: False
          with run2 have "split_add_loop S taken n rest (p, k) = Inr p'" by simp
          then show ?thesis by (rule IH(4) [OF k x vec False sc nsc 2(5) _ refl ok])
        qed
      qed
    qed
  qed
qed

end
