(* ===== verification/Packer_Run.thy ===== *)
theory Packer_Run
  imports Packer_Props "HOL-Library.List_Lexorder"
begin

text \<open>
  Whole bundles and whole runs of the scheduler: what \<open>take\<close> issues, that it always issues something
  when an instruction is free, that packing ends, and that instructions that depend on each other
  end up in different bundles, in order.
\<close>

section \<open>Issuing for one engine\<close>

definition serialize :: "packer \<Rightarrow> imeta \<Rightarrow> (engine \<times> slot) res" where
  "serialize p x =
     rbind (work_slot_of (tid x) (pk_conc_threads p)) (\<lambda>sl. to_serialized p (lin x) sl)"

definition of_engine :: "engine \<Rightarrow> imeta list \<Rightarrow> imeta list" where
  "of_engine e xs = filter (\<lambda>x. lin_engine (lin x) = e) xs"

lemma obtain_fold:
  "foldM (obtain_step p e) xs (n, ret, acc) =
     rbind (mapM (serialize p) (take n (of_engine e xs))) (\<lambda>ss.
       Inr (n - length (take n (of_engine e xs)), ret @ ss, acc @ take n (of_engine e xs)))"
proof (induction xs arbitrary: n ret acc)
  case Nil
  show ?case by (simp add: of_engine_def)
next
  case (Cons x xs)
  show ?case
  proof (cases "n > 0 \<and> lin_engine (lin x) = e")
    case True
    then obtain m where n: "n = Suc m" by (cases n) auto
    have of: "of_engine e (x # xs) = x # of_engine e xs" using True by (simp add: of_engine_def)
    show ?thesis
    proof (cases "serialize p x")
      case (Inl err)
      then have "obtain_step p e (n, ret, acc) x = Inl err"
        using True by (auto simp: obtain_step_def serialize_def rbind_def split: sum.splits)
      then show ?thesis using Inl n of by simp
    next
      case (Inr s)
      then have "obtain_step p e (n, ret, acc) x = Inr (n - 1, ret @ [s], acc @ [x])"
        using True by (cases s) (auto simp: obtain_step_def serialize_def res_elims)
      then show ?thesis using Inr n of Cons.IH [of m "ret @ [s]" "acc @ [x]"]
        by (cases "mapM (serialize p) (take m (of_engine e xs))") simp_all
    qed
  next
    case False
    then have step: "obtain_step p e (n, ret, acc) x = Inr (n, ret, acc)"
      unfolding obtain_step_def prod.case by (rule if_not_P)
    have "take n (of_engine e (x # xs)) = take n (of_engine e xs)"
      using False by (cases n) (auto simp: of_engine_def)
    with step Cons.IH show ?thesis by simp
  qed
qed

text \<open>An engine issues the first free instructions of its kind, as many as it has slots.\<close>

lemma obtain_for_engine_eq:
  "obtain_for_engine p e n =
     rbind (mapM (serialize p) (take n (of_engine e (free p)))) (\<lambda>ss. Inr (ss, take n (of_engine e (free p))))"
  unfolding obtain_for_engine_def obtain_fold
  by (cases "mapM (serialize p) (take n (of_engine e (free p)))") simp_all

lemma of_engine_set: "set (of_engine e xs) = {x \<in> set xs. lin_engine (lin x) = e}"
  by (auto simp: of_engine_def)

lemma of_engine_distinct: "distinct xs \<Longrightarrow> distinct (of_engine e xs)"
  by (simp add: of_engine_def)

lemma set_take_of_engine: "x \<in> set (take n (of_engine e xs)) \<Longrightarrow> x \<in> set xs \<and> lin_engine (lin x) = e"
  using set_take_subset [of n "of_engine e xs"] by (auto simp: of_engine_set)

definition slots_of :: "packer \<Rightarrow> imeta list \<Rightarrow> slot list res" where
  "slots_of p xs = rbind (mapM (serialize p) xs) (\<lambda>ss. Inr (map snd ss))"

section \<open>One engine of a bundle\<close>

text \<open>The instructions a stage may split are of the engines filled before it.\<close>

definition splittable :: "engine \<Rightarrow> engine set" where
  "splittable e = (case e of ALU \<Rightarrow> {VALU} | FLOW \<Rightarrow> {VALU, ALU} | _ \<Rightarrow> {})"

context packing
begin

lemma take_engine:
  assumes run: "take_engine ss_of hp (p, insts, R) e = Inr (p', insts', R')"
    and ok: "packer_ok p" and R: "distinct R" "set R \<subseteq> set (free p)" "\<forall>x \<in> set R. lin_engine (lin x) \<noteq> e"
  shows "splits (\<lambda>x. lin_engine (lin x) \<in> splittable e \<and> x \<notin> set R) p p'"
    "\<exists>slots. R' = R @ take (SLOT_LIMITS e) (of_engine e (free p')) \<and> insts' = insts @ [Group e slots] \<and>
       slots_of p' (take (SLOT_LIMITS e) (of_engine e (free p'))) = Inr slots"
    "distinct R'" "set R' \<subseteq> set (free p')"
proof -
  let ?n = "SLOT_LIMITS e"
  let ?S = "splits (\<lambda>x. lin_engine (lin x) \<in> splittable e \<and> x \<notin> set R) p p'"
  obtain cur don where cd: "obtain_for_engine p e ?n = Inr (cur, don)"
    using run by (cases "obtain_for_engine p e ?n") (auto simp: take_engine_def)
  let ?mid = "if e = ALU \<and> ?n - length cur > 0 then
          rbind (split_valu_into_alu ss_of hp (?n - length cur) R p) (\<lambda>p.
          rbind (obtain_for_engine p e ?n) (\<lambda>cd. Inr (p, cd)))
        else if e = FLOW \<and> ?n - length cur > 0 then
          rbind (split_add_into_imm ss_of (?n - length cur) R p) (\<lambda>p.
          rbind (obtain_for_engine p e ?n) (\<lambda>cd. Inr (p, cd)))
        else Inr (p, (cur, don))"
  have "rbind ?mid (\<lambda>(p, (cur, done)). Inr (p, insts @ [Group e (map snd cur)], R @ done)) = Inr (p', insts', R')"
    using run unfolding take_engine_def prod.case cd rbind_simps Let_def .
  then obtain q where sp: "?mid = Inr q"
    and res: "(case q of (p, (cur, done)) \<Rightarrow> Inr (p, insts @ [Group e (map snd cur)], R @ done)) =
      (Inr (p', insts', R') :: (packer \<times> instr \<times> imeta list) res)" by (rule rbind_InrE)
  have fq: "fst q = p'" "insts' = insts @ [Group e (map snd (fst (snd q)))]" "R' = R @ snd (snd q)"
    using res by (cases q; simp)+
  have q: "?S \<and> obtain_for_engine p' e ?n = Inr (snd q)"
  proof -
    consider (alu) "e = ALU" "?n - length cur > 0" | (flow) "e = FLOW" "?n - length cur > 0"
      | (none) "\<not> (e = ALU \<and> ?n - length cur > 0)" "\<not> (e = FLOW \<and> ?n - length cur > 0)" by metis
    then show ?thesis
    proof cases
      case alu
      with sp obtain m where m: "split_valu_into_alu ss_of hp m R p = Inr (fst q)"
        and o: "obtain_for_engine (fst q) e ?n = Inr (snd q)" by (auto simp: res_elims)
      have "splits (\<lambda>x. lin_engine (lin x) \<in> splittable e \<and> x \<notin> set R) p (fst q)"
        using split_valu_into_alu_ok [OF m ok] alu(1) by (simp add: splittable_def)
      with o fq(1) show ?thesis by simp
    next
      case flow
      with sp obtain m where m: "split_add_into_imm ss_of m R p = Inr (fst q)"
        and o: "obtain_for_engine (fst q) e ?n = Inr (snd q)" by (auto simp: res_elims)
      have "splits (\<lambda>x. lin_engine (lin x) \<in> splittable e \<and> x \<notin> set R) p (fst q)"
        using split_add_loop_ok [OF packing_axioms m [unfolded split_add_into_imm_def] refl ok] flow(1)
        by (simp add: splittable_def)
      with o fq(1) show ?thesis by simp
    next
      case none
      with sp have "q = (p, (cur, don))" by (simp only: if_False if_not_P sum.inject)
      with cd fq(1) show ?thesis using splits_refl [OF ok] by simp
    qed
  qed
  then show S: ?S by simp
  let ?new = "take ?n (of_engine e (free p'))"
  from q obtain ss where ss: "mapM (serialize p') ?new = Inr ss" "snd q = (ss, ?new)"
    unfolding obtain_for_engine_eq by (auto simp: res_elims)
  with fq(2,3) have R': "R' = R @ ?new" "insts' = insts @ [Group e (map snd ss)]" by simp_all
  moreover have "slots_of p' ?new = Inr (map snd ss)" unfolding slots_of_def ss(1) by simp
  ultimately show "\<exists>slots. R' = R @ ?new \<and> insts' = insts @ [Group e slots] \<and> slots_of p' ?new = Inr slots"
    by blast
  have kept: "set R \<subseteq> set (free p')" using splits_kept [OF S] R(2) by blast
  have new: "set ?new \<subseteq> set (free p')" "\<forall>x \<in> set ?new. lin_engine (lin x) = e"
    using set_take_of_engine by blast+
  show "set R' \<subseteq> set (free p')" unfolding R'(1) set_append using kept new(1) by (rule Un_least)
  have "distinct ?new"
    by (rule distinct_take) (rule of_engine_distinct [OF packer_invD(6) [OF splits_ok [OF S]]])
  moreover have "set R \<inter> set ?new = {}" using R(3) new(2) by blast
  ultimately show "distinct R'" unfolding R'(1) distinct_append using R(1) by simp
qed

end

text \<open>The bundle that serialises a list of instructions, engine by engine.\<close>

definition bundle_for :: "packer \<Rightarrow> imeta list \<Rightarrow> engine list \<Rightarrow> instr \<Rightarrow> bool" where
  "bundle_for p R es gs \<longleftrightarrow> list_all2 (\<lambda>e g. \<exists>slots. g = Group e slots \<and>
     slots_of p (of_engine e R) = Inr slots \<and> length slots \<le> SLOT_LIMITS e) es gs"

lemma slots_of_later: "later p q \<Longrightarrow> slots_of q = slots_of p"
proof -
  assume "later p q"
  then have "serialize q = serialize p"
    by (intro ext) (simp add: serialize_def to_serialized_def later_def)
  then show "slots_of q = slots_of p" unfolding slots_of_def by (intro ext) (simp only:)
qed

lemma slots_of_length: "slots_of p xs = Inr slots \<Longrightarrow> length slots = length xs"
  by (auto simp: slots_of_def res_elims mapM_Inr_iff)

lemma of_engine_append [simp]: "of_engine e (xs @ ys) = of_engine e xs @ of_engine e ys"
  by (simp add: of_engine_def)

lemma of_engine_none: "\<forall>x \<in> set xs. lin_engine (lin x) \<noteq> e \<Longrightarrow> of_engine e xs = []"
  by (simp add: of_engine_def)

lemma of_engine_all: "\<forall>x \<in> set xs. lin_engine (lin x) = e \<Longrightarrow> of_engine e xs = xs"
  by (simp add: of_engine_def)

definition in_order :: "engine list \<Rightarrow> bool" where
  "in_order es \<longleftrightarrow> distinct es \<and> sorted_wrt (\<lambda>e f. f \<notin> splittable e) es \<and> (\<forall>e. e \<notin> splittable e)"

lemma in_order_EX_UNITS: "in_order EX_UNITS"
  by (auto simp: in_order_def EX_UNITS_def splittable_def split: engine.splits)

context packing
begin

lemma take_engines:
  assumes "foldM (take_engine ss_of hp) es (p, insts, R) = Inr (p', insts', R')" and "packer_ok p"
    and "distinct R" "set R \<subseteq> set (free p)" "\<forall>x \<in> set R. lin_engine (lin x) \<notin> set es" and "in_order es"
  shows "packer_ok p' \<and> later p p' \<and> conserves p p' \<and> distinct R' \<and> set R' \<subseteq> set (free p') \<and>
    (\<exists>N gs. R' = R @ N \<and> insts' = insts @ gs \<and> (\<forall>x \<in> set N. lin_engine (lin x) \<in> set es) \<and>
       bundle_for p R' es gs \<and> ((\<exists>y \<in> set (free p). lin_engine (lin y) \<in> set es) \<longrightarrow> N \<noteq> []))"
  using assms
proof (induction es arbitrary: p insts R)
  case Nil
  then show ?case by (simp add: bundle_for_def)
next
  case (Cons e es)
  from Cons.prems(1) obtain p1 insts1 R1 where e: "take_engine ss_of hp (p, insts, R) e = Inr (p1, insts1, R1)"
    and rest: "foldM (take_engine ss_of hp) es (p1, insts1, R1) = Inr (p', insts', R')"
    by (auto simp: res_elims)
  have Re: "\<forall>x \<in> set R. lin_engine (lin x) \<noteq> e" using Cons.prems(5) by auto
  note t = take_engine [OF e Cons.prems(2-4) Re]
  have ok1: "packer_ok p1" by (rule splits_ok [OF t(1)])
  obtain slots where R1: "R1 = R @ take (SLOT_LIMITS e) (of_engine e (free p1))"
    and i1: "insts1 = insts @ [Group e slots]"
    and slots: "slots_of p1 (take (SLOT_LIMITS e) (of_engine e (free p1))) = Inr slots" using t(2) by blast
  let ?new = "take (SLOT_LIMITS e) (of_engine e (free p1))"
  have new: "\<forall>x \<in> set ?new. lin_engine (lin x) = e" using set_take_of_engine by blast
  have ord: "in_order es" "e \<notin> set es" "\<forall>f \<in> set es. f \<notin> splittable e" "e \<notin> splittable e"
    using Cons.prems(6) by (auto simp: in_order_def)
  have "\<forall>x \<in> set R1. lin_engine (lin x) \<notin> set es" using R1 new ord(2) Cons.prems(5) by auto
  from Cons.IH [OF rest ok1 t(3,4) this ord(1)] obtain N gs where
    r: "packer_ok p'" "later p1 p'" "conserves p1 p'" "distinct R'" "set R' \<subseteq> set (free p')"
    and N: "R' = R1 @ N" "insts' = insts1 @ gs" "\<forall>x \<in> set N. lin_engine (lin x) \<in> set es" "bundle_for p1 R' es gs"
    and prog: "(\<exists>y \<in> set (free p1). lin_engine (lin y) \<in> set es) \<longrightarrow> N \<noteq> []" by blast
  have l1: "later p p1" by (rule splits_later [OF t(1)])
  have "of_engine e R = []" by (rule of_engine_none [OF Re])
  moreover have "of_engine e N = []" by (rule of_engine_none) (use N(3) ord(2) in auto)
  ultimately have "of_engine e R' = ?new" using of_engine_all [OF new] by (simp add: N(1) R1)
  moreover have "length ?new \<le> SLOT_LIMITS e" by simp
  ultimately have head: "slots_of p (of_engine e R') = Inr slots \<and> length slots \<le> SLOT_LIMITS e"
    using slots slots_of_length [OF slots] slots_of_later [OF l1] by simp
  have bun: "bundle_for p R' (e # es) (Group e slots # gs)"
    using N(4) head slots_of_later [OF l1] by (simp add: bundle_for_def)
  have prog': "?new @ N \<noteq> []" if y: "y \<in> set (free p)" "lin_engine (lin y) \<in> set (e # es)" for y
  proof -
    have "lin_engine (lin y) \<notin> splittable e" using y(2) ord(3,4) by auto
    then have y1: "y \<in> set (free p1)" using splits_kept [OF t(1) y(1)] by blast
    show ?thesis
    proof (cases "lin_engine (lin y) = e")
      case True
      with y1 have "of_engine e (free p1) \<noteq> []" by (auto simp: of_engine_def filter_empty_conv)
      then show ?thesis by simp
    next
      case False
      then have "N \<noteq> []" using prog y1 y(2) by auto
      then show ?thesis by simp
    qed
  qed
  show ?case
  proof (intro conjI exI)
    show "R' = R @ (?new @ N)" by (simp add: N(1) R1)
    show "insts' = insts @ (Group e slots # gs)" by (simp add: N(2) i1)
    show "\<forall>x \<in> set (?new @ N). lin_engine (lin x) \<in> set (e # es)" using new N(3) by auto
    show "(\<exists>y \<in> set (free p). lin_engine (lin y) \<in> set (e # es)) \<longrightarrow> ?new @ N \<noteq> []" using prog' by blast
    show "conserves p p'" by (rule conserves_trans [OF splits_weight [OF t(1)] r(3)])
  qed (use r bun later_trans [OF l1 r(2)] in auto)
qed

text \<open>
  One \<open>take\<close>: everything it retires was free at one moment, so nothing pending then unlocks any of
  it; and it retires something whenever something is free.
\<close>

lemma take_traced:
  assumes run: "take_traced ss_of hp p = Inr (insts, R, p')" and ok: "packer_ok p"
  shows "\<exists>q. packer_ok q \<and> later p q \<and> distinct R \<and> set R \<subseteq> set (free q) \<and>
      pending q = mset R + pending p' \<and> conserves p q \<and> later q p' \<and> pk_imetas p' = pk_imetas q" "packer_ok p'" "later p p'"
    "bundle_for p R EX_UNITS insts" "free p \<noteq> [] \<Longrightarrow> R \<noteq> []"
proof -
  let ?p = "p\<lparr>cycle_number := cycle_number p + 1\<rparr>"
  have frame: "packer_inv ?p e = packer_inv p e" "later ?p q = later p q" "conserves ?p q = conserves p q"
    "free ?p = free p" for e q
    by (simp_all add: packer_inv_def pending_def waiting_def later_def weight_def conserves_def ids_def)
  from run obtain q where q: "foldM (take_engine ss_of hp) EX_UNITS (?p, [], []) = Inr (q, insts, R)"
    and r: "foldM (retire ss_of) R q = Inr p'"
    unfolding take_traced_def by (auto simp: res_elims simp del: foldM.simps)
  have "packer_ok ?p" using ok frame(1) by simp
  from take_engines [OF q this _ _ _ in_order_EX_UNITS] obtain N gs where
    t: "packer_ok q" "later ?p q" "conserves ?p q" "distinct R" "set R \<subseteq> set (free q)"
    and N: "R = [] @ N" "insts = [] @ gs" "bundle_for ?p R EX_UNITS gs"
    and prog: "(\<exists>y \<in> set (free ?p). lin_engine (lin y) \<in> set EX_UNITS) \<longrightarrow> N \<noteq> []" by auto
  from retires [OF t(1,4,5)] r have p': "packer_ok p'" "pending q = mset R + pending p'" "later q p'"
    "pk_imetas p' = pk_imetas q" by auto
  show "\<exists>q. packer_ok q \<and> later p q \<and> distinct R \<and> set R \<subseteq> set (free q) \<and>
      pending q = mset R + pending p' \<and> conserves p q \<and> later q p' \<and> pk_imetas p' = pk_imetas q"
    using t p'(2-4) frame by auto
  show "packer_ok p'" by (rule p'(1))
  show "later p p'" using t(2) p'(3) later_trans frame(2) by blast
  show "bundle_for p R EX_UNITS insts"
    using N slots_of_later [of p ?p] by (simp add: bundle_for_def later_def)
  show "R \<noteq> []" if ne: "free p \<noteq> []"
  proof -
    obtain y where "y \<in> set (free p)" using ne by (cases "free p") auto
    moreover have "lin_engine (lin y) \<in> set EX_UNITS" by (cases "lin_engine (lin y)") (simp_all add: EX_UNITS_def)
    ultimately show ?thesis using prog N(1) by auto
  qed
qed

lemma weight_retired: "pending q = mset R + M \<Longrightarrow> R \<noteq> [] \<Longrightarrow> sum_mset (image_mset weight_of M) < weight q"
  by (cases R) (auto simp: weight_def weight_of_def)

lemma take_weight:
  assumes "take_traced ss_of hp p = Inr (insts, R, p')" "packer_ok p" "free p \<noteq> []"
  shows "weight p' < weight p"
proof -
  from take_traced(1) [OF assms(1,2)] obtain q where q: "pending q = mset R + pending p'" "weight q \<le> weight p" by (auto simp: conserves_def)
  have "weight p' < weight q"
    using weight_retired [OF q(1) take_traced(5) [OF assms(1-3)]] by (simp add: weight_def)
  with q(2) show ?thesis by simp
qed

end

text \<open>
  Nothing is left behind: without free and parked instructions nothing waits either, since the
  positions that are waited for cannot form a cycle; and every position the work started with is
  issued, by the instruction itself or by its parts.
\<close>

lemma nothing_waits:
  assumes ok: "packer_ok p" and acyc: "graph_acyclic (pk_imetas p)" and empty: "free p = []" "frontier p = []"
  shows "pending p = {#}"
proof (rule ccontr)
  assume ne: "pending p \<noteq> {#}"
  have pend: "pending p = waiting p" using empty by (simp add: pending_def)
  from acyc obtain r :: "nat \<Rightarrow> nat" where
    r: "\<forall>i < length (pk_imetas p). \<forall>j \<in> set (after (pk_imetas p ! i)). j < length (pk_imetas p) \<and> r i < r j"
    by (auto simp: graph_acyclic_def)
  have False if "i < length (pk_imetas p)" "incount p ! i > 0" for i
    using that
  proof (induction "r i" arbitrary: i rule: less_induct)
    case less
    have "0 < demand (pending p) i" using packer_invD(4) [OF ok less.prems(1)] less.prems(2) by simp
    then obtain y where y: "y \<in># pending p" "i \<in> set (after y)" using demand_zero [of "pending p" i] by auto
    then obtain k where k: "k < length (pk_imetas p)" "incount p ! k > 0" "y = pk_imetas p ! k"
      by (auto simp: pend waiting_def)
    with r y(2) have "r k < r i" by blast
    then show False using less.hyps k by blast
  qed
  moreover obtain y where "y \<in># waiting p" using ne pend by auto
  ultimately show False by (auto simp: waiting_def)
qed

section \<open>Packing a whole graph\<close>

text \<open>The bundles a run of the packing loop emits, each with what it retires.\<close>

inductive packed ::
  "sorted_set_of \<Rightarrow> nat heap_ops \<Rightarrow> packer \<Rightarrow> (instr \<times> imeta list) list \<Rightarrow> packer \<Rightarrow> bool" for ss_of hp where
  packed_end: "have_more ss_of p = Inr (False, p') \<Longrightarrow> packed ss_of hp p [] p'"
| packed_bundle: "have_more ss_of p = Inr (True, q) \<Longrightarrow> take_traced ss_of hp q = Inr (ins, R, r) \<Longrightarrow>
    packed ss_of hp r bs p' \<Longrightarrow> packed ss_of hp p ((ins, R) # bs) p'"

inductive_cases packed_endE: "packed ss_of hp p [] p'"
inductive_cases packed_bundleE: "packed ss_of hp p (b # bs) p'"

context packing
begin

lemma have_more:
  assumes "packer_ok p"
  obtains b q where "have_more ss_of p = Inr (b, q)" "packer_ok q" "later p q" "pending q = pending p"
    "pk_imetas q = pk_imetas p"
    "b \<longleftrightarrow> free q \<noteq> []"
    "free q = [] \<Longrightarrow> \<forall>x \<in> set (frontier p). \<not> tid x < next_batch_tid p"
proof (cases "free p = []")
  case False
  then show thesis using assms by (intro that [of True p]) (simp_all add: have_more_def)
next
  case empty: True
  show thesis
  proof (cases "frontier p = []")
    case True
    then show thesis using empty assms by (intro that [of False p]) (simp_all add: have_more_def)
  next
    case False
    from fall_down_to_free [OF assms] obtain q where q: "fall_down_to_free ss_of p = Inr q" "packer_ok q"
      "pending q = pending p" "later p q" "pk_imetas q = pk_imetas p"
      "set (free q) = set (free p) \<union> {x \<in> set (frontier p). tid x < next_batch_tid p}" by blast
    then show thesis using empty False
      by (intro that [of "free q \<noteq> []" q]) (auto simp: have_more_def)
  qed
qed

lemma weight_pending: "pending q = pending p \<Longrightarrow> weight q = weight p"
  by (simp add: weight_def)

text \<open>The packing loop ends, and its bundles are those of a run.\<close>

lemma work_loop_ends:
  assumes "packer_ok p"
  shows "\<exists>res. work_loop ss_of hp p acc = Some res \<and>
    (\<forall>insts p'. res = Inr (insts, p') \<longrightarrow> (\<exists>bs. packed ss_of hp p bs p' \<and> insts = acc @ map fst bs))"
  using assms
proof (induction "weight p" arbitrary: p acc rule: less_induct)
  case less
  obtain b q where hm: "have_more ss_of p = Inr (b, q)" and q: "packer_ok q" "pending q = pending p"
    and b: "b \<longleftrightarrow> free q \<noteq> []" using have_more [OF less.prems] by metis
  note unfold = work_loop.simps [of ss_of hp p acc]
  show ?case
  proof (cases b)
    case False
    with hm show ?thesis unfolding unfold by (auto intro: packed_end)
  next
    case True
    show ?thesis
    proof (cases "take_traced ss_of hp q")
      case (Inl e)
      then show ?thesis using True hm unfolding unfold by (simp add: take_bundle_def)
    next
      case (Inr t)
      obtain ins R r where t: "take_traced ss_of hp q = Inr (ins, R, r)" using Inr by (cases t) simp
      have "weight r < weight p"
        using take_weight [OF t q(1)] True b weight_pending [OF q(2)] by simp
      from less.hyps [OF this take_traced(2) [OF t q(1)], of "acc @ [ins]"] obtain res where
        res: "work_loop ss_of hp r (acc @ [ins]) = Some res"
        "\<forall>insts p'. res = Inr (insts, p') \<longrightarrow> (\<exists>bs. packed ss_of hp r bs p' \<and> insts = (acc @ [ins]) @ map fst bs)"
        by blast
      have "work_loop ss_of hp p acc = Some res"
        unfolding unfold using True hm t res(1) by (simp add: take_bundle_def)
      moreover have "\<exists>bs. packed ss_of hp p bs p' \<and> insts = acc @ map fst bs" if "res = Inr (insts, p')" for insts p'
      proof -
        from res(2) that obtain bs where "packed ss_of hp r bs p'" "insts = (acc @ [ins]) @ map fst bs" by blast
        then show ?thesis using packed_bundle [OF hm [unfolded True [THEN eqTrueI]] t]
          by (intro exI [of _ "(ins, R) # bs"]) simp
      qed
      ultimately show ?thesis by blast
    qed
  qed
qed

text \<open>Nothing that is retired later unlocks a position that nothing waits for now.\<close>

lemma packed_zero:
  assumes "packed ss_of hp p bs p'" and "packer_ok p" and "i < length (pk_imetas p)" and "incount p ! i = 0"
    and "(ins, R) \<in> set bs" and "z \<in> set R"
  shows "i \<notin> set (after z)"
  using assms
proof (induction rule: packed.induct)
  case (packed_bundle p q ins0 R0 r bs p')
  obtain b q' where "have_more ss_of p = Inr (b, q')" "packer_ok q'" "later p q'"
    using have_more [OF packed_bundle.prems(1)] by metis
  with packed_bundle.hyps(1) have q: "packer_ok q" "later p q" by simp_all
  from take_traced(1) [OF packed_bundle.hyps(2) q(1)] obtain s where s: "packer_ok s" "later q s"
    "pending s = mset R0 + pending r" by blast
  note later = later_trans [OF q(2) s(2)]
  have i: "i < length (pk_imetas s)" "incount s ! i = 0"
    using packed_bundle.prems(2,3) later by (auto simp: later_def)
  show ?case
  proof (cases "z \<in> set R0")
    case True
    have "demand (pending s) i = 0" using packer_invD(4) [OF s(1) i(1)] i(2) by simp
    then show ?thesis using True s(3) unfolding demand_zero by simp
  next
    case False
    have r: "packer_ok r" "later p r"
      using take_traced(2,3) [OF packed_bundle.hyps(2) q(1)] later_trans [OF q(2)] by simp_all
    have "i < length (pk_imetas r)" "incount r ! i = 0"
      using packed_bundle.prems(2,3) r(2) by (auto simp: later_def)
    moreover have "(ins, R) \<in> set bs" using packed_bundle.prems(4,5) False by auto
    ultimately show ?thesis using packed_bundle.IH r(1) packed_bundle.prems(5) by blast
  qed
qed simp

text \<open>An instruction and one it unlocks are retired by different bundles, in order.\<close>

lemma packed_order:
  assumes "packed ss_of hp p bs p'" and "packer_ok p" and "b < length bs" and "c < length bs"
    and "y \<in> set (snd (bs ! b))" and "z \<in> set (snd (bs ! c))" and "nat (instid y) \<in> set (after z)"
  shows "c < b"
  using assms
proof (induction arbitrary: b c rule: packed.induct)
  case (packed_bundle p q ins R r bs p')
  obtain b' q' where "have_more ss_of p = Inr (b', q')" "packer_ok q'"
    using have_more [OF packed_bundle.prems(1)] by metis
  with packed_bundle.hyps(1) have q: "packer_ok q" by simp
  from take_traced(1) [OF packed_bundle.hyps(2) q] obtain s where s: "packer_ok s" "later q s"
    "set R \<subseteq> set (free s)" "pending s = mset R + pending r" "later s r" by blast
  have r: "packer_ok r" by (rule take_traced(2) [OF packed_bundle.hyps(2) q])
  show ?case
  proof (cases b)
    case (Suc b')
    show ?thesis
    proof (cases c)
      case (Suc c')
      then show ?thesis
        using packed_bundle.IH [OF r, of b' c'] packed_bundle.prems \<open>b = Suc b'\<close> by simp
    qed (simp add: \<open>b = Suc b'\<close>)
  next
    case 0
    then have y: "y \<in> set (free s)" using packed_bundle.prems(4) s(3) by auto
    let ?i = "nat (instid y)"
    have i: "?i < length (pk_imetas s)" "incount s ! ?i = 0"
      using pending_okD(3) [OF packer_invD(3) [OF s(1)] in_pending(1) [OF y]] packer_invD(5) [OF s(1), of y] y
      by simp_all
    have none: "?i \<notin> set (after w)" if "w \<in># pending s" for w
      using packer_invD(4) [OF s(1) i(1)] i(2) that by (simp add: demand_zero)
    show ?thesis
    proof (cases c)
      case 0
      then have "z \<in># pending s" using packed_bundle.prems(5) s(4) by simp
      with none packed_bundle.prems(6) show ?thesis by blast
    next
      case (Suc c')
      then have c': "c' < length bs" "z \<in> set (snd (bs ! c'))" using packed_bundle.prems(3,5) by simp_all
      obtain insc Rc where bc: "bs ! c' = (insc, Rc)" by (cases "bs ! c'")
      then have mem: "(insc, Rc) \<in> set bs" using c'(1) by (metis nth_mem)
      have sr: "?i < length (pk_imetas r)" "incount r ! ?i = 0" using i s(5) by (auto simp: later_def)
      have "?i \<notin> set (after z)"
        by (rule packed_zero [OF packed_bundle.hyps(3) r sr mem]) (use c' bc in simp)
      with packed_bundle.prems(6) show ?thesis by blast
    qed
  qed
qed simp

lemma have_more_frontier:
  assumes "have_more ss_of p = Inr (b, q)"
  shows "set (frontier q) \<subseteq> set (frontier p) \<and> next_batch_tid q = next_batch_tid p"
proof -
  let ?P = "\<lambda>q. set (frontier q) \<subseteq> set (frontier p) \<and> next_batch_tid q = next_batch_tid p"
  have "?P q" if "fall_down_to_free ss_of p = Inr q"
    using that unfolding fall_down_to_free_def
    by (rule foldM_invariant [where P = ?P])
      (auto simp: py_remove_def add_free_def res_elims dest!: subsetD [OF set_remove1_subset] split: if_splits)
  with assms show ?thesis by (auto simp: have_more_def res_elims split: if_splits)
qed

lemma packed_end_state:
  assumes "packed ss_of hp p bs p'" and "packer_ok p"
  shows "packer_ok p' \<and> later p p' \<and> free p' = [] \<and> (\<forall>x \<in> set (frontier p'). \<not> tid x < next_batch_tid p') \<and>
    ids p \<subseteq> ids p' \<union> instid ` (\<Union>b \<in> set bs. set (snd b))"
  using assms
proof (induction rule: packed.induct)
  case (packed_end p p')
  obtain b q where hm: "have_more ss_of p = Inr (b, q)" and q: "packer_ok q" "later p q" "pending q = pending p"
    "b \<longleftrightarrow> free q \<noteq> []" "free q = [] \<Longrightarrow> \<forall>x \<in> set (frontier p). \<not> tid x < next_batch_tid p"
    using have_more [OF packed_end.prems] by metis
  from packed_end.hyps hm have b: "\<not> b" and pq: "p' = q" by simp_all
  from q(4) b have "free q = []" by simp
  moreover have "set (frontier p') \<subseteq> set (frontier p)" "next_batch_tid p' = next_batch_tid p"
    using have_more_frontier [OF hm] pq by simp_all
  moreover from this have "\<forall>x \<in> set (frontier p'). \<not> tid x < next_batch_tid p'" using q(5) \<open>free q = []\<close> by auto
  ultimately show ?case using q pq by (auto simp: ids_def)
next
  case (packed_bundle p q ins R r bs p')
  obtain b q' where "have_more ss_of p = Inr (b, q')" "packer_ok q'" "later p q'" "pending q' = pending p"
    using have_more [OF packed_bundle.prems(1)] by metis
  with packed_bundle.hyps(1) have q: "packer_ok q" "later p q" "pending q = pending p" by simp_all
  from take_traced(1) [OF packed_bundle.hyps(2) q(1)] obtain s where s: "conserves q s" "pending s = mset R + pending r"
    by blast
  have r: "packer_ok r" "later q r" by (rule take_traced(2,3) [OF packed_bundle.hyps(2) q(1)])+
  have "ids p \<subseteq> ids r \<union> instid ` set R"
    using s q(3) by (auto simp: ids_def conserves_def)
  with packed_bundle.IH [OF r(1)] later_trans [OF q(2) r(2)] later_trans show ?case by fastforce
qed

text \<open>
  Every edge of the graph is respected by the whole run: when \<open>j\<close> depends on \<open>i\<close>, everything that is
  issued for \<open>i\<close> is in an earlier bundle than everything that is issued for \<open>j\<close>. Hence the same holds
  for paths, since what lies on a path is issued too.
\<close>

lemma take_step:
  assumes "packer_ok p" and "have_more ss_of p = Inr (True, q)" and "take_traced ss_of hp q = Inr (ins, R, r)"
  shows "\<exists>s. packer_ok s \<and> set R \<subseteq> set (free s) \<and> pending s = mset R + pending r \<and> conserves p s \<and>
    pk_imetas r = pk_imetas s \<and> packer_ok r \<and> later p s \<and> later p r"
proof -
  obtain b q' where "have_more ss_of p = Inr (b, q')" "packer_ok q'" "later p q'" "pending q' = pending p"
    "pk_imetas q' = pk_imetas p" using have_more [OF assms(1)] by metis
  with assms(2) have q: "packer_ok q" "later p q" "pending q = pending p" "pk_imetas q = pk_imetas p" by simp_all
  from take_traced(1) [OF assms(3) q(1)] obtain s where s: "packer_ok s" "later q s" "set R \<subseteq> set (free s)"
    "pending s = mset R + pending r" "conserves q s" "pk_imetas r = pk_imetas s" by blast
  have "conserves p s" using s(5) by (simp add: conserves_def weight_def ids_def q(3,4))
  with s take_traced(2,3) [OF assms(3) q(1)] later_trans [OF q(2)] show ?thesis by blast
qed

lemma edges_held_retired:
  assumes ok: "packer_ok s" and R: "set R \<subseteq> set (free s)" and pend: "pending s = mset R + M"
    and held: "edges_held (pk_imetas s) (pending s)"
  shows "edges_held (pk_imetas s) M"
proof -
  have "edge_held M y j" if "y \<in># M" "edge_held (pending s) y j" for y j
  proof -
    have "w \<in># M" if "w \<in># pending s" "nat (instid w) \<in> set (after y)" for w
    proof -
      have "w \<notin> set R" using free_unneeded [OF ok, of w] R \<open>y \<in># M\<close> that(2) pend by auto
      then show ?thesis using that(1) pend by simp
    qed
    with that(2) show ?thesis by (auto simp: edge_held_def)
  qed
  with held pend show ?thesis by (auto simp: edges_held_def)
qed

lemma edge_blocks:
  assumes ok: "packer_ok s" and held: "edges_held (pk_imetas s) (pending s)"
    and "y \<in># pending s" "j \<in> set (after (pk_imetas s ! nat (instid y)))" "z \<in> set (free s)" "nat (instid z) = j"
  shows False
proof -
  have "edge_held (pending s) y j" using held assms(3,4) by (simp add: edges_held_def)
  then show False using free_unneeded [OF ok assms(5)] assms(3,6) by (auto simp: edge_held_def)
qed

lemma packed_ids:
  assumes "packed ss_of hp p bs p'" and "packer_ok p" and "b \<in> set bs" and "y \<in> set (snd b)"
  shows "instid y \<in> ids p \<union> {int (length (pk_imetas p))..}"
  using assms
proof (induction rule: packed.induct)
  case (packed_bundle p q ins R r bs p')
  from take_step [OF packed_bundle.prems(1) packed_bundle.hyps(1,2)] obtain s where
    s: "pending s = mset R + pending r" "conserves p s" "pk_imetas r = pk_imetas s" "packer_ok r" by blast
  have "instid y \<in> ids s \<union> {int (length (pk_imetas s))..}"
  proof (cases "b = (ins, R)")
    case True
    then show ?thesis using packed_bundle.prems(3) s(1) by (simp add: ids_def)
  next
    case False
    then have "instid y \<in> ids r \<union> {int (length (pk_imetas r))..}"
      using packed_bundle.IH [OF s(4)] packed_bundle.prems by simp
    then show ?thesis using s(1,3) by (auto simp: ids_def)
  qed
  then show ?case using s(2) by (auto simp: conserves_def)
qed simp

lemma packed_edge:
  assumes "packed ss_of hp p bs p'" and "packer_ok p" and "edges_held (pk_imetas p) (pending p)"
    and "b < length bs" "c < length bs" "y \<in> set (snd (bs ! b))" "z \<in> set (snd (bs ! c))"
    and "instid y = int i" "i < length (pk_imetas p)" "j \<in> set (after (pk_imetas p ! i))" "instid z = int j"
  shows "b < c"
  using assms
proof (induction arbitrary: b c rule: packed.induct)
  case (packed_bundle p q ins R r bs p')
  from take_step [OF packed_bundle.prems(1) packed_bundle.hyps(1,2)] obtain s where
    s: "packer_ok s" "set R \<subseteq> set (free s)" "pending s = mset R + pending r" "conserves p s"
      "pk_imetas r = pk_imetas s" "packer_ok r" "later p s" by blast
  have held: "edges_held (pk_imetas s) (pending s)" using s(4) packed_bundle.prems(2) by (simp add: conserves_def)
  have same: "pk_imetas s ! i = pk_imetas p ! i" "i < length (pk_imetas s)"
    using s(7) packed_bundle.prems(8) by (auto simp: later_def nth_append)
  have heldr: "edges_held (pk_imetas r) (pending r)"
    unfolding s(5) by (rule edges_held_retired [OF s(1-3) held])
  have blocked: False if "int i \<in> ids s" "z \<in> set R"
  proof -
    from that(1) obtain w where w: "w \<in># pending s" "instid w = int i" by (auto simp: ids_def)
    show False
      by (rule edge_blocks [OF s(1) held w(1), of j z]) (use packed_bundle.prems s(2) that same w(2) in auto)
  qed
  show ?case
  proof (cases c)
    case 0
    then have z: "z \<in> set R" using packed_bundle.prems(6) by simp
    have "int i \<in> ids s"
    proof (cases b)
      case 0
      then show ?thesis using packed_bundle.prems(5,7) s(3) by (force simp: ids_def)
    next
      case (Suc b')
      then have "b' < length bs" "y \<in> set (snd (bs ! b'))" using packed_bundle.prems(3,5) by simp_all
      then have "instid y \<in> ids r \<union> {int (length (pk_imetas r))..}"
        by (intro packed_ids [OF packed_bundle.hyps(3) s(6)]) auto
      then show ?thesis using packed_bundle.prems(7) same s(3,5) by (auto simp: ids_def)
    qed
    with blocked z show ?thesis by blast
  next
    case (Suc c')
    show ?thesis
    proof (cases b)
      case (Suc b')
      then show ?thesis
        using packed_bundle.IH [OF s(6) heldr, of b' c'] packed_bundle.prems same \<open>c = Suc c'\<close>
        by (simp add: s(5))
    qed (simp add: \<open>c = Suc c'\<close>)
  qed
qed simp

lemma packed_pred:
  assumes "packed ss_of hp p bs p'" and "packer_ok p" and "edges_held (pk_imetas p) (pending p)"
    and "c < length bs" "z \<in> set (snd (bs ! c))" "instid z = int j"
    and "i < length (pk_imetas p)" "j \<in> set (after (pk_imetas p ! i))" "int i \<in> ids p"
  shows "\<exists>b < c. \<exists>w \<in> set (snd (bs ! b)). instid w = int i"
  using assms
proof (induction arbitrary: c rule: packed.induct)
  case (packed_bundle p q ins R r bs p')
  from take_step [OF packed_bundle.prems(1) packed_bundle.hyps(1,2)] obtain s where
    s: "packer_ok s" "set R \<subseteq> set (free s)" "pending s = mset R + pending r" "conserves p s"
      "pk_imetas r = pk_imetas s" "packer_ok r" "later p s" by blast
  have held: "edges_held (pk_imetas s) (pending s)" using s(4) packed_bundle.prems(2) by (simp add: conserves_def)
  have same: "pk_imetas s ! i = pk_imetas p ! i" "i < length (pk_imetas s)"
    using s(7) packed_bundle.prems(6) by (auto simp: later_def nth_append)
  have ids: "int i \<in> ids s" using s(4) packed_bundle.prems(8) by (auto simp: conserves_def)
  show ?case
  proof (cases c)
    case 0
    then have "z \<in> set (free s)" using packed_bundle.prems(4) s(2) by auto
    moreover obtain w where "w \<in># pending s" "instid w = int i" using ids by (auto simp: ids_def)
    ultimately have False using edge_blocks [OF s(1) held, of w j z] packed_bundle.prems same by simp
    then show ?thesis ..
  next
    case (Suc c')
    show ?thesis
    proof (cases "\<exists>w \<in> set R. instid w = int i")
      case True
      then show ?thesis using Suc by (intro exI [of _ 0]) simp
    next
      case False
      then have "int i \<in> ids r" using ids s(3) by (auto simp: ids_def)
      moreover have "edges_held (pk_imetas r) (pending r)"
        unfolding s(5) by (rule edges_held_retired [OF s(1-3) held])
      ultimately obtain b where "b < c'" "\<exists>w \<in> set (snd (bs ! b)). instid w = int i"
        using packed_bundle.IH [OF s(6), of c'] packed_bundle.prems same Suc by (auto simp: s(5))
      then show ?thesis using Suc by (intro exI [of _ "Suc b"]) simp
    qed
  qed
qed simp

lemma packed_path:
  assumes run: "packed ss_of hp p bs p'" and ok: "packer_ok p" and held: "edges_held (pk_imetas p) (pending p)"
    and ids: "\<forall>i < length (pk_imetas p). int i \<in> ids p"
    and path: "(i, j) \<in> (edges (pk_imetas p))\<^sup>+"
    and y: "b < length bs" "y \<in> set (snd (bs ! b))" "instid y = int i"
    and z: "c < length bs" "z \<in> set (snd (bs ! c))" "instid z = int j"
  shows "b < c"
  using path z
proof (induction arbitrary: c z rule: trancl_induct)
  case (base j)
  then show ?case
    by (intro packed_edge [OF run ok held y(1) base(2) y(2) base(3) y(3) _ _ base(4)]) (auto simp: edges_def)
next
  case (step k j)
  have k: "k < length (pk_imetas p)" "j \<in> set (after (pk_imetas p ! k))" using step(2) by (auto simp: edges_def)
  from packed_pred [OF run ok held step(4-6) k] ids k(1) obtain a w where
    w: "a < c" "w \<in> set (snd (bs ! a))" "instid w = int k" by blast
  have "b < a" by (rule step.IH [OF _ w(2,3)]) (use w(1) step(4) in simp)
  with w(1) show ?case by simp
qed

text \<open>Every bundle holds the slots of what it retires, engine by engine, within the limits.\<close>

lemma packed_bundles:
  assumes "packed ss_of hp p bs p'" and "packer_ok p" and "b \<in> set bs"
  shows "bundle_for p (snd b) EX_UNITS (fst b) \<and> snd b \<noteq> [] \<and> distinct (snd b)"
  using assms
proof (induction rule: packed.induct)
  case (packed_bundle p q ins R r bs p')
  obtain b' q' where hm: "have_more ss_of p = Inr (b', q')" "packer_ok q'" "later p q'" "b' \<longleftrightarrow> free q' \<noteq> []"
    using have_more [OF packed_bundle.prems(1)] by metis
  with packed_bundle.hyps(1) have q: "packer_ok q" "later p q" "free q \<noteq> []" by auto
  note t = take_traced [OF packed_bundle.hyps(2) q(1)]
  show ?case
  proof (cases "b = (ins, R)")
    case True
    then show ?thesis
      using t(1,4,5) q(3) slots_of_later [OF q(2)] by (auto simp: bundle_for_def)
  next
    case False
    then have "b \<in> set bs" using packed_bundle.prems(2) by simp
    from packed_bundle.IH [OF t(2) this] slots_of_later [OF later_trans [OF q(2) t(3)]]
    show ?thesis by (simp add: bundle_for_def)
  qed
qed simp

end

text \<open>\<open>i\<close> is issued before \<open>j\<close>: every bundle with work of \<open>i\<close> is before every bundle with work of \<open>j\<close>.\<close>

definition issued_before :: "(instr \<times> imeta list) list \<Rightarrow> nat \<Rightarrow> nat \<Rightarrow> bool" where
  "issued_before bs i j \<longleftrightarrow> (\<forall>b c y z. b < length bs \<longrightarrow> c < length bs \<longrightarrow> y \<in> set (snd (bs ! b)) \<longrightarrow>
     z \<in> set (snd (bs ! c)) \<longrightarrow> instid y = int i \<longrightarrow> instid z = int j \<longrightarrow> b < c)"

text \<open>\<open>i\<close> is issued: some bundle holds it or a part of it.\<close>

definition issued :: "(instr \<times> imeta list) list \<Rightarrow> nat \<Rightarrow> bool" where
  "issued bs i \<longleftrightarrow> (\<exists>b \<in> set bs. \<exists>y \<in> set (snd b). instid y = int i)"

section \<open>The initial state\<close>

text \<open>A graph the scheduler can start from: numbered by position, with edges to existing positions.\<close>

definition graph_ok :: "imeta list \<Rightarrow> bool" where
  "graph_ok ims \<longleftrightarrow> (\<forall>i < length ims. instid (ims ! i) = int i \<and> distinct (after (ims ! i)) \<and>
     set (after (ims ! i)) \<subseteq> {..<length ims})"

lemma graph_ok_inj: "graph_ok ims \<Longrightarrow> i < length ims \<Longrightarrow> j < length ims \<Longrightarrow> instid (ims ! i) = instid (ims ! j) \<Longrightarrow> i = j"
  by (simp add: graph_ok_def)

lemma pending_ok_graph:
  assumes "graph_ok ims"
  shows "pending_ok (length ims) (mset ims)"
proof -
  have "distinct (map part_key ims)"
    unfolding distinct_conv_nth using graph_ok_inj [OF assms] by (auto simp: part_key_def)
  then have "count (image_mset part_key (mset ims)) k \<le> 1" for k
    by (metis count_distinct_le mset_map)
  moreover have "z = y" if "y \<in> set ims" "z \<in> set ims" "instid z = instid y" for y z
    using that graph_ok_inj [OF assms] by (metis in_set_conv_nth)
  moreover have "0 \<le> instid y \<and> instid y < int (length ims) \<and> distinct (after y) \<and> set (after y) \<subseteq> {..<length ims}"
    if "y \<in> set ims" for y
    using that assms by (metis graph_ok_def in_set_conv_nth of_nat_0_le_iff of_nat_less_iff)
  ultimately show ?thesis unfolding pending_ok_def set_mset_mset by blast
qed

lemma count_edges:
  assumes "\<forall>x \<in> set xs. distinct (after x) \<and> set (after x) \<subseteq> {..<length (incount p)}"
  shows "\<exists>ic. foldM (\<lambda>p x. foldM (add_incount 1) (after x) p) xs p = Inr (p\<lparr>incount := ic\<rparr>) \<and>
    length ic = length (incount p) \<and>
    (\<forall>i < length (incount p). ic ! i = incount p ! i + demand (mset xs) i)"
  using assms
proof (induction xs arbitrary: p)
  case Nil
  show ?case by (auto intro: exI [of _ "incount p"])
next
  case (Cons x xs)
  from add_incounts [of "after x" p 1] Cons.prems obtain ic where
    ic: "foldM (add_incount 1) (after x) p = Inr (p\<lparr>incount := ic\<rparr>)" "length ic = length (incount p)"
    "\<forall>i < length (incount p). ic ! i = incount p ! i + (if i \<in> set (after x) then 1 else 0)" by auto
  from Cons.IH [of "p\<lparr>incount := ic\<rparr>"] Cons.prems ic(2) obtain jc where
    jc: "foldM (\<lambda>p x. foldM (add_incount 1) (after x) p) xs (p\<lparr>incount := ic\<rparr>) = Inr (p\<lparr>incount := jc\<rparr>)"
    "length jc = length (incount p)"
    "\<forall>i < length (incount p). jc ! i = ic ! i + demand (mset xs) i" by auto
  show ?case
  proof (intro exI conjI allI impI)
    show "foldM (\<lambda>p x. foldM (add_incount 1) (after x) p) (x # xs) p = Inr (p\<lparr>incount := jc\<rparr>)"
      unfolding foldM.simps ic(1) rbind_simps by (rule jc(1))
    show "jc ! i = incount p ! i + demand (mset (x # xs)) i" if "i < length (incount p)" for i
      using ic(3) jc(3) that by simp
  qed (rule jc(2))
qed

context packing
begin

lemma initial_free:
  assumes "graph_ok ims" and "length ic = length ims" and "k \<le> length ims"
    and "p0 = (packer_start ims nthreads conc ss)\<lparr>incount := ic\<rparr>"
    and "p = fold (\<lambda>(idx, x) p. if incount p ! idx = 0 then make_issuable ss_of x p else p) (enumerate 0 (take k ims)) p0"
  shows "incount p = ic \<and> pk_imetas p = ims \<and> distinct (free p) \<and> pk_ss p = ss \<and>
    pk_num_threads p = nthreads \<and> pk_conc_threads p = conc \<and>
    mset (free p) + mset (frontier p) = image_mset ((!) ims) (mset_set {i. i < k \<and> ic ! i = 0})"
  using assms(3,5)
proof (induction k arbitrary: p)
  case 0
  then show ?case by (simp add: assms(4) packer_start_def)
next
  case (Suc k)
  let ?f = "\<lambda>(idx, x) p. if incount p ! idx = 0 then make_issuable ss_of x p else p"
  let ?q = "fold ?f (enumerate 0 (take k ims)) p0"
  have k: "k < length ims" using Suc.prems(1) by simp
  then have "enumerate 0 (take (Suc k) ims) = enumerate 0 (take k ims) @ [(k, ims ! k)]"
    by (simp add: take_Suc_conv_app_nth enumerate_append_eq)
  then have p: "p = (if incount ?q ! k = 0 then make_issuable ss_of (ims ! k) ?q else ?q)"
    using Suc.prems(2) by simp
  from Suc.IH [OF _ refl] k have q: "incount ?q = ic" "pk_imetas ?q = ims" "distinct (free ?q)"
    "pk_ss ?q = ss" "pk_num_threads ?q = nthreads" "pk_conc_threads ?q = conc"
    "mset (free ?q) + mset (frontier ?q) = image_mset ((!) ims) (mset_set {i. i < k \<and> ic ! i = 0})" by simp_all
  show ?case
  proof (cases "ic ! k = 0")
    case True
    have notin: "ims ! k \<notin> set (free ?q)"
    proof
      assume "ims ! k \<in> set (free ?q)"
      then have "ims ! k \<in># mset (free ?q) + mset (frontier ?q)" by simp
      then obtain i where "i < k" "ims ! k = ims ! i" unfolding q(7) by auto
      then show False using graph_ok_inj [OF assms(1), of k i] k by simp
    qed
    note m = make_issuable [OF q(3) notin]
    have "{i. i < Suc k \<and> ic ! i = 0} = insert k {i. i < k \<and> ic ! i = 0}" using True by (auto simp: less_Suc_eq)
    then have "mset_set {i. i < Suc k \<and> ic ! i = 0} = add_mset k (mset_set {i. i < k \<and> ic ! i = 0})" by simp
    then show ?thesis using p True q m by simp
  next
    case False
    then have "{i. i < Suc k \<and> ic ! i = 0} = {i. i < k \<and> ic ! i = 0}" by (auto simp: less_Suc_eq)
    then show ?thesis using p False q by simp
  qed
qed

lemma new_packer_ok:
  assumes "graph_ok ims"
  obtains p where "new_packer ss_of ims nthreads conc ss = Inr p" "packer_ok p" "pending p = mset ims"
    "pk_imetas p = ims" "pk_ss p = ss" "pk_num_threads p = nthreads" "pk_conc_threads p = conc"
proof -
  let ?s = "packer_start ims nthreads conc ss"
  have len: "length (incount ?s) = length ims" "pk_imetas ?s = ims" by (simp_all add: packer_start_def)
  have "\<forall>x \<in> set ims. distinct (after x) \<and> set (after x) \<subseteq> {..<length (incount ?s)}"
    using pending_ok_graph [OF assms] unfolding len pending_ok_def by simp
  from count_edges [OF this] obtain ic where
    ic: "foldM (\<lambda>p x. foldM (add_incount 1) (after x) p) ims ?s = Inr (?s\<lparr>incount := ic\<rparr>)"
    "length ic = length ims" "\<forall>i < length ims. ic ! i = incount ?s ! i + demand (mset ims) i"
    unfolding len by blast
  have ic0: "ic ! i = demand (mset ims) i" if "i < length ims" for i
    using ic(3) that by (simp add: packer_start_def)
  let ?p = "fold (\<lambda>(idx, x) p. if incount p ! idx = 0 then make_issuable ss_of x p else p)
    (enumerate 0 (take (length ims) ims)) (?s\<lparr>incount := ic\<rparr>)"
  have p: "incount ?p = ic" "pk_imetas ?p = ims" "distinct (free ?p)" "pk_ss ?p = ss"
    "pk_num_threads ?p = nthreads" "pk_conc_threads ?p = conc"
    "mset (free ?p) + mset (frontier ?p) = image_mset ((!) ims) (mset_set {i. i < length ims \<and> ic ! i = 0})"
    using initial_free [OF assms ic(2) le_refl refl refl] by blast+
  have run: "new_packer ss_of ims nthreads conc ss = Inr ?p"
    unfolding new_packer_def packer_initialize_def len ic(1) rbind_simps by (simp add: packer_start_def)
  let ?Z = "{i. i < length ims \<and> ic ! i = 0}" and ?W = "{i. i < length ims \<and> ic ! i > 0}"
  have nn: "ic ! i = 0 \<or> ic ! i > 0" if "i < length ims" for i
    using ic0 [OF that] demand_nonneg [of "mset ims" i] by linarith
  have "{..<length ims} = ?Z \<union> ?W" using nn by auto
  moreover have "mset_set (?Z \<union> ?W) = mset_set ?Z + mset_set ?W" by (intro mset_set_Union) auto
  moreover have "image_mset ((!) ims) (mset_set {..<length ims}) = mset ims"
    by (metis atLeast0LessThan map_nth mset_map mset_upt)
  ultimately have pend: "pending ?p = mset ims"
    unfolding pending_def p(7) waiting_def p(1,2) by (metis image_mset_union)
  have "packer_ok ?p"
    unfolding packer_inv_def pend p(1,2)
  proof (intro conjI allI impI)
    show "pending_ok (length ims) (mset ims)" by (rule pending_ok_graph [OF assms])
    show "instid (ims ! i) = int i" if "i < length ims" for i using assms that by (simp add: graph_ok_def)
    show "\<forall>y \<in> set (free ?p) \<union> set (frontier ?p). ic ! nat (instid y) = 0"
    proof
      fix y assume "y \<in> set (free ?p) \<union> set (frontier ?p)"
      then have "y \<in># mset (free ?p) + mset (frontier ?p)" by simp
      then obtain i where "i < length ims" "ic ! i = 0" "y = ims ! i" unfolding p(7) by auto
      then show "ic ! nat (instid y) = 0" using assms by (simp add: graph_ok_def)
    qed
  qed (use ic(2) ic0 p(3) in simp_all)
  with run pend p show thesis by (intro that [of ?p]) simp_all
qed

lemma linked_graph_ok:
  assumes "linked_work hp g c opt = Inr (ims, g')"
  shows "graph_ok ims"
proof -
  obtain ims0 where "\<forall>i < length ims. instid (ims ! i) = int i \<and> distinct (after (ims ! i))"
    using linked_work_cells [OF assms] by blast
  moreover have "set (after (ims ! i)) \<subseteq> {..<length ims}" if "i < length ims" for i
  proof
    fix j assume "j \<in> set (after (ims ! i))"
    with that have "(i, j) \<in> edges ims" by (simp add: edges_def)
    from edges_forward [OF assms this] show "j \<in> {..<length ims}" by simp
  qed
  ultimately show ?thesis by (simp add: graph_ok_def)
qed

lemma linked_acyclic:
  assumes "linked_work hp g c opt = Inr (ims, g')"
  shows "graph_acyclic ims"
proof -
  have "j < length ims \<and> id i < id j" if "i < length ims" "j \<in> set (after (ims ! i))" for i j
    using edges_forward [OF assms, of i j] that by (simp add: edges_def)
  then show ?thesis unfolding graph_acyclic_def by blast
qed

lemma new_packer_held:
  assumes "graph_ok ims" "pending p = mset ims" "pk_imetas p = ims"
  shows "edges_held (pk_imetas p) (pending p)" "\<forall>i < length (pk_imetas p). int i \<in> ids p"
proof -
  have self: "ims ! nat (instid y) = y" if "y \<in> set ims" for y
    using that assms(1) by (auto simp: graph_ok_def in_set_conv_nth)
  then show "edges_held (pk_imetas p) (pending p)"
    unfolding assms(2,3) by (simp add: edges_held_def edge_held_def)
  show "\<forall>i < length (pk_imetas p). int i \<in> ids p"
    using assms(1) unfolding ids_def assms(2,3) graph_ok_def by (metis image_eqI nth_mem set_mset_mset)
qed

text \<open>The state \<open>get_work\<close> returns.\<close>

lemma get_work_ok:
  assumes "get_work ss_of hp g conc opt = Inr p"
  obtains ims g' where "linked_work hp g conc opt = Inr (ims, g')" "graph_ok ims" "graph_acyclic ims" "packer_ok p"
    "pending p = mset ims" "pk_imetas p = ims" "pk_ss p = graph_ss g'" "pk_conc_threads p = conc"
    "edges_held (pk_imetas p) (pending p)" "\<forall>i < length (pk_imetas p). int i \<in> ids p"
proof -
  from assms obtain ims g' where lw: "linked_work hp g conc opt = Inr (ims, g')"
    and np: "new_packer ss_of ims (num_threads g') conc (graph_ss g') = Inr p"
    by (auto simp: get_work_def res_elims)
  note ok = linked_graph_ok [OF lw]
  obtain q where "new_packer ss_of ims (num_threads g') conc (graph_ss g') = Inr q" "packer_ok q"
    "pending q = mset ims" "pk_imetas q = ims" "pk_ss q = graph_ss g'" "pk_conc_threads q = conc"
    by (rule new_packer_ok [OF ok])
  with np have p: "packer_ok p" "pending p = mset ims" "pk_imetas p = ims" "pk_ss p = graph_ss g'"
    "pk_conc_threads p = conc" by simp_all
  show thesis
    by (rule that [OF lw ok linked_acyclic [OF lw] p new_packer_held [OF ok p(2,3)]])
qed

end

section \<open>Sorted lists as the containers\<close>

text \<open>
  Lists ordered by the part of the priority that is a sequence of integers serve as the sorted set.
\<close>

definition priority_key :: "priority res \<Rightarrow> int list" where
  "priority_key r = (case r of Inl _ \<Rightarrow> [] | Inr (_, b, t, i, _) \<Rightarrow> b @ [t, i])"

definition list_sets :: sorted_set_of where
  "list_sets key = list_heap (\<lambda>x. priority_key (key x))"

definition list_positions :: "nat heap_ops" where
  "list_positions = list_heap (\<lambda>k. k)"

lemma list_packing: "packing list_positions list_sets"
  by (auto intro!: packing.intro packing_axioms.intro after_heap.intro list_heap_min_heap
      simp: list_positions_def list_sets_def)

interpretation lists: packing list_positions list_sets
  by (rule list_packing)

text \<open>A two-instruction program on one scalar, used to exercise the theorems.\<close>

definition demo_space :: scratch_space where
  "demo_space = (case alloc_word new_space ''a'' 1 of Inr (_, _, ss) \<Rightarrow> ss | Inl _ \<Rightarrow> new_space)"

definition demo_graph :: instr_graph where
  "demo_graph = (new_graph demo_space 1)\<lparr>globalimetas :=
     map (\<lambda>l. \<lparr>instid = - 1, lin = l, tid = - 1, instid_in_thread = - 1, after = [], tidrange = SET_MINUS_ONE\<rparr>)
       [\<lparr>lin_engine = LOAD, lin_opcode = ''const'', lin_params = [Op (LR ''a'' 0 False False), Imm 5]\<rparr>,
        \<lparr>lin_engine = ALU, lin_opcode = ''+'', lin_params =
          [Op (LR ''a'' 0 False False), Op (LR ''a'' 0 False True), Op (LR ''a'' 0 False True)]\<rparr>]\<rparr>"

end
