(* ===== verification/Schedule_Props.thy ===== *)
theory Schedule_Props
  imports Slot_Footprint Packer_Run
begin

text \<open>
  What the scheduler promises: order of conflicting instructions, termination, completeness, and
  that a bundling of this kind computes on the machine what the instructions compute one by one.
\<close>

section \<open>Scheduling\<close>


text \<open>Runs of the scheduler on a concrete program.\<close>

definition demo_packer :: packer where
  "demo_packer = (case get_work list_sets list_positions demo_graph 1 True of Inr p \<Rightarrow> p)"

lemma demo_get_work: "get_work list_sets list_positions demo_graph 1 True = Inr demo_packer"
proof -
  have "case get_work list_sets list_positions demo_graph 1 True of Inr _ \<Rightarrow> True | Inl _ \<Rightarrow> False"
    by code_simp
  then show ?thesis by (auto simp: demo_packer_def split: sum.splits)
qed

definition demo_instrs :: "instr list" where
  "demo_instrs = [[Group VALU [], Group ALU [], Group LOAD [(''const'', [0, 5])], Group STORE [], Group FLOW []],
     [Group VALU [], Group ALU [(''+'', [0, 0, 0])], Group LOAD [], Group STORE [], Group FLOW []]]"

lemma demo_work: "\<exists>p'. work_to_instrs list_sets list_positions demo_packer = Some (Inr (demo_instrs, p'))"
proof -
  have "case work_to_instrs list_sets list_positions demo_packer of
      Some (Inr (insts, _)) \<Rightarrow> insts = demo_instrs | _ \<Rightarrow> False" by code_simp
  then show ?thesis by (auto split: option.splits sum.splits)
qed

lemma demo_imetas: "length (pk_imetas demo_packer) = 2" "ss_size (pk_ss demo_packer) = 1"
  "0 \<in> accesses (pk_ss demo_packer) 1 (pk_imetas demo_packer ! 0)"
  "0 \<in> accesses (pk_ss demo_packer) 1 (pk_imetas demo_packer ! 1)"
  "0 \<in> writes_to (pk_ss demo_packer) 1 (pk_imetas demo_packer ! 0)"
  by code_simp+


text \<open>
  C2: packing ends, for every dependence graph the compiler builds. The loop of
  \<open>work_to_instrs\<close> returns (bundles, or the exception of a step); it has the bundles of a run, each
  of them issues something, nothing twice, and fills every engine within its slot limit with exactly
  the slots of what it issues.
\<close>

theorem packing_ends:
  assumes "packing hp S" and "get_work S hp g conc opt = Inr p"
  shows "\<exists>res. work_to_instrs S hp p = Some res \<and> (\<forall>insts p'. res = Inr (insts, p') \<longrightarrow>
    (\<exists>bs. packed S hp p bs p' \<and> insts = map fst bs \<and>
      (\<forall>(ins, R) \<in> set bs. bundle_for p R EX_UNITS ins \<and> R \<noteq> [] \<and> distinct R)))"
proof -
  have ok: "packer_ok p" by (rule packing.get_work_ok [OF assms])
  from packing.work_loop_ends [OF assms(1) ok, of "[]"] obtain res where
    res: "work_to_instrs S hp p = Some res"
      "\<forall>insts p'. res = Inr (insts, p') \<longrightarrow> (\<exists>bs. packed S hp p bs p' \<and> insts = [] @ map fst bs)"
    unfolding work_to_instrs_def by blast
  show ?thesis
  proof (intro exI [of _ res] conjI allI impI)
    fix insts p' assume "res = Inr (insts, p')"
    with res(2) obtain bs where bs: "packed S hp p bs p'" "insts = map fst bs" by auto
    moreover have "\<forall>(ins, R) \<in> set bs. bundle_for p R EX_UNITS ins \<and> R \<noteq> [] \<and> distinct R"
      using packing.packed_bundles [OF assms(1) bs(1) ok] by (simp add: split_beta)
    ultimately show "\<exists>bs. packed S hp p bs p' \<and> insts = map fst bs \<and>
        (\<forall>(ins, R) \<in> set bs. bundle_for p R EX_UNITS ins \<and> R \<noteq> [] \<and> distinct R)" by blast
  qed (rule res(1))
qed

theorem packing_ends_witness: "work_to_instrs list_sets list_positions demo_packer \<noteq> None"
  using packing_ends [OF list_packing demo_get_work] by auto

text \<open>
  C3: no work is lost. When the packing loop has ended, nothing is issuable and only threads beyond the
  last one that was started are parked; if none is parked, every instruction of the work list has been
  issued, itself or in parts, and nothing is pending.
\<close>

theorem packing_complete:
  assumes "packing hp S" and "get_work S hp g conc opt = Inr p"
    and "work_to_instrs S hp p = Some (Inr (insts, p'))"
  shows "free p' = [] \<and> (\<forall>x \<in> set (frontier p'). next_batch_tid p' \<le> tid x) \<and>
    (frontier p' = [] \<longrightarrow> pending p' = {#} \<and>
      (\<exists>bs. insts = map fst bs \<and> (\<forall>i < length (pk_imetas p). issued bs i)))"
proof -
  obtain ims where ok: "packer_ok p" and acyc: "graph_acyclic ims" and ims: "pk_imetas p = ims"
    and ids: "\<forall>i < length (pk_imetas p). int i \<in> ids p"
    by (rule packing.get_work_ok [OF assms(1,2)])
  obtain bs where bs: "packed S hp p bs p'" "insts = map fst bs"
    using packing.work_loop_ends [OF assms(1) ok, of "[]"] assms(3) by (auto simp: work_to_instrs_def)
  note e = packing.packed_end_state [OF assms(1) bs(1) ok]
  have "pending p' = {#}" if "frontier p' = []"
    by (rule nothing_waits) (use e that acyc ims in \<open>auto simp: later_def\<close>)
  moreover from this have "\<forall>i < length (pk_imetas p). issued bs i" if "frontier p' = []"
    using e that ids by (fastforce simp: ids_def issued_def)
  ultimately show ?thesis using e bs(2) by auto
qed

theorem packing_complete_witness: "\<exists>p'. free p' = [] \<and>
    work_to_instrs list_sets list_positions demo_packer = Some (Inr (demo_instrs, p'))"
proof -
  obtain p' where w: "work_to_instrs list_sets list_positions demo_packer = Some (Inr (demo_instrs, p'))"
    using demo_work by blast
  from packing_complete [OF list_packing demo_get_work w] w show ?thesis by blast
qed


text \<open>
  C4: scheduling is sound on the machine. Take data slots that, run one by one, succeed. Any program
  whose bundles hold the same slots within the slot limits, every two conflicting slots in order and
  in different bundles, ends with the same scratch space and memory.
\<close>

theorem bundling_sound:
  assumes "run_seq (slot_ef n k) xs s = Some s'" and "distinct xs" and "mset (concat bs) = mset xs"
    and "\<forall>i j f g. before xs i j \<longrightarrow> foot_in (slot_rd n k) (slot_ef n k) xs s i = Some f \<longrightarrow>
      foot_in (slot_rd n k) (slot_ef n k) xs s j = Some g \<longrightarrow> \<not> indep f g \<longrightarrow> earlier_bundle bs i j"
    and "list_all2 (\<lambda>b ins. map snd b = instr_slots ins) bs inss" "list_all (list_all plain_group) inss"
    and "scratch c = scratch_of n s"
  shows "run_straight m inss (c, mem_of k s) =
    Inr (c\<lparr>pc := pc c + int (length inss), scratch := scratch_of n s'\<rparr>, mem_of k s')"
  by (rule schedule_straight [OF assms])

definition demo_core :: core where
  "demo_core = new_core 3 0"

definition demo_slots :: "nslot list" where
  "demo_slots = [(7, LOAD, ''const'', [0, 5]), (8, LOAD, ''const'', [2, 6])]"

definition demo_machine :: machine where
  "demo_machine = new_machine [] [[Group LOAD [(''const'', [2, 6]), (''const'', [0, 5])]]] 1 3 Map.empty"

theorem bundling_sound_witness:
  "run_straight demo_machine (program demo_machine) (demo_core, []) =
     Inr (demo_core\<lparr>pc := 1, scratch := [5, 0, 6]\<rparr>, [])"
proof -
  let ?s = "store_of [0, 0, 0] []"
  let ?s' = "upd (upd ?s [SLoc 0 \<mapsto> 5]) [SLoc 2 \<mapsto> 6]"
  have c: "scratch demo_core = scratch_of 3 ?s" by (simp add: demo_core_def new_core_def scratch_of_def store_of_def numeral_3_eq_3)
  have puts: "slot_puts sc mm LOAD (''const'', [d, v]) = Inr [(d, r32 v)]" for sc mm d v
    by (simp add: slot_puts_def)
  have ef: "slot_ef 3 0 (7, LOAD, ''const'', [0, 5]) s = Some [SLoc 0 \<mapsto> 5]"
    "slot_ef 3 0 (8, LOAD, ''const'', [2, 6]) s = Some [SLoc 2 \<mapsto> 6]" for s
    by (simp_all add: slot_ef_eq puts in_bounds_def put_loc_def r32_def)
  have rd: "slot_rd 3 0 (i, LOAD, ''const'', [d, v]) s = {}" for i d v s
    by (simp add: slot_rd_def positions_def scratch_reads_def mem_reads_def)
  have "run_straight demo_machine (program demo_machine) (demo_core, mem_of 0 ?s) =
      Inr (demo_core\<lparr>pc := pc demo_core + int (length (program demo_machine)), scratch := scratch_of 3 ?s'\<rparr>, mem_of 0 ?s')"
    by (rule bundling_sound [where xs = demo_slots and bs = "[rev demo_slots]", OF _ _ _ _ _ _ c])
      (auto simp: demo_slots_def ef rd feet.simps foot_def foot_in_def indep_def demo_machine_def new_machine_def
        instr_slots_def group_slots_def plain_group_def is_data_slot_def)
  then show ?thesis
    by (simp add: demo_core_def new_core_def demo_machine_def new_machine_def scratch_of_def mem_of_def upd_def store_of_def numeral_3_eq_3)
qed

end
