(* ===== verification/Families.thy ===== *)
theory Families
  imports Packer_Run
begin

text \<open>
  What becomes of every instruction of the work list in a run of the scheduler: its family, the
  instruction itself or the parts the splits put in its place. At every moment the issued and the
  pending instructions together are the families, and edges of the graph order whole families.
\<close>

lemma list_all2_in: "list_all2 P xs ys \<Longrightarrow> y \<in> set ys \<Longrightarrow> (\<And>x. x \<in> set xs \<Longrightarrow> P x y \<Longrightarrow> Q) \<Longrightarrow> Q"
  by (induction rule: list_all2_induct) auto

section \<open>Families\<close>

definition base_parts :: "scratch_space \<Rightarrow> int \<Rightarrow> imeta \<Rightarrow> imeta list \<Rightarrow> bool" where
  "base_parts ss c x zs \<longleftrightarrow> zs = [x] \<or>
     (lin_engine (lin x) = VALU \<and> (\<exists>n parts new. unfolds ss c n x parts new \<and> zs = parts @ new))"

definition becomes :: "scratch_space \<Rightarrow> int \<Rightarrow> imeta \<Rightarrow> imeta \<Rightarrow> bool" where
  "becomes ss c z y \<longleftrightarrow> y = z \<or> (lin_engine (lin z) = ALU \<and> (\<exists>n. unfolds ss c n z [y] []))"

definition family :: "scratch_space \<Rightarrow> int \<Rightarrow> imeta \<Rightarrow> imeta list \<Rightarrow> bool" where
  "family ss c x ys \<longleftrightarrow> (\<exists>zs. base_parts ss c x zs \<and> list_all2 (becomes ss c) zs ys)"

lemma becomes_refl [simp]: "becomes ss c z z"
  by (simp add: becomes_def)

lemma family_refl [simp]: "family ss c x [x]"
  by (auto simp: family_def base_parts_def)

lemma registers_simps [simp]:
  "registers (part_at x l af) = lin_registers l"
  "opcode (part_at x l af) = lin_opcode l"
  by (simp_all add: registers_def opcode_def)

lemma part_registers:
  "take (Suc 0) (lin_registers (alu_part op (d # ps))) = [d]" "take (Suc 0) (lin_registers (imm_part d a v)) = [d]"
  by (simp_all add: lin_registers_def param_ops_def)

lemma converted:
  assumes "lin_engine (lin z) = ALU" "unfolds ss c n z [y] []"
  obtains d a w v where "registers z = [d, a, w]" "opcode z = ''+''" "is_scalar_constant ss w = Inr True"
    "constant_value ss w = Inr v" "y = part_at z (imm_part d a v) (after z)"
  using assms(2) by cases (use assms(1) in auto)

lemma becomes_same:
  assumes "becomes ss c z y"
  shows "instid y = instid z" "tid y = tid z" "after y = after z" "part_key y = part_key z"
    "lin_engine (lin y) = lin_engine (lin z) \<or> lin_engine (lin y) = FLOW"
    "lin_engine (lin y) = VALU \<or> lin_engine (lin y) = ALU \<Longrightarrow> y = z"
proof -
  have "y = z \<or> (\<exists>d a w v. registers z = [d, a, w] \<and> y = part_at z (imm_part d a v) (after z))"
    using assms unfolding becomes_def by (metis converted)
  then show "instid y = instid z" "tid y = tid z" "after y = after z" "part_key y = part_key z"
    "lin_engine (lin y) = lin_engine (lin z) \<or> lin_engine (lin y) = FLOW"
    "lin_engine (lin y) = VALU \<or> lin_engine (lin y) = ALU \<Longrightarrow> y = z"
    by (auto simp: part_key_def part_registers)
qed

lemma lane_inject: "lane d i = lane d j \<longleftrightarrow> i = j"
  by (cases d) (auto simp: lane_def)

text \<open>The shape of an unfolding of a vector instruction.\<close>

lemma unfolds_keys:
  assumes "unfolds ss c n x parts new"
  shows "\<forall>y \<in> set parts. instid y = instid x \<and> tid y = tid x" "\<forall>y \<in> set (parts @ new). lin_engine (lin y) \<noteq> VALU"
    "\<forall>y \<in> set new. int n \<le> instid y \<and> instid y < int (n + length new) \<and> tid y = tid x \<and> after y = after x"
    "distinct (map part_key parts)" "distinct (map part_key new)"
    "\<forall>y \<in> set new. \<exists>z \<in> set parts. nat (instid y) \<in> set (after z)"
    "\<forall>y \<in> set parts. after y = after x \<or> (\<exists>z \<in> set new. set (after y) = {nat (instid z)})" "parts \<noteq> []"
proof -
  have "(\<forall>y \<in> set parts. instid y = instid x \<and> tid y = tid x) \<and> (\<forall>y \<in> set (parts @ new). lin_engine (lin y) \<noteq> VALU) \<and>
    (\<forall>y \<in> set new. int n \<le> instid y \<and> instid y < int (n + length new) \<and> tid y = tid x \<and> after y = after x) \<and>
    distinct (map part_key parts) \<and> distinct (map part_key new) \<and>
    (\<forall>y \<in> set new. \<exists>z \<in> set parts. nat (instid y) \<in> set (after z)) \<and>
    (\<forall>y \<in> set parts. after y = after x \<or> (\<exists>z \<in> set new. set (after y) = {nat (instid z)})) \<and> parts \<noteq> []"
    using assms
  proof cases
    case (mul_add_to_alu d a b w aft)
    have "\<exists>z \<in> set parts. nat (instid y) \<in> set (after z)" if "y \<in> set new" for y
    proof -
      from that mul_add_to_alu(2) obtain k where "k < VLEN" "instid y = int (n + k)" by auto
      then show ?thesis
        unfolding mul_add_to_alu(1) using mul_add_to_alu(8) [of k] by (auto simp: nat_int_add intro!: bexI [of _ k])
    qed
    moreover have "\<exists>z \<in> set new. set (after y) = {nat (instid z)}" if "y \<in> set parts" for y
    proof -
      from that mul_add_to_alu(1) obtain k where "k < VLEN" "after y = aft k" by auto
      then show ?thesis
        unfolding mul_add_to_alu(2) using mul_add_to_alu(8) [of k] by (auto simp: nat_int_add intro!: bexI [of _ k])
    qed
    ultimately show ?thesis
      unfolding mul_add_to_alu(1,2)
      by (auto simp: VLEN_def part_key_def part_registers lane_inject distinct_map inj_on_def)
  qed (auto simp: VLEN_def part_key_def part_registers lane_inject distinct_map inj_on_def)
  then show "\<forall>y \<in> set parts. instid y = instid x \<and> tid y = tid x" "\<forall>y \<in> set (parts @ new). lin_engine (lin y) \<noteq> VALU"
    "\<forall>y \<in> set new. int n \<le> instid y \<and> instid y < int (n + length new) \<and> tid y = tid x \<and> after y = after x"
    "distinct (map part_key parts)" "distinct (map part_key new)"
    "\<forall>y \<in> set new. \<exists>z \<in> set parts. nat (instid y) \<in> set (after z)"
    "\<forall>y \<in> set parts. after y = after x \<or> (\<exists>z \<in> set new. set (after y) = {nat (instid z)})" "parts \<noteq> []" by blast+
qed

text \<open>A free member of a family: a vector instruction is the family; a scalar one may become another.\<close>

lemma family_valu:
  assumes "family ss c x ys" "y \<in> set ys" "lin_engine (lin y) = VALU"
  shows "ys = [x] \<and> y = x"
proof -
  from assms(1) obtain zs where zs: "base_parts ss c x zs" "list_all2 (becomes ss c) zs ys" by (auto simp: family_def)
  from zs(2) assms(2) obtain z where z: "z \<in> set zs" "becomes ss c z y" by (rule list_all2_in)
  then have "y = z" using becomes_same(6) assms(3) by blast
  have "zs = [x]"
  proof (rule ccontr)
    assume "zs \<noteq> [x]"
    with zs(1) obtain n parts new where "unfolds ss c n x parts new" "zs = parts @ new" by (auto simp: base_parts_def)
    then have "lin_engine (lin z) \<noteq> VALU" using unfolds_keys(2) z(1) by blast
    with \<open>y = z\<close> assms(3) show False by simp
  qed
  with zs(2) assms(2) \<open>y = z\<close> z(1) show ?thesis by (auto simp: list_all2_Cons1)
qed

lemma family_convert:
  assumes "family ss c x (us @ z # vs)" "lin_engine (lin z) = ALU" "unfolds ss c n z [y] []"
  shows "family ss c x (us @ y # vs)"
proof -
  from assms(1) obtain zs where zs: "base_parts ss c x zs" "list_all2 (becomes ss c) zs (us @ z # vs)"
    by (auto simp: family_def)
  then obtain us' z' vs' where l: "zs = us' @ z' # vs'" "list_all2 (becomes ss c) us' us" "becomes ss c z' z"
    "list_all2 (becomes ss c) vs' vs" by (auto simp: list_all2_append2 list_all2_Cons2)
  have "z = z'" using becomes_same(6) [OF l(3)] assms(2) by simp
  with assms(2,3) have "becomes ss c z' y" by (auto simp: becomes_def)
  with l have "list_all2 (becomes ss c) zs (us @ y # vs)" by (simp add: list_all2_appendI)
  with zs(1) show ?thesis by (auto simp: family_def)
qed

section \<open>The accounts of a run\<close>

definition accounts :: "imeta list \<Rightarrow> imeta list list \<Rightarrow> imeta multiset \<Rightarrow> packer \<Rightarrow> bool" where
  "accounts ims fs D p \<longleftrightarrow> list_all2 (family (pk_ss p) (pk_conc_threads p)) ims fs \<and>
     mset (concat fs) = D + pending p \<and> distinct (map part_key (concat fs)) \<and>
     (\<forall>i < length fs. \<forall>y \<in> set (fs ! i). instid y = int i \<or> int (length ims) \<le> instid y) \<and>
     (\<forall>y \<in> set (concat fs). instid y < int (length (pk_imetas p))) \<and> length ims \<le> length (pk_imetas p)"

lemma accounts_start:
  assumes "graph_ok ims" "pending p = mset ims" "pk_imetas p = ims"
  shows "accounts ims (map (\<lambda>x. [x]) ims) {#} p"
proof -
  have c: "concat (map (\<lambda>x. [x]) ims) = ims" by (induction ims) auto
  have "distinct (map part_key ims)"
    unfolding distinct_conv_nth using graph_ok_inj [OF assms(1)] by (auto simp: part_key_def)
  with assms show ?thesis
    unfolding accounts_def c by (auto simp: graph_ok_def in_set_conv_nth list_all2_conv_all_nth)
qed

lemma accounts_same:
  "accounts ims fs D p \<Longrightarrow> pending q = pending p \<Longrightarrow> pk_imetas q = pk_imetas p \<Longrightarrow> pk_ss q = pk_ss p \<Longrightarrow>
     pk_conc_threads q = pk_conc_threads p \<Longrightarrow> accounts ims fs D q"
  by (simp add: accounts_def)

lemma accounts_retired:
  "accounts ims fs D p \<Longrightarrow> pending p = N + pending q \<Longrightarrow> pk_imetas q = pk_imetas p \<Longrightarrow> pk_ss q = pk_ss p \<Longrightarrow>
     pk_conc_threads q = pk_conc_threads p \<Longrightarrow> accounts ims fs (D + N) q"
  by (simp add: accounts_def)

lemma in_concatE: "y \<in> set (concat xs) \<Longrightarrow> (\<And>i. i < length xs \<Longrightarrow> y \<in> set (xs ! i) \<Longrightarrow> P) \<Longrightarrow> P"
  by (metis concat_eq_append_conv in_set_conv_nth set_concat UN_E)

lemma accounts_exchange:
  assumes acc: "accounts ims (A @ f # B) D p" and same: "pk_ss q = pk_ss p" "pk_conc_threads q = pk_conc_threads p"
    and new: "pk_imetas q = pk_imetas p @ new"
    and fam: "family (pk_ss p) (pk_conc_threads p) (ims ! length A) g"
    and pend: "pending p = add_mset x M" "pending q = M + N" "add_mset x (mset g) = mset f + N"
    and keys: "distinct (map part_key g)"
    and ids: "\<And>y. y \<in> set g \<Longrightarrow> (instid y = int (length A) \<or> int (length ims) \<le> instid y) \<and>
      instid y < int (length (pk_imetas q)) \<and>
      (part_key y \<in> part_key ` set f \<or> instid y = int (length A) \<or> int (length (pk_imetas p)) \<le> instid y)"
  shows "accounts ims (A @ g # B) D q"
proof -
  let ?fs = "A @ f # B" and ?gs = "A @ g # B"
  have a: "list_all2 (family (pk_ss p) (pk_conc_threads p)) ims ?fs" "mset (concat ?fs) = D + pending p"
    "distinct (map part_key (concat ?fs))" "length ims \<le> length (pk_imetas p)"
    and own: "\<And>i y. i < length ?fs \<Longrightarrow> y \<in> set (?fs ! i) \<Longrightarrow> instid y = int i \<or> int (length ims) \<le> instid y"
    and small: "\<And>y. y \<in> set (concat ?fs) \<Longrightarrow> instid y < int (length (pk_imetas p))"
    using acc unfolding accounts_def by blast+
  have len: "length ims = length ?fs" by (rule list_all2_lengthD [OF a(1)])
  have other: "instid y \<noteq> int (length A) \<and> instid y < int (length (pk_imetas p))" if "y \<in> set (concat (A @ B))" for y
  proof -
    from that consider i where "i < length A" "y \<in> set (A ! i)" | i where "i < length B" "y \<in> set (B ! i)"
      unfolding concat_append set_append Un_iff by (elim disjE in_concatE) blast+
    then obtain i where i: "i < length ?fs" "i \<noteq> length A" "y \<in> set (?fs ! i)"
    proof cases
      case (1 i)
      then show ?thesis by (intro that [of i]) (auto simp: nth_append)
    next
      case (2 i)
      then show ?thesis by (intro that [of "length A + 1 + i"]) (auto simp: nth_append)
    qed
    moreover have "y \<in> set (concat ?fs)" using that by auto
    ultimately show ?thesis using own [OF i(1,3)] small len by fastforce
  qed
  have "list_all2 (family (pk_ss q) (pk_conc_threads q)) ims ?gs"
    unfolding list_all2_conv_all_nth
  proof (intro conjI allI impI)
    show "length ims = length ?gs" using len by simp
    fix i assume "i < length ims"
    then have "family (pk_ss p) (pk_conc_threads p) (ims ! i) (?fs ! i)" using a(1) by (simp add: list_all2_conv_all_nth)
    then show "family (pk_ss q) (pk_conc_threads q) (ims ! i) (?gs ! i)"
      unfolding same using fam by (cases "i = length A") (auto simp: nth_append nth_Cons')
  qed
  moreover have "mset (concat ?gs) = D + pending q"
  proof -
    have "add_mset x (mset (concat ?gs)) = mset (concat A) + add_mset x (mset g) + mset (concat B)" by simp
    also have "\<dots> = mset (concat ?fs) + N" unfolding pend(3) by (simp add: ac_simps)
    finally have "add_mset x (mset (concat ?gs)) = add_mset x (D + pending q)" unfolding a(2) pend(1,2) by simp
    then show ?thesis by simp
  qed
  moreover have "distinct (map part_key (concat ?gs))"
  proof -
    have d: "distinct (map part_key (concat A @ concat B))" using a(3) by (simp add: Int_Un_distrib)
    have "part_key y \<noteq> part_key z" if "y \<in> set g" "z \<in> set (concat (A @ B))" for y z
    proof
      assume eq: "part_key y = part_key z"
      then have "instid y = instid z" by (simp add: part_key_def)
      with other [OF that(2)] ids [OF that(1)] have "part_key y \<in> part_key ` set f" by auto
      with eq have "part_key z \<in> part_key ` set f" by simp
      moreover have "part_key ` set f \<inter> part_key ` set (concat (A @ B)) = {}"
        using a(3) by (simp add: image_Un Int_Un_distrib Int_commute)
      ultimately show False using that(2) by blast
    qed
    then have "part_key ` set g \<inter> part_key ` set (concat (A @ B)) = {}" by blast
    with d keys show ?thesis by (simp add: image_Un Int_Un_distrib Int_commute)
  qed
  moreover have "\<forall>i < length ?gs. \<forall>y \<in> set (?gs ! i). instid y = int i \<or> int (length ims) \<le> instid y"
  proof (intro allI impI ballI)
    fix i y assume i: "i < length ?gs" "y \<in> set (?gs ! i)"
    show "instid y = int i \<or> int (length ims) \<le> instid y"
    proof (cases "i = length A")
      case True
      with i(2) ids show ?thesis by simp
    next
      case False
      then have "?gs ! i = ?fs ! i" by (simp add: nth_append nth_Cons')
      with i own [of i y] show ?thesis by simp
    qed
  qed
  moreover have "\<forall>y \<in> set (concat ?gs). instid y < int (length (pk_imetas q))"
    using ids other new by fastforce
  moreover have "length ims \<le> length (pk_imetas q)" using a(4) new by simp
  ultimately show ?thesis unfolding accounts_def by blast
qed

lemma accounts_replaced:
  assumes acc: "accounts ims fs D p" and num: "\<And>i. i < length ims \<Longrightarrow> instid (ims ! i) = int i" and rep: "replaced x p q"
  shows "\<exists>fs'. accounts ims fs' D q"
proof -
  from rep obtain parts new M where u: "unfolds (pk_ss p) (pk_conc_threads p) (length (pk_imetas p)) x parts new"
    and pend: "pending p = add_mset x M" "pending q = M + mset new + mset parts" "pk_imetas q = pk_imetas p @ new"
    and lat: "later p q" by (auto simp: replaced_def unfolded_def)
  have same: "pk_ss q = pk_ss p" "pk_conc_threads q = pk_conc_threads p" using lat by (simp_all add: later_def)
  note k = unfolds_keys [OF u]
  have a: "list_all2 (family (pk_ss p) (pk_conc_threads p)) ims fs" "mset (concat fs) = D + pending p"
    "distinct (map part_key (concat fs))"
    and own: "\<And>i y. i < length fs \<Longrightarrow> y \<in> set (fs ! i) \<Longrightarrow> instid y = int i \<or> int (length ims) \<le> instid y"
    and small: "\<And>y. y \<in> set (concat fs) \<Longrightarrow> instid y < int (length (pk_imetas p))"
    using acc unfolding accounts_def by blast+
  have "x \<in># mset (concat fs)" unfolding a(2) pend(1) by simp
  then obtain f where "f \<in> set fs" and x: "x \<in> set f" by auto
  then obtain A B where fs: "fs = A @ f # B" by (meson split_list)
  let ?i = "length A"
  have i: "?i < length ims" "fs ! ?i = f" using list_all2_lengthD [OF a(1)] fs by simp_all
  have fam: "family (pk_ss p) (pk_conc_threads p) (ims ! ?i) f"
    using list_all2_nthD [OF a(1) i(1)] i(2) by simp
  have acc': "accounts ims (A @ f # B) D p" using acc fs by simp
  consider "lin_engine (lin x) = VALU" | "lin_engine (lin x) = ALU" using unfolds_engine [OF u] by blast
  then show ?thesis
  proof cases
    case 1
    from family_valu [OF fam x 1] have f: "f = [x]" "ims ! ?i = x" by auto
    have id: "instid x = int ?i" using num [OF i(1)] f(2) by simp
    have "accounts ims (A @ (parts @ new) # B) D q"
    proof (rule accounts_exchange [OF acc' same pend(3)])
      show "family (pk_ss p) (pk_conc_threads p) (ims ! ?i) (parts @ new)"
        unfolding f(2) family_def base_parts_def using 1 u by (intro exI [of _ "parts @ new"]) (auto intro: list_all2_refl)
      show "pending q = M + mset (parts @ new)" using pend(2) by simp
      have "part_key y \<noteq> part_key z" if "y \<in> set parts" "z \<in> set new" for y z
        using k(1,3) that id i(1) acc by (auto simp: part_key_def accounts_def)
      then have "part_key ` set parts \<inter> part_key ` set new = {}" by blast
      then show "distinct (map part_key (parts @ new))" using k(4,5) by simp
      have "length ims \<le> length (pk_imetas p)" using acc by (simp add: accounts_def)
      then show "(instid y = int ?i \<or> int (length ims) \<le> instid y) \<and> instid y < int (length (pk_imetas q)) \<and>
        (part_key y \<in> part_key ` set f \<or> instid y = int ?i \<or> int (length (pk_imetas p)) \<le> instid y)"
        if "y \<in> set (parts @ new)" for y
        using that k(1,3) id i(1) pend(3) by fastforce
    qed (use f pend in simp_all)
    then show ?thesis ..
  next
    case 2
    with u obtain y where y: "parts = [y]" "new = []" by cases auto
    from x obtain us vs where f: "f = us @ x # vs" by (meson split_list)
    have b: "becomes (pk_ss p) (pk_conc_threads p) x y" using 2 u unfolding y by (auto simp: becomes_def)
    note s = becomes_same [OF b]
    have "accounts ims (A @ (us @ y # vs) # B) D q"
    proof (rule accounts_exchange [OF acc' same pend(3)])
      show "family (pk_ss p) (pk_conc_threads p) (ims ! ?i) (us @ y # vs)"
        by (rule family_convert [OF fam [unfolded f] 2 u [unfolded y]])
      show "pending q = M + {#y#}" using pend(2) y by simp
      have "map part_key (us @ y # vs) = map part_key f" using s(4) f by simp
      moreover have "distinct (map part_key f)" using a(3) fs by auto
      ultimately show "distinct (map part_key (us @ y # vs))" by (simp only:)
      show "(instid z = int ?i \<or> int (length ims) \<le> instid z) \<and> instid z < int (length (pk_imetas q)) \<and>
        (part_key z \<in> part_key ` set f \<or> instid z = int ?i \<or> int (length (pk_imetas p)) \<le> instid z)"
        if z: "z \<in> set (us @ y # vs)" for z
      proof -
        obtain w where w: "w \<in> set f" "part_key w = part_key z"
          using z s(4) f by (cases "z = y") (auto intro: that [of x] that [of z])
        then have "instid z = instid w" by (simp add: part_key_def)
        moreover have "w \<in> set (concat fs)" using w(1) fs by auto
        ultimately have "instid z = int ?i \<or> int (length ims) \<le> instid z" "instid z < int (length (pk_imetas p))"
          using own [of ?i w] small [of w] w(1) i(2) fs by simp_all
        moreover have "part_key z \<in> part_key ` set f" using w by (metis image_eqI)
        ultimately show ?thesis using pend(3) by simp
      qed
    qed (use f y pend in simp_all)
    then show ?thesis ..
  qed
qed

lemma accounts_splits:
  assumes "splits P p q" "accounts ims fs D p" "\<And>i. i < length ims \<Longrightarrow> instid (ims ! i) = int i"
  shows "\<exists>fs'. accounts ims fs' D q"
  using assms by (induction rule: splits.induct) (blast intro: accounts_replaced)+

section \<open>Whole runs\<close>

lemma splits_any: "splits P p q \<Longrightarrow> splits (\<lambda>_. True) p q"
  by (induction rule: splits.induct) (auto intro: splits_refl splits_step)

context packing
begin

lemma take_engines_splits:
  assumes "foldM (take_engine ss_of hp) es (p, insts, R) = Inr (p', insts', R')" and "packer_ok p"
    and "distinct R" "set R \<subseteq> set (free p)" "\<forall>x \<in> set R. lin_engine (lin x) \<notin> set es" and "distinct es"
  shows "splits (\<lambda>_. True) p p'"
  using assms
proof (induction es arbitrary: p insts R)
  case Nil
  then show ?case by (simp add: splits_refl)
next
  case (Cons e es)
  from Cons.prems(1) obtain p1 insts1 R1 where e: "take_engine ss_of hp (p, insts, R) e = Inr (p1, insts1, R1)"
    and rest: "foldM (take_engine ss_of hp) es (p1, insts1, R1) = Inr (p', insts', R')"
    by (auto simp: res_elims)
  have "\<forall>x \<in> set R. lin_engine (lin x) \<noteq> e" using Cons.prems(5) by auto
  note t = take_engine [OF e Cons.prems(2-4) this]
  obtain N where N: "R1 = R @ N" "\<forall>x \<in> set N. lin_engine (lin x) = e" using t(2) set_take_of_engine by blast
  then have "\<forall>x \<in> set R1. lin_engine (lin x) \<notin> set es" using Cons.prems(5,6) by auto
  from Cons.IH [OF rest splits_ok [OF t(1)] t(3,4) this] Cons.prems(6) have "splits (\<lambda>_. True) p1 p'" by simp
  then show ?case by (rule splits_trans [OF _ splits_any [OF t(1)]])
qed

lemma take_traced_splits:
  assumes run: "take_traced ss_of hp p = Inr (insts, R, p')" and ok: "packer_ok p"
  shows "\<exists>q. splits (\<lambda>_. True) (p\<lparr>cycle_number := cycle_number p + 1\<rparr>) q \<and> pending q = mset R + pending p' \<and>
    pk_imetas p' = pk_imetas q \<and> later q p'"
proof -
  let ?p = "p\<lparr>cycle_number := cycle_number p + 1\<rparr>"
  from run obtain q where q: "foldM (take_engine ss_of hp) EX_UNITS (?p, [], []) = Inr (q, insts, R)"
    and r: "foldM (retire ss_of) R q = Inr p'"
    unfolding take_traced_def by (auto simp: res_elims simp del: foldM.simps)
  have okp: "packer_ok ?p" using ok by (simp add: packer_inv_def pending_def waiting_def)
  have "packer_ok q" "distinct R" "set R \<subseteq> set (free q)"
    using take_engines [OF q okp _ _ _ in_order_EX_UNITS] by auto
  from retires [OF this] r have "pending q = mset R + pending p'" "pk_imetas p' = pk_imetas q" "later q p'" by auto
  moreover have "splits (\<lambda>_. True) ?p q"
    by (rule take_engines_splits [OF q okp]) (auto simp: EX_UNITS_def)
  ultimately show ?thesis by blast
qed

lemma packed_accounts:
  assumes "packed ss_of hp p bs p'" and "packer_ok p" and "accounts ims fs D p"
    and num: "\<And>i. i < length ims \<Longrightarrow> instid (ims ! i) = int i"
  shows "\<exists>fs'. accounts ims fs' (D + mset (concat (map snd bs))) p'"
  using assms(1-3)
proof (induction arbitrary: fs D rule: packed.induct)
  case (packed_end p p')
  obtain b q where "have_more ss_of p = Inr (b, q)" "later p q" "pending q = pending p" "pk_imetas q = pk_imetas p"
    using have_more [OF packed_end.prems(1)] by metis
  with packed_end.hyps packed_end.prems(2) have "accounts ims fs D p'"
    by (intro accounts_same [OF packed_end.prems(2)]) (auto simp: later_def)
  then show ?case by auto
next
  case (packed_bundle p q ins R r bs p')
  obtain b q' where "have_more ss_of p = Inr (b, q')" "packer_ok q'" "later p q'" "pending q' = pending p"
    "pk_imetas q' = pk_imetas p" using have_more [OF packed_bundle.prems(1)] by metis
  with packed_bundle.hyps(1) have q: "packer_ok q" "later p q" "pending q = pending p" "pk_imetas q = pk_imetas p"
    by simp_all
  let ?q = "q\<lparr>cycle_number := cycle_number q + 1\<rparr>"
  have "pending ?q = pending p" using q(3) by (simp add: pending_def waiting_def)
  then have a: "accounts ims fs D ?q"
    using q(2,4) by (intro accounts_same [OF packed_bundle.prems(2)]) (auto simp: later_def)
  from take_traced_splits [OF packed_bundle.hyps(2) q(1)] obtain s where s: "splits (\<lambda>_. True) ?q s"
    "pending s = mset R + pending r" "pk_imetas r = pk_imetas s" "later s r" by blast
  from accounts_splits [OF s(1) a num] obtain fs1 where "accounts ims fs1 D s" by blast
  then have "accounts ims fs1 (D + mset R) r" by (rule accounts_retired) (use s in \<open>auto simp: later_def\<close>)
  from packed_bundle.IH [OF take_traced(2) [OF packed_bundle.hyps(2) q(1)] this] show ?case
    by (simp add: add.assoc)
qed

end

section \<open>Edges order families\<close>

lemma family_members:
  assumes "family ss c x ys" "y \<in> set ys"
  shows "tid y = tid x"
    "instid y = instid x \<or> (after y = after x \<and> (\<exists>w \<in> set ys. instid w = instid x \<and> nat (instid y) \<in> set (after w)))"
    "\<exists>w \<in> set ys. instid w = instid x"
proof -
  from assms(1) obtain zs where zs: "base_parts ss c x zs" "list_all2 (becomes ss c) zs ys" by (auto simp: family_def)
  from zs(2) assms(2) obtain z where z: "z \<in> set zs" "becomes ss c z y" by (rule list_all2_in)
  have up: "\<exists>w \<in> set ys. becomes ss c z w" if "z \<in> set zs" for z
    using zs(2) that by (induction rule: list_all2_induct) auto
  have base: "tid z = tid x \<and> (instid z = instid x \<or> (after z = after x \<and>
      (\<exists>w \<in> set zs. instid w = instid x \<and> nat (instid z) \<in> set (after w)))) \<and> (\<exists>w \<in> set zs. instid w = instid x)"
  proof (cases "zs = [x]")
    case False
    with zs(1) obtain n parts new where u: "unfolds ss c n x parts new" "zs = parts @ new" by (auto simp: base_parts_def)
    note k = unfolds_keys [OF u(1)]
    from z(1) u(2) consider "z \<in> set parts" | "z \<in> set new" by auto
    moreover have "\<exists>w \<in> set zs. instid w = instid x" using k(1,8) u(2) by (cases parts) auto
    ultimately show ?thesis by cases (use k(1,3,6) u(2) in force)+
  qed (use z(1) in simp)
  note s = becomes_same [OF z(2)]
  show "tid y = tid x" using base s by simp
  show "instid y = instid x \<or> (after y = after x \<and> (\<exists>w \<in> set ys. instid w = instid x \<and> nat (instid y) \<in> set (after w)))"
    using base s up becomes_same(1,3) by metis
  show "\<exists>w \<in> set ys. instid w = instid x" using base up becomes_same(1) by metis
qed

context packing
begin

lemma family_order:
  assumes run: "packed ss_of hp p bs p'" and ok: "packer_ok p" and held: "edges_held (pk_imetas p) (pending p)"
    and ids: "\<forall>i < length (pk_imetas p). int i \<in> ids p"
    and acc: "accounts (pk_imetas p) fs (mset (concat (map snd bs))) p'" and none: "pending p' = {#}"
    and num: "\<And>i. i < length (pk_imetas p) \<Longrightarrow> instid (pk_imetas p ! i) = int i"
    and fwd: "\<And>i j. (i, j) \<in> edges (pk_imetas p) \<Longrightarrow> i < length (pk_imetas p) \<and> j < length (pk_imetas p)"
    and path: "(i, j) \<in> (edges (pk_imetas p))\<^sup>+"
    and y: "b < length bs" "y \<in> set (snd (bs ! b))" "y \<in> set (fs ! i)"
    and z: "c < length bs" "z \<in> set (snd (bs ! c))" "z \<in> set (fs ! j)"
  shows "b < c"
proof -
  let ?ims = "pk_imetas p"
  have fam: "family (pk_ss p') (pk_conc_threads p') (?ims ! i) (fs ! i)" if "i < length ?ims" for i
    using acc that by (auto simp: accounts_def list_all2_conv_all_nth)
  have len: "length fs = length ?ims" using acc by (auto simp: accounts_def dest: list_all2_lengthD)
  have retired: "\<exists>c < length bs. w \<in> set (snd (bs ! c))" if "i < length ?ims" "w \<in> set (fs ! i)" for w i
  proof -
    have "w \<in> set (concat fs)" using that len by (auto intro!: bexI [of _ "fs ! i"])
    moreover have "mset (concat fs) = mset (concat (map snd bs))" using acc none by (simp add: accounts_def)
    ultimately have "w \<in> set (concat (map snd bs))" by (metis set_mset_mset)
    then obtain r where "r \<in> set bs" "w \<in> set (snd r)" by auto
    then show ?thesis by (metis in_set_conv_nth)
  qed
  have edge: "b < c" if e: "(i, k) \<in> edges ?ims" and w: "c < length bs" "w \<in> set (snd (bs ! c))" "instid w = int k" for c w k
  proof -
    have i: "i < length ?ims" using fwd [OF e] by simp
    have k: "k \<in> set (after (?ims ! i))" using e by (simp add: edges_def)
    show ?thesis
    proof (cases "instid y = int i")
      case True
      then show ?thesis by (rule packed_edge [OF run ok held y(1) w(1) y(2) w(2) _ i k w(3)])
    next
      case False
      then have "after y = after (?ims ! i)" using family_members(2) [OF fam [OF i] y(3)] num [OF i] by simp
      then have "nat (instid w) \<in> set (after y)" using k w(3) by simp
      then show ?thesis by (rule packed_order [OF run ok w(1) y(1) w(2) y(2)])
    qed
  qed
  have first: "b < c" if "c < length bs" "w \<in> set (snd (bs ! c))" "instid w = int j" for c w
    using path that
  proof (induction arbitrary: c w rule: trancl_induct)
    case (base k)
    then show ?case using edge by blast
  next
    case (step k j)
    have k: "k < length ?ims" "j \<in> set (after (?ims ! k))" using step(2) by (auto simp: edges_def)
    from packed_pred [OF run ok held step(4-6) k] ids k(1) obtain a v where
      v: "a < c" "v \<in> set (snd (bs ! a))" "instid v = int k" by blast
    have "b < a" by (rule step.IH [OF _ v(2,3)]) (use v(1) step(4) in simp)
    with v(1) show ?case by simp
  qed
  have j: "j < length ?ims" using path fwd by (metis tranclE)
  show ?thesis
  proof (cases "instid z = int j")
    case True
    then show ?thesis by (rule first [OF z(1,2)])
  next
    case False
    then obtain w where w: "w \<in> set (fs ! j)" "instid w = int j" "nat (instid z) \<in> set (after w)"
      using family_members(2) [OF fam [OF j] z(3)] num [OF j] by auto
    from retired [OF j w(1)] obtain a where a: "a < length bs" "w \<in> set (snd (bs ! a))" by blast
    have "b < a" by (rule first [OF a w(2)])
    moreover have "a < c" by (rule packed_order [OF run ok z(1) a(1) z(2) a(2) w(3)])
    ultimately show ?thesis by simp
  qed
qed

end

end
