(* ===== verification/Linear_Code.thy ===== *)
theory Linear_Code
  imports Packer Machine_Props
begin

text \<open>
  The instructions of a program executed one after the other, each at once and completely: the
  meaning the compiler's output has before it is scheduled.
\<close>

definition exec_lin ::
  "scratch_space \<Rightarrow> int \<Rightarrow> int list \<times> int list \<Rightarrow> logical_instr \<Rightarrow> (int list \<times> int list) res" where
  "exec_lin ss sl st l =
     (case st of (sc, mm) \<Rightarrow>
      rbind (mapM (serialize_param ss sl) (lin_params l)) (\<lambda>as.
      rbind (slot_puts sc mm (lin_engine l) (lin_opcode l, as)) (\<lambda>ps.
        if lin_engine l = STORE then rbind (commit (dict_puts ps []) mm) (\<lambda>mm'. Inr (sc, mm'))
        else rbind (commit (dict_puts ps []) sc) (\<lambda>sc'. Inr (sc', mm)))))"

text \<open>A work list: every instruction in the slot of its thread.\<close>

definition run_work ::
  "scratch_space \<Rightarrow> int \<Rightarrow> imeta list \<Rightarrow> int list \<times> int list \<Rightarrow> (int list \<times> int list) res" where
  "run_work ss c ims st = foldM (\<lambda>st x. exec_lin ss (tid x mod c) st (lin x)) ims st"

lemma run_work_simps [simp]:
  "run_work ss c [] st = Inr st"
  "run_work ss c (x # ims) st = rbind (exec_lin ss (tid x mod c) st (lin x)) (run_work ss c ims)"
  by (simp_all add: run_work_def [abs_def])

lemma run_work_append: "run_work ss c (xs @ ys) st = rbind (run_work ss c xs st) (run_work ss c ys)"
  by (simp add: run_work_def [abs_def] foldM_append)

section \<open>Constants that are added\<close>

text \<open>The words of the constant an instruction adds hold its value.\<close>

definition constant_holds :: "scratch_space \<Rightarrow> int \<Rightarrow> int list \<Rightarrow> logical_op \<Rightarrow> bool" where
  "constant_holds ss sl sc r =
     (case (op_addr ss sl r, constant_value ss r) of
        (Inr a, Inr v) \<Rightarrow> list_all (\<lambda>i. py_get sc (a + i) = Inr (r32 v)) (if op_is_vector r then lanes else [0])
      | _ \<Rightarrow> True)"

definition addend_holds :: "scratch_space \<Rightarrow> int \<Rightarrow> int list \<Rightarrow> logical_instr \<Rightarrow> bool" where
  "addend_holds ss sl sc l = constant_holds ss sl sc (last (param_ops (lin_params l)))"

text \<open>
  Instructions, each in a slot, executed one after the other, where every constant that is added holds
  its value when it is.
\<close>

fun adds_safely :: "scratch_space \<Rightarrow> (int \<times> logical_instr) list \<Rightarrow> int list \<times> int list \<Rightarrow> bool" where
  "adds_safely ss [] st = True"
| "adds_safely ss ((sl, l) # ps) st =
     ((lin_opcode l \<in> {''+'', ''multiply_add''} \<longrightarrow> addend_holds ss sl (fst st) l) \<and>
      (case exec_lin ss sl st l of Inl _ \<Rightarrow> True | Inr st' \<Rightarrow> adds_safely ss ps st'))"

definition run_slots ::
  "scratch_space \<Rightarrow> (int \<times> logical_instr) list \<Rightarrow> int list \<times> int list \<Rightarrow> (int list \<times> int list) res" where
  "run_slots ss ps st = foldM (\<lambda>st (sl, l). exec_lin ss sl st l) ps st"

lemma run_slots_simps [simp]:
  "run_slots ss [] st = Inr st"
  "run_slots ss ((sl, l) # ps) st = rbind (exec_lin ss sl st l) (run_slots ss ps)"
  by (simp_all add: run_slots_def [abs_def])

lemma run_slots_append: "run_slots ss (xs @ ys) st = rbind (run_slots ss xs st) (run_slots ss ys)"
  by (simp add: run_slots_def [abs_def] foldM_append)

lemma run_slots_map: "run_slots ss (map (Pair sl) ls) st = foldM (exec_lin ss sl) ls st"
  by (induction ls arbitrary: st) (simp_all add: fun_eq_iff [symmetric] cong: rbind_cong)

lemma run_work_slots: "run_work ss c ims st = run_slots ss (map (\<lambda>x. (tid x mod c, lin x)) ims) st"
  by (induction ims arbitrary: st) (simp_all cong: rbind_cong)

lemma adds_safely_append:
  "adds_safely ss (xs @ ys) st \<longleftrightarrow> adds_safely ss xs st \<and> (\<forall>st'. run_slots ss xs st = Inr st' \<longrightarrow> adds_safely ss ys st')"
proof (induction xs arbitrary: st)
  case (Cons p xs)
  then show ?case by (cases p) (auto split: sum.splits)
qed simp

lemma adds_safely_plain:
  "\<forall>p \<in> set ps. lin_opcode (snd p) \<notin> {''+'', ''multiply_add''} \<Longrightarrow> adds_safely ss ps st"
proof (induction ps arbitrary: st)
  case (Cons p ps)
  then show ?case by (cases p) (auto split: sum.splits)
qed simp

text \<open>Before every instruction of the list.\<close>

lemma adds_safely_nth:
  assumes "adds_safely ss ps st" "i < length ps" "run_slots ss (take i ps) st = Inr st'"
    "lin_opcode (snd (ps ! i)) \<in> {''+'', ''multiply_add''}"
  shows "addend_holds ss (fst (ps ! i)) (fst st') (snd (ps ! i))"
proof -
  obtain sl l where p: "ps ! i = (sl, l)" by fastforce
  have "ps = take i ps @ (sl, l) # drop (Suc i) ps" using id_take_nth_drop [OF assms(2)] p by simp
  with assms(1) have "adds_safely ss (take i ps @ (sl, l) # drop (Suc i) ps) st" by simp
  with assms(3,4) p show ?thesis unfolding adds_safely_append by auto
qed

end
