(* ===== verification/Split_Semantics.thy ===== *)
theory Split_Semantics
  imports Packer_Run Machine_Props
begin

text \<open>
  The four splits of the scheduler do not change what the machine computes: the scalar slots
  together write what the vector slot writes, in the same order, and raise the same errors. The
  multiply-add takes two bundles: products first, sums after they are committed.
\<close>

section \<open>Lanes of an operand\<close>

text \<open>The lanes of a vector operand name its words one by one.\<close>

lemma op_addr_lane:
  assumes "op_addr ss sl r = Inr a" and "at_start r"
  shows "op_addr ss sl (lane r i) = Inr (a + int i)"
  using assms by (cases r) (auto simp: op_addr_def lane_def is_mem_def at_start_def is_array_op_def res_elims)

lemma op_range_vector:
  assumes "op_addr ss sl r = Inr a" and "op_range ss sl r = Inr q" and "op_is_vector r" and "at_start r"
  shows "q = \<lparr>lo = a, hi = a + int VLEN - 1\<rparr>"
  using assms
  by (cases r) (auto simp: op_addr_def op_range_def is_mem_def at_start_def is_array_op_def res_elims split: if_splits)

lemma vectors_apart:
  assumes "overlaps ss sl d c = Inr False" and "op_addr ss sl d = Inr da" and "op_addr ss sl c = Inr ca"
    and "op_is_vector d" "at_start d" "op_is_vector c" "at_start c"
  shows "da + int VLEN \<le> ca \<or> ca + int VLEN \<le> da"
proof -
  obtain r q where "op_range ss sl d = Inr r" "op_range ss sl c = Inr q" "is_empty (intersect r q)"
    using assms(1) by (auto simp: overlaps_def res_elims split: if_splits)
  with op_range_vector [OF assms(2) _ assms(4,5)] op_range_vector [OF assms(3) _ assms(6,7)]
  show ?thesis by (auto simp: is_empty_def intersect_def)
qed

section \<open>Single words\<close>

lemma slot_puts_simps:
  "slot_puts sc mm ALU (op, [d, a, b]) = rbind (alu_put sc op d a b) (\<lambda>p. Inr [p])"
  "slot_puts sc mm VALU (op, [d, a, b]) = mapM (\<lambda>i. alu_put sc op (d + i) (a + i) (b + i)) lanes"
  "slot_puts sc mm VALU (''vbroadcast'', [d, a]) = mapM (\<lambda>i. copy_put sc (d + i) a) lanes"
  "slot_puts sc mm VALU (''multiply_add'', [d, a, b, c]) =
     mapM (\<lambda>i. mul_add_put sc (d + i) (a + i) (b + i) (c + i)) lanes"
  "slot_puts sc mm FLOW (''add_imm'', [d, a, imm]) = rbind (py_get sc a) (\<lambda>v. Inr [(d, r32 (v + imm))])"
  by (simp_all add: slot_puts_def)

lemma concat_singles:
  "rbind (mapM (\<lambda>i. rbind (f i) (\<lambda>p. Inr [p])) is) (\<lambda>pss. Inr (concat pss)) = mapM f is"
proof (induction "is")
  case (Cons i "is")
  show ?case
  proof (cases "f i")
    case (Inr p)
    have "rbind (mapM (\<lambda>i. rbind (f i) (\<lambda>p. Inr [p])) (i # is)) (\<lambda>pss. Inr (concat pss)) =
        rbind (rbind (mapM (\<lambda>i. rbind (f i) (\<lambda>p. Inr [p])) is) (\<lambda>pss. Inr (concat pss))) (\<lambda>ps. Inr (p # ps))"
      using Inr by (simp add: rbind_assoc)
    then show ?thesis unfolding Cons using Inr by simp
  qed simp
qed simp

lemma alu_put_or:
  assumes "all_words sc"
  shows "alu_put sc ''|'' d a a = copy_put sc d a"
proof (cases "py_get sc a")
  case (Inr v)
  then have "r32 v = v" using all_words_get [OF assms Inr] by (simp add: r32_def is_word_def)
  with Inr show ?thesis by (simp add: alu_put_def copy_put_def alu_res_def)
qed (simp add: alu_put_def copy_put_def)

lemma alu_put_imm:
  assumes "py_get sc k = Inr (r32 imm)"
  shows "alu_put sc ''+'' d a k = rbind (py_get sc a) (\<lambda>v. Inr (d, r32 (v + imm)))"
  using assms by (cases "py_get sc a") (simp_all add: alu_put_def alu_res_def r32_mod_simps)

lemma alu_put_mul_add:
  assumes "alu_put sc ''*'' d a b = Inr (d, v)" and "py_get sc' d = Inr v" and "py_get sc' c = py_get sc c"
  shows "alu_put sc' ''+'' d d c = mul_add_put sc d a b c"
  using assms by (cases "py_get sc c") (auto simp: alu_put_def mul_add_put_def alu_res_def res_elims)

lemma commit_product:
  assumes ps: "mapM (\<lambda>i. alu_put sc ''*'' (d + i) (a + i) (b + i)) lanes = Inr ps"
    and sc': "commit (dict_puts ps []) sc = Inr sc'" and d: "0 \<le> d" "d + int VLEN \<le> int (length sc)"
    and i: "i \<in> set lanes"
  shows "\<exists>v. alu_put sc ''*'' (d + i) (a + i) (b + i) = Inr (d + i, v) \<and> py_get sc' (d + i) = Inr v"
    and "0 \<le> c \<Longrightarrow> c < int (length sc) \<Longrightarrow> c < d \<or> d + int VLEN \<le> c \<Longrightarrow> py_get sc' c = py_get sc c"
proof -
  have len: "length ps = VLEN" and nth: "\<And>k. k < VLEN \<Longrightarrow>
      alu_put sc ''*'' (d + lanes ! k) (a + lanes ! k) (b + lanes ! k) = Inr (ps ! k)"
    using ps by (simp_all add: mapM_Inr_iff)
  have lane: "lanes ! k = int k" if "k < VLEN" for k using that by (simp add: lanes_def)
  have fst_ps: "fst (ps ! k) = d + int k" if "k < VLEN" for k
    using nth [OF that] lane [OF that] by (cases "ps ! k") (auto simp: alu_put_def res_elims)
  have keys: "map fst ps = map (\<lambda>k. d + int k) [0..<VLEN]"
    by (rule nth_equalityI) (use len fst_ps in simp_all)
  then have dist: "distinct (map fst ps)" by (simp add: distinct_map inj_on_def)
  have dom: "fst ` set ps = (\<lambda>k. d + int k) ` {0..<VLEN}"
    by (metis keys list.set_map set_upt)
  have map_of: "map_of (dict_puts ps []) = map_of ps"
    unfolding map_of_dict_puts using map_of_inject_set [of "rev ps" ps] dist by (simp add: rev_map [symmetric])
  have dom': "fst ` set (dict_puts ps []) = fst ` set ps"
    using map_of_dict_puts_dom [of ps "[]"] by (simp add: dom_map_of_conv_image_fst)
  have "\<forall>a \<in> fst ` set (dict_puts ps []). 0 \<le> a \<and> a < int (length sc)"
    unfolding dom' dom using d by auto
  from commit_in_range [OF this distinct_dict_puts] sc' have
    sc': "length sc' = length sc" "\<forall>k < length sc. sc' ! k =
      (case map_of ps (int k) of None \<Rightarrow> sc ! k | Some v \<Rightarrow> v)" unfolding map_of by auto
  obtain k where k: "k < VLEN" "i = int k" using i by (auto simp: lanes_def)
  have "map_of ps (d + i) = Some (snd (ps ! k))"
    using dist k len fst_ps [OF k(1)] by (metis map_of_eq_Some_iff nth_mem prod.collapse)
  moreover have "nat (d + i) < length sc" "int (nat (d + i)) = d + i" using d k by simp_all
  ultimately have "py_get sc' (d + i) = Inr (snd (ps ! k))"
    using sc' by (metis option.simps(5) py_get_nat)
  moreover have "alu_put sc ''*'' (d + i) (a + i) (b + i) = Inr (d + i, snd (ps ! k))"
    using nth [OF k(1)] lane [OF k(1)] k(2) fst_ps [OF k(1)] by (metis prod.collapse)
  ultimately show "\<exists>v. alu_put sc ''*'' (d + i) (a + i) (b + i) = Inr (d + i, v) \<and> py_get sc' (d + i) = Inr v"
    by blast
  show "py_get sc' c = py_get sc c" if "0 \<le> c" "c < int (length sc)" "c < d \<or> d + int VLEN \<le> c"
  proof -
    have "c \<notin> fst ` set ps" unfolding dom using that(3) by auto
    then have "map_of ps c = None" by (simp add: map_of_eq_None_iff)
    moreover have "nat c < length sc" "int (nat c) = c" using that by simp_all
    ultimately show ?thesis using sc' by (metis option.simps(4) py_get_nat)
  qed
qed

section \<open>The slots of the parts\<close>

text \<open>What several slots of one bundle write, one after the other.\<close>

definition slots_put :: "int list \<Rightarrow> int list \<Rightarrow> (engine \<times> slot) list \<Rightarrow> (int \<times> int) list res" where
  "slots_put sc mm es = rbind (mapM (\<lambda>(e, s). slot_puts sc mm e s) es) (\<lambda>pss. Inr (concat pss))"

lemma slots_put_lanes:
  assumes "\<And>i. i \<in> set lanes \<Longrightarrow> slot_puts sc mm e (t i) = rbind (g i) (\<lambda>p. Inr [p])"
  shows "slots_put sc mm (map (\<lambda>i. (e, t i)) lanes) = mapM g lanes"
proof -
  have "mapM (\<lambda>(e, s). slot_puts sc mm e s) (map (\<lambda>i. (e, t i)) is) = mapM (\<lambda>i. rbind (g i) (\<lambda>p. Inr [p])) is"
    if "set is \<subseteq> set lanes" for "is"
    using that by (induction "is") (simp_all add: assms)
  then show ?thesis by (simp add: slots_put_def concat_singles)
qed

lemma lanesE:
  assumes "i \<in> set lanes"
  obtains k where "i = int k" "k < VLEN"
  using assms by (auto simp: lanes_def)

lemma mapM_all_lanes:
  assumes "mapM f lanes = Inr ys" and "\<And>i y. i \<in> set lanes \<Longrightarrow> f i = Inr y \<Longrightarrow> h y = Inr (t i)"
  shows "mapM h ys = Inr (map t lanes)"
  using assms unfolding mapM_Inr_iff by (auto simp: mapM_Inr_iff)

lemma serialize_cong:
  "pk_ss p = pk_ss q \<Longrightarrow> pk_conc_threads p = pk_conc_threads q \<Longrightarrow> serialize p = serialize q"
  by (intro ext) (simp add: serialize_def to_serialized_def)

lemma serializeE:
  assumes "serialize p x = Inr (e, s)"
  obtains sl as where "work_slot_of (tid x) (pk_conc_threads p) = Inr sl"
    and "mapM (serialize_param (pk_ss p) sl) (lin_params (lin x)) = Inr as"
    and "e = lin_engine (lin x)" and "s = (lin_opcode (lin x), as)"
  using assms by (auto simp: serialize_def to_serialized_def res_elims)

lemma serialize_part:
  assumes "part x l af = Inr y" and "work_slot_of (tid x) (pk_conc_threads p) = Inr sl"
  shows "serialize p y = to_serialized p l sl"
  using assms by (simp add: serialize_def part_iff)

lemma lane3_serialized:
  assumes "op_addr (pk_ss p) sl d = Inr da" "op_addr (pk_ss p) sl a = Inr aa" "op_addr (pk_ss p) sl b = Inr ba"
    and "at_start d" "at_start a" "at_start b"
    and "lane3 e op d a b i = Inr l" and "i \<in> set lanes"
  shows "to_serialized p l sl = Inr (e, (op, [da + i, aa + i, ba + i]))"
  using assms(7,8)
  by (elim lanesE) (auto simp: lane3_def scalar_at_offset_lane to_serialized_def serialize_param_def
      op_addr_lane assms(1-6))

section \<open>The four splits\<close>

text \<open>\<open>exchanged x parts p p'\<close>: in the pending work, the parts stand where \<open>x\<close> stood.\<close>

definition exchanged :: "imeta \<Rightarrow> imeta list \<Rightarrow> packer \<Rightarrow> packer \<Rightarrow> bool" where
  "exchanged x parts p p' \<longleftrightarrow> (\<exists>M. pending p = add_mset x M \<and> pending p' = M + mset parts) \<and>
     set (free p') = set (free p) - {x} \<union> set parts"

context packing
begin

lemma put_parts_exchanged:
  assumes "packer_ok p" "lin_engine (lin x) = VALU" "parts_of x parts" "\<forall>y \<in> set parts. after y = after x"
    and "put_parts ss_of x parts p = Inr p'"
  shows "exchanged x parts p p'" "later p p'"
  using packer_parts [OF assms(1) put_parts_free [OF assms(5) packer_invD(6) [OF assms(1)]] assms(2-4)]
  unfolding exchanged_def assms(5) by auto

lemma valu_parts:
  assumes "packer_ok p" "lin_engine (lin x) = VALU" and sp: "split_one_free_valu_to_alu ss_of x p = Inr p'"
    and ser: "serialize p x = Inr (VALU, s)" and ps: "lin_params (lin x) = [Op d, Op a, Op b]"
  shows "\<exists>parts es. exchanged x parts p p' \<and> mapM (serialize p') parts = Inr es \<and>
    (\<forall>sc mm. slots_put sc mm es = slot_puts sc mm VALU s)"
proof -
  from sp obtain nmetas q where starts: "list_all at_start (registers x)" and three: "length (registers x) = 3"
    and ms: "mapM (\<lambda>i. rbind (lane3 ALU (opcode x) (registers x ! 0) (registers x ! 1)
      (registers x ! 2) i) (\<lambda>l. part x l (after x))) lanes = Inr nmetas"
    and q: "put_parts ss_of x nmetas p = Inr q" and p': "p' = count_split (opcode x) q"
    unfolding split_one_free_valu_to_alu_def Let_def at_start_def by (auto simp: res_elims)
  have regs: "registers x = [d, a, b]"
    using three ps by (auto simp: registers_def lin_registers_def param_ops_def split: if_splits)
  have parts: "parts_of x nmetas"
    by (rule mapM_parts [OF ms, where r = "registers x ! 0"])
      (auto simp: res_elims part_iff registers_def lin_registers_def param_ops_def elim!: lane3_Inr)
  have aft: "\<forall>y \<in> set nmetas. after y = after x"
    by (rule mapM_after [OF ms]) (auto simp: res_elims part_iff)
  note ex = put_parts_exchanged [OF assms(1,2) parts aft q]
  have same: "serialize p' = serialize p"
    by (rule serialize_cong) (use ex(2) p' in \<open>simp_all add: later_def count_split_def\<close>)
  from ser obtain sl da aa ba where sl: "work_slot_of (tid x) (pk_conc_threads p) = Inr sl"
    and ad: "op_addr (pk_ss p) sl d = Inr da" "op_addr (pk_ss p) sl a = Inr aa" "op_addr (pk_ss p) sl b = Inr ba"
    and s: "s = (opcode x, [da, aa, ba])"
    by (elim serializeE) (auto simp: ps serialize_param_def opcode_def res_elims)
  have st: "at_start d" "at_start a" "at_start b" using starts by (simp_all add: regs)
  have "mapM (serialize p') nmetas = Inr (map (\<lambda>i. (ALU, (opcode x, [da + i, aa + i, ba + i]))) lanes)"
  proof (rule mapM_all_lanes [OF ms])
    fix i y assume i: "i \<in> set lanes" and y: "rbind (lane3 ALU (opcode x) (registers x ! 0) (registers x ! 1)
      (registers x ! 2) i) (\<lambda>l. part x l (after x)) = Inr y"
    then obtain l where l: "lane3 ALU (opcode x) d a b i = Inr l" and y: "part x l (after x) = Inr y"
      by (auto simp: regs res_elims)
    show "serialize p' y = Inr (ALU, opcode x, [da + i, aa + i, ba + i])"
      unfolding same serialize_part [OF y sl] by (rule lane3_serialized [OF ad st l i])
  qed
  moreover have "slots_put sc mm (map (\<lambda>i. (ALU, (opcode x, [da + i, aa + i, ba + i]))) lanes) = slot_puts sc mm VALU s"
    for sc mm
    unfolding s slot_puts_simps(2) by (rule slots_put_lanes) (simp add: slot_puts_simps)
  ultimately show ?thesis using ex(1) p' by (auto simp: exchanged_def)
qed

lemma broadcast_parts:
  assumes "packer_ok p" "lin_engine (lin x) = VALU" and sp: "split_one_free_broadcast ss_of x p = Inr (True, p')"
    and ser: "serialize p x = Inr (VALU, s)" and ps: "lin_params (lin x) = [Op d, Op a]" and st: "at_start d"
  shows "\<exists>parts es. exchanged x parts p p' \<and> mapM (serialize p') parts = Inr es \<and>
    (\<forall>sc mm. all_words sc \<longrightarrow> slots_put sc mm es = slot_puts sc mm VALU s)"
proof -
  from sp obtain nmetas q where ms: "mapM (\<lambda>i. rbind (scalar_at_offset (registers x ! 0) i) (\<lambda>d.
      part x \<lparr>lin_engine = ALU, lin_opcode = ''|'', lin_params = [Op d, Op (registers x ! 1), Op (registers x ! 1)]\<rparr>
        (after x))) lanes = Inr nmetas" and op: "opcode x = ''vbroadcast''"
    and q: "put_parts ss_of x nmetas p = Inr q" and p': "p' = count_split (opcode x) q"
    unfolding split_one_free_broadcast_def Let_def by (auto simp: res_elims split: if_splits)
  have regs: "registers x = [d, a]"
    using op ps by (auto simp: registers_def lin_registers_def param_ops_def touches_memory_def opcode_def)
  have parts: "parts_of x nmetas"
    by (rule mapM_parts [OF ms, where r = "registers x ! 0"])
      (auto simp: res_elims part_iff registers_def lin_registers_def param_ops_def)
  have aft: "\<forall>y \<in> set nmetas. after y = after x"
    by (rule mapM_after [OF ms]) (auto simp: res_elims part_iff)
  note ex = put_parts_exchanged [OF assms(1,2) parts aft q]
  have same: "serialize p' = serialize p"
    by (rule serialize_cong) (use ex(2) p' in \<open>simp_all add: later_def count_split_def\<close>)
  from ser obtain sl da aa where sl: "work_slot_of (tid x) (pk_conc_threads p) = Inr sl"
    and ad: "op_addr (pk_ss p) sl d = Inr da" "op_addr (pk_ss p) sl a = Inr aa"
    and s: "s = (''vbroadcast'', [da, aa])"
    by (elim serializeE) (use op in \<open>auto simp: ps serialize_param_def opcode_def res_elims\<close>)
  have "mapM (serialize p') nmetas = Inr (map (\<lambda>i. (ALU, (''|'', [da + i, aa, aa]))) lanes)"
  proof (rule mapM_all_lanes [OF ms])
    fix i y assume i: "i \<in> set lanes" and y: "rbind (scalar_at_offset (registers x ! 0) i) (\<lambda>d.
      part x \<lparr>lin_engine = ALU, lin_opcode = ''|'', lin_params = [Op d, Op (registers x ! 1), Op (registers x ! 1)]\<rparr>
        (after x)) = Inr y"
    from i obtain k where k: "i = int k" "k < VLEN" by (rule lanesE)
    from y k have y: "part x \<lparr>lin_engine = ALU, lin_opcode = ''|'', lin_params = [Op (lane d k), Op a, Op a]\<rparr>
        (after x) = Inr y" by (simp add: regs scalar_at_offset_lane)
    show "serialize p' y = Inr (ALU, ''|'', [da + i, aa, aa])"
      unfolding same serialize_part [OF y sl]
      by (simp add: to_serialized_def serialize_param_def op_addr_lane [OF ad(1) st] ad(2) k(1))
  qed
  moreover have "slots_put sc mm (map (\<lambda>i. (ALU, (''|'', [da + i, aa, aa]))) lanes) = slot_puts sc mm VALU s"
    if "all_words sc" for sc mm
    unfolding s slot_puts_simps(3)
    by (rule slots_put_lanes) (simp add: slot_puts_simps alu_put_or [OF that])
  ultimately show ?thesis using ex(1) p' by (auto simp: exchanged_def)
qed

lemma vector_imm_parts:
  assumes "packer_ok p" "lin_engine (lin x) = VALU" and sp: "split_one_vector_imm_add ss_of x p = Inr p'"
    and ser: "serialize p x = Inr (VALU, (''+'', [da, aa, ca]))" and ps: "lin_params (lin x) = [Op d, Op a, Op c]"
    and st: "at_start d" "at_start a" and no_array: "list_all (\<lambda>r. \<not> is_array_op r) [d, a, c]"
    and v: "constant_value (pk_ss p) c = Inr v"
  shows "\<exists>parts es. exchanged x parts p p' \<and> mapM (serialize p') parts = Inr es \<and>
    (\<forall>sc mm. (\<forall>i \<in> set lanes. py_get sc (ca + i) = Inr (r32 v)) \<longrightarrow>
      slots_put sc mm es = slot_puts sc mm VALU (''+'', [da, aa, ca]))"
proof -
  from ser obtain sl where sl: "work_slot_of (tid x) (pk_conc_threads p) = Inr sl"
    and ad: "op_addr (pk_ss p) sl d = Inr da" "op_addr (pk_ss p) sl a = Inr aa" and op: "opcode x = ''+''"
    by (elim serializeE) (auto simp: ps serialize_param_def opcode_def res_elims)
  have regs: "registers x = [d, a, c]"
    using op ps by (auto simp: registers_def lin_registers_def param_ops_def touches_memory_def opcode_def)
  from sp no_array obtain nmetas where ms: "mapM (\<lambda>i. rbind (scalar_at_offset (registers x ! 0) i) (\<lambda>d.
        rbind (scalar_at_offset (registers x ! 1) i) (\<lambda>a. rbind (constant_value (pk_ss p) (registers x ! 2)) (\<lambda>v.
          part x \<lparr>lin_engine = FLOW, lin_opcode = ''add_imm'', lin_params = [Op d, Op a, Imm v]\<rparr> (after x))))) lanes
        = Inr nmetas" and q: "put_parts ss_of x nmetas p = Inr p'"
    unfolding split_one_vector_imm_add_def Let_def by (auto simp: regs res_elims split: if_splits)
  have parts: "parts_of x nmetas"
    by (rule mapM_parts [OF ms, where r = "registers x ! 0"])
      (auto simp: res_elims part_iff registers_def lin_registers_def param_ops_def)
  have aft: "\<forall>y \<in> set nmetas. after y = after x"
    by (rule mapM_after [OF ms]) (auto simp: res_elims part_iff)
  note ex = put_parts_exchanged [OF assms(1,2) parts aft q]
  have same: "serialize p' = serialize p"
    by (rule serialize_cong) (use ex(2) in \<open>simp_all add: later_def\<close>)
  have "mapM (serialize p') nmetas = Inr (map (\<lambda>i. (FLOW, (''add_imm'', [da + i, aa + i, v]))) lanes)"
  proof (rule mapM_all_lanes [OF ms])
    fix i y assume i: "i \<in> set lanes" and y: "rbind (scalar_at_offset (registers x ! 0) i) (\<lambda>d.
        rbind (scalar_at_offset (registers x ! 1) i) (\<lambda>a. rbind (constant_value (pk_ss p) (registers x ! 2)) (\<lambda>v.
          part x \<lparr>lin_engine = FLOW, lin_opcode = ''add_imm'', lin_params = [Op d, Op a, Imm v]\<rparr> (after x)))) = Inr y"
    from i obtain k where k: "i = int k" "k < VLEN" by (rule lanesE)
    from y k have y: "part x \<lparr>lin_engine = FLOW, lin_opcode = ''add_imm'',
        lin_params = [Op (lane d k), Op (lane a k), Imm v]\<rparr> (after x) = Inr y"
      by (simp add: regs scalar_at_offset_lane v)
    show "serialize p' y = Inr (FLOW, ''add_imm'', [da + i, aa + i, v])"
      unfolding same serialize_part [OF y sl]
      by (simp add: to_serialized_def serialize_param_def op_addr_lane [OF ad(1) st(1)] op_addr_lane [OF ad(2) st(2)] k(1))
  qed
  moreover have "slots_put sc mm (map (\<lambda>i. (FLOW, (''add_imm'', [da + i, aa + i, v]))) lanes) =
      slot_puts sc mm VALU (''+'', [da, aa, ca])" if "\<forall>i \<in> set lanes. py_get sc (ca + i) = Inr (r32 v)" for sc mm
    unfolding slot_puts_simps(2)
    by (rule slots_put_lanes) (use that in \<open>simp add: slot_puts_simps alu_put_imm rbind_assoc\<close>)
  ultimately show ?thesis using ex(1) by blast
qed

lemma scalar_imm_part:
  assumes "packer_ok p" "lin_engine (lin x) = ALU" and sp: "convert_one_scalar_imm_add ss_of x p = Inr p'"
    and ser: "serialize p x = Inr (ALU, (''+'', [da, aa, ca]))" and ps: "lin_params (lin x) = [Op d, Op a, Op c]"
    and v: "constant_value (pk_ss p) c = Inr v"
  shows "\<exists>y s. set (free p') = set (free p) - {x} \<union> {y} \<and> serialize p' y = Inr (FLOW, s) \<and>
    (\<forall>sc mm. py_get sc ca = Inr (r32 v) \<longrightarrow>
      slot_puts sc mm FLOW s = slot_puts sc mm ALU (''+'', [da, aa, ca]))"
proof -
  from ser obtain sl where sl: "work_slot_of (tid x) (pk_conc_threads p) = Inr sl"
    and ad: "op_addr (pk_ss p) sl d = Inr da" "op_addr (pk_ss p) sl a = Inr aa" and op: "opcode x = ''+''"
    by (elim serializeE) (auto simp: ps serialize_param_def opcode_def res_elims)
  have regs: "registers x = [d, a, c]"
    using op ps by (auto simp: registers_def lin_registers_def param_ops_def touches_memory_def opcode_def)
  from sp obtain y q where y: "part x \<lparr>lin_engine = FLOW, lin_opcode = ''add_imm'',
      lin_params = [Op d, Op a, Imm v]\<rparr> (after x) = Inr y"
    and q: "remove_free ss_of x p = Inr q" and p': "p' = add_free ss_of y q"
    unfolding convert_one_scalar_imm_add_def Let_def by (auto simp: regs v res_elims)
  note rem = remove_free [OF q packer_invD(6) [OF assms(1)]]
  have "set (free p') = insert y (set (free q))"
    unfolding p' add_free_def free_ops_def
    using min_heap.add_set [OF sorted_sets] rem(2) by simp
  moreover have "serialize p' = serialize p"
    by (rule serialize_cong) (subst p', subst rem(5), simp add: add_free_def)+
  moreover have "serialize p y = Inr (FLOW, ''add_imm'', [da, aa, v])"
    unfolding serialize_part [OF y sl] by (simp add: to_serialized_def serialize_param_def ad)
  ultimately show ?thesis using rem(3)
    by (intro exI [of _ y] exI [of _ "(''add_imm'', [da, aa, v])"])
      (auto simp: slot_puts_simps alu_put_imm rbind_assoc)
qed

lemma add_frees_set:
  "set (free (fold (add_free ss_of) parts p)) = set (free p) \<union> set parts \<and>
   pk_imetas (fold (add_free ss_of) parts p) = pk_imetas p \<and>
   pk_ss (fold (add_free ss_of) parts p) = pk_ss p \<and>
   pk_conc_threads (fold (add_free ss_of) parts p) = pk_conc_threads p"
proof (induction parts arbitrary: p)
  case (Cons y parts)
  have "set (free (add_free ss_of y p)) = insert y (set (free p))"
    using min_heap.add_set [OF sorted_sets] by (simp add: add_free_def free_ops_def)
  then show ?case using Cons [of "add_free ss_of y p"] by (simp add: add_free_def)
qed simp

lemma put_parts_frame:
  assumes "put_parts ss_of x parts p = Inr p'" and "distinct (free p)"
  shows "set (free p') = set (free p) - {x} \<union> set parts" "pk_imetas p' = pk_imetas p"
    "pk_ss p' = pk_ss p" "pk_conc_threads p' = pk_conc_threads p"
proof -
  from assms(1) obtain q r where q: "foldM (add_incount (int VLEN - 1)) (after x) p = Inr q"
    and r: "remove_free ss_of x q = Inr r"
    and p': "p' = add_schedulable (tid x) (int VLEN - 1) (fold (add_free ss_of) parts r)"
    unfolding put_parts_def by (auto simp: res_elims simp del: foldM.simps)
  have q: "free q = free p \<and> pk_imetas q = pk_imetas p \<and> pk_ss q = pk_ss p \<and> pk_conc_threads q = pk_conc_threads p"
    using q by (rule foldM_invariant [where P = "\<lambda>q. free q = free p \<and> pk_imetas q = pk_imetas p \<and>
      pk_ss q = pk_ss p \<and> pk_conc_threads q = pk_conc_threads p"]) (auto simp: add_incount_def res_elims)
  then have "distinct (free q)" using assms(2) by simp
  note r = remove_free(3,5) [OF r this]
  have "pk_imetas r = pk_imetas q" "pk_ss r = pk_ss q" "pk_conc_threads r = pk_conc_threads q"
    by (subst r(2), simp)+
  with r(1) q add_frees_set [of parts r]
  show "set (free p') = set (free p) - {x} \<union> set parts" "pk_imetas p' = pk_imetas p"
    "pk_ss p' = pk_ss p" "pk_conc_threads p' = pk_conc_threads p"
    unfolding p' by (simp_all add: add_schedulable_def)
qed

end

lemma mapM_ex: "(\<And>x. x \<in> set xs \<Longrightarrow> \<exists>y. f x = Inr y) \<Longrightarrow> \<exists>ys. mapM f xs = Inr ys"
proof (induction xs)
  case (Cons x xs)
  then obtain y ys where "f x = Inr y" "mapM f xs = Inr ys" by force
  then show ?case by simp
qed simp

lemma mapM_cong: "(\<And>x. x \<in> set xs \<Longrightarrow> f x = g x) \<Longrightarrow> mapM f xs = mapM g xs"
  by (induction xs) simp_all

lemma mul_add_put_parts:
  assumes "mul_add_put sc d a b c = Inr q"
  obtains v w where "alu_put sc ''*'' d a b = Inr (d, v)" "py_get sc c = Inr w" "q = (d, r32 (v + w))"
proof -
  from assms obtain x y z where xyz: "py_get sc a = Inr x" "py_get sc b = Inr y" "py_get sc c = Inr z"
    and q: "q = (d, r32 (r32 (x * y) + z))"
    by (auto simp: mul_add_put_def res_elims)
  have "alu_put sc ''*'' d a b = Inr (d, r32 (x * y))"
    using xyz by (simp add: alu_put_def alu_res_def)
  then show thesis using xyz(3) q by (rule that)
qed

lemma mul_add_two_bundles:
  assumes m: "mapM (\<lambda>i. mul_add_put sc (d + i) (a + i) (b + i) (c + i)) lanes = Inr ps"
    and d: "0 \<le> d" "d + int VLEN \<le> int (length sc)" and c: "0 \<le> c" "c + int VLEN \<le> int (length sc)"
    and apart: "d + int VLEN \<le> c \<or> c + int VLEN \<le> d"
  shows "\<exists>ps1 sc'. mapM (\<lambda>i. alu_put sc ''*'' (d + i) (a + i) (b + i)) lanes = Inr ps1 \<and>
    commit (dict_puts ps1 []) sc = Inr sc' \<and>
    mapM (\<lambda>i. alu_put sc' ''+'' (d + i) (d + i) (c + i)) lanes = Inr ps"
proof -
  have mp: "\<exists>q. mul_add_put sc (d + i) (a + i) (b + i) (c + i) = Inr q" if "i \<in> set lanes" for i
    using m that unfolding mapM_Inr_iff by (metis in_set_conv_nth)
  have "\<exists>q. alu_put sc ''*'' (d + i) (a + i) (b + i) = Inr q" if "i \<in> set lanes" for i
    using mp [OF that] by (metis mul_add_put_parts)
  then have "\<exists>ps1. mapM (\<lambda>i. alu_put sc ''*'' (d + i) (a + i) (b + i)) lanes = Inr ps1"
    by (rule mapM_ex)
  then obtain ps1 where ps1: "mapM (\<lambda>i. alu_put sc ''*'' (d + i) (a + i) (b + i)) lanes = Inr ps1" ..
  have "p \<in> set ps1 \<Longrightarrow> \<exists>i \<in> set lanes. fst p = d + i" for p
    using mapM_in_set [OF ps1] by (fastforce simp: alu_put_def res_elims)
  then have "\<forall>k \<in> fst ` set (dict_puts ps1 []). 0 \<le> k \<and> k < int (length sc)"
    using map_of_dict_puts_dom [of ps1 "[]"] d by (fastforce simp: dom_map_of_conv_image_fst lanes_def)
  from commit_in_range [OF this distinct_dict_puts]
  obtain sc' where sc': "commit (dict_puts ps1 []) sc = Inr sc'" by auto
  have "alu_put sc' ''+'' (d + i) (d + i) (c + i) = mul_add_put sc (d + i) (a + i) (b + i) (c + i)"
    if i: "i \<in> set lanes" for i
  proof -
    have "0 \<le> c + i" "c + i < int (length sc)" "c + i < d \<or> d + int VLEN \<le> c + i"
      using c apart i by (auto simp: lanes_def)
    from commit_product(2) [OF ps1 sc' d i this] commit_product(1) [OF ps1 sc' d i]
    show ?thesis by (auto intro: alu_put_mul_add)
  qed
  then have "mapM (\<lambda>i. alu_put sc' ''+'' (d + i) (d + i) (c + i)) lanes = Inr ps"
    unfolding m [symmetric] by (rule mapM_cong)
  with ps1 sc' show ?thesis by blast
qed

context packing
begin

lemma multiply_add_parts:
  assumes "packer_ok p" and sp: "split_one_free_multiply_add ss_of hp x p = Inr (True, p')"
    and ser: "serialize p x = Inr (VALU, (''multiply_add'', [da, aa, ba, ca]))"
    and ps: "lin_params (lin x) = [Op d, Op a, Op b, Op c]" and vec: "op_is_vector d" "op_is_vector c"
  shows "\<exists>first second es1 es2. set (free p') = set (free p) - {x} \<union> set first \<and>
    pk_imetas p' = pk_imetas p @ second \<and>
    (\<forall>k < VLEN. set (after (first ! k)) = {length (pk_imetas p) + k}) \<and>
    mapM (serialize p') first = Inr es1 \<and> mapM (serialize p') second = Inr es2 \<and>
    (\<forall>sc mm ps. {da, ca} \<subseteq> {0..int (length sc) - int VLEN} \<longrightarrow>
      slot_puts sc mm VALU (''multiply_add'', [da, aa, ba, ca]) = Inr ps \<longrightarrow>
      (\<exists>ps1 sc'. slots_put sc mm es1 = Inr ps1 \<and> commit (dict_puts ps1 []) sc = Inr sc' \<and>
        slots_put sc' mm es2 = Inr ps))"
proof -
  let ?n = "length (pk_imetas p)"
  from ser obtain sl where sl: "work_slot_of (tid x) (pk_conc_threads p) = Inr sl"
    and ad: "op_addr (pk_ss p) sl d = Inr da" "op_addr (pk_ss p) sl a = Inr aa" "op_addr (pk_ss p) sl b = Inr ba"
      "op_addr (pk_ss p) sl c = Inr ca" and op: "opcode x = ''multiply_add''"
    by (elim serializeE) (auto simp: ps serialize_param_def opcode_def res_elims)
  have regs: "registers x = [d, a, b, c]"
    using op ps by (auto simp: registers_def lin_registers_def param_ops_def touches_memory_def opcode_def)
  from sp sl obtain first second q where st: "at_start d" "at_start a" "at_start b" "at_start c"
    and ov: "overlaps (pk_ss p) sl d c = Inr False"
    and ms1: "mapM (\<lambda>i. rbind (lane3 ALU ''*'' d a b i) (\<lambda>l. part x l (heap_initial hp [?n + nat i]))) lanes = Inr first"
    and ms2: "mapM (\<lambda>i. rbind (lane3 ALU ''+'' d d c i) (\<lambda>l. part (x\<lparr>instid := int ?n + i\<rparr>) l (after x))) lanes = Inr second"
    and q: "put_parts ss_of x first
      (p\<lparr>pk_imetas := pk_imetas p @ second, incount := incount p @ replicate VLEN 1\<rparr>) = Inr q"
    and p': "p' = count_split (opcode x) q"
    unfolding split_one_free_multiply_add_def Let_def regs at_start_def
    by (auto simp: res_elims split: if_splits)
  note fr = put_parts_frame [OF q, simplified, OF packer_invD(6) [OF assms(1)]]
  have same: "serialize p' = serialize p"
    by (rule serialize_cong) (use fr p' in \<open>simp_all add: count_split_def\<close>)
  have es1: "mapM (serialize p') first = Inr (map (\<lambda>i. (ALU, (''*'', [da + i, aa + i, ba + i]))) lanes)"
  proof (rule mapM_all_lanes [OF ms1])
    fix i y assume i: "i \<in> set lanes"
      and "rbind (lane3 ALU ''*'' d a b i) (\<lambda>l. part x l (heap_initial hp [?n + nat i])) = Inr y"
    then obtain l where l: "lane3 ALU ''*'' d a b i = Inr l" and y: "part x l (heap_initial hp [?n + nat i]) = Inr y"
      by (auto simp: res_elims)
    show "serialize p' y = Inr (ALU, ''*'', [da + i, aa + i, ba + i])"
      unfolding same serialize_part [OF y sl] by (rule lane3_serialized [OF ad(1-3) st(1-3) l i])
  qed
  have es2: "mapM (serialize p') second = Inr (map (\<lambda>i. (ALU, (''+'', [da + i, da + i, ca + i]))) lanes)"
  proof (rule mapM_all_lanes [OF ms2])
    fix i y assume i: "i \<in> set lanes"
      and "rbind (lane3 ALU ''+'' d d c i) (\<lambda>l. part (x\<lparr>instid := int ?n + i\<rparr>) l (after x)) = Inr y"
    then obtain l where l: "lane3 ALU ''+'' d d c i = Inr l" and y: "part (x\<lparr>instid := int ?n + i\<rparr>) l (after x) = Inr y"
      by (auto simp: res_elims)
    have sl': "work_slot_of (tid (x\<lparr>instid := int ?n + i\<rparr>)) (pk_conc_threads p) = Inr sl" using sl by simp
    show "serialize p' y = Inr (ALU, ''+'', [da + i, da + i, ca + i])"
      unfolding same serialize_part [OF y sl']
      by (rule lane3_serialized [OF ad(1) ad(1) ad(4) st(1) st(1) st(4) l i])
  qed
  have puts1: "slots_put sc mm (map (\<lambda>i. (ALU, (''*'', [da + i, aa + i, ba + i]))) lanes) =
      mapM (\<lambda>i. alu_put sc ''*'' (da + i) (aa + i) (ba + i)) lanes"
    and puts2: "slots_put sc mm (map (\<lambda>i. (ALU, (''+'', [da + i, da + i, ca + i]))) lanes) =
      mapM (\<lambda>i. alu_put sc ''+'' (da + i) (da + i) (ca + i)) lanes" for sc mm
    by (rule slots_put_lanes, simp add: slot_puts_simps)+
  have nxt: "set (after (first ! k)) = {?n + k}" if "k < VLEN" for k
  proof -
    have l: "lanes ! k = int k" "k < length lanes" using that by (simp_all add: lanes_def)
    from ms1 l(2) have "rbind (lane3 ALU ''*'' d a b (lanes ! k))
        (\<lambda>l. part x l (heap_initial hp [?n + nat (lanes ! k)])) = Inr (first ! k)"
      unfolding mapM_Inr_iff by blast
    then obtain l where "part x l (heap_initial hp [?n + k]) = Inr (first ! k)"
      unfolding l(1) nat_int by (elim rbind_InrE)
    then show ?thesis using initial_ok(1) [of "[?n + k]"] by (simp add: part_iff)
  qed
  have two: "\<exists>ps1 sc'. slots_put sc mm (map (\<lambda>i. (ALU, (''*'', [da + i, aa + i, ba + i]))) lanes) = Inr ps1 \<and>
      commit (dict_puts ps1 []) sc = Inr sc' \<and>
      slots_put sc' mm (map (\<lambda>i. (ALU, (''+'', [da + i, da + i, ca + i]))) lanes) = Inr ps"
    if "{da, ca} \<subseteq> {0..int (length sc) - int VLEN}"
      "slot_puts sc mm VALU (''multiply_add'', [da, aa, ba, ca]) = Inr ps" for sc mm ps
    unfolding puts1 puts2
    by (rule mul_add_two_bundles [OF that(2) [unfolded slot_puts_simps(4)]])
      (use that(1) vectors_apart [OF ov ad(1,4) vec(1) st(1) vec(2) st(4)] in auto)
  have fs: "set (free p') = set (free p) - {x} \<union> set first" "pk_imetas p' = pk_imetas p @ second"
    using fr(1,2) p' by simp_all
  show ?thesis
    by (rule exI, rule exI, rule exI, rule exI, intro conjI allI impI)
      (rule fs nxt es1 es2 two; assumption)+
qed

end

end
