(* ===== verification/Opcode_Sorts.thy ===== *)
theory Opcode_Sorts
  imports Data_Model
begin

text \<open>
  What the opcodes of the simulator ask of the operands of an instruction: their number, which are
  registers, which of those are vectors, and that the first one is written and the others are read.
\<close>

text \<open>
  The operands of every data slot the simulator runs: \<open>Some True\<close> a vector register, \<open>Some False\<close> a
  scalar one, \<open>None\<close> an immediate.
\<close>

definition sorts :: "engine \<Rightarrow> string \<Rightarrow> bool option list option" where
  "sorts e op =
     (case e of
        ALU \<Rightarrow> Some (replicate 3 (Some False))
      | VALU \<Rightarrow> if op = ''vbroadcast'' then Some [Some True, Some False]
               else Some (replicate (if op = ''multiply_add'' then 4 else 3) (Some True))
      | LOAD \<Rightarrow> if op = ''const'' then Some [Some False, None]
               else if op = ''load'' then Some [Some False, Some False]
               else if op = ''vload'' then Some [Some True, Some False] else None
      | STORE \<Rightarrow> if op = ''store'' then Some [Some False, Some False]
                else if op = ''vstore'' then Some [Some False, Some True] else None
      | FLOW \<Rightarrow> if op = ''add_imm'' then Some [Some False, Some False, None]
               else if op = ''select'' then Some (replicate 4 (Some False))
               else if op = ''vselect'' then Some (replicate 4 (Some True)) else None)"

text \<open>An instruction whose operands have the kinds its opcode asks for, wherever its registers are; all but
  the first are read, unless it is a store.\<close>

definition of_sort :: "param \<Rightarrow> bool option \<Rightarrow> bool" where
  "of_sort q so =
     (case q of Op r \<Rightarrow> so = Some (op_is_vector r) | Imm _ \<Rightarrow> so = None)"

definition shaped :: "logical_instr \<Rightarrow> bool" where
  "shaped l =
     (case sorts (lin_engine l) (lin_opcode l) of
        None \<Rightarrow> False
      | Some so \<Rightarrow> list_all2 of_sort (lin_params l) so \<and>
          (lin_engine l \<noteq> STORE \<longrightarrow>
             \<not> op_is_read (hd (param_ops (lin_params l))) \<and> list_all op_is_read (tl (param_ops (lin_params l)))))"

lemma of_sort_simps [simp]:
  "of_sort (Op r) so \<longleftrightarrow> so = Some (op_is_vector r)" "of_sort (Imm v) so \<longleftrightarrow> so = None"
  by (simp_all add: of_sort_def)

end
