(* ===== verification/Typed_Slots.thy ===== *)
theory Typed_Slots
  imports Linear_Code Slot_Footprint Split_Semantics Opcode_Sorts
begin

text \<open>
  Instructions whose operands have the width and direction their opcode asks for. Their slots read
  and write no other scratch words than the dependence graph knows of, and executing one is taking
  the effect of its slot.
\<close>

section \<open>Well-typed instructions\<close>

definition span :: "bool \<Rightarrow> int \<Rightarrow> int set" where
  "span v a = {a..<a + (if v then int VLEN else 1)}"

text \<open>A register of the width \<open>v\<close> at the address \<open>a\<close>.\<close>

definition names :: "scratch_space \<Rightarrow> int \<Rightarrow> logical_op \<Rightarrow> bool \<Rightarrow> int \<Rightarrow> bool" where
  "names ss sl r v a \<longleftrightarrow> \<not> is_mem r \<and> op_is_vector r = v \<and> op_addr ss sl r = Inr a \<and>
     op_range ss sl r = Inr \<lparr>lo = a, hi = a + (if v then int VLEN else 1) - 1\<rparr> \<and>
     0 \<le> a \<and> a + (if v then int VLEN else 1) \<le> int (ss_size ss)"

definition param_fits :: "scratch_space \<Rightarrow> int \<Rightarrow> param \<Rightarrow> bool option \<Rightarrow> bool" where
  "param_fits ss sl q so =
     (case (q, so) of
        (Op r, Some v) \<Rightarrow> (case op_addr ss sl r of Inl _ \<Rightarrow> False | Inr a \<Rightarrow> names ss sl r v a)
      | (Imm _, None) \<Rightarrow> True
      | _ \<Rightarrow> False)"

definition same_or_apart :: "scratch_space \<Rightarrow> int \<Rightarrow> logical_op \<Rightarrow> logical_op \<Rightarrow> bool" where
  "same_or_apart ss sl d r =
     (case (op_range ss sl d, op_range ss sl r) of
        (Inr a, Inr b) \<Rightarrow> a = b \<or> is_empty (intersect a b)
      | _ \<Rightarrow> False)"

definition lin_typed :: "scratch_space \<Rightarrow> int \<Rightarrow> logical_instr \<Rightarrow> bool" where
  "lin_typed ss sl l =
     (case sorts (lin_engine l) (lin_opcode l) of
        None \<Rightarrow> False
      | Some so \<Rightarrow> list_all2 (param_fits ss sl) (lin_params l) so \<and>
          (lin_engine l \<noteq> STORE \<longrightarrow> \<not> op_is_read (hd (param_ops (lin_params l)))) \<and>
          (lin_engine l = VALU \<longrightarrow> list_all (\<lambda>r. op_is_vector r \<longrightarrow> same_or_apart ss sl (hd (param_ops (lin_params l))) r)
             (tl (param_ops (lin_params l)))))"

definition inst_typed :: "scratch_space \<Rightarrow> int \<Rightarrow> imeta \<Rightarrow> bool" where
  "inst_typed ss c x = lin_typed ss (tid x mod c) (lin x)"

lemma param_fits_simps [simp]:
  "param_fits ss sl q (Some v) \<longleftrightarrow> (\<exists>r a. q = Op r \<and> names ss sl r v a)"
  "param_fits ss sl q None \<longleftrightarrow> (\<exists>i. q = Imm i)"
  by (auto simp: param_fits_def names_def split: param.splits sum.splits)

lemma names_locs: "names ss sl r v a \<Longrightarrow> op_locs ss sl r = span v a"
  by (auto simp: names_def op_locs_def span_def)

lemma names_serialized: "names ss sl r v a \<Longrightarrow> serialize_param ss sl (Op r) = Inr a"
  by (simp add: names_def serialize_param_def)

lemma serialize_imm [simp]: "serialize_param ss sl (Imm i) = Inr i"
  by (simp add: serialize_param_def)

lemma names_mem: "names ss sl r v a \<Longrightarrow> \<not> is_mem r"
  by (simp add: names_def)

lemma names_span: "names ss sl r v a \<Longrightarrow> span v a \<subseteq> {0..<int (ss_size ss)}"
  by (auto simp: names_def span_def)

lemma names_unique: "names ss sl r v a \<Longrightarrow> names ss sl r w b \<Longrightarrow> a = b \<and> v = w"
  by (auto simp: names_def)

lemma same_or_apart:
  assumes "same_or_apart ss sl d r" "names ss sl d v a" "names ss sl r v b"
  shows "a = b \<or> span v a \<inter> span v b = {}"
  using assms by (auto simp: same_or_apart_def names_def span_def is_empty_def intersect_def)

text \<open>The words an instruction accesses, by its operands.\<close>

lemma param_ops_parts [simp]: "param_ops [] = []" "param_ops (Op r # qs) = r # param_ops qs" "param_ops (Imm i # qs) = param_ops qs"
  by (simp_all add: param_ops_def)

lemma accesses_ops:
  "accesses ss c x = (\<Union>r \<in> {r \<in> set (param_ops (lin_params (lin x))). \<not> is_mem r}. op_locs ss (tid x mod c) r)"
proof -
  have "{r \<in> set (registers x). \<not> is_mem r} = {r \<in> set (param_ops (lin_params (lin x))). \<not> is_mem r}"
    by (auto simp: registers_def lin_registers_def is_mem_def split: if_splits)
  then show ?thesis unfolding accesses_def by simp
qed

lemma writes_to_hd:
  assumes "param_ops (lin_params (lin x)) = r # rs" "\<not> op_is_read r" "\<not> is_mem r"
  shows "op_locs ss (tid x mod c) r \<subseteq> writes_to ss c x"
proof -
  have "r \<in> {r \<in> set (registers x). \<not> is_mem r \<and> \<not> op_is_read r}"
    using assms by (simp add: registers_def lin_registers_def)
  then show ?thesis unfolding writes_to_def by blast
qed

section \<open>Footprints\<close>

text \<open>The slot of an instruction of the work list.\<close>

definition slot_word :: "packer \<Rightarrow> imeta \<Rightarrow> engine \<times> slot" where
  "slot_word p y = (case serialize p y of Inr s \<Rightarrow> s | Inl _ \<Rightarrow> (ALU, [], []))"

text \<open>The word a lane writes.\<close>

definition alu_val :: "int list \<Rightarrow> string \<Rightarrow> int \<Rightarrow> int \<Rightarrow> int res" where
  "alu_val sc op a b = rbind (py_get sc a) (\<lambda>x. rbind (py_get sc b) (\<lambda>y. rbind (alu_res op x y) (\<lambda>r. Inr (r32 r))))"

definition mul_add_val :: "int list \<Rightarrow> int \<Rightarrow> int \<Rightarrow> int \<Rightarrow> int res" where
  "mul_add_val sc a b c = rbind (py_get sc a) (\<lambda>x. rbind (py_get sc b) (\<lambda>y. rbind (py_get sc c) (\<lambda>z.
     Inr (r32 (r32 (x * y) + z)))))"

lemma put_vals:
  "alu_put sc op d a b = rbind (alu_val sc op a b) (\<lambda>v. Inr (d, v))"
  "mul_add_put sc d a b c = rbind (mul_add_val sc a b c) (\<lambda>v. Inr (d, v))"
  "copy_put sc d a = rbind (py_get sc a) (\<lambda>v. Inr (d, v))"
  by (simp_all add: puts_defs alu_val_def mul_add_val_def)

lemma lanes_span: "(+) a ` set lanes = span True a" "span False a = {a}"
  unfolding set_lanes by (auto simp: span_def)

lemma puts_keys:
  assumes "mapM (\<lambda>i. rbind (g i) (\<lambda>v. Inr (d + i, v))) is = Inr ps"
  shows "fst ` set ps = (+) d ` set is"
proof -
  have "map fst ps = map ((+) d) is"
    using assms by (induction "is" arbitrary: ps) (auto simp: res_elims)
  then show ?thesis by (metis list.set_map)
qed

lemma puts_keys_lanes: "mapM (\<lambda>i. rbind (g i) (\<lambda>v. Inr (d + i, v))) lanes = Inr ps \<Longrightarrow> fst ` set ps = span True d"
  by (simp add: puts_keys lanes_span)

lemma span_accessed:
  "Op r \<in> set (lin_params (lin x)) \<Longrightarrow> names ss (tid x mod c) r v a \<Longrightarrow> span v a \<subseteq> accesses ss c x"
proof -
  assume "Op r \<in> set (lin_params (lin x))" and r: "names ss (tid x mod c) r v a"
  then have "r \<in> {r \<in> set (param_ops (lin_params (lin x))). \<not> is_mem r}"
    by (force simp: param_ops_def names_mem)
  then show "span v a \<subseteq> accesses ss c x" unfolding accesses_ops names_locs [OF r, symmetric] by blast
qed

lemma span_written:
  "lin_params (lin x) = Op d # qs \<Longrightarrow> \<not> op_is_read d \<Longrightarrow> names ss (tid x mod c) d v a \<Longrightarrow> span v a \<subseteq> writes_to ss c x"
  using writes_to_hd [of x d "param_ops qs" ss c] by (simp add: names_locs names_mem)

lemma typed_slot:
  assumes "inst_typed ss c x"
  shows "\<exists>as. mapM (serialize_param ss (tid x mod c)) (lin_params (lin x)) = Inr as \<and>
    set (scratch_reads (lin_engine (lin x)) (opcode x, as)) \<subseteq> accesses ss c x \<and>
    (lin_engine (lin x) \<noteq> STORE \<longrightarrow> (\<forall>sc mm ps. slot_puts sc mm (lin_engine (lin x)) (opcode x, as) = Inr ps \<longrightarrow>
      fst ` set ps \<subseteq> writes_to ss c x))"
proof -
  let ?sl = "tid x mod c"
  obtain so where so: "sorts (lin_engine (lin x)) (lin_opcode (lin x)) = Some so"
    and fits: "list_all2 (param_fits ss ?sl) (lin_params (lin x)) so"
    and wr: "lin_engine (lin x) \<noteq> STORE \<Longrightarrow> \<not> op_is_read (hd (param_ops (lin_params (lin x))))"
    using assms by (auto simp: inst_typed_def lin_typed_def split: option.splits)
  note acc = span_accessed [of _ x ss c]
  show ?thesis
  proof (cases "lin_engine (lin x)")
    case ALU
    with so fits wr obtain d a b da aa ba where q: "lin_params (lin x) = [Op d, Op a, Op b]" "\<not> op_is_read d"
      "names ss ?sl d False da" "names ss ?sl a False aa" "names ss ?sl b False ba"
      by (auto simp: sorts_def numeral_3_eq_3 list_all2_Cons2)
    show ?thesis
      using ALU q acc [OF _ q(4)] acc [OF _ q(5)] span_written [OF q(1-3)]
      by (auto simp: names_serialized scratch_reads_def lanes_span slot_puts_simps put_vals res_elims)
  next
    case VALU
    consider "opcode x = ''vbroadcast''" | "opcode x = ''multiply_add''" | "opcode x \<noteq> ''vbroadcast''" "opcode x \<noteq> ''multiply_add''"
      by blast
    then show ?thesis
    proof cases
      case 1
      with VALU so fits wr obtain d a da aa where q: "lin_params (lin x) = [Op d, Op a]" "\<not> op_is_read d"
        "names ss ?sl d True da" "names ss ?sl a False aa"
        by (auto simp: sorts_def opcode_def list_all2_Cons2)
      show ?thesis
        using VALU 1 q acc [OF _ q(4)] span_written [OF q(1-3)]
        by (auto simp: names_serialized scratch_reads_def lanes_span slot_puts_simps put_vals dest!: puts_keys_lanes)
    next
      case 2
      with VALU so fits wr obtain d a b w da aa ba wa where q: "lin_params (lin x) = [Op d, Op a, Op b, Op w]" "\<not> op_is_read d"
        "names ss ?sl d True da" "names ss ?sl a True aa" "names ss ?sl b True ba" "names ss ?sl w True wa"
        by (auto simp: sorts_def opcode_def eval_nat_numeral list_all2_Cons2)
      show ?thesis
        using VALU 2 q acc [OF _ q(4)] acc [OF _ q(5)] acc [OF _ q(6)] span_written [OF q(1-3)]
        by (auto simp: names_serialized scratch_reads_def lanes_span slot_puts_simps put_vals dest!: puts_keys_lanes)
    next
      case 3
      with VALU so fits wr obtain d a b da aa ba where q: "lin_params (lin x) = [Op d, Op a, Op b]" "\<not> op_is_read d"
        "names ss ?sl d True da" "names ss ?sl a True aa" "names ss ?sl b True ba"
        by (auto simp: sorts_def opcode_def numeral_3_eq_3 list_all2_Cons2)
      show ?thesis
        using VALU q acc [OF _ q(4)] acc [OF _ q(5)] span_written [OF q(1-3)]
        by (auto simp: names_serialized scratch_reads_def lanes_span slot_puts_simps put_vals dest!: puts_keys_lanes)
    qed
  next
    case LOAD
    with so have "opcode x \<in> {''const'', ''vload'', ''load''}" by (auto simp: sorts_def opcode_def split: if_splits)
    then consider "opcode x = ''const''" | v where "opcode x = (if v then ''vload'' else ''load'')" by (metis (full_types) insertE singletonD)
    then show ?thesis
    proof cases
      case 1
      with LOAD so fits wr obtain d da i where q: "lin_params (lin x) = [Op d, Imm i]" "\<not> op_is_read d" "names ss ?sl d False da"
        by (auto simp: sorts_def opcode_def list_all2_Cons2)
      show ?thesis
        using LOAD 1 q span_written [OF q(1-3)]
        by (auto simp: names_serialized scratch_reads_def lanes_span slot_puts_def)
    next
      case (2 v)
      with LOAD so fits wr obtain d a da aa where q: "lin_params (lin x) = [Op d, Op a]" "\<not> op_is_read d"
        "names ss ?sl d v da" "names ss ?sl a False aa"
        by (cases v) (auto simp: sorts_def opcode_def list_all2_Cons2)
      show ?thesis
        using LOAD 2 q acc [OF _ q(4)] span_written [OF q(1-3)]
        by (cases v) (auto simp: names_serialized scratch_reads_def lanes_span slot_puts_def put_vals res_elims dest!: puts_keys_lanes)
    qed
  next
    case STORE
    with so have "opcode x \<in> {''vstore'', ''store''}" by (auto simp: sorts_def opcode_def split: if_splits)
    then obtain v where v: "opcode x = (if v then ''vstore'' else ''store'')" by (metis (full_types) insertE singletonD)
    with STORE so fits wr obtain d a da aa where q: "lin_params (lin x) = [Op d, Op a]"
        "names ss ?sl d False da" "names ss ?sl a v aa"
      by (cases v) (auto simp: sorts_def opcode_def list_all2_Cons2)
    show ?thesis
      using STORE v q acc [OF _ q(2)] acc [OF _ q(3)]
      by (cases v) (auto simp: names_serialized scratch_reads_def lanes_span)
  next
    case FLOW
    with so have "opcode x \<in> {''add_imm'', ''vselect'', ''select''}" by (auto simp: sorts_def opcode_def split: if_splits)
    then consider "opcode x = ''add_imm''" | v where "opcode x = (if v then ''vselect'' else ''select'')" by (metis (full_types) insertE singletonD)
    then show ?thesis
    proof cases
      case 1
      with FLOW so fits wr obtain d a da aa i where q: "lin_params (lin x) = [Op d, Op a, Imm i]" "\<not> op_is_read d"
        "names ss ?sl d False da" "names ss ?sl a False aa"
        by (auto simp: sorts_def opcode_def list_all2_Cons2)
      show ?thesis
        using FLOW 1 q acc [OF _ q(4)] span_written [OF q(1-3)]
        by (auto simp: names_serialized scratch_reads_def lanes_span slot_puts_def res_elims)
    next
      case (2 v)
      with FLOW so fits wr obtain d a b w da aa ba wa where q: "lin_params (lin x) = [Op d, Op a, Op b, Op w]" "\<not> op_is_read d"
        "names ss ?sl d v da" "names ss ?sl a v aa" "names ss ?sl b v ba" "names ss ?sl w v wa"
        by (cases v) (auto simp: sorts_def opcode_def eval_nat_numeral list_all2_Cons2)
      show ?thesis
        using FLOW 2 q acc [OF _ q(4)] acc [OF _ q(5)] acc [OF _ q(6)] span_written [OF q(1-3)]
        by (cases v) (auto simp: names_serialized scratch_reads_def lanes_span slot_puts_def sel_put_def res_elims dest!: puts_keys_lanes)
    qed
  qed
qed

lemma typed_slotE:
  assumes "inst_typed ss c x"
  obtains as where "mapM (serialize_param ss (tid x mod c)) (lin_params (lin x)) = Inr as"
    "set (scratch_reads (lin_engine (lin x)) (opcode x, as)) \<subseteq> accesses ss c x"
    "\<And>sc mm ps. lin_engine (lin x) \<noteq> STORE \<Longrightarrow> slot_puts sc mm (lin_engine (lin x)) (opcode x, as) = Inr ps \<Longrightarrow>
       fst ` set ps \<subseteq> writes_to ss c x"
  using typed_slot [OF assms] by (elim exE conjE) (rule that, assumption+, blast)

lemma typed_spans:
  assumes "inst_typed ss c x"
  shows "\<forall>r \<in> set (param_ops (lin_params (lin x))). \<exists>v a. names ss (tid x mod c) r v a"
proof -
  obtain so where "list_all2 (param_fits ss (tid x mod c)) (lin_params (lin x)) so"
    using assms by (auto simp: inst_typed_def lin_typed_def split: option.splits)
  then show ?thesis
  proof (induction rule: list_all2_induct)
    case (Cons q qs so' sos)
    then show ?case by (cases so') (auto, blast)
  qed simp
qed

lemma accesses_in_space:
  assumes "inst_typed ss c x"
  shows "accesses ss c x \<subseteq> {0..<int (ss_size ss)}"
  unfolding accesses_ops using typed_spans [OF assms] names_locs names_span by fast

lemma writes_in_space:
  assumes "inst_typed ss c x"
  shows "writes_to ss c x \<subseteq> {0..<int (ss_size ss)}"
  using accesses_in_space [OF assms] by (auto simp: writes_to_def accesses_def)

section \<open>Executing a well-typed instruction\<close>

lemma commit_defined:
  assumes "commit ws xs = Inr ys" "a \<in> fst ` set ws" "0 \<le> a"
  shows "a < int (length xs)"
  using assms
proof (induction ws arbitrary: xs)
  case (Cons w ws)
  obtain b v where w: "w = (b, v)" by (cases w)
  with Cons.prems(1) obtain zs where zs: "py_set xs b v = Inr zs" "commit ws zs = Inr ys"
    by (auto simp: commit_def res_elims)
  then obtain k where k: "py_index (length xs) b = Some k" "length zs = length xs"
    by (auto simp: py_set_def split: option.splits)
  show ?case
  proof (cases "a = b")
    case True
    with k(1) Cons.prems(3) show ?thesis by (auto simp: py_index_def Let_def split: if_splits)
  next
    case False
    then show ?thesis using Cons.IH [OF zs(2)] Cons.prems w k(2) by simp
  qed
qed simp

lemma store_keys:
  assumes "slot_puts sc mm STORE (op, as) = Inr ps" "all_words sc"
  shows "\<forall>p \<in> set ps. 0 \<le> fst p"
proof -
  from assms(1) obtain a b where ab: "as = [a, b]"
    by (auto simp: slot_puts_def split: list.splits)
  with assms(1) obtain ad "is" where ad: "py_get sc a = Inr ad" and "is": "\<forall>i \<in> set is. 0 \<le> i"
    and ps: "mapM (\<lambda>i. copy_put sc (ad + i) (b + i)) is = Inr ps"
    by (auto simp: slot_puts_def res_elims set_lanes simp del: mapM.simps split: if_splits)
      (metis atLeastLessThan_iff empty_iff empty_set order_refl set_ConsD set_lanes)+
  have "fst ` set ps = (+) ad ` set is" by (rule puts_keys [OF ps [unfolded put_vals]])
  moreover have "0 \<le> ad" using all_words_get [OF assms(2) ad] by (simp add: is_word_def)
  ultimately have "\<forall>a \<in> fst ` set ps. 0 \<le> a" using "is" by auto
  then show ?thesis by blast
qed

text \<open>Executing is taking the effect of the slot.\<close>

lemma exec_effect:
  assumes typed: "inst_typed (pk_ss p) (pk_conc_threads p) x" and c: "pk_conc_threads p \<noteq> 0"
    and run: "exec_lin (pk_ss p) (tid x mod pk_conc_threads p) (scratch_of n s, mem_of k s) (lin x) = Inr (sc, mm)"
    and size: "ss_size (pk_ss p) \<le> n" and words: "all_words (scratch_of n s)"
  shows "\<exists>w. (\<forall>t. slot_ef n k (t, slot_word p x) s = Some w) \<and> sc = scratch_of n (upd s w) \<and> mm = mem_of k (upd s w)"
proof -
  let ?ss = "pk_ss p" and ?c = "pk_conc_threads p" and ?e = "lin_engine (lin x)"
  obtain as where as: "mapM (serialize_param ?ss (tid x mod ?c)) (lin_params (lin x)) = Inr as"
    and keys: "\<And>sc mm ps. ?e \<noteq> STORE \<Longrightarrow> slot_puts sc mm ?e (opcode x, as) = Inr ps \<Longrightarrow> fst ` set ps \<subseteq> writes_to ?ss ?c x"
    by (rule typed_slotE [OF typed]) (rule that)
  have sw: "slot_word p x = (?e, opcode x, as)"
    using as c by (simp add: slot_word_def serialize_def to_serialized_def work_slot_of_def opcode_def check_def)
  from run as obtain ps where ps: "slot_puts (scratch_of n s) (mem_of k s) ?e (opcode x, as) = Inr ps"
    and put: "if ?e = STORE then sc = scratch_of n s \<and> commit (dict_puts ps []) (mem_of k s) = Inr mm
      else mm = mem_of k s \<and> commit (dict_puts ps []) (scratch_of n s) = Inr sc"
    by (auto simp: exec_lin_def opcode_def res_elims split: if_splits)
  define w where "w = map_of (rev (map (put_loc ?e) ps))"
  have bd: "list_all (in_bounds n k ?e) ps"
  proof (cases "?e = STORE")
    case True
    from True ps have pos: "\<forall>p \<in> set ps. 0 \<le> fst p" using store_keys [OF _ words] by simp
    show ?thesis
      unfolding list_all_iff
    proof
      fix q assume q: "q \<in> set ps"
      then have "fst q \<in> fst ` set (dict_puts ps [])"
        using map_of_dict_puts_dom [of ps "[]"] by (simp add: dom_map_of_conv_image_fst)
      with put True have "fst q < int k" using commit_defined [of "dict_puts ps []" "mem_of k s" mm "fst q"] pos q by simp
      with True pos q show "in_bounds n k ?e q" by (simp add: in_bounds_def)
    qed
  next
    case False
    have "fst ` set ps \<subseteq> {0..<int (ss_size ?ss)}" by (rule order_trans [OF keys [OF False ps] writes_in_space [OF typed]])
    then have "0 \<le> fst q \<and> fst q < int n" if "q \<in> set ps" for q using that size by fastforce
    with False show ?thesis by (simp add: in_bounds_def list_all_iff)
  qed
  have ef: "slot_ef n k (t, slot_word p x) s = Some w" for t
    unfolding sw slot_ef_eq w_def using ps bd by simp
  have look: "w (SLoc j) = (if ?e = STORE then None else map_of (rev ps) (int j))"
    "w (MLoc j) = (if ?e = STORE then map_of (rev ps) (int j) else None)" for j
    using lookup_put_loc [of n k ?e "rev ps" j] bd by (simp_all add: w_def rev_map list_all_iff)
  have rng: "\<forall>q \<in> set ps. 0 \<le> fst q \<and> fst q < int (if ?e = STORE then k else n)"
    using bd by (simp add: list_all_iff in_bounds_def)
  have "sc = scratch_of n (upd s w) \<and> mm = mem_of k (upd s w)"
  proof (cases "?e = STORE")
    case True
    with put commit_puts [of ps "mem_of k s"] rng show ?thesis
      by (auto simp: upd_def look scratch_of_def mem_of_def cong: option.case_cong)
  next
    case False
    with put commit_puts [of ps "scratch_of n s"] rng show ?thesis
      by (auto simp: upd_def look scratch_of_def mem_of_def cong: option.case_cong)
  qed
  with ef show ?thesis by blast
qed

section \<open>The footprint of a well-typed instruction\<close>

lemma positions_in: "set as \<subseteq> {0..<int n} \<Longrightarrow> positions n as = nat ` set as"
  by (force simp: positions_def py_index_nonneg)

lemma typed_word:
  assumes "inst_typed (pk_ss p) (pk_conc_threads p) x" "pk_conc_threads p \<noteq> 0"
    and "mapM (serialize_param (pk_ss p) (tid x mod pk_conc_threads p)) (lin_params (lin x)) = Inr as"
  shows "slot_word p x = (lin_engine (lin x), opcode x, as)"
  using assms by (simp add: slot_word_def serialize_def to_serialized_def work_slot_of_def opcode_def check_def)

lemma typed_foot:
  assumes typed: "inst_typed (pk_ss p) (pk_conc_threads p) x" and c: "pk_conc_threads p \<noteq> 0" and size: "ss_size (pk_ss p) \<le> n"
  shows "slot_rd n k (t, slot_word p x) s \<subseteq> SLoc ` nat ` accesses (pk_ss p) (pk_conc_threads p) x \<union> range MLoc"
    and "slot_ef n k (t, slot_word p x) s = Some w \<Longrightarrow>
      dom w \<subseteq> SLoc ` nat ` writes_to (pk_ss p) (pk_conc_threads p) x \<union> range MLoc"
proof -
  let ?ss = "pk_ss p" and ?c = "pk_conc_threads p" and ?e = "lin_engine (lin x)"
  obtain as where as: "mapM (serialize_param ?ss (tid x mod ?c)) (lin_params (lin x)) = Inr as"
    and rd: "set (scratch_reads ?e (opcode x, as)) \<subseteq> accesses ?ss ?c x"
    and keys: "\<And>sc mm ps. ?e \<noteq> STORE \<Longrightarrow> slot_puts sc mm ?e (opcode x, as) = Inr ps \<Longrightarrow> fst ` set ps \<subseteq> writes_to ?ss ?c x"
    by (rule typed_slotE [OF typed]) (rule that)
  note sw = typed_word [OF typed c as]
  have "set (scratch_reads ?e (opcode x, as)) \<subseteq> {0..<int n}"
    using order_trans [OF rd accesses_in_space [OF typed]] size by auto
  from positions_in [OF this] rd show "slot_rd n k (t, slot_word p x) s \<subseteq> SLoc ` nat ` accesses ?ss ?c x \<union> range MLoc"
    unfolding sw slot_rd_def by auto
  assume "slot_ef n k (t, slot_word p x) s = Some w"
  then obtain ps where ps: "slot_puts (scratch_of n s) (mem_of k s) ?e (opcode x, as) = Inr ps"
    and w: "w = map_of (rev (map (put_loc ?e) ps))"
    unfolding sw slot_ef_eq by (auto split: sum.splits if_splits)
  have "dom w = (fst \<circ> put_loc ?e) ` set ps" unfolding w by (auto simp: dom_map_of_conv_image_fst image_comp)
  then show "dom w \<subseteq> SLoc ` nat ` writes_to ?ss ?c x \<union> range MLoc"
    using keys [OF _ ps] by (cases "?e = STORE") (auto simp: put_loc_def)
qed

section \<open>Shapes\<close>

lemma lin_registers_params:
  "param_ops (lin_params (lin x)) = rs \<Longrightarrow> length rs = length ds \<Longrightarrow> registers x = ds \<Longrightarrow> rs = ds"
  by (auto simp: registers_def lin_registers_def split: if_splits)

lemma typed_alu3:
  assumes "inst_typed ss c x" "lin_engine (lin x) = ALU" "registers x = [d, a, b]"
  obtains da aa ba where "lin_params (lin x) = [Op d, Op a, Op b]" "\<not> op_is_read d" "names ss (tid x mod c) d False da"
    "names ss (tid x mod c) a False aa" "names ss (tid x mod c) b False ba"
proof -
  from assms(1,2) obtain d' a' b' da aa ba where q: "lin_params (lin x) = [Op d', Op a', Op b']" "\<not> op_is_read d'"
    "names ss (tid x mod c) d' False da" "names ss (tid x mod c) a' False aa" "names ss (tid x mod c) b' False ba"
    by (auto simp: inst_typed_def lin_typed_def sorts_def numeral_3_eq_3 list_all2_Cons2)
  have "[d', a', b'] = [d, a, b]" by (rule lin_registers_params [OF _ _ assms(3)]) (simp_all add: q)
  with q that show thesis by simp
qed

lemma typed_valu3:
  assumes "inst_typed ss c x" "lin_engine (lin x) = VALU" "registers x = [d, a, b]"
  obtains da aa ba where "lin_params (lin x) = [Op d, Op a, Op b]" "\<not> op_is_read d" "names ss (tid x mod c) d True da"
    "names ss (tid x mod c) a True aa" "names ss (tid x mod c) b True ba"
    "da = aa \<or> span True da \<inter> span True aa = {}" "da = ba \<or> span True da \<inter> span True ba = {}"
    "opcode x \<noteq> ''multiply_add''"
proof -
  let ?sl = "tid x mod c"
  have "length (param_ops (lin_params (lin x))) \<le> 3" using arg_cong [OF assms(3), of length] by (simp add: registers_def lin_registers_def)
  with assms obtain d' a' b' da aa ba where q: "lin_params (lin x) = [Op d', Op a', Op b']" "\<not> op_is_read d'"
    "names ss ?sl d' True da" "names ss ?sl a' True aa" "names ss ?sl b' True ba"
    "same_or_apart ss ?sl d' a'" "same_or_apart ss ?sl d' b'" "opcode x \<noteq> ''multiply_add''"
    by (auto simp: inst_typed_def lin_typed_def sorts_def opcode_def registers_def lin_registers_def touches_memory_def eval_nat_numeral
        list_all2_Cons2 names_def split: if_splits)
  have "[d', a', b'] = [d, a, b]" by (rule lin_registers_params [OF _ _ assms(3)]) (simp_all add: q)
  with q same_or_apart [OF q(6,3,4)] same_or_apart [OF q(7,3,5)] that show thesis by simp
qed

lemma typed_valu4:
  assumes "inst_typed ss c x" "lin_engine (lin x) = VALU" "registers x = [d, a, b, w]" "opcode x = ''multiply_add''"
  obtains da aa ba wa where "lin_params (lin x) = [Op d, Op a, Op b, Op w]" "\<not> op_is_read d" "names ss (tid x mod c) d True da"
    "names ss (tid x mod c) a True aa" "names ss (tid x mod c) b True ba" "names ss (tid x mod c) w True wa"
    "da = aa \<or> span True da \<inter> span True aa = {}" "da = ba \<or> span True da \<inter> span True ba = {}"
proof -
  let ?sl = "tid x mod c"
  from assms obtain d' a' b' w' da aa ba wa where q: "lin_params (lin x) = [Op d', Op a', Op b', Op w']" "\<not> op_is_read d'"
    "names ss ?sl d' True da" "names ss ?sl a' True aa" "names ss ?sl b' True ba" "names ss ?sl w' True wa"
    "same_or_apart ss ?sl d' a'" "same_or_apart ss ?sl d' b'"
    by (auto simp: inst_typed_def lin_typed_def sorts_def opcode_def eval_nat_numeral list_all2_Cons2 names_def)
  have "[d', a', b', w'] = [d, a, b, w]" by (rule lin_registers_params [OF _ _ assms(3)]) (simp_all add: q)
  with q same_or_apart [OF q(7,3,4)] same_or_apart [OF q(8,3,5)] that show thesis by simp
qed

lemma typed_broadcast:
  assumes "inst_typed ss c x" "lin_engine (lin x) = VALU" "registers x = [d, a]" "opcode x = ''vbroadcast''"
  obtains da aa where "lin_params (lin x) = [Op d, Op a]" "\<not> op_is_read d" "names ss (tid x mod c) d True da"
    "names ss (tid x mod c) a False aa"
proof -
  let ?sl = "tid x mod c"
  from assms obtain d' a' da aa where q: "lin_params (lin x) = [Op d', Op a']" "\<not> op_is_read d'"
    "names ss ?sl d' True da" "names ss ?sl a' False aa"
    by (auto simp: inst_typed_def lin_typed_def sorts_def opcode_def list_all2_Cons2)
  have "[d', a'] = [d, a]" by (rule lin_registers_params [OF _ _ assms(3)]) (simp_all add: q)
  with q that show thesis by simp
qed

end
