(* ===== verification/Family_Semantics.thy ===== *)
theory Family_Semantics
  imports Families Typed_Slots
begin

text \<open>
  The slots of a family, run one after the other, do what the slot of the instruction does, and touch
  no other words. The parts of a block write the lanes of the destination; a part that has been
  converted to an immediate addition writes the same word where the constant's words hold its value.
\<close>

section \<open>Blocks of lanes\<close>

text \<open>A store in which \<open>m\<close> words from \<open>d\<close> on are replaced.\<close>

definition wr :: "int \<Rightarrow> (nat \<Rightarrow> int) \<Rightarrow> nat \<Rightarrow> (loc, int) store \<Rightarrow> (loc, int) store" where
  "wr d v m s l = (case l of
     SLoc j \<Rightarrow> if d \<le> int j \<and> int j < d + int m then v (nat (int j - d)) else s l
   | MLoc _ \<Rightarrow> s l)"

lemma wr_0 [simp]: "wr d v 0 s = s"
  by (auto simp: wr_def fun_eq_iff split: loc.splits)

lemma wr_Suc: "0 \<le> d \<Longrightarrow> upd (wr d v m s) [SLoc (nat (d + int m)) \<mapsto> v m] = wr d v (Suc m) s"
  by (auto simp: wr_def upd_def fun_eq_iff nat_eq_iff split: loc.splits option.splits)

lemma wr_wr: "wr d u m (wr d v m s) = wr d u m s"
  by (auto simp: wr_def fun_eq_iff split: loc.splits)

lemma wr_scratch:
  "0 \<le> a \<Longrightarrow> a < int n \<Longrightarrow> \<not> (d \<le> a \<and> a < d + int m) \<Longrightarrow>
     py_get (scratch_of n (wr d v m s)) a = py_get (scratch_of n s) a"
  by (auto simp: py_get_nonneg wr_def)

lemma wr_scratch_in:
  "0 \<le> d \<Longrightarrow> d + int m \<le> int n \<Longrightarrow> i < m \<Longrightarrow> py_get (scratch_of n (wr d v m s)) (d + int i) = Inr (v i)"
  by (simp add: py_get_nonneg wr_def)

lemma wr_mem [simp]: "mem_of k (wr d v m s) = mem_of k s"
  by (simp add: mem_of_def wr_def)

lemma run_block:
  assumes "0 \<le> d" and "\<And>i. i < length ts \<Longrightarrow> slot_ef n k (ts ! i) (wr d v i s) = Some [SLoc (nat (d + int i)) \<mapsto> v i]"
  shows "run_seq (slot_ef n k) ts s = Some (wr d v (length ts) s) \<and>
    length (feet (slot_rd n k) (slot_ef n k) ts s) = length ts \<and>
    (\<forall>i < length ts. feet (slot_rd n k) (slot_ef n k) ts s ! i =
       (slot_rd n k (ts ! i) (wr d v i s), {SLoc (nat (d + int i))}))"
  using assms(2)
proof (induction ts rule: rev_induct)
  case (snoc t ts)
  let ?ef = "slot_ef n k" and ?rd = "slot_rd n k"
  have at: "?ef ((ts @ [t]) ! i) (wr d v i s) = Some [SLoc (nat (d + int i)) \<mapsto> v i]" if "i \<le> length ts" for i
    by (rule snoc.prems) (use that in simp)
  have "?ef (ts ! i) (wr d v i s) = Some [SLoc (nat (d + int i)) \<mapsto> v i]" if "i < length ts" for i
    using at [OF less_imp_le, OF that] unfolding nth_append if_P [OF that] .
  from snoc.IH [OF this] have IH: "run_seq ?ef ts s = Some (wr d v (length ts) s)"
    "length (feet ?rd ?ef ts s) = length ts"
    "\<And>i. i < length ts \<Longrightarrow> feet ?rd ?ef ts s ! i = (?rd (ts ! i) (wr d v i s), {SLoc (nat (d + int i))})" by simp_all
  have t: "?ef t (wr d v (length ts) s) = Some [SLoc (nat (d + int (length ts))) \<mapsto> v (length ts)]"
    using at [OF le_refl] unfolding nth_append_length .
  have f: "feet ?rd ?ef (ts @ [t]) s = feet ?rd ?ef ts s @ [(?rd t (wr d v (length ts) s), {SLoc (nat (d + int (length ts)))})]"
    using feet_append [OF IH(1), of ?rd "[t]"] t by (simp add: foot_def)
  show ?case
  proof (intro conjI allI impI)
    show "run_seq ?ef (ts @ [t]) s = Some (wr d v (length (ts @ [t])) s)"
      using IH(1) t wr_Suc [OF assms(1)] by (simp add: run_seq_append)
    show "length (feet ?rd ?ef (ts @ [t]) s) = length (ts @ [t])" using IH(2) f by simp
    fix i assume "i < length (ts @ [t])"
    then show "feet ?rd ?ef (ts @ [t]) s ! i = (?rd ((ts @ [t]) ! i) (wr d v i s), {SLoc (nat (d + int i))})"
      unfolding f using IH(2,3) by (auto simp: nth_append not_less less_Suc_eq)
  qed
qed simp

section \<open>Slots that write one word\<close>

lemma ef_single:
  "slot_puts (scratch_of n s) (mem_of k s) e sl = Inr [(a, v)] \<Longrightarrow> 0 \<le> a \<Longrightarrow> a < int n \<Longrightarrow> e \<noteq> STORE \<Longrightarrow>
     slot_ef n k (t, e, sl) s = Some [SLoc (nat a) \<mapsto> v]"
  by (simp add: slot_ef_eq in_bounds_def put_loc_def)

text \<open>A slot whose writes are the lanes of a block.\<close>

lemma ef_lanes:
  assumes puts: "slot_puts (scratch_of n s) (mem_of k s) e sl = mapM (\<lambda>i. rbind (g i) (\<lambda>v. Inr (d + i, v))) lanes"
    and e: "e \<noteq> STORE" and ef: "slot_ef n k (t, e, sl) s = Some w"
  obtains v where "\<And>i. i < VLEN \<Longrightarrow> g (int i) = Inr (v i)" "upd s w = wr d v VLEN s" "0 \<le> d" "d + int VLEN \<le> int n"
    "dom w = SLoc ` nat ` {d..<d + int VLEN}"
proof -
  from ef obtain ps where ps: "mapM (\<lambda>i. rbind (g i) (\<lambda>v. Inr (d + i, v))) lanes = Inr ps"
    and bd: "list_all (in_bounds n k e) ps" and w: "w = map_of (rev (map (put_loc e) ps))"
    unfolding slot_ef_eq puts by (auto split: sum.splits if_splits)
  have len: "length ps = VLEN" using ps by (simp add: mapM_Inr_iff)
  have at: "\<exists>v. g (int i) = Inr v \<and> ps ! i = (d + int i, v)" if "i < VLEN" for i
  proof -
    have "rbind (g (int i)) (\<lambda>v. Inr (d + int i, v)) = Inr (ps ! i)"
      using ps that by (simp add: mapM_Inr_iff lanes_int)
    then show ?thesis by (auto simp: res_elims)
  qed
  define v where "v = (\<lambda>i. snd (ps ! i))"
  have v: "g (int i) = Inr (v i)" "ps ! i = (d + int i, v i)" if "i < VLEN" for i
    using at [OF that] by (auto simp: v_def)
  have "in_bounds n k e (ps ! i)" if "i < VLEN" for i using bd that len by (simp add: list_all_length)
  from this [of 0] this [of "VLEN - 1"] have b: "0 \<le> d" "d + int VLEN \<le> int n"
    using v(2) [of 0] v(2) [of "VLEN - 1"] e by (simp_all add: in_bounds_def VLEN_def)
  have "map (put_loc e) ps = map (\<lambda>i. (SLoc (nat (d + int i)), v i)) [0..<VLEN]"
    by (rule nth_equalityI) (use len v(2) e in \<open>simp_all add: put_loc_def\<close>)
  then have look: "w = map_of (map (\<lambda>i. (SLoc (nat (d + int i)), v i)) [0..<VLEN])"
    unfolding w
    by (simp add: rev_map [symmetric] b map_of_inject_set [of "rev _" "map _ _"] distinct_map inj_on_def nat_eq_iff
        nat_add_distrib)
  have hit: "w (SLoc j) = (if d \<le> int j \<and> int j < d + int VLEN then Some (v (nat (int j - d))) else None)" for j
  proof (cases "d \<le> int j \<and> int j < d + int VLEN")
    case True
    then have j: "nat (int j - d) < VLEN" "nat (d + int (nat (int j - d))) = j" using b by auto
    have "distinct (map fst (map (\<lambda>i. (SLoc (nat (d + int i)), v i)) [0..<VLEN]))"
      using b by (auto simp: distinct_map inj_on_def nat_eq_iff)
    moreover have "(SLoc j, v (nat (int j - d))) \<in> set (map (\<lambda>i. (SLoc (nat (d + int i)), v i)) [0..<VLEN])"
      using j by (force simp: image_iff)
    ultimately show ?thesis using True unfolding look by (simp add: map_of_eq_Some_iff)
  next
    case False
    then show ?thesis unfolding look using b by (auto simp: map_of_eq_None_iff)
  qed
  have miss: "w (MLoc j) = None" for j unfolding look by (auto simp: map_of_eq_None_iff)
  have "upd s w = wr d v VLEN s"
    by (rule ext) (auto simp: upd_def wr_def hit miss split: loc.splits)
  moreover have "dom w = SLoc ` nat ` {d..<d + int VLEN}"
  proof (rule set_eqI)
    fix l show "l \<in> dom w \<longleftrightarrow> l \<in> SLoc ` nat ` {d..<d + int VLEN}"
    proof (cases l)
      case (SLoc j)
      have "SLoc j \<in> SLoc ` nat ` {d..<d + int VLEN} \<longleftrightarrow> int j \<in> {d..<d + int VLEN}"
      proof
        assume "SLoc j \<in> SLoc ` nat ` {d..<d + int VLEN}"
        then show "int j \<in> {d..<d + int VLEN}" using b(1) by auto
      qed (force simp: image_iff)
      then show ?thesis unfolding SLoc by (simp add: dom_def hit)
    qed (auto simp: dom_def miss)
  qed
  ultimately show thesis using v(1) b by (intro that)
qed

section \<open>What one slot of a family does\<close>

lemma alu_val_cong:
  "py_get sc a = py_get tc a \<Longrightarrow> py_get sc b = py_get tc b \<Longrightarrow> alu_val sc op a b = alu_val tc op a b"
  by (simp add: alu_val_def)

lemma alu_val_imm: "py_get sc b = Inr (r32 u) \<Longrightarrow> alu_val sc ''+'' a b = rbind (py_get sc a) (\<lambda>x. Inr (r32 (x + u)))"
  by (cases "py_get sc a") (simp_all add: alu_val_def alu_res_def r32_mod_simps)

text \<open>The slot writes one word and reads at most the words of a set.\<close>

definition does :: "nat \<Rightarrow> nat \<Rightarrow> engine \<times> slot \<Rightarrow> (loc, int) store \<Rightarrow> int \<Rightarrow> int \<Rightarrow> int set \<Rightarrow> bool" where
  "does n k es s d v A \<longleftrightarrow> (\<forall>t. slot_ef n k (t, es) s = Some [SLoc (nat d) \<mapsto> v] \<and> slot_rd n k (t, es) s \<subseteq> SLoc ` nat ` A)"

lemma positions_Nil [simp]: "positions n [] = {}"
  by (simp add: positions_def)

lemma alu_does:
  assumes "alu_val (scratch_of n s) op a b = Inr v" and "{d, a, b} \<subseteq> {0..<int n}"
  shows "does n k (ALU, (op, [d, a, b])) s d v {a, b}"
  unfolding does_def
proof (intro allI conjI)
  fix t
  show "slot_ef n k (t, ALU, op, [d, a, b]) s = Some [SLoc (nat d) \<mapsto> v]"
    by (rule ef_single) (use assms in \<open>simp_all add: slot_puts_simps put_vals\<close>)
  show "slot_rd n k (t, ALU, op, [d, a, b]) s \<subseteq> SLoc ` nat ` {a, b}"
    using positions_in [of "[a, b]" n] assms(2) by (simp add: slot_rd_def scratch_reads_def mem_reads_def)
qed

lemma imm_does:
  assumes "py_get (scratch_of n s) a = Inr x" and "{d, a} \<subseteq> {0..<int n}"
  shows "does n k (FLOW, (''add_imm'', [d, a, u])) s d (r32 (x + u)) {a}"
  unfolding does_def
proof (intro allI conjI)
  fix t
  show "slot_ef n k (t, FLOW, ''add_imm'', [d, a, u]) s = Some [SLoc (nat d) \<mapsto> r32 (x + u)]"
    by (rule ef_single) (use assms in \<open>simp_all add: slot_puts_simps\<close>)
  show "slot_rd n k (t, FLOW, ''add_imm'', [d, a, u]) s \<subseteq> SLoc ` nat ` {a}"
    using positions_in [of "[a]" n] assms(2) by (simp add: slot_rd_def scratch_reads_def mem_reads_def)
qed

lemma does_mono: "does n k es s d v A \<Longrightarrow> A \<subseteq> B \<Longrightarrow> does n k es s d v B"
  by (fastforce simp: does_def)

section \<open>Serialised parts\<close>

lemma word_of_part:
  assumes "work_slot_of (tid x) (pk_conc_threads p) = Inr sl"
  shows "op_addr (pk_ss p) sl d = Inr da \<Longrightarrow> op_addr (pk_ss p) sl a = Inr aa \<Longrightarrow> op_addr (pk_ss p) sl b = Inr ba \<Longrightarrow>
      slot_word p (part_at x (alu_part op [d, a, b]) af) = (ALU, (op, [da, aa, ba]))"
    "op_addr (pk_ss p) sl d = Inr da \<Longrightarrow> op_addr (pk_ss p) sl a = Inr aa \<Longrightarrow>
      slot_word p (part_at x (imm_part d a u) af) = (FLOW, (''add_imm'', [da, aa, u]))"
  using assms by (simp_all add: slot_word_def serialize_def to_serialized_def serialize_param_def)

text \<open>The constants and lanes of an operand.\<close>

lemma constant_value_lane: "constant_value ss (lane w i) = constant_value ss w"
proof (cases w)
  case (LR n off v rd)
  then show ?thesis
    by (cases "var_meta_of ss n") (auto simp: lane_def constant_value_def is_vector_constant_def is_scalar_constant_def
        is_array_op_def is_mem_def check_def)
qed (simp add: lane_def constant_value_def is_array_op_def)

lemma constant_holds_lane:
  "constant_holds ss sl sc w \<Longrightarrow> names ss sl w True a \<Longrightarrow> constant_value ss w = Inr u \<Longrightarrow> i < VLEN \<Longrightarrow>
     py_get sc (a + int i) = Inr (r32 u)"
  by (simp add: constant_holds_def names_def list_all_iff set_lanes)

lemma constant_holds_scalar:
  "constant_holds ss sl sc w \<Longrightarrow> names ss sl w False a \<Longrightarrow> constant_value ss w = Inr u \<Longrightarrow> py_get sc a = Inr (r32 u)"
  by (simp add: constant_holds_def names_def)

lemma names_lane: "names ss sl r True a \<Longrightarrow> op_addr ss sl (lane r i) = Inr (a + int i)"
proof -
  assume r: "names ss sl r True a"
  have "at_start r"
    using r by (cases r) (auto simp: names_def at_start_def is_array_op_def op_addr_def op_range_def is_mem_def res_elims split: if_splits)
  with r show ?thesis by (intro op_addr_lane) (simp_all add: names_def)
qed

text \<open>A scalar addition and its conversion compute the same word where the constant's word holds.\<close>

lemma part_does:
  assumes sl: "work_slot_of (tid z) (pk_conc_threads p) = Inr sl" and z: "lin_engine (lin z) = ALU" "lin_params (lin z) = [Op d, Op a, Op b]"
    and ad: "op_addr (pk_ss p) sl d = Inr da" "op_addr (pk_ss p) sl a = Inr aa" "op_addr (pk_ss p) sl b = Inr ba"
    and b: "becomes (pk_ss p) (pk_conc_threads p) z y"
    and val: "alu_val (scratch_of n s) (opcode z) aa ba = Inr v" and rng: "{da, aa, ba} \<subseteq> {0..<int n}"
    and imm: "\<And>u. lin_engine (lin y) = FLOW \<Longrightarrow> constant_value (pk_ss p) b = Inr u \<Longrightarrow>
      py_get (scratch_of n s) ba = Inr (r32 u)"
  shows "does n k (slot_word p y) s da v {aa, ba}"
proof (cases "y = z")
  case True
  have "slot_word p z = (ALU, opcode z, [da, aa, ba])"
    using sl z ad by (simp add: slot_word_def serialize_def to_serialized_def serialize_param_def opcode_def)
  with True alu_does [OF val rng] show ?thesis by simp
next
  case False
  with b obtain m where u: "unfolds (pk_ss p) (pk_conc_threads p) m z [y] []" by (auto simp: becomes_def)
  obtain d' a' w u' where c: "registers z = [d', a', w]" "opcode z = ''+''"
    "constant_value (pk_ss p) w = Inr u'" "y = part_at z (imm_part d' a' u') (after z)"
    by (rule converted [OF z(1) u])
  have "[d, a, b] = [d', a', w]" using c(1,2) z(2) by (simp add: registers_def opcode_def lin_registers_def touches_memory_def)
  then have c': "constant_value (pk_ss p) b = Inr u'" "y = part_at z (imm_part d a u') (after z)" using c(3,4) by simp_all
  have "lin_engine (lin y) = FLOW" by (simp add: c'(2))
  note held = imm [OF this c'(1)]
  from val obtain xa where xa: "py_get (scratch_of n s) aa = Inr xa" "v = r32 (xa + u')"
    unfolding c(2) alu_val_imm [OF held] by (auto simp: res_elims)
  have "slot_word p y = (FLOW, (''add_imm'', [da, aa, u']))"
    unfolding c'(2) by (rule word_of_part(2)) (use sl ad in simp_all)
  with imm_does [OF xa(1), of da k u'] rng xa(2) show ?thesis by (auto intro: does_mono)
qed

section \<open>Families of lanes\<close>

text \<open>
  What a family does as a whole: its slots run to a state, read and write at most given locations,
  and two of them that conflict are joined by an edge.
\<close>

definition runs_as :: "nat \<Rightarrow> nat \<Rightarrow> packer \<Rightarrow> imeta list \<Rightarrow> (loc, int) store \<Rightarrow> (loc, int) store \<Rightarrow> loc set \<Rightarrow> loc set \<Rightarrow> bool" where
  "runs_as n k p ys s s' R W \<longleftrightarrow> (\<forall>ts. map snd ts = map (slot_word p) ys \<longrightarrow>
     run_seq (slot_ef n k) ts s = Some s' \<and>
     (\<forall>f \<in> set (feet (slot_rd n k) (slot_ef n k) ts s). fst f \<subseteq> R \<and> snd f \<subseteq> W) \<and>
     (\<forall>a b. a < b \<longrightarrow> b < length ys \<longrightarrow>
        indep (feet (slot_rd n k) (slot_ef n k) ts s ! a) (feet (slot_rd n k) (slot_ef n k) ts s ! b) \<or>
        nat (instid (ys ! b)) \<in> set (after (ys ! a))))"

lemma block_runs:
  assumes "0 \<le> d" "length ys = VLEN" "map snd ts = map (slot_word p) ys"
    and does: "\<And>i. i < VLEN \<Longrightarrow> does n k (slot_word p (ys ! i)) (wr d v i s) (d + int i) (v i) (A i)"
  shows "run_seq (slot_ef n k) ts s = Some (wr d v VLEN s) \<and>
    length (feet (slot_rd n k) (slot_ef n k) ts s) = VLEN \<and>
    (\<forall>i < VLEN. fst (feet (slot_rd n k) (slot_ef n k) ts s ! i) \<subseteq> SLoc ` nat ` A i \<and>
       snd (feet (slot_rd n k) (slot_ef n k) ts s ! i) = {SLoc (nat (d + int i))})"
proof -
  have len: "length ts = VLEN" using assms(2) arg_cong [OF assms(3), of length] by simp
  have t: "\<exists>j. ts ! i = (j, slot_word p (ys ! i))" if "i < VLEN" for i
  proof -
    have "snd (ts ! i) = slot_word p (ys ! i)"
      using arg_cong [OF assms(3), of "\<lambda>l. l ! i"] that len assms(2) by simp
    then show ?thesis by (metis prod.collapse)
  qed
  have "slot_ef n k (ts ! i) (wr d v i s) = Some [SLoc (nat (d + int i)) \<mapsto> v i] \<and>
      slot_rd n k (ts ! i) (wr d v i s) \<subseteq> SLoc ` nat ` A i" if "i < VLEN" for i
    using t [OF that] does [OF that] unfolding does_def by metis
  then show ?thesis using run_block [OF assms(1), of ts n k v s] len by simp
qed

lemma lane_indep:
  assumes "fst f \<subseteq> SLoc ` nat ` A" "snd f = {SLoc (nat (d + int i))}" "fst g \<subseteq> SLoc ` nat ` B" "snd g = {SLoc (nat (d + int j))}"
    and "i \<noteq> j" "d + int j \<notin> A" "d + int i \<notin> B" "0 \<le> d" "A \<subseteq> {0..}" "B \<subseteq> {0..}"
  shows "indep f g"
proof -
  have "SLoc (nat (d + int j)) \<notin> SLoc ` nat ` A" "SLoc (nat (d + int i)) \<notin> SLoc ` nat ` B"
    using assms(6-10) by (fastforce simp: nat_eq_iff)+
  moreover have "nat (d + int i) \<noteq> nat (d + int j)" using assms(5,8) by (simp add: nat_eq_iff)
  ultimately show ?thesis using assms(1-4) by (auto simp: indep_def)
qed

text \<open>One block of lanes.\<close>

lemma block_runs_as:
  assumes "0 \<le> d" "length ys = VLEN"
    and does: "\<And>i. i < VLEN \<Longrightarrow> does n k (slot_word p (ys ! i)) (wr d v i s) (d + int i) (v i) (A i)"
    and apart: "\<And>i j. i < VLEN \<Longrightarrow> j < VLEN \<Longrightarrow> i \<noteq> j \<Longrightarrow> d + int j \<notin> A i" "\<And>i. i < VLEN \<Longrightarrow> A i \<subseteq> {0..}"
    and R: "\<And>i. i < VLEN \<Longrightarrow> SLoc ` nat ` A i \<subseteq> R" and W: "\<And>i. i < VLEN \<Longrightarrow> SLoc (nat (d + int i)) \<in> W"
  shows "runs_as n k p ys s (wr d v VLEN s) R W"
  unfolding runs_as_def
proof (intro allI impI conjI)
  fix ts :: "nslot list" assume ts: "map snd ts = map (slot_word p) ys"
  let ?f = "feet (slot_rd n k) (slot_ef n k) ts s"
  note b = block_runs [OF assms(1,2) ts does]
  then show "run_seq (slot_ef n k) ts s = Some (wr d v VLEN s)" by blast
  show "\<forall>f \<in> set ?f. fst f \<subseteq> R \<and> snd f \<subseteq> W"
  proof
    fix f assume "f \<in> set ?f"
    then obtain i where i: "i < VLEN" "f = ?f ! i" using b by (metis in_set_conv_nth)
    then have "fst f \<subseteq> SLoc ` nat ` A i" "snd f = {SLoc (nat (d + int i))}" using b by blast+
    with R [OF i(1)] W [OF i(1)] show "fst f \<subseteq> R \<and> snd f \<subseteq> W" by auto
  qed
  show "indep (?f ! i) (?f ! j) \<or> nat (instid (ys ! j)) \<in> set (after (ys ! i))" if "i < j" "j < length ys" for i j
    by (rule disjI1, rule lane_indep [of _ "A i" d i _ "A j" j]) (use b that assms(1,2) apart in auto)
qed

text \<open>Two blocks of lanes with the same destination, the second of which waits for the first lane by lane.\<close>

lemma blocks_runs_as:
  assumes "0 \<le> d" "length ys = VLEN" "length zs = VLEN"
    and does: "\<And>i. i < VLEN \<Longrightarrow> does n k (slot_word p (ys ! i)) (wr d u i s) (d + int i) (u i) (A i)"
      "\<And>i. i < VLEN \<Longrightarrow> does n k (slot_word p (zs ! i)) (wr d v i (wr d u VLEN s)) (d + int i) (v i) (B i)"
    and apart: "\<And>i j. i < VLEN \<Longrightarrow> j < VLEN \<Longrightarrow> i \<noteq> j \<Longrightarrow> d + int j \<notin> A i \<union> B i" "\<And>i. i < VLEN \<Longrightarrow> A i \<union> B i \<subseteq> {0..}"
    and R: "\<And>i. i < VLEN \<Longrightarrow> SLoc ` nat ` (A i \<union> B i) \<subseteq> R" and W: "\<And>i. i < VLEN \<Longrightarrow> SLoc (nat (d + int i)) \<in> W"
    and waits: "\<And>i. i < VLEN \<Longrightarrow> nat (instid (zs ! i)) \<in> set (after (ys ! i))"
  shows "runs_as n k p (ys @ zs) s (wr d v VLEN s) R W"
  unfolding runs_as_def
proof (intro allI impI conjI)
  fix ts :: "nslot list" assume ts: "map snd ts = map (slot_word p) (ys @ zs)"
  let ?t1 = "take VLEN ts" and ?t2 = "drop VLEN ts" and ?s1 = "wr d u VLEN s"
  let ?feet = "feet (slot_rd n k) (slot_ef n k)"
  have t: "map snd ?t1 = map (slot_word p) ys" "map snd ?t2 = map (slot_word p) zs"
    using arg_cong [OF ts, of "take VLEN"] arg_cong [OF ts, of "drop VLEN"] assms(2) by (simp_all add: take_map drop_map)
  note b1 = block_runs [OF assms(1,2) t(1) does(1)] and b2 = block_runs [OF assms(1,3) t(2) does(2)]
  have "run_seq (slot_ef n k) (?t1 @ ?t2) s = Some (wr d v VLEN s)"
    unfolding run_seq_append using b1 b2 by (simp add: wr_wr)
  then show "run_seq (slot_ef n k) ts s = Some (wr d v VLEN s)" by simp
  have "?feet (?t1 @ ?t2) s = ?feet ?t1 s @ ?feet ?t2 ?s1"
    by (rule feet_append) (use b1 in blast)
  then have f: "?feet ts s = ?feet ?t1 s @ ?feet ?t2 ?s1" by simp
  show "\<forall>f \<in> set (?feet ts s). fst f \<subseteq> R \<and> snd f \<subseteq> W"
  proof
    fix g assume "g \<in> set (?feet ts s)"
    then consider "g \<in> set (?feet ?t1 s)" | "g \<in> set (?feet ?t2 ?s1)" unfolding f by auto
    then obtain i where "i < VLEN" "fst g \<subseteq> SLoc ` nat ` (A i \<union> B i)" "snd g = {SLoc (nat (d + int i))}"
    proof cases
      case 1
      then obtain i where i: "i < VLEN" "g = ?feet ?t1 s ! i" using b1 by (metis in_set_conv_nth)
      with b1 have "fst g \<subseteq> SLoc ` nat ` A i" "snd g = {SLoc (nat (d + int i))}" by blast+
      with i(1) show ?thesis by (intro that [of i]) auto
    next
      case 2
      then obtain i where i: "i < VLEN" "g = ?feet ?t2 ?s1 ! i" using b2 by (metis in_set_conv_nth)
      with b2 have "fst g \<subseteq> SLoc ` nat ` B i" "snd g = {SLoc (nat (d + int i))}" by blast+
      with i(1) show ?thesis by (intro that [of i]) auto
    qed
    with R [of i] W [of i] show "fst g \<subseteq> R \<and> snd g \<subseteq> W" by auto
  qed
  show "indep (?feet ts s ! i) (?feet ts s ! j) \<or> nat (instid ((ys @ zs) ! j)) \<in> set (after ((ys @ zs) ! i))"
    if ij: "i < j" "j < length (ys @ zs)" for i j
  proof -
    define a where "a = (\<lambda>m. if m < VLEN then m else m - VLEN)"
    define C where "C = (\<lambda>m. if m < VLEN then A m else B (m - VLEN))"
    have foot: "fst (?feet ts s ! m) \<subseteq> SLoc ` nat ` C m \<and> snd (?feet ts s ! m) = {SLoc (nat (d + int (a m)))} \<and> a m < VLEN"
      if "m < VLEN + VLEN" for m
    proof (cases "m < VLEN")
      case True
      then show ?thesis unfolding f a_def C_def using b1 by (simp add: nth_append)
    next
      case False
      then have "m - VLEN < VLEN" using that by simp
      with False show ?thesis unfolding f a_def C_def using b1 b2 by (simp add: nth_append)
    qed
    have C: "a m < VLEN \<Longrightarrow> C m \<subseteq> {0..}" "a m' < VLEN \<Longrightarrow> a m < VLEN \<Longrightarrow> a m \<noteq> a m' \<Longrightarrow> d + int (a m') \<notin> C m" for m m'
      using apart(2) [of "a m"] apart(1) [of "a m" "a m'"] by (auto simp: C_def a_def split: if_splits)
    have m: "i < VLEN + VLEN" "j < VLEN + VLEN" using ij assms(2,3) by simp_all
    show ?thesis
    proof (cases "a i = a j")
      case False
      then show ?thesis
        using lane_indep [of "?feet ts s ! i" "C i" d "a i" "?feet ts s ! j" "C j" "a j"] foot [OF m(1)] foot [OF m(2)] C assms(1)
        by auto
    next
      case True
      then have "i < VLEN" "j = VLEN + i" using ij m by (auto simp: a_def split: if_splits)
      then show ?thesis using waits [of i] assms(2) by (simp add: nth_append)
    qed
  qed
qed

end
