(* ===== verification/Family_Runs.thy ===== *)
theory Family_Runs
  imports Family_Semantics
begin

text \<open>
  A family does what its instruction does: run one after the other, the slots of a family have the
  effect of the instruction's slot, they touch no other words, and those that conflict are joined by
  an edge of the graph.
\<close>

section \<open>Lanes\<close>

lemma alu_lanes:
  assumes c: "pk_conc_threads p \<noteq> 0" and ys: "list_all2 (becomes (pk_ss p) (pk_conc_threads p)) (map z [0..<VLEN]) ys"
    and z: "\<And>i. i < VLEN \<Longrightarrow> lin_engine (lin (z i)) = ALU" "\<And>i. i < VLEN \<Longrightarrow> lin_params (lin (z i)) = [Op (D i), Op (A' i), Op (B' i)]"
      "\<And>i. i < VLEN \<Longrightarrow> tid (z i) = t" "\<And>i. i < VLEN \<Longrightarrow> opcode (z i) = op"
    and ad: "\<And>i. i < VLEN \<Longrightarrow> op_addr (pk_ss p) (t mod pk_conc_threads p) (D i) = Inr (d + int i)"
      "\<And>i. i < VLEN \<Longrightarrow> op_addr (pk_ss p) (t mod pk_conc_threads p) (A' i) = Inr (A i)"
      "\<And>i. i < VLEN \<Longrightarrow> op_addr (pk_ss p) (t mod pk_conc_threads p) (B' i) = Inr (B i)"
    and rng: "0 \<le> d" "d + int VLEN \<le> int n" "\<And>i. i < VLEN \<Longrightarrow> {A i, B i} \<subseteq> {0..<int n}"
    and val: "\<And>i. i < VLEN \<Longrightarrow> alu_val (scratch_of n s) op (A i) (B i) = Inr (v i)"
    and apart: "\<And>i j. i < VLEN \<Longrightarrow> j < VLEN \<Longrightarrow> i \<noteq> j \<Longrightarrow> d + int j \<notin> {A i, B i}"
    and imm: "\<And>i u. i < VLEN \<Longrightarrow> \<exists>y \<in> set ys. lin_engine (lin y) = FLOW \<Longrightarrow> constant_value (pk_ss p) (B' i) = Inr u \<Longrightarrow>
      py_get (scratch_of n s) (B i) = Inr (r32 u)"
    and i: "i < VLEN"
  shows "does n k (slot_word p (ys ! i)) (wr d v i s) (d + int i) (v i) {A i, B i}"
proof (rule part_does [where z = "z i" and d = "D i" and a = "A' i" and b = "B' i" and sl = "t mod pk_conc_threads p"])
  have len: "length ys = VLEN" using list_all2_lengthD [OF ys] by simp
  have same: "py_get (scratch_of n (wr d v i s)) a = py_get (scratch_of n s) a" if "a \<in> {A i, B i}" for a
  proof (rule wr_scratch)
    show "0 \<le> a" "a < int n" using rng(3) [OF i] that by auto
    show "\<not> (d \<le> a \<and> a < d + int i)"
    proof
      assume "d \<le> a \<and> a < d + int i"
      then have "nat (a - d) < i" "a = d + int (nat (a - d))" by auto
      with apart [OF i, of "nat (a - d)"] i that show False by auto
    qed
  qed
  show "work_slot_of (tid (z i)) (pk_conc_threads p) = Inr (t mod pk_conc_threads p)"
    using c z(3) [OF i] by (simp add: work_slot_of_def check_def)
  show "becomes (pk_ss p) (pk_conc_threads p) (z i) (ys ! i)"
    using list_all2_nthD [OF ys, of i] i by simp
  show "alu_val (scratch_of n (wr d v i s)) (opcode (z i)) (A i) (B i) = Inr (v i)"
    unfolding z(4) [OF i] using val [OF i] same by (simp cong: alu_val_cong)
  show "{d + int i, A i, B i} \<subseteq> {0..<int n}" using rng i by auto
  show "py_get (scratch_of n (wr d v i s)) (B i) = Inr (r32 u)"
    if "lin_engine (lin (ys ! i)) = FLOW" "constant_value (pk_ss p) (B' i) = Inr u" for u
  proof -
    have "ys ! i \<in> set ys" using len i by simp
    with that imm [OF i _ that(2)] have "py_get (scratch_of n s) (B i) = Inr (r32 u)" by blast
    then show ?thesis using same by simp
  qed
qed (use i z ad in simp_all)

lemma span_lane: "i < VLEN \<Longrightarrow> a + int i \<in> span True a"
  by (simp add: span_def)

lemma lane_not_in:
  assumes "d = a \<or> span True d \<inter> span True a = {}" "i < VLEN" "j < VLEN" "i \<noteq> j"
  shows "d + int j \<noteq> a + int i"
  using assms by (auto simp: span_def)

lemma spanD: "span v a \<subseteq> {0..<int m} \<Longrightarrow> m \<le> n \<Longrightarrow> 0 \<le> a \<and> a + (if v then int VLEN else 1) \<le> int n"
proof -
  assume s: "span v a \<subseteq> {0..<int m}" "m \<le> n"
  have "a \<in> span v a" "a + (if v then int VLEN else 1) - 1 \<in> span v a" by (simp_all add: span_def VLEN_def)
  with s show ?thesis by force
qed

section \<open>The five splits\<close>

abbreviation rds :: "packer \<Rightarrow> imeta \<Rightarrow> loc set" where
  "rds p x \<equiv> SLoc ` nat ` accesses (pk_ss p) (pk_conc_threads p) x"

abbreviation wrs :: "packer \<Rightarrow> imeta \<Rightarrow> loc set" where
  "wrs p x \<equiv> SLoc ` nat ` writes_to (pk_ss p) (pk_conc_threads p) x"

text \<open>What every case starts from: a well-typed instruction that has an effect.\<close>

definition effective :: "nat \<Rightarrow> nat \<Rightarrow> packer \<Rightarrow> imeta \<Rightarrow> (loc, int) store \<Rightarrow> (loc \<rightharpoonup> int) \<Rightarrow> bool" where
  "effective n k p x s w \<longleftrightarrow> inst_typed (pk_ss p) (pk_conc_threads p) x \<and> pk_conc_threads p \<noteq> 0 \<and>
     ss_size (pk_ss p) \<le> n \<and> all_words (scratch_of n s) \<and> (\<forall>t. slot_ef n k (t, slot_word p x) s = Some w)"

lemma effectiveD:
  assumes "effective n k p x s w"
  shows "inst_typed (pk_ss p) (pk_conc_threads p) x" "pk_conc_threads p \<noteq> 0" "ss_size (pk_ss p) \<le> n"
    "all_words (scratch_of n s)" "slot_ef n k (t, slot_word p x) s = Some w"
    "mapM (serialize_param (pk_ss p) (tid x mod pk_conc_threads p)) (lin_params (lin x)) = Inr as \<Longrightarrow>
       slot_word p x = (lin_engine (lin x), opcode x, as)"
    "names (pk_ss p) (tid x mod pk_conc_threads p) r v a \<Longrightarrow> 0 \<le> a \<and> a + (if v then int VLEN else 1) \<le> int n"
  using assms typed_word names_span [THEN spanD] unfolding effective_def by (blast, blast, blast, blast, blast, blast, blast)

text \<open>The words of the operands are the accesses.\<close>

lemma reads_lane:
  "lin_params (lin x) = qs \<Longrightarrow> Op r \<in> set qs \<Longrightarrow> names (pk_ss p) (tid x mod pk_conc_threads p) r True a \<Longrightarrow> i < VLEN \<Longrightarrow>
     SLoc (nat (a + int i)) \<in> rds p x"
  using span_accessed [of r x "pk_ss p" "pk_conc_threads p" True a] span_lane [of i a] by auto

lemma writes_lane:
  "lin_params (lin x) = Op d # qs \<Longrightarrow> \<not> op_is_read d \<Longrightarrow> names (pk_ss p) (tid x mod pk_conc_threads p) d True a \<Longrightarrow> i < VLEN \<Longrightarrow>
     SLoc (nat (a + int i)) \<in> wrs p x"
  using span_written [of x d qs "pk_ss p" "pk_conc_threads p" True a] span_lane [of i a] by auto

lemma to_alu_runs:
  assumes e: "effective n k p x s w" and x: "lin_engine (lin x) = VALU" "registers x = [d, a, b]"
    and ys: "list_all2 (becomes (pk_ss p) (pk_conc_threads p))
      (map (\<lambda>k. part_at x (alu_part (opcode x) [lane d k, lane a k, lane b k]) (after x)) [0..<VLEN]) ys"
    and imm: "\<exists>y \<in> set ys. lin_engine (lin y) = FLOW \<Longrightarrow>
      addend_holds (pk_ss p) (tid x mod pk_conc_threads p) (scratch_of n s) (lin x)"
  shows "runs_as n k p ys s (upd s w) (rds p x) (wrs p x)"
proof -
  note E = effectiveD [OF e]
  obtain da aa ba where q: "lin_params (lin x) = [Op d, Op a, Op b]" "\<not> op_is_read d"
    and nm: "names (pk_ss p) (tid x mod pk_conc_threads p) d True da" "names (pk_ss p) (tid x mod pk_conc_threads p) a True aa"
      "names (pk_ss p) (tid x mod pk_conc_threads p) b True ba"
    and ap: "da = aa \<or> span True da \<inter> span True aa = {}" "da = ba \<or> span True da \<inter> span True ba = {}"
    by (rule typed_valu3 [OF E(1) x])
  have sw: "slot_word p x = (VALU, opcode x, [da, aa, ba])"
    using E(6) [of "[da, aa, ba]"] nm q x(1) by (simp add: names_serialized)
  obtain v where v: "\<And>i. i < VLEN \<Longrightarrow> alu_val (scratch_of n s) (opcode x) (aa + int i) (ba + int i) = Inr (v i)"
    and w: "upd s w = wr da v VLEN s"
    by (rule ef_lanes [where t = 0 and s = s and w = w and d = da and e = VALU and sl = "(opcode x, [da, aa, ba])" and n = n and k = k
          and g = "\<lambda>i. alu_val (scratch_of n s) (opcode x) (aa + i) (ba + i)"])
      (use E(5) [of 0] sw in \<open>simp_all add: slot_puts_simps put_vals\<close>)
  have add: "py_get (scratch_of n s) (ba + int i) = Inr (r32 u)"
    if "i < VLEN" "\<exists>y \<in> set ys. lin_engine (lin y) = FLOW" "constant_value (pk_ss p) (lane b i) = Inr u" for i u
    by (rule constant_holds_lane [OF _ nm(3) _ that(1)])
      (use imm [OF that(2)] that(3) q(1) in \<open>simp_all add: addend_holds_def constant_value_lane\<close>)
  show ?thesis
    unfolding w
  proof (rule block_runs_as [where A = "\<lambda>i. {aa + int i, ba + int i}"])
    show "0 \<le> da" using E(7) [OF nm(1)] by simp
    show "length ys = VLEN" using list_all2_lengthD [OF ys] by simp
    show "does n k (slot_word p (ys ! i)) (wr da v i s) (da + int i) (v i) {aa + int i, ba + int i}" if "i < VLEN" for i
      by (rule alu_lanes [OF E(2) ys, where t = "tid x" and op = "opcode x" and D = "lane d" and A' = "lane a" and B' = "lane b"])
        (use E(7) [OF nm(1)] E(7) [OF nm(2)] E(7) [OF nm(3)] names_lane [OF nm(1)] names_lane [OF nm(2)] names_lane [OF nm(3)]
          v add that lane_not_in [OF ap(1)] lane_not_in [OF ap(2)] in \<open>auto simp: opcode_def\<close>)
    show "da + int j \<notin> {aa + int i, ba + int i}" if "i < VLEN" "j < VLEN" "i \<noteq> j" for i j
      using lane_not_in [OF ap(1) that] lane_not_in [OF ap(2) that] by simp
    show "{aa + int i, ba + int i} \<subseteq> {0..}" for i using E(7) [OF nm(2)] E(7) [OF nm(3)] by simp
    show "SLoc ` nat ` {aa + int i, ba + int i} \<subseteq> rds p x" if "i < VLEN" for i
      using reads_lane [OF q(1) _ nm(2) that] reads_lane [OF q(1) _ nm(3) that] by simp
    show "SLoc (nat (da + int i)) \<in> wrs p x" if "i < VLEN" for i
      by (rule writes_lane [OF q nm(1) that])
  qed
qed

lemma becomes_other: "list_all2 (becomes ss c) zs ys \<Longrightarrow> (\<And>z. z \<in> set zs \<Longrightarrow> opcode z \<noteq> ''+'') \<Longrightarrow> ys = zs"
proof (induction rule: list_all2_induct)
  case (Cons z zs y ys)
  have "y = z"
    using Cons.hyps(1) Cons.prems [of z] unfolding becomes_def by (auto elim: converted)
  with Cons show ?case by simp
qed simp

lemma broadcast_runs:
  assumes e: "effective n k p x s w" and x: "lin_engine (lin x) = VALU" "opcode x = ''vbroadcast''" "registers x = [d, a]"
    and ov: "overlaps (pk_ss p) (tid x mod pk_conc_threads p) d a = Inr False"
    and ys: "list_all2 (becomes (pk_ss p) (pk_conc_threads p))
      (map (\<lambda>k. part_at x (alu_part ''|'' [lane d k, a, a]) (after x)) [0..<VLEN]) ys"
  shows "runs_as n k p ys s (upd s w) (rds p x) (wrs p x)"
proof -
  note E = effectiveD [OF e]
  obtain da aa where q: "lin_params (lin x) = [Op d, Op a]" "\<not> op_is_read d"
    and nm: "names (pk_ss p) (tid x mod pk_conc_threads p) d True da" "names (pk_ss p) (tid x mod pk_conc_threads p) a False aa"
    by (rule typed_broadcast [OF E(1) x(1,3,2)])
  have sw: "slot_word p x = (VALU, ''vbroadcast'', [da, aa])"
    using E(6) [of "[da, aa]"] nm q x(1,2) by (simp add: names_serialized)
  obtain v where v: "\<And>i. i < VLEN \<Longrightarrow> py_get (scratch_of n s) aa = Inr (v i)" and w: "upd s w = wr da v VLEN s"
    by (rule ef_lanes [where t = 0 and s = s and w = w and d = da and e = VALU and sl = "(''vbroadcast'', [da, aa])" and n = n and k = k
          and g = "\<lambda>i. py_get (scratch_of n s) aa"])
      (use E(5) [of 0] sw in \<open>simp_all add: slot_puts_simps put_vals\<close>)
  have alu: "alu_val (scratch_of n s) ''|'' aa aa = Inr (v i)" if "i < VLEN" for i
    using alu_put_or [OF E(4), of 0 aa] v [OF that] by (auto simp: put_vals res_elims)
  have ap: "da + int j \<noteq> aa" if "j < VLEN" for j
    using overlaps_iff [OF ov] span_lane [OF that, of da] by (auto simp: names_locs [OF nm(1)] names_locs [OF nm(2)] lanes_span)
  have "ys = map (\<lambda>k. part_at x (alu_part ''|'' [lane d k, a, a]) (after x)) [0..<VLEN]"
    by (rule becomes_other [OF ys]) auto
  then have add: "lin_engine (lin y) \<noteq> FLOW" if "y \<in> set ys" for y using that by auto
  show ?thesis
    unfolding w
  proof (rule block_runs_as [where A = "\<lambda>i. {aa, aa}"])
    show "0 \<le> da" using E(7) [OF nm(1)] by simp
    show "length ys = VLEN" using list_all2_lengthD [OF ys] by simp
    show "does n k (slot_word p (ys ! i)) (wr da v i s) (da + int i) (v i) {aa, aa}" if "i < VLEN" for i
      by (rule alu_lanes [OF E(2) ys, where t = "tid x" and op = "''|''" and D = "lane d" and A' = "\<lambda>_. a" and B' = "\<lambda>_. a"])
        (use E(7) [OF nm(1)] E(7) [OF nm(2)] names_lane [OF nm(1)] nm(2) alu add that ap in
          \<open>auto simp: opcode_def names_def\<close>)
    show "da + int j \<notin> {aa, aa}" if "i < VLEN" "j < VLEN" "i \<noteq> j" for i j using ap [OF that(2)] by simp
    show "{aa, aa} \<subseteq> {0..}" for i using E(7) [OF nm(2)] by simp
    show "SLoc ` nat ` {aa, aa} \<subseteq> rds p x" if "i < VLEN" for i
      using span_accessed [of a x, OF _ nm(2)] q(1) by (auto simp: lanes_span)
    show "SLoc (nat (da + int i)) \<in> wrs p x" if "i < VLEN" for i
      by (rule writes_lane [OF q nm(1) that])
  qed
qed

lemma becomes_flow: "list_all2 (becomes ss c) zs ys \<Longrightarrow> \<forall>z \<in> set zs. lin_engine (lin z) = FLOW \<Longrightarrow> ys = zs"
  by (induction rule: list_all2_induct) (auto simp: becomes_def)

lemma to_imm_runs:
  assumes e: "effective n k p x s w" and x: "lin_engine (lin x) = VALU" "opcode x = ''+''" "registers x = [d, a, b]"
    and u: "constant_value (pk_ss p) b = Inr u"
    and imm: "addend_holds (pk_ss p) (tid x mod pk_conc_threads p) (scratch_of n s) (lin x)"
  shows "runs_as n k p (map (\<lambda>k. part_at x (imm_part (lane d k) (lane a k) u) (after x)) [0..<VLEN]) s (upd s w) (rds p x) (wrs p x)"
    (is "runs_as n k p ?ys s _ _ _")
proof -
  note E = effectiveD [OF e]
  obtain da aa ba where q: "lin_params (lin x) = [Op d, Op a, Op b]" "\<not> op_is_read d"
    and nm: "names (pk_ss p) (tid x mod pk_conc_threads p) d True da" "names (pk_ss p) (tid x mod pk_conc_threads p) a True aa"
      "names (pk_ss p) (tid x mod pk_conc_threads p) b True ba"
    and ap: "da = aa \<or> span True da \<inter> span True aa = {}"
    by (rule typed_valu3 [OF E(1) x(1,3)])
  have sw: "slot_word p x = (VALU, ''+'', [da, aa, ba])"
    using E(6) [of "[da, aa, ba]"] nm q x(1,2) by (simp add: names_serialized)
  obtain v where v: "\<And>i. i < VLEN \<Longrightarrow> alu_val (scratch_of n s) ''+'' (aa + int i) (ba + int i) = Inr (v i)"
    and w: "upd s w = wr da v VLEN s"
    by (rule ef_lanes [where t = 0 and s = s and w = w and d = da and e = VALU and sl = "(''+'', [da, aa, ba])" and n = n and k = k
          and g = "\<lambda>i. alu_val (scratch_of n s) ''+'' (aa + i) (ba + i)"])
      (use E(5) [of 0] sw in \<open>simp_all add: slot_puts_simps put_vals\<close>)
  have held: "py_get (scratch_of n s) (ba + int i) = Inr (r32 u)" if "i < VLEN" for i
    by (rule constant_holds_lane [OF _ nm(3) u that]) (use imm q(1) in \<open>simp add: addend_holds_def\<close>)
  have val: "\<exists>y. py_get (scratch_of n s) (aa + int i) = Inr y \<and> v i = r32 (y + u)" if "i < VLEN" for i
    using v [OF that] unfolding alu_val_imm [OF held [OF that]] by (auto simp: res_elims)
  show ?thesis
    unfolding w
  proof (rule block_runs_as [where A = "\<lambda>i. {aa + int i}"])
    show "0 \<le> da" using E(7) [OF nm(1)] by simp
    show "does n k (slot_word p (?ys ! i)) (wr da v i s) (da + int i) (v i) {aa + int i}" if i: "i < VLEN" for i
    proof -
      from val [OF i] obtain y where y: "py_get (scratch_of n s) (aa + int i) = Inr y" "v i = r32 (y + u)" by blast
      have "py_get (scratch_of n (wr da v i s)) (aa + int i) = py_get (scratch_of n s) (aa + int i)"
      proof (rule wr_scratch)
        show "0 \<le> aa + int i" "aa + int i < int n" using E(7) [OF nm(2)] i by auto
        show "\<not> (da \<le> aa + int i \<and> aa + int i < da + int i)"
          using ap i by (auto simp: span_def)
      qed
      moreover have "slot_word p (?ys ! i) = (FLOW, ''add_imm'', [da + int i, aa + int i, u])"
        using i word_of_part(2) [of x p "tid x mod pk_conc_threads p", OF _ names_lane [OF nm(1)] names_lane [OF nm(2)]] E(2)
        by (simp add: work_slot_of_def check_def)
      ultimately show ?thesis
        using imm_does [of n "wr da v i s" "aa + int i" y "da + int i" k u] y E(7) [OF nm(1)] E(7) [OF nm(2)] i by simp
    qed
    show "da + int j \<notin> {aa + int i}" if "i < VLEN" "j < VLEN" "i \<noteq> j" for i j
      using lane_not_in [OF ap that] by simp
    show "{aa + int i} \<subseteq> {0..}" for i using E(7) [OF nm(2)] by simp
    show "SLoc ` nat ` {aa + int i} \<subseteq> rds p x" if "i < VLEN" for i
      using reads_lane [OF q(1) _ nm(2) that] by simp
    show "SLoc (nat (da + int i)) \<in> wrs p x" if "i < VLEN" for i
      by (rule writes_lane [OF q nm(1) that])
  qed simp
qed

text \<open>A family of one slot.\<close>

lemma one_runs_as:
  assumes "\<And>t. slot_ef n k (t, slot_word p y) s = Some w" "\<And>t. slot_rd n k (t, slot_word p y) s \<subseteq> R" "dom w \<subseteq> W"
  shows "runs_as n k p [y] s (upd s w) R W"
  unfolding runs_as_def
proof (intro allI impI)
  fix ts :: "nslot list" assume "map snd ts = map (slot_word p) [y]"
  then have "\<exists>t. ts = [(t, slot_word p y)]" by (auto simp: map_eq_Cons_conv intro: prod.collapse)
  then obtain t where "ts = [(t, slot_word p y)]" ..
  with assms show "run_seq (slot_ef n k) ts s = Some (upd s w) \<and>
      (\<forall>f \<in> set (feet (slot_rd n k) (slot_ef n k) ts s). fst f \<subseteq> R \<and> snd f \<subseteq> W) \<and>
      (\<forall>a b. a < b \<longrightarrow> b < length [y] \<longrightarrow>
        indep (feet (slot_rd n k) (slot_ef n k) ts s ! a) (feet (slot_rd n k) (slot_ef n k) ts s ! b) \<or>
        nat (instid ([y] ! b)) \<in> set (after ([y] ! a)))"
    by (simp add: feet.simps foot_def)
qed

lemma scalar_runs:
  assumes e: "effective n k p x s w" and x: "lin_engine (lin x) = ALU" "registers x = [d, a, b]"
    and y: "becomes (pk_ss p) (pk_conc_threads p) x y"
    and imm: "lin_engine (lin y) = FLOW \<Longrightarrow> addend_holds (pk_ss p) (tid x mod pk_conc_threads p) (scratch_of n s) (lin x)"
  shows "runs_as n k p [y] s (upd s w) (rds p x) (wrs p x)"
proof -
  note E = effectiveD [OF e]
  obtain da aa ba where q: "lin_params (lin x) = [Op d, Op a, Op b]" "\<not> op_is_read d"
    and nm: "names (pk_ss p) (tid x mod pk_conc_threads p) d False da" "names (pk_ss p) (tid x mod pk_conc_threads p) a False aa"
      "names (pk_ss p) (tid x mod pk_conc_threads p) b False ba"
    by (rule typed_alu3 [OF E(1) x])
  have rng: "{da, aa, ba} \<subseteq> {0..<int n}" using E(7) [OF nm(1)] E(7) [OF nm(2)] E(7) [OF nm(3)] by auto
  have sw: "slot_word p x = (ALU, opcode x, [da, aa, ba])"
    using E(6) [of "[da, aa, ba]"] nm q x(1) by (simp add: names_serialized)
  with E(5) [of 0] obtain v where v: "alu_val (scratch_of n s) (opcode x) aa ba = Inr v" and w: "w = [SLoc (nat da) \<mapsto> v]"
    by (auto simp: slot_ef_eq slot_puts_simps put_vals put_loc_def res_elims split: sum.splits if_splits)
  have does: "does n k (slot_word p y) s da v {aa, ba}"
  proof (rule part_does [OF _ x(1) q(1) _ _ _ y v rng])
    show "work_slot_of (tid x) (pk_conc_threads p) = Inr (tid x mod pk_conc_threads p)"
      using E(2) by (simp add: work_slot_of_def check_def)
    show "py_get (scratch_of n s) ba = Inr (r32 u)" if "lin_engine (lin y) = FLOW" "constant_value (pk_ss p) b = Inr u" for u
      by (rule constant_holds_scalar [OF _ nm(3) that(2)]) (use imm [OF that(1)] q(1) in \<open>simp add: addend_holds_def\<close>)
  qed (use nm in \<open>simp_all add: names_def\<close>)
  have "nat ` {aa, ba} \<subseteq> nat ` accesses (pk_ss p) (pk_conc_threads p) x"
    using span_accessed [of a x, OF _ nm(2)] span_accessed [of b x, OF _ nm(3)] q(1) by (auto simp: lanes_span)
  moreover have "nat da \<in> nat ` writes_to (pk_ss p) (pk_conc_threads p) x"
    using span_written [OF q nm(1)] by (auto simp: lanes_span)
  ultimately have "SLoc ` nat ` {aa, ba} \<subseteq> rds p x" "SLoc (nat da) \<in> wrs p x" by (simp_all add: image_mono)
  with does show ?thesis unfolding does_def w by (intro one_runs_as) (simp, meson subset_trans, simp)
qed

lemma mul_add_steps:
  assumes "mul_add_val sc a b c = Inr v"
  shows "\<exists>u z. alu_val sc ''*'' a b = Inr u \<and> py_get sc c = Inr z \<and> v = r32 (u + z)"
  using assms by (auto simp: mul_add_val_def alu_val_def alu_res_def res_elims)

lemma mul_add_runs:
  assumes e: "effective n k p x s w" and x: "lin_engine (lin x) = VALU" "opcode x = ''multiply_add''" "registers x = [d, a, b, c]"
    and ov: "overlaps (pk_ss p) (tid x mod pk_conc_threads p) d c = Inr False" and aft: "\<And>k. k < VLEN \<Longrightarrow> set (aft k) = {m + k}"
    and ys: "list_all2 (becomes (pk_ss p) (pk_conc_threads p))
      (map (\<lambda>k. part_at x (alu_part ''*'' [lane d k, lane a k, lane b k]) (aft k)) [0..<VLEN]) ys"
    and zs: "list_all2 (becomes (pk_ss p) (pk_conc_threads p))
      (map (\<lambda>k. part_at (x\<lparr>instid := int (m + k)\<rparr>) (alu_part ''+'' [lane d k, lane d k, lane c k]) (after x)) [0..<VLEN]) zs"
    and imm: "\<exists>y \<in> set zs. lin_engine (lin y) = FLOW \<Longrightarrow>
      addend_holds (pk_ss p) (tid x mod pk_conc_threads p) (scratch_of n s) (lin x)"
  shows "runs_as n k p (ys @ zs) s (upd s w) (rds p x) (wrs p x)"
proof -
  note E = effectiveD [OF e]
  obtain da aa ba ca where q: "lin_params (lin x) = [Op d, Op a, Op b, Op c]" "\<not> op_is_read d"
    and nm: "names (pk_ss p) (tid x mod pk_conc_threads p) d True da" "names (pk_ss p) (tid x mod pk_conc_threads p) a True aa"
      "names (pk_ss p) (tid x mod pk_conc_threads p) b True ba" "names (pk_ss p) (tid x mod pk_conc_threads p) c True ca"
    and ap: "da = aa \<or> span True da \<inter> span True aa = {}" "da = ba \<or> span True da \<inter> span True ba = {}"
    by (rule typed_valu4 [OF E(1) x(1,3,2)])
  have ac: "span True da \<inter> span True ca = {}"
    using overlaps_iff [OF ov] by (simp add: names_locs [OF nm(1)] names_locs [OF nm(4)])
  have sw: "slot_word p x = (VALU, ''multiply_add'', [da, aa, ba, ca])"
    using E(6) [of "[da, aa, ba, ca]"] nm q x(1,2) by (simp add: names_serialized)
  obtain v where v: "\<And>i. i < VLEN \<Longrightarrow> mul_add_val (scratch_of n s) (aa + int i) (ba + int i) (ca + int i) = Inr (v i)"
    and w: "upd s w = wr da v VLEN s"
    by (rule ef_lanes [where t = 0 and s = s and w = w and d = da and e = VALU and sl = "(''multiply_add'', [da, aa, ba, ca])" and n = n
          and k = k and g = "\<lambda>i. mul_add_val (scratch_of n s) (aa + i) (ba + i) (ca + i)"])
      (use E(5) [of 0] sw in \<open>simp_all add: slot_puts_simps put_vals\<close>)
  have "\<forall>i. \<exists>u z. i < VLEN \<longrightarrow> alu_val (scratch_of n s) ''*'' (aa + int i) (ba + int i) = Inr u \<and>
      py_get (scratch_of n s) (ca + int i) = Inr z \<and> v i = r32 (u + z)"
    using mul_add_steps [OF v] by metis
  then obtain u z where u: "\<And>i. i < VLEN \<Longrightarrow> alu_val (scratch_of n s) ''*'' (aa + int i) (ba + int i) = Inr (u i)"
    and z: "\<And>i. i < VLEN \<Longrightarrow> py_get (scratch_of n s) (ca + int i) = Inr (z i)" "\<And>i. i < VLEN \<Longrightarrow> v i = r32 (u i + z i)"
    by metis
  let ?s1 = "wr da u VLEN s"
  have ca: "ca + int i \<notin> span True da" if "i < VLEN" for i using ac span_lane [OF that, of ca] by blast
  have kept: "py_get (scratch_of n ?s1) (ca + int i) = py_get (scratch_of n s) (ca + int i)" if "i < VLEN" for i
    by (rule wr_scratch) (use E(7) [OF nm(4)] ca [OF that] that in \<open>auto simp: span_def\<close>)
  have prod: "py_get (scratch_of n ?s1) (da + int i) = Inr (u i)" if "i < VLEN" for i
    by (rule wr_scratch_in) (use E(7) [OF nm(1)] that in auto)
  have sum: "alu_val (scratch_of n ?s1) ''+'' (da + int i) (ca + int i) = Inr (v i)" if "i < VLEN" for i
    using prod [OF that] kept [OF that] z [OF that] by (simp add: alu_val_def alu_res_def)
  have ys': "ys = map (\<lambda>k. part_at x (alu_part ''*'' [lane d k, lane a k, lane b k]) (aft k)) [0..<VLEN]"
    by (rule becomes_other [OF ys]) auto
  have len: "length ys = VLEN" "length zs = VLEN" using list_all2_lengthD [OF ys] list_all2_lengthD [OF zs] by simp_all
  show ?thesis
    unfolding w
  proof (rule blocks_runs_as [where A = "\<lambda>i. {aa + int i, ba + int i}" and B = "\<lambda>i. {da + int i, ca + int i}" and u = u])
    show "0 \<le> da" using E(7) [OF nm(1)] by simp
    show "does n k (slot_word p (ys ! i)) (wr da u i s) (da + int i) (u i) {aa + int i, ba + int i}" if "i < VLEN" for i
      by (rule alu_lanes [OF E(2) ys, where t = "tid x" and op = "''*''" and D = "lane d" and A' = "lane a" and B' = "lane b"])
        (use E(7) [OF nm(1)] E(7) [OF nm(2)] E(7) [OF nm(3)] names_lane [OF nm(1)] names_lane [OF nm(2)] names_lane [OF nm(3)]
          u ys' that lane_not_in [OF ap(1)] lane_not_in [OF ap(2)] in \<open>auto simp: opcode_def\<close>)
    show "does n k (slot_word p (zs ! i)) (wr da v i ?s1) (da + int i) (v i) {da + int i, ca + int i}" if "i < VLEN" for i
    proof (rule alu_lanes [OF E(2) zs, where t = "tid x" and op = "''+''" and D = "lane d" and A' = "lane d" and B' = "lane c"])
      show "py_get (scratch_of n ?s1) (ca + int j) = Inr (r32 u')"
        if "j < VLEN" "\<exists>y \<in> set zs. lin_engine (lin y) = FLOW" "constant_value (pk_ss p) (lane c j) = Inr u'" for j u'
      proof -
        have "constant_holds (pk_ss p) (tid x mod pk_conc_threads p) (scratch_of n s) c"
          using imm [OF that(2)] q(1) by (simp add: addend_holds_def)
        from constant_holds_lane [OF this nm(4) _ that(1)] that(3) kept [OF that(1)] show ?thesis
          by (simp add: constant_value_lane)
      qed
      show "da + int j' \<notin> {da + int j, ca + int j}" if "j < VLEN" "j' < VLEN" "j \<noteq> j'" for j j'
        using that ca [OF that(1)] by (auto simp: span_def)
    qed (use E(7) [OF nm(1)] E(7) [OF nm(4)] names_lane [OF nm(1)] names_lane [OF nm(4)] sum that in \<open>auto simp: opcode_def\<close>)
    show "da + int j \<notin> {aa + int i, ba + int i} \<union> {da + int i, ca + int i}" if "i < VLEN" "j < VLEN" "i \<noteq> j" for i j
      using lane_not_in [OF ap(1) that] lane_not_in [OF ap(2) that] that ca [OF that(1)] by (auto simp: span_def)
    show "{aa + int i, ba + int i} \<union> {da + int i, ca + int i} \<subseteq> {0..}" for i
      using E(7) [OF nm(1)] E(7) [OF nm(2)] E(7) [OF nm(3)] E(7) [OF nm(4)] by simp
    show "SLoc ` nat ` ({aa + int i, ba + int i} \<union> {da + int i, ca + int i}) \<subseteq> rds p x" if "i < VLEN" for i
      using reads_lane [OF q(1) _ nm(1) that] reads_lane [OF q(1) _ nm(2) that] reads_lane [OF q(1) _ nm(3) that]
        reads_lane [OF q(1) _ nm(4) that] by simp
    show "SLoc (nat (da + int i)) \<in> wrs p x" if "i < VLEN" for i
      by (rule writes_lane [OF q nm(1) that])
    show "nat (instid (zs ! i)) \<in> set (after (ys ! i))" if "i < VLEN" for i
    proof -
      have "instid (zs ! i) = int (m + i)"
        using becomes_same(1) [OF list_all2_nthD [OF zs, of i]] that by simp
      moreover have "set (after (ys ! i)) = {m + i}" using that aft by (simp add: ys')
      ultimately show ?thesis by simp
    qed
  qed (use len in simp_all)
qed

section \<open>Every family\<close>

text \<open>
  When a family has an immediate addition and its instruction is none, the constant the instruction
  adds must hold its value.
\<close>

definition imm_added :: "imeta \<Rightarrow> imeta list \<Rightarrow> bool" where
  "imm_added x ys \<longleftrightarrow> lin_engine (lin x) \<noteq> FLOW \<and> (\<exists>y \<in> set ys. lin_engine (lin y) = FLOW)"

theorem family_runs:
  assumes e: "effective n k p x s w" and fam: "family (pk_ss p) (pk_conc_threads p) x ys"
    and imm: "imm_added x ys \<Longrightarrow> addend_holds (pk_ss p) (tid x mod pk_conc_threads p) (scratch_of n s) (lin x)"
  shows "ys = [x] \<or> runs_as n k p ys s (upd s w) (rds p x) (wrs p x)"
proof (cases "ys = [x]")
  case False
  from fam obtain zs where zs: "base_parts (pk_ss p) (pk_conc_threads p) x zs" "list_all2 (becomes (pk_ss p) (pk_conc_threads p)) zs ys"
    by (auto simp: family_def)
  show ?thesis
  proof (cases "zs = [x]")
    case True
    with zs(2) obtain y where y: "ys = [y]" "becomes (pk_ss p) (pk_conc_threads p) x y" by (auto simp: list_all2_Cons1)
    with False obtain m where x: "lin_engine (lin x) = ALU" and u: "unfolds (pk_ss p) (pk_conc_threads p) m x [y] []"
      by (auto simp: becomes_def)
    obtain d a b where r: "registers x = [d, a, b]" "opcode x = ''+''" by (rule converted [OF x u])
    have "runs_as n k p [y] s (upd s w) (rds p x) (wrs p x)"
      by (rule scalar_runs [OF e x r(1) y(2)]) (use imm x y(1) in \<open>auto simp: imm_added_def\<close>)
    with y(1) show ?thesis by simp
  next
    case base: False
    with zs(1) obtain m parts new where x: "lin_engine (lin x) = VALU" and u: "unfolds (pk_ss p) (pk_conc_threads p) m x parts new"
      and p: "zs = parts @ new" by (auto simp: base_parts_def)
    from u have "runs_as n k p ys s (upd s w) (rds p x) (wrs p x)"
    proof cases
      case (to_alu d a b)
      with p zs(2) have l: "list_all2 (becomes (pk_ss p) (pk_conc_threads p))
        (map (\<lambda>k. part_at x (alu_part (opcode x) [lane d k, lane a k, lane b k]) (after x)) [0..<VLEN]) ys" by simp
      show ?thesis
        by (rule to_alu_runs [OF e x to_alu(4) l]) (use imm x in \<open>auto simp: imm_added_def\<close>)
    next
      case (broadcast_to_alu d a)
      then show ?thesis using broadcast_runs [OF e x] p zs(2) by simp
    next
      case (to_imm d a b v)
      have "ys = zs" by (rule becomes_flow [OF zs(2)]) (auto simp: p to_imm(1,2))
      with p to_imm(1,2) have ys: "ys = map (\<lambda>k. part_at x (imm_part (lane d k) (lane a k) v) (after x)) [0..<VLEN]" by simp
      have "imm_added x ys" using x by (auto simp: imm_added_def ys VLEN_def intro: exI [of _ 0])
      note held = imm [OF this]
      show ?thesis unfolding ys by (rule to_imm_runs [OF e x to_imm(4,5,9) held])
    next
      case (mul_add_to_alu d a b c aft)
      from zs(2) p obtain us vs where ys: "ys = us @ vs" "list_all2 (becomes (pk_ss p) (pk_conc_threads p)) parts us"
        "list_all2 (becomes (pk_ss p) (pk_conc_threads p)) new vs" by (auto simp: list_all2_append1)
      show ?thesis
        unfolding ys(1)
        by (rule mul_add_runs [OF e x mul_add_to_alu(4,5,7,8) ys(2,3) [unfolded mul_add_to_alu(1,2)]])
          (use imm x ys(1) in \<open>auto simp: imm_added_def\<close>)
    qed (use x in simp)
    then show ?thesis ..
  qed
qed simp

end
