(* ===== verification/Family_Schedule.thy ===== *)
theory Family_Schedule
  imports Family_Runs
begin

text \<open>
  A run of the scheduler as a bundling of families: the slots of the families, run one after the
  other, compute what the work list computes; every two of them that conflict are issued in that order
  and in different bundles; so the bundles compute the same on the machine.
\<close>

section \<open>The run of the families\<close>

lemma runs_as_mono: "runs_as n k p ys s s' R W \<Longrightarrow> R \<subseteq> R' \<Longrightarrow> W \<subseteq> W' \<Longrightarrow> runs_as n k p ys s s' R' W'"
  unfolding runs_as_def by (meson subset_trans)

lemma family_runs_as:
  assumes e: "effective n k p x s w" and fam: "family (pk_ss p) (pk_conc_threads p) x ys"
    and imm: "imm_added x ys \<Longrightarrow> addend_holds (pk_ss p) (tid x mod pk_conc_threads p) (scratch_of n s) (lin x)"
  shows "runs_as n k p ys s (upd s w) (rds p x \<union> (slot_rd n k (t, slot_word p x) s \<inter> range MLoc)) (wrs p x \<union> (dom w \<inter> range MLoc))"
proof (cases "ys = [x]")
  case True
  note E = effectiveD [OF e]
  have same: "slot_rd n k (t', slot_word p x) s = slot_rd n k (t, slot_word p x) s" for t'
    by (simp add: slot_rd_def)
  show ?thesis
    unfolding True
  proof (rule one_runs_as)
    show "slot_ef n k (t', slot_word p x) s = Some w" for t' by (rule E(5))
    show "slot_rd n k (t', slot_word p x) s \<subseteq> rds p x \<union> (slot_rd n k (t, slot_word p x) s \<inter> range MLoc)" for t'
      unfolding same [of t'] using typed_foot(1) [OF E(1-3), where t = t and k = k and s = s] by fast
    show "dom w \<subseteq> wrs p x \<union> (dom w \<inter> range MLoc)" using typed_foot(2) [OF E(1-3) E(5)] by fast
  qed
next
  case False
  with family_runs [OF e fam imm] show ?thesis by (blast intro: runs_as_mono)
qed

lemma effective_words:
  assumes "effective n k p x s w" "all_words (mem_of k s)"
  shows "all_words (scratch_of n (upd s w))" "all_words (mem_of k (upd s w))"
proof -
  note E = effectiveD [OF assms(1)]
  obtain e sl where sw: "slot_word p x = (e, sl)" by (cases "slot_word p x")
  with E(5) [of 0] obtain ps where ps: "slot_puts (scratch_of n s) (mem_of k s) e sl = Inr ps"
    and w: "w = map_of (rev (map (put_loc e) ps))"
    by (auto simp: slot_ef_eq split: sum.splits if_splits)
  have "dict_words ps" by (rule slot_puts_words [OF ps E(4) assms(2)])
  then have v: "is_word v" if "w l = Some v" for l v
    using that unfolding w dict_words_def by (auto simp: put_loc_def dest!: map_of_SomeD)
  show "all_words (scratch_of n (upd s w))" "all_words (mem_of k (upd s w))"
    using E(4) assms(2) v by (auto simp: all_words_def scratch_of_def mem_of_def upd_def split: option.splits)
qed

text \<open>What the slots of a family may touch, given the footprint of the instruction.\<close>

definition kept_by :: "packer \<Rightarrow> imeta \<Rightarrow> loc set \<times> loc set \<Rightarrow> imeta list \<Rightarrow> (loc set \<times> loc set) list \<Rightarrow> bool" where
  "kept_by p x f ys fs \<longleftrightarrow> length fs = length ys \<and>
     (\<forall>g \<in> set fs. fst g \<subseteq> rds p x \<union> (fst f \<inter> range MLoc) \<and> snd g \<subseteq> wrs p x \<union> (snd f \<inter> range MLoc)) \<and>
     (\<forall>a b. a < b \<longrightarrow> b < length ys \<longrightarrow> indep (fs ! a) (fs ! b) \<or> nat (instid (ys ! b)) \<in> set (after (ys ! a)))"

lemma kept_by_waits:
  "kept_by p x f ys fs \<Longrightarrow> a < b \<Longrightarrow> b < length ys \<Longrightarrow> \<not> indep (fs ! a) (fs ! b) \<Longrightarrow>
     nat (instid (ys ! b)) \<in> set (after (ys ! a))"
  unfolding kept_by_def by blast

lemma kept_by_length: "kept_by p x f ys fs \<Longrightarrow> length ys = length fs"
  by (simp add: kept_by_def)

lemma families_run:
  assumes "list_all2 (family (pk_ss p) (pk_conc_threads p)) ims fs"
    and "run_work (pk_ss p) (pk_conc_threads p) ims (scratch_of n s, mem_of k s) = Inr (sc', mm')"
    and "\<forall>x \<in> set ims. inst_typed (pk_ss p) (pk_conc_threads p) x" "pk_conc_threads p \<noteq> 0" "ss_size (pk_ss p) \<le> n"
    and "all_words (scratch_of n s)" "all_words (mem_of k s)"
    and "\<And>j st. j < length ims \<Longrightarrow> run_work (pk_ss p) (pk_conc_threads p) (take j ims) (scratch_of n s, mem_of k s) = Inr st \<Longrightarrow>
      imm_added (ims ! j) (fs ! j) \<Longrightarrow> addend_holds (pk_ss p) (tid (ims ! j) mod pk_conc_threads p) (fst st) (lin (ims ! j))"
    and "list_all2 (\<lambda>ts f. map snd ts = map (slot_word p) f) tss fs"
  shows "\<exists>s' fts. run_seq (slot_ef n k) (concat tss) s = Some s' \<and> sc' = scratch_of n s' \<and> mm' = mem_of k s' \<and>
    feet (slot_rd n k) (slot_ef n k) (concat tss) s = concat fts \<and> length fts = length ims \<and>
    (\<forall>j < length ims. \<exists>u w. run_work (pk_ss p) (pk_conc_threads p) (take j ims) (scratch_of n s, mem_of k s) =
         Inr (scratch_of n u, mem_of k u) \<and> effective n k p (ims ! j) u w \<and>
       kept_by p (ims ! j) (slot_rd n k (0, slot_word p (ims ! j)) u, dom w) (fs ! j) (fts ! j))"
  using assms
proof (induction arbitrary: s tss rule: list_all2_induct)
  case (Cons x ims ys fs)
  let ?ss = "pk_ss p" and ?c = "pk_conc_threads p" and ?ef = "slot_ef n k" and ?rd = "slot_rd n k"
  from Cons.prems(8) obtain ts tss' where tss: "tss = ts # tss'" "map snd ts = map (slot_word p) ys"
    "list_all2 (\<lambda>ts f. map snd ts = map (slot_word p) f) tss' fs" by (auto simp: list_all2_Cons2)
  from Cons.prems(1) obtain sc1 mm1 where run: "exec_lin ?ss (tid x mod ?c) (scratch_of n s, mem_of k s) (lin x) = Inr (sc1, mm1)"
    "run_work ?ss ?c ims (sc1, mm1) = Inr (sc', mm')" by (auto simp: res_elims)
  have typed: "inst_typed ?ss ?c x" "\<forall>x \<in> set ims. inst_typed ?ss ?c x" using Cons.prems(2) by simp_all
  from exec_effect [OF typed(1) Cons.prems(3) run(1) Cons.prems(4,5)] obtain w where
    w: "\<And>t. ?ef (t, slot_word p x) s = Some w" "sc1 = scratch_of n (upd s w)" "mm1 = mem_of k (upd s w)" by blast
  have e: "effective n k p x s w" using typed(1) Cons.prems(3-5) w(1) by (simp add: effective_def)
  note words = effective_words [OF e Cons.prems(6)]
  have held: "addend_holds ?ss (tid x mod ?c) (scratch_of n s) (lin x)" if "imm_added x ys"
    using Cons.prems(7) [of 0] that by simp
  from family_runs_as [OF e Cons.hyps(1) held, of 0] tss(2) have
    fam: "run_seq ?ef ts s = Some (upd s w)" and
    sub: "\<forall>f \<in> set (feet ?rd ?ef ts s). fst f \<subseteq> rds p x \<union> (?rd (0, slot_word p x) s \<inter> range MLoc) \<and>
      snd f \<subseteq> wrs p x \<union> (dom w \<inter> range MLoc)" and
    ord: "\<forall>a b. a < b \<longrightarrow> b < length ys \<longrightarrow> indep (feet ?rd ?ef ts s ! a) (feet ?rd ?ef ts s ! b) \<or>
      nat (instid (ys ! b)) \<in> set (after (ys ! a))" unfolding runs_as_def by blast+
  have "length ts = length ys" using arg_cong [OF tss(2), of length] by simp
  then have kept: "kept_by p x (?rd (0, slot_word p x) s, dom w) ys (feet ?rd ?ef ts s)"
    using sub ord length_feet [OF fam] by (simp add: kept_by_def)
  have "\<exists>s' fts. run_seq ?ef (concat tss') (upd s w) = Some s' \<and> sc' = scratch_of n s' \<and> mm' = mem_of k s' \<and>
      feet ?rd ?ef (concat tss') (upd s w) = concat fts \<and> length fts = length ims \<and>
      (\<forall>j < length ims. \<exists>u v. run_work ?ss ?c (take j ims) (scratch_of n (upd s w), mem_of k (upd s w)) =
         Inr (scratch_of n u, mem_of k u) \<and> effective n k p (ims ! j) u v \<and>
       kept_by p (ims ! j) (?rd (0, slot_word p (ims ! j)) u, dom v) (fs ! j) (fts ! j))"
  proof (rule Cons.IH [OF _ typed(2) Cons.prems(3,4) words _ tss(3)])
    show "run_work ?ss ?c ims (scratch_of n (upd s w), mem_of k (upd s w)) = Inr (sc', mm')" using run(2) w(2,3) by simp
    show "addend_holds ?ss (tid (ims ! j) mod ?c) (fst st) (lin (ims ! j))"
      if "j < length ims" "run_work ?ss ?c (take j ims) (scratch_of n (upd s w), mem_of k (upd s w)) = Inr st"
        "imm_added (ims ! j) (fs ! j)" for j st
      using Cons.prems(7) [of "Suc j" st] that run(1) w(2,3) by simp
  qed
  then obtain s' fts where IH: "run_seq ?ef (concat tss') (upd s w) = Some s'" "sc' = scratch_of n s'" "mm' = mem_of k s'"
    "feet ?rd ?ef (concat tss') (upd s w) = concat fts" "length fts = length ims" and
    each: "\<And>j. j < length ims \<Longrightarrow> \<exists>u v. run_work ?ss ?c (take j ims) (scratch_of n (upd s w), mem_of k (upd s w)) =
         Inr (scratch_of n u, mem_of k u) \<and> effective n k p (ims ! j) u v \<and>
       kept_by p (ims ! j) (?rd (0, slot_word p (ims ! j)) u, dom v) (fs ! j) (fts ! j)" by blast
  have "run_seq ?ef (concat tss) s = Some s'" using fam IH(1) by (simp add: tss(1) run_seq_append)
  moreover have "feet ?rd ?ef (concat tss) s = concat (feet ?rd ?ef ts s # fts)"
    using feet_append [OF fam, of ?rd "concat tss'"] IH(4) by (simp add: tss(1))
  moreover have "\<exists>u v. run_work ?ss ?c (take j (x # ims)) (scratch_of n s, mem_of k s) = Inr (scratch_of n u, mem_of k u) \<and>
      effective n k p ((x # ims) ! j) u v \<and> kept_by p ((x # ims) ! j) (?rd (0, slot_word p ((x # ims) ! j)) u, dom v)
        ((ys # fs) ! j) ((feet ?rd ?ef ts s # fts) ! j)"
    if "j < length (x # ims)" for j
  proof (cases j)
    case 0
    with kept e show ?thesis by (intro exI [of _ s] exI [of _ w]) simp
  next
    case (Suc j')
    with each [of j'] that run(1) w(2,3) show ?thesis by simp
  qed
  ultimately show ?case
    using IH(2,3,5) by (intro exI [of _ s'] exI [of _ "feet ?rd ?ef ts s # fts"]) simp
qed simp

section \<open>The bundles\<close>

lemma earlier_bundle_nth: "b < c \<Longrightarrow> c < length bs \<Longrightarrow> u \<in> set (bs ! b) \<Longrightarrow> v \<in> set (bs ! c) \<Longrightarrow> earlier_bundle bs u v"
proof (induction bs arbitrary: b c)
  case (Cons r bs)
  then obtain c' where c: "c = Suc c'" "c' < length bs" by (cases c) auto
  show ?case
  proof (cases b)
    case 0
    with Cons.prems c show ?thesis by (auto intro!: bexI [of _ "bs ! c'"])
  next
    case (Suc b')
    with Cons.prems c Cons.IH [of b' c'] show ?thesis by simp
  qed
qed simp

lemma before_concat:
  "before (concat tss) u v \<Longrightarrow> (\<exists>i < length tss. before (tss ! i) u v) \<or>
     (\<exists>i j. i < j \<and> j < length tss \<and> u \<in> set (tss ! i) \<and> v \<in> set (tss ! j))"
proof (induction tss)
  case (Cons ts tss)
  then consider "before ts u v" | "before (concat tss) u v" | "u \<in> set ts" "v \<in> set (concat tss)"
    by (auto simp: before_append)
  then show ?case
  proof cases
    case 2
    with Cons.IH consider i where "i < length tss" "before (tss ! i) u v"
      | i j where "i < j" "j < length tss" "u \<in> set (tss ! i)" "v \<in> set (tss ! j)" by blast
    then show ?thesis
    proof cases
      case (1 i)
      then have "Suc i < length (ts # tss) \<and> before ((ts # tss) ! Suc i) u v" by simp
      then show ?thesis by blast
    next
      case (2 i j)
      then have "Suc i < Suc j \<and> Suc j < length (ts # tss) \<and> u \<in> set ((ts # tss) ! Suc i) \<and> v \<in> set ((ts # tss) ! Suc j)" by simp
      then show ?thesis by blast
    qed
  next
    case 3
    from 3(2) obtain j where "j < length tss" "v \<in> set (tss ! j)" by (rule in_concatE)
    with 3 have "0 < Suc j \<and> Suc j < length (ts # tss) \<and> u \<in> set ((ts # tss) ! 0) \<and> v \<in> set ((ts # tss) ! Suc j)" by simp
    then show ?thesis by blast
  qed auto
qed simp

lemma before_indices: "before xs u v \<Longrightarrow> \<exists>a b. a < b \<and> b < length xs \<and> u = xs ! a \<and> v = xs ! b"
proof (induction xs)
  case (Cons x xs)
  then consider "u = x" "v \<in> set xs" | "before xs u v" by auto
  then show ?case
  proof cases
    case 1
    then obtain b where "b < length xs" "v = xs ! b" by (auto simp: in_set_conv_nth)
    with 1 have "0 < Suc b \<and> Suc b < length (x # xs) \<and> u = (x # xs) ! 0 \<and> v = (x # xs) ! Suc b" by simp
    then show ?thesis by blast
  next
    case 2
    with Cons.IH obtain a b where "a < b" "b < length xs" "u = xs ! a" "v = xs ! b" by blast
    then have "Suc a < Suc b \<and> Suc b < length (x # xs) \<and> u = (x # xs) ! Suc a \<and> v = (x # xs) ! Suc b" by simp
    then show ?thesis by blast
  qed
qed simp

lemma foot_concat:
  "distinct (concat tss) \<Longrightarrow> list_all2 (\<lambda>t f. length t = length f) tss fts \<Longrightarrow> i < length tss \<Longrightarrow> a < length (tss ! i) \<Longrightarrow>
     map_of (zip (concat tss) (concat fts)) (tss ! i ! a) = Some (fts ! i ! a)"
proof (induction tss arbitrary: fts i)
  case (Cons ts tss)
  then obtain f fts' where f: "fts = f # fts'" "length ts = length f" "list_all2 (\<lambda>t f. length t = length f) tss fts'"
    by (auto simp: list_all2_Cons1)
  have z: "zip (concat (ts # tss)) (concat fts) = zip ts f @ zip (concat tss) (concat fts')" by (simp add: f(1,2))
  show ?case
  proof (cases i)
    case 0
    with Cons.prems f have "map_of (zip ts f) (tss' ! a) = Some (f ! a)" if "tss' = ts" for tss'
      using that map_of_zip_nth [of ts f a] by simp
    then show ?thesis unfolding z using 0 f(1) by (simp add: map_add_Some_iff)
  next
    case (Suc i')
    with Cons.prems f Cons.IH [OF _ f(3), of i'] have "map_of (zip (concat tss) (concat fts')) (tss ! i' ! a) = Some (fts' ! i' ! a)"
      by simp
    moreover have "tss ! i' ! a \<notin> set ts"
    proof -
      have "tss ! i' ! a \<in> set (concat tss)" using Cons.prems(3,4) Suc by (auto intro!: bexI [of _ "tss ! i'"])
      with Cons.prems(1) show ?thesis by auto
    qed
    then have "map_of (zip ts f) (tss ! i' ! a) = None" using f(2) by (simp add: map_of_zip_is_None)
    ultimately show ?thesis unfolding z using Suc f(1) by (simp add: map_add_def)
  qed
qed simp

text \<open>The slots of a bundle, by engine.\<close>

definition slot_bundle :: "(imeta \<Rightarrow> nslot) \<Rightarrow> imeta list \<Rightarrow> nslot list" where
  "slot_bundle T R = concat (map (\<lambda>e. map T (of_engine e R)) EX_UNITS)"

lemma mset_by_engine: "mset (concat (map (\<lambda>e. of_engine e R) EX_UNITS)) = mset R"
proof (induction R)
  case (Cons x R)
  then show ?case by (cases "lin_engine (lin x)") (simp_all add: of_engine_def EX_UNITS_def)
qed (simp add: of_engine_def EX_UNITS_def)

lemma mset_slot_bundle: "mset (slot_bundle T R) = image_mset T (mset R)"
proof -
  have "slot_bundle T R = map T (concat (map (\<lambda>e. of_engine e R) EX_UNITS))"
    by (simp add: slot_bundle_def map_concat comp_def)
  then show ?thesis by (simp only: mset_map mset_by_engine)
qed

lemma serialize_engine: "serialize p y = Inr es \<Longrightarrow> fst es = lin_engine (lin y)"
  by (auto simp: serialize_def to_serialized_def res_elims)

lemma slots_of_words:
  assumes "slots_of p xs = Inr slots" "\<forall>x \<in> set xs. lin_engine (lin x) = e"
  shows "map (Pair e) slots = map (slot_word p) xs"
proof -
  from assms(1) obtain es where es: "mapM (serialize p) xs = Inr es" "slots = map snd es"
    by (auto simp: slots_of_def res_elims)
  then have len: "length es = length xs" by (simp add: mapM_Inr_iff)
  have "(e, snd (es ! i)) = slot_word p (xs ! i)" if "i < length xs" for i
  proof -
    have "serialize p (xs ! i) = Inr (es ! i)" using es(1) that by (simp add: mapM_Inr_iff)
    with serialize_engine [OF this] assms(2) that show ?thesis by (simp add: slot_word_def prod_eq_iff)
  qed
  then show ?thesis unfolding es(2) using len by (intro nth_equalityI) simp_all
qed

lemma of_engine_engine: "\<forall>x \<in> set (of_engine e R). lin_engine (lin x) = e"
  by (simp add: of_engine_def)

lemma bundle_slots:
  assumes "bundle_for p R es ins" "\<And>y. snd (T y) = slot_word p y"
  shows "map snd (concat (map (\<lambda>e. map T (of_engine e R)) es)) = instr_slots ins"
  using assms(1) unfolding bundle_for_def
proof (induction rule: list_all2_induct)
  case (Cons e es g gs)
  then obtain slots where g: "g = Group e slots" "slots_of p (of_engine e R) = Inr slots" by blast
  have "map snd (map T (of_engine e R)) = map (Pair e) slots"
    unfolding slots_of_words [OF g(2) of_engine_engine] by (simp add: assms(2))
  with Cons.IH show ?case by (simp add: instr_slots_def group_slots_def g(1))
qed (simp add: instr_slots_def)

lemma bundle_plain:
  assumes "bundle_for p R es ins" "\<And>y. y \<in> set R \<Longrightarrow> is_data_slot (fst (slot_word p y)) (snd (slot_word p y))"
  shows "list_all plain_group ins"
  using assms(1) unfolding bundle_for_def
proof (induction rule: list_all2_induct)
  case (Cons e es g gs)
  then obtain slots where g: "g = Group e slots" "slots_of p (of_engine e R) = Inr slots" "length slots \<le> SLOT_LIMITS e" by blast
  have "is_data_slot e sl" if sl: "sl \<in> set slots" for sl
  proof -
    have "(e, sl) \<in> set (map (Pair e) slots)" using sl by simp
    then obtain y where "y \<in> set (of_engine e R)" "(e, sl) = slot_word p y"
      unfolding slots_of_words [OF g(2) of_engine_engine] by auto
    then show ?thesis using assms(2) [of y] by (auto simp: of_engine_def dest: sym)
  qed
  with Cons.IH g show ?case by (simp add: plain_group_def list_all_iff)
qed simp

text \<open>Everything in a family is a data slot.\<close>

lemma family_data:
  assumes "inst_typed (pk_ss p) (pk_conc_threads p) x" "family (pk_ss p) (pk_conc_threads p) x ys" "y \<in> set ys"
  shows "is_data_slot (fst (slot_word p y)) (snd (slot_word p y))"
proof -
  have word: "is_data_slot (fst (slot_word p z)) (snd (slot_word p z))"
    if "lin_engine (lin z) = FLOW \<Longrightarrow> opcode z \<in> {''add_imm'', ''select'', ''vselect''}" for z
  proof (cases "serialize p z")
    case (Inr es)
    then have "fst es = lin_engine (lin z)" "fst (snd es) = opcode z"
      by (auto simp: serialize_def to_serialized_def opcode_def res_elims)
    with that Inr show ?thesis by (auto simp: slot_word_def is_data_slot_def)
  qed (simp add: slot_word_def is_data_slot_def)
  from assms(2) obtain zs where zs: "base_parts (pk_ss p) (pk_conc_threads p) x zs" "list_all2 (becomes (pk_ss p) (pk_conc_threads p)) zs ys"
    by (auto simp: family_def)
  from zs(2) assms(3) obtain z where z: "z \<in> set zs" "becomes (pk_ss p) (pk_conc_threads p) z y" by (rule list_all2_in)
  have base: "opcode z \<in> {''add_imm'', ''select'', ''vselect''}" if "lin_engine (lin z) = FLOW"
  proof (cases "zs = [x]")
    case True
    with that z(1) assms(1) show ?thesis
      by (auto simp: inst_typed_def lin_typed_def sorts_def opcode_def split: option.splits if_splits)
  next
    case False
    with zs(1) obtain m parts new where "unfolds (pk_ss p) (pk_conc_threads p) m x parts new" "zs = parts @ new"
      by (auto simp: base_parts_def)
    then show ?thesis using that z(1) by cases auto
  qed
  show ?thesis
  proof (rule word)
    assume "lin_engine (lin y) = FLOW"
    show "opcode y \<in> {''add_imm'', ''select'', ''vselect''}"
    proof (cases "y = z")
      case False
      with z(2) obtain m where "lin_engine (lin z) = ALU" "unfolds (pk_ss p) (pk_conc_threads p) m z [y] []" by (auto simp: becomes_def)
      then show ?thesis by (rule converted) (simp add: opcode_def)
    qed (use base \<open>lin_engine (lin y) = FLOW\<close> in simp)
  qed
qed

section \<open>Conversions\<close>

text \<open>
  Some immediate addition was issued, for the thread of \<open>x\<close> and into the variable \<open>x\<close> writes.
\<close>

definition imm_issued :: "(instr \<times> imeta list) list \<Rightarrow> imeta \<Rightarrow> bool" where
  "imm_issued bs x \<longleftrightarrow> (\<exists>b \<in> set bs. \<exists>y \<in> set (snd b). opcode y = ''add_imm'' \<and> tid y = tid x \<and>
     op_name (hd (registers y)) = op_name (hd (registers x)))"

lemma hd_part_registers:
  "hd (lin_registers (alu_part op (d # ps))) = d" "hd (lin_registers (imm_part d a v)) = d"
  by (simp_all add: lin_registers_def)

lemma becomes_imm:
  assumes "becomes ss c z y" "lin_engine (lin y) = FLOW" "lin_engine (lin z) \<noteq> FLOW"
  shows "opcode z = ''+'' \<and> opcode y = ''add_imm'' \<and> tid y = tid z \<and> hd (registers y) = hd (registers z)"
proof -
  from assms obtain m where "lin_engine (lin z) = ALU" "unfolds ss c m z [y] []" by (auto simp: becomes_def)
  then show ?thesis by (rule converted) (simp add: hd_part_registers opcode_def registers_def)
qed

lemma family_imm:
  assumes "family ss c x ys" "imm_added x ys"
  shows "opcode x \<in> {''+'', ''multiply_add''} \<and>
    (\<exists>y \<in> set ys. opcode y = ''add_imm'' \<and> tid y = tid x \<and> op_name (hd (registers y)) = op_name (hd (registers x)))"
proof -
  from assms(1) obtain zs where zs: "base_parts ss c x zs" "list_all2 (becomes ss c) zs ys" by (auto simp: family_def)
  from assms(2) obtain y where y: "y \<in> set ys" "lin_engine (lin y) = FLOW" and x: "lin_engine (lin x) \<noteq> FLOW"
    by (auto simp: imm_added_def)
  from zs(2) y(1) obtain z where z: "z \<in> set zs" "becomes ss c z y" by (rule list_all2_in)
  have base: "tid z = tid x \<and> op_name (hd (registers z)) = op_name (hd (registers x)) \<and>
      (lin_engine (lin z) = FLOW \<longrightarrow> opcode x = ''+'' \<and> opcode z = ''add_imm'') \<and>
      (opcode z = ''+'' \<longrightarrow> opcode x \<in> {''+'', ''multiply_add''})"
  proof (cases "zs = [x]")
    case True
    with z(1) x show ?thesis by simp
  next
    case False
    with zs(1) obtain m parts new where "unfolds ss c m x parts new" "zs = parts @ new" by (auto simp: base_parts_def)
    then show ?thesis using z(1) by cases (auto simp: hd_part_registers opcode_def)
  qed
  have "opcode x \<in> {''+'', ''multiply_add''} \<and> opcode y = ''add_imm'' \<and> tid y = tid x \<and>
      op_name (hd (registers y)) = op_name (hd (registers x))"
  proof (cases "lin_engine (lin z) = FLOW")
    case True
    with z(2) have "y = z" by (simp add: becomes_def)
    with base True show ?thesis by simp
  next
    case False
    from becomes_imm [OF z(2) y(2) False] base show ?thesis by simp
  qed
  with y(1) show ?thesis by blast
qed

text \<open>
  The constants added by converted additions hold their value when the addition is executed: the
  scheduler takes the value from the allocator, not from the scratch space.
\<close>

definition constants_hold ::
  "scratch_space \<Rightarrow> int \<Rightarrow> (instr \<times> imeta list) list \<Rightarrow> imeta list \<Rightarrow> int list \<times> int list \<Rightarrow> bool" where
  "constants_hold ss c bs ims st0 \<longleftrightarrow> (\<forall>i < length ims. \<forall>st. run_work ss c (take i ims) st0 = Inr st \<longrightarrow>
     opcode (ims ! i) \<in> {''+'', ''multiply_add''} \<longrightarrow> imm_issued bs (ims ! i) \<longrightarrow>
     addend_holds ss (tid (ims ! i) mod c) (fst st) (lin (ims ! i)))"

section \<open>Memory\<close>

text \<open>The memory words an instruction loads and stores.\<close>

definition mem_touches ::
  "scratch_space \<Rightarrow> int \<Rightarrow> int list \<times> int list \<Rightarrow> logical_instr \<Rightarrow> int list \<times> int list" where
  "mem_touches ss sl st l =
     (case mapM (serialize_param ss sl) (lin_params l) of
        Inl _ \<Rightarrow> ([], [])
      | Inr as \<Rightarrow> (mem_reads (fst st) (lin_engine l) (lin_opcode l, as),
          if lin_engine l = STORE then
            (case slot_puts (fst st) (snd st) STORE (lin_opcode l, as) of Inl _ \<Rightarrow> [] | Inr ps \<Rightarrow> map fst ps)
          else []))"

definition mem_clash :: "int list \<times> int list \<Rightarrow> int list \<times> int list \<Rightarrow> bool" where
  "mem_clash f g \<longleftrightarrow> set (snd f) \<inter> (set (fst g) \<union> set (snd g)) \<noteq> {} \<or> set (fst f) \<inter> set (snd g) \<noteq> {}"

text \<open>
  The graph does not order loads and stores; that those that touch a common word are ordered is a
  condition on the program.
\<close>

definition memory_ordered :: "scratch_space \<Rightarrow> int \<Rightarrow> imeta list \<Rightarrow> int list \<times> int list \<Rightarrow> bool" where
  "memory_ordered ss c ims st0 \<longleftrightarrow> (\<forall>i j st st'. i < j \<longrightarrow> j < length ims \<longrightarrow>
     run_work ss c (take i ims) st0 = Inr st \<longrightarrow> run_work ss c (take j ims) st0 = Inr st' \<longrightarrow>
     mem_clash (mem_touches ss (tid (ims ! i) mod c) st (lin (ims ! i)))
       (mem_touches ss (tid (ims ! j) mod c) st' (lin (ims ! j))) \<longrightarrow> (i, j) \<in> (edges ims)\<^sup>+)"

lemma mem_reads_nonneg:
  assumes "all_words sc" "a \<in> set (mem_reads sc e (op, as))"
  shows "0 \<le> a"
proof -
  have pos: "0 \<le> ad" if "py_get sc b = Inr ad" for b ad using all_words_get [OF assms(1) that] by (simp add: is_word_def)
  show ?thesis
  proof (cases as rule: args_cases)
    case (3 d b)
    with assms(2) pos [of b] show ?thesis
      by (cases e; cases "py_get sc b") (auto simp: mem_reads_def set_lanes split: if_splits)
  next
    case (4 d b off)
    with assms(2) pos [of "b + off"] show ?thesis
      by (cases e; cases "py_get sc (b + off)") (auto simp: mem_reads_def)
  qed (use assms(2) in \<open>cases e; simp add: mem_reads_def\<close>)+
qed

lemma py_index_int: "py_index k a = Some j \<Longrightarrow> 0 \<le> a \<Longrightarrow> int j = a"
  by (auto simp: py_index_def Let_def split: if_splits)

lemma touches_foot:
  assumes e: "effective n k p x s w"
  shows "MLoc j \<in> slot_rd n k (t, slot_word p x) s \<Longrightarrow>
      int j \<in> set (fst (mem_touches (pk_ss p) (tid x mod pk_conc_threads p) (scratch_of n s, mem_of k s) (lin x)))"
    and "MLoc j \<in> dom w \<Longrightarrow>
      int j \<in> set (snd (mem_touches (pk_ss p) (tid x mod pk_conc_threads p) (scratch_of n s, mem_of k s) (lin x)))"
proof -
  note E = effectiveD [OF e]
  let ?e = "lin_engine (lin x)"
  obtain as where as: "mapM (serialize_param (pk_ss p) (tid x mod pk_conc_threads p)) (lin_params (lin x)) = Inr as"
    by (rule typed_slotE [OF E(1)])
  note sw = E(6) [OF as]
  show "int j \<in> set (fst (mem_touches (pk_ss p) (tid x mod pk_conc_threads p) (scratch_of n s, mem_of k s) (lin x)))"
    if "MLoc j \<in> slot_rd n k (t, slot_word p x) s"
  proof -
    from that obtain a where a: "a \<in> set (mem_reads (scratch_of n s) ?e (opcode x, as))" "py_index k a = Some j"
      unfolding sw slot_rd_def by (auto simp: positions_def)
    with py_index_int [OF a(2) mem_reads_nonneg [OF E(4) a(1)]] show ?thesis
      by (simp add: mem_touches_def as opcode_def)
  qed
  show "int j \<in> set (snd (mem_touches (pk_ss p) (tid x mod pk_conc_threads p) (scratch_of n s, mem_of k s) (lin x)))"
    if j: "MLoc j \<in> dom w"
  proof -
    from E(5) [of 0] obtain ps where ps: "slot_puts (scratch_of n s) (mem_of k s) ?e (opcode x, as) = Inr ps"
      and bd: "list_all (in_bounds n k ?e) ps" and w: "w = map_of (rev (map (put_loc ?e) ps))"
      unfolding sw slot_ef_eq by (auto split: sum.splits if_splits)
    from j obtain q where q: "q \<in> set ps" "fst (put_loc ?e q) = MLoc j"
      unfolding w by (auto simp: dom_map_of_conv_image_fst)
    then have st: "?e = STORE" "nat (fst q) = j" by (auto simp: put_loc_def split: if_splits)
    with bd q(1) have "fst q = int j" by (auto simp: list_all_iff in_bounds_def)
    with q(1) ps st(1) show ?thesis by (auto simp: mem_touches_def as opcode_def image_iff intro: bexI [of _ q])
  qed
qed

section \<open>Order\<close>

lemma writes_subset: "writes_to ss c x \<subseteq> accesses ss c x"
  by (auto simp: writes_to_def accesses_def)

lemma in_scratch_part: "X \<subseteq> A \<union> (B \<inter> range MLoc) \<Longrightarrow> SLoc a \<in> X \<Longrightarrow> SLoc a \<in> A"
  by auto

lemma touch_both:
  "l \<in> uf \<and> l \<in> rh \<or> l \<in> uh \<and> l \<in> rf \<or> l \<in> uf \<and> l \<in> uh \<Longrightarrow> (l \<in> rf \<Longrightarrow> l \<in> R) \<Longrightarrow> (l \<in> uf \<Longrightarrow> l \<in> W) \<Longrightarrow>
     (l \<in> rh \<Longrightarrow> l \<in> R') \<Longrightarrow> (l \<in> uh \<Longrightarrow> l \<in> W') \<Longrightarrow> W \<subseteq> R \<Longrightarrow> W' \<subseteq> R' \<Longrightarrow> l \<in> R \<and> l \<in> R' \<and> (l \<in> W \<or> l \<in> W')"
  by blast

lemma in_mem_part: "X \<subseteq> SLoc ` A \<union> (B \<inter> range MLoc) \<Longrightarrow> MLoc a \<in> X \<Longrightarrow> MLoc a \<in> B"
  by auto

text \<open>Two instructions whose families touch a common location, one of them writing it, are ordered by the graph.\<close>

lemma families_ordered:
  assumes heap: "after_heap hp" and work: "linked_work hp g c opt = Inr (ims, g')"
    and p: "pk_ss p = graph_ss g'" "pk_conc_threads p = c"
    and ij: "i < j" "j < length ims" and typed: "inst_typed (pk_ss p) c (ims ! i)"
    and e: "effective n k p (ims ! i) u w" "effective n k p (ims ! j) u' w'"
    and states: "run_work (pk_ss p) c (take i ims) st0 = Inr (scratch_of n u, mem_of k u)"
      "run_work (pk_ss p) c (take j ims) st0 = Inr (scratch_of n u', mem_of k u')"
    and mem: "memory_ordered (pk_ss p) c ims st0"
    and f: "kept_by p (ims ! i) (slot_rd n k (0, slot_word p (ims ! i)) u, dom w) ys fs" "f \<in> set fs"
    and g: "kept_by p (ims ! j) (slot_rd n k (0, slot_word p (ims ! j)) u', dom w') zs gs" "h \<in> set gs"
    and dep: "\<not> indep f h"
  shows "(i, j) \<in> (edges ims)\<^sup>+"
proof -
  let ?ss = "pk_ss p"
  from f have F: "fst f \<subseteq> rds p (ims ! i) \<union> (slot_rd n k (0, slot_word p (ims ! i)) u \<inter> range MLoc)"
    "snd f \<subseteq> wrs p (ims ! i) \<union> (dom w \<inter> range MLoc)" unfolding kept_by_def by auto
  from g have H: "fst h \<subseteq> rds p (ims ! j) \<union> (slot_rd n k (0, slot_word p (ims ! j)) u' \<inter> range MLoc)"
    "snd h \<subseteq> wrs p (ims ! j) \<union> (dom w' \<inter> range MLoc)" unfolding kept_by_def by auto
  have sub: "wrs p x \<subseteq> rds p x" for x using writes_subset by (intro image_mono)
  from dep obtain l where "l \<in> snd f \<and> l \<in> fst h \<or> l \<in> snd h \<and> l \<in> fst f \<or> l \<in> snd f \<and> l \<in> snd h"
    unfolding indep_def by blast
  note l = this
  show ?thesis
  proof (cases l)
    case (SLoc a)
    have "l \<in> fst f \<Longrightarrow> l \<in> rds p (ims ! i)" "l \<in> snd f \<Longrightarrow> l \<in> wrs p (ims ! i)"
      "l \<in> fst h \<Longrightarrow> l \<in> rds p (ims ! j)" "l \<in> snd h \<Longrightarrow> l \<in> wrs p (ims ! j)"
      unfolding SLoc by (fact in_scratch_part [OF F(1)] in_scratch_part [OF F(2)] in_scratch_part [OF H(1)] in_scratch_part [OF H(2)])+
    from touch_both [OF l this sub sub] have
      1: "l \<in> rds p (ims ! i)" "l \<in> rds p (ims ! j)" "l \<in> wrs p (ims ! i) \<or> l \<in> wrs p (ims ! j)" by simp_all
    have acc: "accesses ?ss c (ims ! i) \<subseteq> {0..<int (ss_size ?ss)}" by (rule accesses_in_space [OF typed])
    have accj: "accesses ?ss c (ims ! j) \<subseteq> {0..<int (ss_size ?ss)}"
      using accesses_in_space [OF effectiveD(1) [OF e(2)]] p(2) by simp
    have pos: "0 \<le> b" if "b \<in> accesses ?ss c (ims ! i) \<union> accesses ?ss c (ims ! j)" for b using that acc accj by auto
    have at: "int a \<in> accesses ?ss c (ims ! m)" if "SLoc a \<in> rds p (ims ! m)" "m = i \<or> m = j" for m
    proof -
      from that(1) obtain b where b: "b \<in> accesses ?ss c (ims ! m)" "a = nat b" using p(2) by auto
      with pos [of b] that(2) show ?thesis by auto
    qed
    have atw: "int a \<in> writes_to ?ss c (ims ! m)" if "SLoc a \<in> wrs p (ims ! m)" "m = i \<or> m = j" for m
    proof -
      from that(1) obtain b where b: "b \<in> writes_to ?ss c (ims ! m)" "a = nat b" using p(2) by auto
      with pos [of b] that(2) writes_subset [of ?ss c "ims ! m"] show ?thesis by auto
    qed
    have l: "int a \<in> accesses ?ss c (ims ! i)" "int a \<in> accesses ?ss c (ims ! j)"
      "int a \<in> writes_to ?ss c (ims ! i) \<or> int a \<in> writes_to ?ss c (ims ! j)"
      using 1 at atw unfolding SLoc by blast+
    show ?thesis
      by (rule after_heap.conflicts_ordered [OF heap work ij, of "int a"]) (use l acc p(1) in auto)
  next
    case (MLoc a)
    have "l \<in> fst f \<Longrightarrow> l \<in> slot_rd n k (0, slot_word p (ims ! i)) u" "l \<in> snd f \<Longrightarrow> l \<in> dom w"
      "l \<in> fst h \<Longrightarrow> l \<in> slot_rd n k (0, slot_word p (ims ! j)) u'" "l \<in> snd h \<Longrightarrow> l \<in> dom w'"
      unfolding MLoc by (fact in_mem_part [OF F(1)] in_mem_part [OF F(2)] in_mem_part [OF H(1)] in_mem_part [OF H(2)])+
    with l MLoc have 2: "MLoc a \<in> dom w \<and> (MLoc a \<in> slot_rd n k (0, slot_word p (ims ! j)) u' \<or> MLoc a \<in> dom w') \<or>
        MLoc a \<in> slot_rd n k (0, slot_word p (ims ! i)) u \<and> MLoc a \<in> dom w'" by blast
    note ti = touches_foot [OF e(1), of a, unfolded p(2)] and tj = touches_foot [OF e(2), of a, unfolded p(2)]
    have "mem_clash (mem_touches ?ss (tid (ims ! i) mod c) (scratch_of n u, mem_of k u) (lin (ims ! i)))
        (mem_touches ?ss (tid (ims ! j) mod c) (scratch_of n u', mem_of k u') (lin (ims ! j)))"
      using 2 ti tj unfolding mem_clash_def by blast
    with mem ij states show ?thesis unfolding memory_ordered_def by blast
  qed
qed

section \<open>The families a run has issued\<close>

definition issued_first :: "(instr \<times> imeta list) list \<Rightarrow> imeta \<Rightarrow> imeta \<Rightarrow> bool" where
  "issued_first bs y z \<longleftrightarrow> (\<forall>b c. b < length bs \<longrightarrow> y \<in> set (snd (bs ! b)) \<longrightarrow> c < length bs \<longrightarrow>
     z \<in> set (snd (bs ! c)) \<longrightarrow> b < c)"

lemma issued_families:
  assumes pk: "packing hp S" and work: "get_work S hp g conc opt = Inr p" and bs: "packed S hp p bs p'" and none: "pending p' = {#}"
  obtains fs where "list_all2 (family (pk_ss p) conc) (pk_imetas p) fs" "mset (concat fs) = mset (concat (map snd bs))"
    "distinct (concat fs)" "pk_conc_threads p = conc" "\<forall>b \<in> set bs. bundle_for p (snd b) EX_UNITS (fst b)"
    "\<And>y z. nat (instid z) \<in> set (after y) \<Longrightarrow> issued_first bs y z"
    "\<And>i j y z. (i, j) \<in> (edges (pk_imetas p))\<^sup>+ \<Longrightarrow> y \<in> set (fs ! i) \<Longrightarrow> z \<in> set (fs ! j) \<Longrightarrow> issued_first bs y z"
proof -
  obtain ims g' where gok: "graph_ok ims" and ok: "packer_ok p" and pend: "pending p = mset ims"
    and p: "pk_imetas p = ims" "pk_conc_threads p = conc"
    and held: "edges_held (pk_imetas p) (pending p)" "\<forall>i < length (pk_imetas p). int i \<in> ids p"
    by (rule packing.get_work_ok [OF pk work])
  let ?ims = "pk_imetas p"
  have num: "instid (?ims ! i) = int i" if "i < length ?ims" for i using gok that p(1) by (simp add: graph_ok_def)
  have fwd: "i < length ?ims \<and> j < length ?ims" if "(i, j) \<in> edges ?ims" for i j
    using that gok p(1) by (auto simp: edges_def graph_ok_def)
  have start: "accounts ?ims (map (\<lambda>x. [x]) ?ims) {#} p" unfolding p(1) by (rule accounts_start [OF gok pend p(1)])
  from packing.packed_accounts [OF pk bs ok start num] obtain fs where acc: "accounts ?ims fs (mset (concat (map snd bs))) p'" by auto
  have later: "later p p'" using packing.packed_end_state [OF pk bs ok] by blast
  show thesis
  proof (rule that)
    show "list_all2 (family (pk_ss p) conc) ?ims fs" "mset (concat fs) = mset (concat (map snd bs))" "distinct (concat fs)"
      using acc later none p(2) by (simp_all add: accounts_def later_def distinct_map)
    show "\<forall>b \<in> set bs. bundle_for p (snd b) EX_UNITS (fst b)" using packing.packed_bundles [OF pk bs ok] by blast
    show "issued_first bs y z" if "nat (instid z) \<in> set (after y)" for y z
      unfolding issued_first_def using packing.packed_order [OF pk bs ok _ _ _ _ that] by blast
    show "issued_first bs y z" if "(i, j) \<in> (edges ?ims)\<^sup>+" "y \<in> set (fs ! i)" "z \<in> set (fs ! j)" for i j y z
      unfolding issued_first_def
      using packing.family_order [OF pk bs ok held acc none num fwd that(1) _ _ that(2) _ _ that(3)] by blast
  qed (rule p(2))
qed

text \<open>Slots of the families in the bundles that issue them.\<close>

lemma slots_in_bundles:
  assumes members: "set (concat fs) = set (concat (map snd bs))" and dist: "distinct (concat fs)" and inj: "inj_on T (set (concat fs))"
    and lens: "list_all2 (\<lambda>f ft. length f = length ft) fs fts"
    and same: "\<And>i a b. i < length fs \<Longrightarrow> a < b \<Longrightarrow> b < length (fs ! i) \<Longrightarrow> \<not> indep (fts ! i ! a) (fts ! i ! b) \<Longrightarrow>
      issued_first bs (fs ! i ! a) (fs ! i ! b)"
    and diff: "\<And>i j y z f h. i < j \<Longrightarrow> j < length fs \<Longrightarrow> f \<in> set (fts ! i) \<Longrightarrow> h \<in> set (fts ! j) \<Longrightarrow> \<not> indep f h \<Longrightarrow>
      y \<in> set (fs ! i) \<Longrightarrow> z \<in> set (fs ! j) \<Longrightarrow> issued_first bs y z"
    and uv: "before (concat (map (map T) fs)) u v"
    and f: "map_of (zip (concat (map (map T) fs)) (concat fts)) u = Some f"
    and h: "map_of (zip (concat (map (map T) fs)) (concat fts)) v = Some h" and dep: "\<not> indep f h"
  shows "earlier_bundle (map (\<lambda>b. slot_bundle T (snd b)) bs) u v"
proof -
  let ?tss = "map (map T) fs"
  have distT: "distinct (concat ?tss)" using dist inj by (simp add: map_concat [symmetric] distinct_map)
  have lensT: "list_all2 (\<lambda>t f. length t = length f) ?tss fts" using lens by (simp add: list_all2_conv_all_nth)
  have foot: "map_of (zip (concat ?tss) (concat fts)) (T (fs ! i ! a)) = Some (fts ! i ! a)" "length (fts ! i) = length (fs ! i)"
    if "i < length fs" "a < length (fs ! i)" for i a
    using foot_concat [OF distT lensT, of i a] list_all2_nthD [OF lens that(1)] that by simp_all
  have issue: "earlier_bundle (map (\<lambda>b. slot_bundle T (snd b)) bs) (T y) (T z)"
    if "issued_first bs y z" "y \<in> set (concat fs)" "z \<in> set (concat fs)" for y z
  proof -
    from that(2,3) have "y \<in> set (concat (map snd bs))" "z \<in> set (concat (map snd bs))" by (simp_all only: members)
    then obtain b c where b: "b < length bs" "y \<in> set (snd (bs ! b))" and c: "c < length bs" "z \<in> set (snd (bs ! c))"
      by (metis (no_types, lifting) in_concatE length_map nth_map)
    have "T w \<in> set (slot_bundle T R)" if "w \<in> set R" for w R
      using that arg_cong [OF mset_slot_bundle, of set_mset T R] by simp
    with b c that(1) show ?thesis unfolding issued_first_def by (intro earlier_bundle_nth [of b c]) simp_all
  qed
  have place: "y \<in> set (concat fs)" if "i < length fs" "y \<in> set (fs ! i)" for i y
    using that by (auto intro!: bexI [of _ "fs ! i"])
  from before_concat [OF uv] consider
    i where "i < length fs" "before (map T (fs ! i)) u v"
  | i j where "i < j" "j < length fs" "u \<in> set (map T (fs ! i))" "v \<in> set (map T (fs ! j))" by auto
  then show ?thesis
  proof cases
    case (1 i)
    from before_indices [OF 1(2)] obtain a b where ab: "a < b" "b < length (fs ! i)" "u = T (fs ! i ! a)" "v = T (fs ! i ! b)" by auto
    have a: "a < length (fs ! i)" using ab by simp
    have "f = fts ! i ! a" "h = fts ! i ! b" using f h foot [OF 1(1) a] foot [OF 1(1) ab(2)] ab(3,4) by simp_all
    with same [OF 1(1) ab(1,2)] dep have "issued_first bs (fs ! i ! a) (fs ! i ! b)" by simp
    then show ?thesis unfolding ab(3,4) using place [OF 1(1)] a ab(2) by (intro issue) simp_all
  next
    case (2 i j)
    have i: "i < length fs" using 2 by simp
    from 2(3) obtain a where a: "a < length (fs ! i)" "u = T (fs ! i ! a)" by (auto simp: in_set_conv_nth)
    from 2(4) obtain b where b: "b < length (fs ! j)" "v = T (fs ! j ! b)" by (auto simp: in_set_conv_nth)
    have fh: "f = fts ! i ! a" "h = fts ! j ! b" using f h foot [OF i a(1)] foot [OF 2(2) b(1)] a(2) b(2) by simp_all
    have "issued_first bs (fs ! i ! a) (fs ! j ! b)"
      by (rule diff [OF 2(1,2) _ _ dep]) (use fh foot [OF i a(1)] foot [OF 2(2) b(1)] a(1) b(1) in simp_all)
    then show ?thesis unfolding a(2) b(2) using place [OF i] place [OF 2(2)] a(1) b(1) by (intro issue) simp_all
  qed
qed

text \<open>The bundles hold the slots of the families and fit the machine.\<close>

lemma bundles_of_families:
  assumes members: "mset (concat fs) = mset (concat (map snd bs))" and bundles: "\<forall>b \<in> set bs. bundle_for p (snd b) EX_UNITS (fst b)"
    and word: "\<And>y. snd (T y) = slot_word p y" and fam: "list_all2 (family (pk_ss p) (pk_conc_threads p)) ims fs"
    and typed: "\<forall>x \<in> set ims. inst_typed (pk_ss p) (pk_conc_threads p) x"
  shows "mset (concat (map (\<lambda>b. slot_bundle T (snd b)) bs)) = mset (concat (map (map T) fs))"
    "list_all2 (\<lambda>b ins. map snd b = instr_slots ins) (map (\<lambda>b. slot_bundle T (snd b)) bs) (map fst bs)"
    "list_all (list_all plain_group) (map fst bs)"
proof -
  have "mset (concat (map (\<lambda>b. slot_bundle T (snd b)) bs)) = image_mset T (mset (concat (map snd bs)))"
    by (induction bs) (simp_all add: mset_slot_bundle)
  then show "mset (concat (map (\<lambda>b. slot_bundle T (snd b)) bs)) = mset (concat (map (map T) fs))"
    by (simp only: members [symmetric] map_concat [symmetric] mset_map)
  show "list_all2 (\<lambda>b ins. map snd b = instr_slots ins) (map (\<lambda>b. slot_bundle T (snd b)) bs) (map fst bs)"
    unfolding list_all2_conv_all_nth using bundle_slots [of p _ EX_UNITS _ T, OF _ word] bundles by (simp add: slot_bundle_def)
  have data: "is_data_slot (fst (slot_word p y)) (snd (slot_word p y))" if y: "b \<in> set bs" "y \<in> set (snd b)" for b y
  proof -
    have "y \<in> set (concat (map snd bs))" using y by auto
    then have "y \<in> set (concat fs)" using mset_eq_setD [OF members] by (simp only:)
    then obtain i where i: "i < length fs" "y \<in> set (fs ! i)" by (rule in_concatE)
    then have i': "i < length ims" using list_all2_lengthD [OF fam] by simp
    from family_data [OF _ list_all2_nthD [OF fam i'] i(2)] typed i' show ?thesis by simp
  qed
  have "list_all plain_group (fst b)" if "b \<in> set bs" for b
    by (rule bundle_plain [of p "snd b" EX_UNITS]) (use bundles data that in auto)
  then show "list_all (list_all plain_group) (map fst bs)" unfolding list_all_iff [of _ "map fst bs"] by auto
qed

section \<open>The theorem\<close>

lemma schedule_of_families:
  assumes pk: "packing hp S" and work: "get_work S hp g conc opt = Inr p" and bs: "packed S hp p bs p'" and none: "pending p' = {#}"
    and run: "run_work (pk_ss p) conc (pk_imetas p) (scratch co, mm) = Inr (sc', mm')"
    and typed: "\<forall>x \<in> set (pk_imetas p). inst_typed (pk_ss p) conc x"
    and words: "all_words (scratch co)" "all_words mm" and size: "ss_size (pk_ss p) \<le> length (scratch co)" and c: "conc \<noteq> 0"
    and held: "constants_hold (pk_ss p) conc bs (pk_imetas p) (scratch co, mm)"
    and mem: "memory_ordered (pk_ss p) conc (pk_imetas p) (scratch co, mm)"
  shows "run_straight m (map fst bs) (co, mm) = Inr (co\<lparr>pc := pc co + int (length bs), scratch := sc'\<rparr>, mm')"
proof -
  let ?ims = "pk_imetas p" and ?n = "length (scratch co)" and ?k = "length mm"
  let ?s = "store_of (scratch co) mm" and ?ef = "slot_ef ?n ?k" and ?rd = "slot_rd ?n ?k"
  obtain ims g' where lw: "linked_work hp g conc opt = Inr (ims, g')" and p: "pk_imetas p = ims" "pk_ss p = graph_ss g'"
    by (rule packing.get_work_ok [OF pk work])
  obtain fs where fam: "list_all2 (family (pk_ss p) conc) ?ims fs" and members: "mset (concat fs) = mset (concat (map snd bs))"
    and dist: "distinct (concat fs)" and conc: "pk_conc_threads p = conc" and bundles: "\<forall>b \<in> set bs. bundle_for p (snd b) EX_UNITS (fst b)"
    and waits: "\<And>y z. nat (instid z) \<in> set (after y) \<Longrightarrow> issued_first bs y z"
    and order: "\<And>i j y z. (i, j) \<in> (edges ?ims)\<^sup>+ \<Longrightarrow> y \<in> set (fs ! i) \<Longrightarrow> z \<in> set (fs ! j) \<Longrightarrow> issued_first bs y z"
    by (rule issued_families [OF pk work bs none]) (rule that)
  have same: "set (concat fs) = set (concat (map snd bs))" using arg_cong [OF members, of set_mset] by (simp only: set_mset_mset)
  have len: "length fs = length ?ims" using list_all2_lengthD [OF fam] by simp
  obtain tag :: "imeta \<Rightarrow> nat" where tag: "inj_on tag (set (concat fs))"
    using finite_imp_inj_to_nat_seg [of "set (concat fs)"] by auto
  define T where "T = (\<lambda>y. (tag y, slot_word p y))"
  have injT: "inj_on T (set (concat fs))" using tag by (auto simp: T_def inj_on_def)
  let ?tss = "map (map T) fs"
  have imm: "addend_holds (pk_ss p) (tid (?ims ! j) mod conc) (fst st) (lin (?ims ! j))"
    if "j < length ?ims" "run_work (pk_ss p) conc (take j ?ims) (scratch co, mm) = Inr st" "imm_added (?ims ! j) (fs ! j)" for j st
  proof -
    from family_imm [OF list_all2_nthD [OF fam that(1)] that(3)] obtain y where y: "opcode (?ims ! j) \<in> {''+'', ''multiply_add''}"
      "y \<in> set (fs ! j)" "opcode y = ''add_imm''" "tid y = tid (?ims ! j)" "op_name (hd (registers y)) = op_name (hd (registers (?ims ! j)))"
      by blast
    have "y \<in> set (concat fs)" using y(2) that(1) len by (auto intro!: bexI [of _ "fs ! j"])
    then have "y \<in> set (concat (map snd bs))" by (simp only: same)
    then have "imm_issued bs (?ims ! j)" unfolding imm_issued_def using y(3-5) by auto
    with held that(1,2) y(1) show ?thesis unfolding constants_hold_def by blast
  qed
  have "list_all2 (\<lambda>ts f. map snd ts = map (slot_word p) f) ?tss fs"
    by (simp add: list_all2_conv_all_nth T_def comp_def)
  from families_run [of p ?ims fs ?n ?s ?k sc' mm', unfolded conc, OF fam _ typed c size _ _ _ this] run words imm obtain s' fts where
    seq: "run_seq ?ef (concat ?tss) ?s = Some s'" "sc' = scratch_of ?n s'" "mm' = mem_of ?k s'"
    and feet: "feet ?rd ?ef (concat ?tss) ?s = concat fts" "length fts = length ?ims"
    and each: "\<And>j. j < length ?ims \<Longrightarrow> \<exists>u w. run_work (pk_ss p) conc (take j ?ims) (scratch co, mm) =
         Inr (scratch_of ?n u, mem_of ?k u) \<and> effective ?n ?k p (?ims ! j) u w \<and>
       kept_by p (?ims ! j) (?rd (0, slot_word p (?ims ! j)) u, dom w) (fs ! j) (fts ! j)" by auto
  have lens: "list_all2 (\<lambda>f ft. length f = length ft) fs fts"
    unfolding list_all2_conv_all_nth using each len feet(2) by (metis kept_by_length)
  have bundled: "earlier_bundle (map (\<lambda>b. slot_bundle T (snd b)) bs) u v"
    if "before (concat ?tss) u v" "foot_in ?rd ?ef (concat ?tss) ?s u = Some f" "foot_in ?rd ?ef (concat ?tss) ?s v = Some h"
      "\<not> indep f h" for u v f h
  proof (rule slots_in_bundles [OF same dist injT lens _ _ that(1) that(2,3) [unfolded foot_in_def feet(1)] that(4)])
    fix i a b assume i: "i < length fs" "a < b" "b < length (fs ! i)" "\<not> indep (fts ! i ! a) (fts ! i ! b)"
    from each [of i] i(1) len obtain g where "kept_by p (?ims ! i) g (fs ! i) (fts ! i)" by auto
    from kept_by_waits [OF this i(2-4)] show "issued_first bs (fs ! i ! a) (fs ! i ! b)" by (rule waits)
  next
    fix i j y z f h assume i: "i < j" "j < length fs" and fh: "f \<in> set (fts ! i)" "h \<in> set (fts ! j)" "\<not> indep f h"
      and yz: "y \<in> set (fs ! i)" "z \<in> set (fs ! j)"
    have j: "i < length ?ims" "j < length ?ims" using i len by simp_all
    from each [OF j(1)] obtain u1 w1 where 1: "run_work (pk_ss p) conc (take i ?ims) (scratch co, mm) = Inr (scratch_of ?n u1, mem_of ?k u1)"
      "effective ?n ?k p (?ims ! i) u1 w1" "kept_by p (?ims ! i) (?rd (0, slot_word p (?ims ! i)) u1, dom w1) (fs ! i) (fts ! i)" by blast
    from each [OF j(2)] obtain u2 w2 where 2: "run_work (pk_ss p) conc (take j ?ims) (scratch co, mm) = Inr (scratch_of ?n u2, mem_of ?k u2)"
      "effective ?n ?k p (?ims ! j) u2 w2" "kept_by p (?ims ! j) (?rd (0, slot_word p (?ims ! j)) u2, dom w2) (fs ! j) (fts ! j)" by blast
    have "(i, j) \<in> (edges ?ims)\<^sup>+"
      by (rule families_ordered [OF _ lw [folded p(1)] p(2) conc i(1) j(2) _ 1(2) 2(2) 1(1) 2(1) mem 1(3) fh(1) 2(3) fh(2,3)])
        (use pk typed j(1) in \<open>simp_all add: packing_def\<close>)
    then show "issued_first bs y z" using yz by (rule order)
  qed
  note B = bundles_of_families [where T = T, OF members bundles _ fam [folded conc] typed [folded conc]]
  have "run_straight m (map fst bs) (co, mem_of ?k ?s) =
      Inr (co\<lparr>pc := pc co + int (length (map fst bs)), scratch := scratch_of ?n s'\<rparr>, mem_of ?k s')"
  proof (rule schedule_straight [OF seq(1) _ B(1)])
    show "distinct (concat ?tss)" using dist injT by (simp add: map_concat [symmetric] distinct_map)
  qed (use bundled B(2,3) in \<open>simp_all add: T_def\<close>)
  then show ?thesis using seq(2,3) by simp
qed

end
