(* ===== verification/Schedule_Correct.thy ===== *)
theory Schedule_Correct
  imports Family_Schedule Schedule_Props
begin

text \<open>
  The scheduler keeps the meaning of the program (C28).
\<close>

text \<open>
  C28: the scheduler keeps the meaning of the program. Let the work list, executed instruction by
  instruction, lead from one scratch space and memory to another. If its instructions are well typed,
  loads and stores that touch a common word are ordered by the graph, and the constants whose
  additions were converted hold their values, then the bundles the packing loop emits lead the machine
  to the same scratch space and memory, whatever was split or converted on the way.
\<close>

theorem schedule_computes_program:
  assumes "packing hp S" and "get_work S hp g conc opt = Inr p"
    and "work_to_instrs S hp p = Some (Inr (insts, p'))" and "frontier p' = []"
    and "run_work (pk_ss p) conc (pk_imetas p) (scratch co, mm) = Inr (sc', mm')"
    and "\<forall>x \<in> set (pk_imetas p). inst_typed (pk_ss p) conc x"
    and "all_words (scratch co)" "all_words mm" "ss_size (pk_ss p) \<le> length (scratch co)" "conc \<noteq> 0"
    and "memory_ordered (pk_ss p) conc (pk_imetas p) (scratch co, mm)"
  shows "\<exists>bs. packed S hp p bs p' \<and> insts = map fst bs \<and>
    (constants_hold (pk_ss p) conc bs (pk_imetas p) (scratch co, mm) \<longrightarrow>
     run_straight m insts (co, mm) = Inr (co\<lparr>pc := pc co + int (length insts), scratch := sc'\<rparr>, mm'))"
proof -
  obtain ims where ok: "packer_ok p" and acyc: "graph_acyclic ims" and ims: "pk_imetas p = ims"
    by (rule packing.get_work_ok [OF assms(1,2)])
  obtain bs where bs: "packed S hp p bs p'" "insts = map fst bs"
    using packing.work_loop_ends [OF assms(1) ok, of "[]"] assms(3) by (auto simp: work_to_instrs_def)
  note e = packing.packed_end_state [OF assms(1) bs(1) ok]
  have "pending p' = {#}"
    by (rule nothing_waits) (use e assms(4) acyc ims in \<open>auto simp: later_def\<close>)
  from schedule_of_families [OF assms(1,2) bs(1) this assms(5-10) _ assms(11), of m] bs show ?thesis by auto
qed

lemma untouched:
  assumes "inst_typed ss c x" "\<not> touches_memory (lin x)"
  shows "mem_touches ss sl st (lin x) = ([], [])"
proof -
  from assms have load: "lin_engine (lin x) = LOAD \<Longrightarrow> lin_opcode (lin x) = ''const'' \<and> length (lin_params (lin x)) = 2"
    and "lin_engine (lin x) \<noteq> STORE"
    by (auto simp: inst_typed_def lin_typed_def sorts_def touches_memory_def dest: list_all2_lengthD split: option.splits if_splits)
  moreover have "mem_reads (fst st) (lin_engine (lin x)) (lin_opcode (lin x), as) = []"
    if "mapM (serialize_param ss sl) (lin_params (lin x)) = Inr as" for as
  proof (cases "lin_engine (lin x)")
    case LOAD
    moreover from this load that have "length as = 2" by (simp add: mapM_Inr_iff)
    ultimately show ?thesis using load by (cases as rule: args_cases) (simp_all add: mem_reads_def)
  qed (simp_all add: mem_reads_def)
  ultimately show ?thesis by (auto simp: mem_touches_def split: sum.splits)
qed

lemma untouched_ordered:
  assumes "\<forall>x \<in> set ims. inst_typed ss c x \<and> \<not> touches_memory (lin x)"
  shows "memory_ordered ss c ims st"
proof -
  have "mem_touches ss sl st (lin (ims ! i)) = ([], [])" if "i < length ims" for i sl st
    using assms that untouched [of ss c] by simp
  then show ?thesis unfolding memory_ordered_def mem_clash_def by simp
qed

lemma no_constant_added:
  "\<forall>x \<in> set ims. opcode x \<in> {''+'', ''multiply_add''} \<longrightarrow> constant_value ss (last (param_ops (lin_params (lin x)))) = Inl AssertionError \<Longrightarrow>
     constants_hold ss c bs ims st"
  by (auto simp: constants_hold_def addend_holds_def constant_holds_def split: sum.splits)

lemma demo_facts:
  "case work_to_instrs list_sets list_positions demo_packer of Some (Inr (insts, p')) \<Rightarrow> insts = demo_instrs \<and> frontier p' = [] | _ \<Rightarrow> False"
  "list_all (\<lambda>x. inst_typed (pk_ss demo_packer) 1 x \<and> \<not> touches_memory (lin x)) (pk_imetas demo_packer)"
  "list_all (\<lambda>x. opcode x \<in> {''+'', ''multiply_add''} \<longrightarrow>
     constant_value (pk_ss demo_packer) (last (param_ops (lin_params (lin x)))) = Inl AssertionError) (pk_imetas demo_packer)"
  "run_work (pk_ss demo_packer) 1 (pk_imetas demo_packer) ([0], []) = Inr ([10], [])"
  by code_simp+

theorem schedule_computes_program_witness:
  "run_straight (new_machine [] [] 1 1 Map.empty) demo_instrs (new_core 1 0, []) =
     Inr ((new_core 1 0)\<lparr>pc := 2, scratch := [10]\<rparr>, [])"
proof -
  from demo_facts(1) obtain p' where w: "work_to_instrs list_sets list_positions demo_packer = Some (Inr (demo_instrs, p'))"
    "frontier p' = []" by (auto split: option.splits sum.splits)
  have typed: "\<forall>x \<in> set (pk_imetas demo_packer). inst_typed (pk_ss demo_packer) 1 x \<and> \<not> touches_memory (lin x)"
    using demo_facts(2) by (simp add: list_all_iff)
  have "constants_hold (pk_ss demo_packer) 1 bs (pk_imetas demo_packer) ([0], [])" for bs
    by (rule no_constant_added) (use demo_facts(3) in \<open>simp add: list_all_iff\<close>)
  with schedule_computes_program [OF list_packing demo_get_work w, of "new_core 1 0" "[]" "[10]" "[]"] demo_facts(4) typed
    untouched_ordered [OF typed] demo_imetas(2)
  show ?thesis by (auto simp: new_core_def all_words_def is_word_def demo_instrs_def)
qed

end
