(* ===== verification/Split_Props.thy ===== *)
theory Split_Props
  imports Split_Semantics
begin

text \<open>
  The four ways the scheduler splits or converts an instruction, each equivalent to the instruction
  on the machine, with concrete instances.
\<close>

section \<open>Splitting\<close>

text \<open>
  A scratch space with three vectors \<open>u v w\<close> at 0, 8 and 16, a scalar \<open>s\<close> at 24 and the constant 3 as
  a vector at 25 and as a scalar at 33; and the scheduler's state for one instruction on them.
\<close>

definition split_space :: scratch_space where
  "split_space = (case
     rbind (alloc_wide_word new_space ''u'' 1) (\<lambda>(_, _, s1).
     rbind (alloc_wide_word s1 ''v'' 1) (\<lambda>(_, _, s2).
     rbind (alloc_wide_word s2 ''w'' 1) (\<lambda>(_, _, s3).
     rbind (alloc_word s3 ''s'' 1) (\<lambda>(_, _, s4).
     rbind (alloc_const s4 3 True) (\<lambda>(_, s5).
     rbind (alloc_const s5 3 False) (\<lambda>(_, s6). Inr s6)))))) of Inr ss \<Rightarrow> ss | Inl _ \<Rightarrow> new_space)"

definition one_meta :: "logical_instr \<Rightarrow> imeta" where
  "one_meta l = \<lparr>instid = 0, lin = l, tid = - 1, instid_in_thread = - 1, after = [], tidrange = SET_MINUS_ONE\<rparr>"

definition one_packer :: "logical_instr \<Rightarrow> packer" where
  "one_packer l = (case new_packer list_sets [one_meta l] 1 1 split_space of Inr p \<Rightarrow> p)"

lemma one_packer_ok: "packer_ok (one_packer l)" "pk_ss (one_packer l) = split_space"
  "pk_imetas (one_packer l) = [one_meta l]" "pk_conc_threads (one_packer l) = 1"
proof -
  have "graph_ok [one_meta l]" by (simp add: graph_ok_def one_meta_def)
  from lists.new_packer_ok [OF this] obtain p where "new_packer list_sets [one_meta l] 1 1 split_space = Inr p"
    "packer_ok p" "pk_ss p = split_space" "pk_imetas p = [one_meta l]" "pk_conc_threads p = 1" by metis
  then show "packer_ok (one_packer l)" "pk_ss (one_packer l) = split_space"
    "pk_imetas (one_packer l) = [one_meta l]" "pk_conc_threads (one_packer l) = 1"
    by (simp_all add: one_packer_def)
qed

definition vec :: "string \<Rightarrow> bool \<Rightarrow> logical_op" where "vec n r = LR n 0 True r"
definition scl :: "string \<Rightarrow> bool \<Rightarrow> logical_op" where "scl n r = LR n 0 False r"

definition valu_add :: logical_instr where
  "valu_add = \<lparr>lin_engine = VALU, lin_opcode = ''+'', lin_params = [Op (vec ''u'' False), Op (vec ''v'' True), Op (vec ''w'' True)]\<rparr>"
definition valu_mul_add :: logical_instr where
  "valu_mul_add = \<lparr>lin_engine = VALU, lin_opcode = ''multiply_add'',
     lin_params = [Op (vec ''u'' False), Op (vec ''u'' True), Op (vec ''v'' True), Op (vec ''w'' True)]\<rparr>"
definition valu_broadcast :: logical_instr where
  "valu_broadcast = \<lparr>lin_engine = VALU, lin_opcode = ''vbroadcast'', lin_params = [Op (vec ''u'' False), Op (scl ''s'' True)]\<rparr>"
definition valu_add_const :: logical_instr where
  "valu_add_const = \<lparr>lin_engine = VALU, lin_opcode = ''+'', lin_params = [Op (vec ''u'' False), Op (vec ''u'' True), Op (vec ''_KV_3'' True)]\<rparr>"
definition alu_add_const :: logical_instr where
  "alu_add_const = \<lparr>lin_engine = ALU, lin_opcode = ''+'', lin_params = [Op (scl ''s'' False), Op (scl ''s'' True), Op (scl ''_K_3'' True)]\<rparr>"

text \<open>
  C5: splitting a vector instruction into the eight scalar ones of its lanes does not change what is
  computed. The parts take the instruction's place among the pending work, and their ALU slots
  together write exactly what the VALU slot writes, or raise the same exception.
\<close>

theorem split_valu_equivalent:
  assumes "packing hp S" and "packer_ok p" "lin_engine (lin x) = VALU"
    and "split_one_free_valu_to_alu S x p = Inr p'"
    and "serialize p x = Inr (VALU, s)" and "lin_params (lin x) = [Op d, Op a, Op b]"
  shows "\<exists>parts es. exchanged x parts p p' \<and> mapM (serialize p') parts = Inr es \<and>
    (\<forall>sc mm. slots_put sc mm es = slot_puts sc mm VALU s)"
  by (rule packing.valu_parts [OF assms])

theorem split_valu_equivalent_witness:
  "\<exists>p' parts es. split_one_free_valu_to_alu list_sets (one_meta valu_add) (one_packer valu_add) = Inr p' \<and>
     mapM (serialize p') parts = Inr es \<and>
     slots_put (replicate 34 7) [] es = slot_puts (replicate 34 7) [] VALU (''+'', [0, 8, 16])"
proof -
  have "case split_one_free_valu_to_alu list_sets (one_meta valu_add) (one_packer valu_add) of Inr _ \<Rightarrow> True | Inl _ \<Rightarrow> False"
    by code_simp
  then obtain p' where p': "split_one_free_valu_to_alu list_sets (one_meta valu_add) (one_packer valu_add) = Inr p'"
    by (auto split: sum.splits)
  have s: "serialize (one_packer valu_add) (one_meta valu_add) = Inr (VALU, (''+'', [0, 8, 16]))" by code_simp
  have l: "lin_engine (lin (one_meta valu_add)) = VALU" "lin_params (lin (one_meta valu_add)) =
      [Op (vec ''u'' False), Op (vec ''v'' True), Op (vec ''w'' True)]" by (simp_all add: one_meta_def valu_add_def)
  from split_valu_equivalent [OF list_packing one_packer_ok(1) l(1) p' s l(2)] p' show ?thesis by blast
qed

text \<open>
  C6: splitting a multiply-add. Eight products take the place of the instruction, each unlocking one
  of eight sums that take over its successors. When the instruction computes, the products of one
  bundle and, on the scratch space they leave, the sums of a later one write exactly what it writes;
  that the destination does not overlap the addend is what the code tests.
\<close>

theorem split_multiply_add_equivalent:
  assumes "packing hp S" and "packer_ok p" and "split_one_free_multiply_add S hp x p = Inr (True, p')"
    and "serialize p x = Inr (VALU, (''multiply_add'', [da, aa, ba, ca]))"
    and "lin_params (lin x) = [Op d, Op a, Op b, Op c]" and "op_is_vector d" "op_is_vector c"
  shows "\<exists>first second es1 es2. set (free p') = set (free p) - {x} \<union> set first \<and>
    pk_imetas p' = pk_imetas p @ second \<and>
    (\<forall>k < VLEN. set (after (first ! k)) = {length (pk_imetas p) + k}) \<and>
    mapM (serialize p') first = Inr es1 \<and> mapM (serialize p') second = Inr es2 \<and>
    (\<forall>sc mm ps. {da, ca} \<subseteq> {0..int (length sc) - int VLEN} \<longrightarrow>
      slot_puts sc mm VALU (''multiply_add'', [da, aa, ba, ca]) = Inr ps \<longrightarrow>
      (\<exists>ps1 sc'. slots_put sc mm es1 = Inr ps1 \<and> commit (dict_puts ps1 []) sc = Inr sc' \<and>
        slots_put sc' mm es2 = Inr ps))"
  by (rule packing.multiply_add_parts [OF assms])

theorem split_multiply_add_equivalent_witness:
  "\<exists>es1 es2 ps ps1 sc'. slot_puts (replicate 34 7) [] VALU (''multiply_add'', [0, 0, 8, 16]) = Inr ps \<and>
     slots_put (replicate 34 7) [] es1 = Inr ps1 \<and> commit (dict_puts ps1 []) (replicate 34 7) = Inr sc' \<and>
     slots_put sc' [] es2 = Inr ps"
proof -
  let ?x = "one_meta valu_mul_add" and ?p = "one_packer valu_mul_add" and ?sc = "replicate 34 7"
  have "case split_one_free_multiply_add list_sets list_positions ?x ?p of Inr (b, _) \<Rightarrow> b | Inl _ \<Rightarrow> False"
    by code_simp
  then obtain p' where p': "split_one_free_multiply_add list_sets list_positions ?x ?p = Inr (True, p')"
    by (auto split: sum.splits)
  have s: "serialize ?p ?x = Inr (VALU, (''multiply_add'', [0, 0, 8, 16]))" by code_simp
  have l: "lin_params (lin ?x) = [Op (vec ''u'' False), Op (vec ''u'' True), Op (vec ''v'' True), Op (vec ''w'' True)]"
    "op_is_vector (vec ''u'' False)" "op_is_vector (vec ''w'' True)"
    by (simp_all add: one_meta_def valu_mul_add_def vec_def)
  have "case slot_puts ?sc [] VALU (''multiply_add'', [0, 0, 8, 16]) of Inr _ \<Rightarrow> True | Inl _ \<Rightarrow> False" by code_simp
  then obtain ps where ps: "slot_puts ?sc [] VALU (''multiply_add'', [0, 0, 8, 16]) = Inr ps"
    by (auto split: sum.splits)
  have "{0, 16} \<subseteq> {0..int (length ?sc) - int VLEN}" by (simp add: VLEN_def)
  with split_multiply_add_equivalent [OF list_packing one_packer_ok(1) p' s l] ps show ?thesis by blast
qed

text \<open>
  C7: splitting a broadcast into eight \<open>|\<close> operations of the source with itself: on a scratch space
  of 32-bit words they write what the broadcast writes.
\<close>

theorem split_broadcast_equivalent:
  assumes "packing hp S" and "packer_ok p" "lin_engine (lin x) = VALU"
    and "split_one_free_broadcast S x p = Inr (True, p')"
    and "serialize p x = Inr (VALU, s)" and "lin_params (lin x) = [Op d, Op a]" and "at_start d"
  shows "\<exists>parts es. exchanged x parts p p' \<and> mapM (serialize p') parts = Inr es \<and>
    (\<forall>sc mm. all_words sc \<longrightarrow> slots_put sc mm es = slot_puts sc mm VALU s)"
  by (rule packing.broadcast_parts [OF assms])

theorem split_broadcast_equivalent_witness:
  "\<exists>p' parts es. mapM (serialize p') parts = Inr es \<and>
     slots_put (replicate 34 7) [] es = slot_puts (replicate 34 7) [] VALU (''vbroadcast'', [0, 24])"
proof -
  let ?x = "one_meta valu_broadcast" and ?p = "one_packer valu_broadcast"
  have "case split_one_free_broadcast list_sets ?x ?p of Inr (b, _) \<Rightarrow> b | Inl _ \<Rightarrow> False" by code_simp
  then obtain p' where p': "split_one_free_broadcast list_sets ?x ?p = Inr (True, p')"
    by (auto split: sum.splits)
  have s: "serialize ?p ?x = Inr (VALU, (''vbroadcast'', [0, 24]))" by code_simp
  have l: "lin_engine (lin ?x) = VALU" "lin_params (lin ?x) = [Op (vec ''u'' False), Op (scl ''s'' True)]"
    "at_start (vec ''u'' False)" by (simp_all add: one_meta_def valu_broadcast_def at_start_def vec_def)
  have "all_words (replicate 34 7)" by (simp add: all_words_def is_word_def)
  with split_broadcast_equivalent [OF list_packing one_packer_ok(1) l(1) p' s l(2,3)] show ?thesis by blast
qed

text \<open>
  C8: turning an addition of a constant into immediate additions of the flow engine: where the
  constant's words hold its value, the eight \<open>add_imm\<close> slots write what the VALU slot writes.
\<close>

theorem split_vector_imm_equivalent:
  assumes "packing hp S" and "packer_ok p" "lin_engine (lin x) = VALU"
    and "split_one_vector_imm_add S x p = Inr p'"
    and "serialize p x = Inr (VALU, (''+'', [da, aa, ca]))" and "lin_params (lin x) = [Op d, Op a, Op c]"
    and "at_start d" "at_start a" and "list_all (\<lambda>r. \<not> is_array_op r) [d, a, c]"
    and "constant_value (pk_ss p) c = Inr v"
  shows "\<exists>parts es. exchanged x parts p p' \<and> mapM (serialize p') parts = Inr es \<and>
    (\<forall>sc mm. (\<forall>i \<in> set lanes. py_get sc (ca + i) = Inr (r32 v)) \<longrightarrow>
      slots_put sc mm es = slot_puts sc mm VALU (''+'', [da, aa, ca]))"
  by (rule packing.vector_imm_parts [OF assms])

theorem split_vector_imm_equivalent_witness:
  "\<exists>p' parts es. mapM (serialize p') parts = Inr es \<and>
     slots_put (replicate 34 3) [] es = slot_puts (replicate 34 3) [] VALU (''+'', [0, 0, 25])"
proof -
  let ?x = "one_meta valu_add_const" and ?p = "one_packer valu_add_const"
  have "case split_one_vector_imm_add list_sets ?x ?p of Inr _ \<Rightarrow> True | Inl _ \<Rightarrow> False" by code_simp
  then obtain p' where p': "split_one_vector_imm_add list_sets ?x ?p = Inr p'" by (auto split: sum.splits)
  have s: "serialize ?p ?x = Inr (VALU, (''+'', [0, 0, 25]))" by code_simp
  have l: "lin_engine (lin ?x) = VALU" "lin_params (lin ?x) = [Op (vec ''u'' False), Op (vec ''u'' True), Op (vec ''_KV_3'' True)]"
    "at_start (vec ''u'' False)" "at_start (vec ''u'' True)"
    "list_all (\<lambda>r. \<not> is_array_op r) [vec ''u'' False, vec ''u'' True, vec ''_KV_3'' True]"
    by (simp_all add: one_meta_def valu_add_const_def at_start_def vec_def is_array_op_def)
  have v: "constant_value (pk_ss ?p) (vec ''_KV_3'' True) = Inr 3" by code_simp
  have "\<forall>i \<in> set lanes. py_get (replicate 34 3) (25 + i) = Inr (r32 3)" by code_simp
  with split_vector_imm_equivalent [OF list_packing one_packer_ok(1) l(1) p' s l(2-5) v] show ?thesis by blast
qed

text \<open>
  C9: the same for one scalar addition: the instruction is exchanged for one \<open>add_imm\<close> that writes
  the same word, where the constant's word holds its value.
\<close>

theorem convert_scalar_imm_equivalent:
  assumes "packing hp S" and "packer_ok p" "lin_engine (lin x) = ALU"
    and "convert_one_scalar_imm_add S x p = Inr p'"
    and "serialize p x = Inr (ALU, (''+'', [da, aa, ca]))" and "lin_params (lin x) = [Op d, Op a, Op c]"
    and "constant_value (pk_ss p) c = Inr v"
  shows "\<exists>y s. set (free p') = set (free p) - {x} \<union> {y} \<and> serialize p' y = Inr (FLOW, s) \<and>
    (\<forall>sc mm. py_get sc ca = Inr (r32 v) \<longrightarrow>
      slot_puts sc mm FLOW s = slot_puts sc mm ALU (''+'', [da, aa, ca]))"
  by (rule packing.scalar_imm_part [OF assms])

theorem convert_scalar_imm_equivalent_witness:
  "\<exists>p' y s. serialize p' y = Inr (FLOW, s) \<and>
     slot_puts (replicate 34 3) [] FLOW s = slot_puts (replicate 34 3) [] ALU (''+'', [24, 24, 33])"
proof -
  let ?x = "one_meta alu_add_const" and ?p = "one_packer alu_add_const"
  have "case convert_one_scalar_imm_add list_sets ?x ?p of Inr _ \<Rightarrow> True | Inl _ \<Rightarrow> False" by code_simp
  then obtain p' where p': "convert_one_scalar_imm_add list_sets ?x ?p = Inr p'" by (auto split: sum.splits)
  have s: "serialize ?p ?x = Inr (ALU, (''+'', [24, 24, 33]))" by code_simp
  have l: "lin_engine (lin ?x) = ALU" "lin_params (lin ?x) = [Op (scl ''s'' False), Op (scl ''s'' True), Op (scl ''_K_3'' True)]"
    by (simp_all add: one_meta_def alu_add_const_def)
  have v: "constant_value (pk_ss ?p) (scl ''_K_3'' True) = Inr 3" by code_simp
  have "py_get (replicate 34 3) 33 = Inr (r32 3)" by code_simp
  with convert_scalar_imm_equivalent [OF list_packing one_packer_ok(1) l(1) p' s l(2) v] show ?thesis by blast
qed

end
