(* ===== verification/Kernel.thy ===== *)
theory Kernel
  imports Machine_Props
begin

text \<open>
  The problem the machine solves (\<open>problem.py\<close>, from \<open>class Tree\<close> on): the implicit binary tree,
  the batch of inputs, the hash, the reference kernel on objects, the flat memory image and the
  reference kernel on flat memory, which also fills the value trace. The random numbers of the
  \<open>generate\<close> methods are a parameter.
\<close>

section \<open>Data\<close>

record tree =
  tree_height :: nat
  tree_values :: "int list"

record input =
  inp_indices :: "int list"
  inp_values :: "int list"
  inp_rounds :: int

definition tree_generate :: "(nat \<Rightarrow> int) \<Rightarrow> nat \<Rightarrow> tree" where
  "tree_generate rnd h = \<lparr>tree_height = h, tree_values = map rnd [0..<2 ^ (h + 1) - 1]\<rparr>"

definition input_generate :: "(nat \<Rightarrow> int) \<Rightarrow> nat \<Rightarrow> int \<Rightarrow> input" where
  "input_generate rnd batch_size rnds =
     \<lparr>inp_indices = replicate batch_size 0, inp_values = map rnd [0..<batch_size], inp_rounds = rnds\<rparr>"

section \<open>The hash\<close>

type_synonym stage = "string \<times> int \<times> string \<times> string \<times> int"

definition HASH_STAGES :: "stage list" where
  "HASH_STAGES =
     [(''+'', 0x7ED55D16, ''+'', ''<<'', 12),
      (''^'', 0xC761C23C, ''^'', ''>>'', 19),
      (''+'', 0x165667B1, ''+'', ''<<'', 5),
      (''+'', 0xD3A2646C, ''^'', ''<<'', 9),
      (''+'', 0xFD7046C5, ''+'', ''<<'', 3),
      (''^'', 0xB55A4F09, ''^'', ''>>'', 16)]"

text \<open>The table \<open>fns\<close>: a dictionary with four keys.\<close>

definition hash_fns :: "string \<rightharpoonup> (int \<Rightarrow> int \<Rightarrow> int)" where
  "hash_fns =
     [''+'' \<mapsto> (+), ''^'' \<mapsto> (XOR), ''<<'' \<mapsto> (\<lambda>x y. push_bit (nat y) x),
      ''>>'' \<mapsto> (\<lambda>x y. drop_bit (nat y) x)]"

definition hash_fn :: "string \<Rightarrow> int \<Rightarrow> int \<Rightarrow> int res" where
  "hash_fn op x y = (case hash_fns op of None \<Rightarrow> Inl KeyError | Some f \<Rightarrow> Inr (f x y))"

definition hash_stage :: "int \<Rightarrow> stage \<Rightarrow> int res" where
  "hash_stage a st =
     (case st of (op1, val1, op2, op3, val3) \<Rightarrow>
       rbind (hash_fn op1 a val1) (\<lambda>x.
       rbind (hash_fn op3 a val3) (\<lambda>y.
       rbind (hash_fn op2 (r32 x) (r32 y)) (\<lambda>z. Inr (r32 z)))))"

definition myhash :: "int \<Rightarrow> int res" where
  "myhash a = foldM hash_stage HASH_STAGES a"

definition myhash_traced ::
  "int \<Rightarrow> (trace_key \<rightharpoonup> int) \<Rightarrow> int \<Rightarrow> int \<Rightarrow> (int \<times> (trace_key \<rightharpoonup> int)) res" where
  "myhash_traced a tr rnd batch_i =
     foldM (\<lambda>(a, tr) (i, st). rbind (hash_stage a st)
         (\<lambda>a'. Inr (a', tr(Key4 rnd batch_i ''hash_stage'' (int i) \<mapsto> a'))))
       (enumerate 0 HASH_STAGES) (a, tr)"

section \<open>The reference kernel on objects\<close>

definition next_index :: "int \<Rightarrow> int \<Rightarrow> int" where
  "next_index idx val = 2 * idx + (if val mod 2 = 0 then 1 else 2)"

definition wrap_index :: "int \<Rightarrow> int \<Rightarrow> int" where
  "wrap_index n idx = (if idx \<ge> n then 0 else idx)"

definition kernel_item :: "tree \<Rightarrow> input \<Rightarrow> nat \<Rightarrow> input res" where
  "kernel_item t inp i =
     rbind (py_get (inp_indices inp) (int i)) (\<lambda>idx.
     rbind (py_get (inp_values inp) (int i)) (\<lambda>val.
     rbind (py_get (tree_values t) idx) (\<lambda>node.
     rbind (myhash (val XOR node)) (\<lambda>val'.
     let idx' = wrap_index (int (length (tree_values t))) (next_index idx val') in
     rbind (py_set (inp_values inp) (int i) val') (\<lambda>vs.
     rbind (py_set (inp_indices inp) (int i) idx') (\<lambda>is.
       Inr (inp\<lparr>inp_values := vs, inp_indices := is\<rparr>)))))))"

definition kernel_round :: "tree \<Rightarrow> input \<Rightarrow> input res" where
  "kernel_round t inp = foldM (kernel_item t) [0..<length (inp_indices inp)] inp"

definition reference_kernel :: "tree \<Rightarrow> input \<Rightarrow> input res" where
  "reference_kernel t inp = foldM (\<lambda>inp h. kernel_round t inp) [0..<nat (inp_rounds inp)] inp"

section \<open>The flat memory image\<close>

definition build_mem_image :: "tree \<Rightarrow> input \<Rightarrow> int list" where
  "build_mem_image t inp =
     (let header = 7;
          n = int (length (tree_values t));
          extra_room = length (tree_values t) + length (inp_indices inp) * 2 + VLEN * 2 + 32;
          m0 = replicate (nat header + length (tree_values t) + length (inp_indices inp)
                 + length (inp_values inp) + extra_room) 0;
          forest_values_p = header;
          inp_indices_p = forest_values_p + n;
          inp_values_p = inp_indices_p + int (length (inp_values inp));
          extra_room_p = inp_values_p + int (length (inp_values inp));
          m1 = m0[0 := inp_rounds inp, 1 := n, 2 := int (length (inp_indices inp)),
                  3 := int (tree_height t), 4 := forest_values_p, 5 := inp_indices_p,
                  6 := inp_values_p, 7 := extra_room_p];
          m2 = py_splice m1 header inp_indices_p (tree_values t);
          m3 = py_splice m2 inp_indices_p inp_values_p (inp_indices inp)
      in py_splice m3 inp_values_p (int (length m3)) (inp_values inp))"

section \<open>The reference kernel on flat memory\<close>

definition kernel2_item ::
  "int \<Rightarrow> int \<times> int \<times> int \<Rightarrow> nat \<Rightarrow> int list \<times> (trace_key \<rightharpoonup> int) \<Rightarrow> nat \<Rightarrow>
     (int list \<times> (trace_key \<rightharpoonup> int)) res" where
  "kernel2_item n_nodes ptrs h mt i =
     (case (ptrs, mt) of ((forest_values_p, inp_indices_p, inp_values_p), (mm, tr)) \<Rightarrow>
     let key = Key3 (int h) (int i) in
     rbind (py_get mm (inp_indices_p + int i)) (\<lambda>idx.
     rbind (py_get mm (inp_values_p + int i)) (\<lambda>val.
     rbind (py_get mm (forest_values_p + idx)) (\<lambda>node_val.
     rbind (myhash_traced (val XOR node_val)
              (tr(key ''idx'' \<mapsto> idx, key ''val'' \<mapsto> val, key ''node_val'' \<mapsto> node_val)) (int h) (int i))
       (\<lambda>(val', tr').
     let idx' = next_index idx val';
         idx'' = wrap_index n_nodes idx';
         tr'' = tr'(key ''hashed_val'' \<mapsto> val', key ''next_idx'' \<mapsto> idx', key ''wrapped_idx'' \<mapsto> idx'') in
     rbind (py_set mm (inp_values_p + int i) val') (\<lambda>mm.
     rbind (py_set mm (inp_indices_p + int i) idx'') (\<lambda>mm. Inr (mm, tr''))))))))"

definition reference_kernel2 ::
  "int list \<Rightarrow> (trace_key \<rightharpoonup> int) \<Rightarrow> (int list \<times> (trace_key \<rightharpoonup> int)) res" where
  "reference_kernel2 mm tr =
     rbind (py_get mm 0) (\<lambda>rnds.
     rbind (py_get mm 1) (\<lambda>n_nodes.
     rbind (py_get mm 2) (\<lambda>batch_size.
     rbind (py_get mm 3) (\<lambda>forest_height.
     rbind (py_get mm 4) (\<lambda>forest_values_p.
     rbind (py_get mm 5) (\<lambda>inp_indices_p.
     rbind (py_get mm 6) (\<lambda>inp_values_p.
       foldM (\<lambda>mt h. foldM (kernel2_item n_nodes (forest_values_p, inp_indices_p, inp_values_p) h)
                        [0..<nat batch_size] mt)
         [0..<nat rnds] (mm, tr))))))))"

section \<open>The hash is a total function on words\<close>

definition hash_value :: "int \<Rightarrow> int" where
  "hash_value a = (case myhash a of Inr v \<Rightarrow> v | Inl _ \<Rightarrow> 0)"

lemma hash_stage_ok:
  assumes "st \<in> set HASH_STAGES"
  shows "\<exists>v. hash_stage a st = Inr v \<and> is_word v"
  using assms by (auto simp: HASH_STAGES_def hash_stage_def hash_fn_def hash_fns_def)

lemma myhash_ok: "myhash a = Inr (hash_value a) \<and> is_word (hash_value a)"
proof -
  have "foldM hash_stage (butlast HASH_STAGES @ [last HASH_STAGES]) a = myhash a"
    by (simp add: myhash_def HASH_STAGES_def)
  moreover obtain b where "foldM hash_stage (butlast HASH_STAGES) a = Inr b"
    using foldM_total [where P = "\<lambda>_. True" and f = hash_stage] hash_stage_ok in_set_butlastD
    by metis
  moreover obtain v where "hash_stage b (last HASH_STAGES) = Inr v" "is_word v"
    using hash_stage_ok [of "last HASH_STAGES"] by (auto simp: HASH_STAGES_def)
  ultimately have "myhash a = Inr v" by (simp add: foldM_append)
  with \<open>is_word v\<close> show ?thesis by (simp add: hash_value_def)
qed

lemmas myhash_Inr = myhash_ok [THEN conjunct1] and hash_value_word = myhash_ok [THEN conjunct2]

text \<open>Tracing only adds entries: the value is the hash, the last stage's entry is the result.\<close>

definition hash_trace :: "(trace_key \<rightharpoonup> int) \<Rightarrow> int \<Rightarrow> int \<Rightarrow> (nat \<times> stage) list \<Rightarrow> int \<Rightarrow> (trace_key \<rightharpoonup> int)"
  where "hash_trace tr rnd i sts a =
    snd (fold (\<lambda>(k, st) (a, tr). case hash_stage a st of Inl _ \<Rightarrow> (a, tr)
      | Inr a' \<Rightarrow> (a', tr(Key4 rnd i ''hash_stage'' (int k) \<mapsto> a'))) sts (a, tr))"

lemma foldM_traced:
  assumes "snd ` set sts \<subseteq> set HASH_STAGES"
  shows "foldM (\<lambda>(a, tr) (k, st). rbind (hash_stage a st)
      (\<lambda>a'. Inr (a', tr(Key4 rnd i ''hash_stage'' (int k) \<mapsto> a')))) sts (a, tr) =
    rbind (foldM hash_stage (map snd sts) a) (\<lambda>v. Inr (v, hash_trace tr rnd i sts a))"
  using assms
proof (induction sts arbitrary: a tr)
  case (Cons s sts)
  obtain k st where s: "s = (k, st)" by (cases s)
  with Cons.prems have "st \<in> set HASH_STAGES" by simp
  then obtain v where "hash_stage a st = Inr v" using hash_stage_ok by blast
  with Cons s show ?case by (simp add: hash_trace_def fun_upd_def)
qed (simp add: hash_trace_def)

lemma myhash_traced_eq:
  "myhash_traced a tr rnd i = Inr (hash_value a, hash_trace tr rnd i (enumerate 0 HASH_STAGES) a)"
proof -
  have "snd ` set (enumerate 0 HASH_STAGES) \<subseteq> set HASH_STAGES"
    by (metis list.set_map map_snd_enumerate order_refl)
  from foldM_traced [OF this] myhash_Inr [unfolded myhash_def] show ?thesis
    by (simp add: myhash_traced_def)
qed

section \<open>Every item is a walk of its own\<close>

definition walk :: "tree \<Rightarrow> int \<times> int \<Rightarrow> int \<times> int" where
  "walk t iv =
     (let v = hash_value (snd iv XOR (tree_values t ! nat (fst iv)))
      in (wrap_index (int (length (tree_values t))) (next_index (fst iv) v), v))"

definition input_ok :: "tree \<Rightarrow> input \<Rightarrow> bool" where
  "input_ok t inp \<longleftrightarrow> length (inp_values inp) = length (inp_indices inp) \<and>
     (\<forall>idx \<in> set (inp_indices inp). 0 \<le> idx \<and> idx < int (length (tree_values t)))"

definition item :: "input \<Rightarrow> nat \<Rightarrow> int \<times> int" where
  "item inp i = (inp_indices inp ! i, inp_values inp ! i)"

definition set_item :: "input \<Rightarrow> nat \<Rightarrow> int \<times> int \<Rightarrow> input" where
  "set_item inp i iv = inp\<lparr>inp_values := (inp_values inp)[i := snd iv],
     inp_indices := (inp_indices inp)[i := fst iv]\<rparr>"

lemma walk_index:
  assumes "0 \<le> fst iv" "fst iv < int (length (tree_values t))"
  shows "0 \<le> fst (walk t iv) \<and> fst (walk t iv) < int (length (tree_values t))"
  using assms by (auto simp: walk_def wrap_index_def next_index_def Let_def)

lemma kernel_item_walk:
  assumes "input_ok t inp" and "i < length (inp_indices inp)"
  shows "kernel_item t inp i = Inr (set_item inp i (walk t (item inp i)))"
proof -
  have "0 \<le> inp_indices inp ! i" "inp_indices inp ! i < int (length (tree_values t))"
    using assms by (auto simp: input_ok_def)
  with assms show ?thesis
    by (simp add: kernel_item_def py_simps myhash_Inr input_ok_def set_item_def walk_def item_def Let_def)
qed

lemma set_item_ok:
  assumes "input_ok t inp" and "i < length (inp_indices inp)"
  shows "input_ok t (set_item inp i (walk t (item inp i)))"
proof -
  have "0 \<le> inp_indices inp ! i" "inp_indices inp ! i < int (length (tree_values t))"
    using assms by (auto simp: input_ok_def)
  then have "0 \<le> fst (walk t (item inp i))" "fst (walk t (item inp i)) < int (length (tree_values t))"
    using walk_index [of "item inp i" t] by (auto simp: item_def)
  with assms show ?thesis
    by (auto simp: input_ok_def set_item_def dest!: subsetD [OF set_update_subset_insert])
qed

definition walked :: "tree \<Rightarrow> input \<Rightarrow> nat \<Rightarrow> input \<Rightarrow> bool" where
  "walked t inp r inp' \<longleftrightarrow> input_ok t inp' \<and> inp_rounds inp' = inp_rounds inp \<and>
     length (inp_indices inp') = length (inp_indices inp) \<and>
     (\<forall>i < length (inp_indices inp). item inp' i = (walk t ^^ r) (item inp i))"

lemma item_set_item:
  assumes "length (inp_values inp) = length (inp_indices inp)" and "i < length (inp_indices inp)"
  shows "item (set_item inp i iv) j = (if j = i then iv else item inp j)"
  using assms by (auto simp: item_def set_item_def)

lemma kernel_round_walked:
  assumes "input_ok t inp"
  shows "\<exists>inp'. kernel_round t inp = Inr inp' \<and> walked t inp (Suc 0) inp'"
proof -
  let ?b = "length (inp_indices inp)"
  have "\<exists>inp'. foldM (kernel_item t) [0..<k] inp = Inr inp' \<and> input_ok t inp' \<and>
      inp_rounds inp' = inp_rounds inp \<and> length (inp_indices inp') = ?b \<and>
      (\<forall>i < ?b. item inp' i = (if i < k then walk t (item inp i) else item inp i))"
    if "k \<le> ?b" for k
    using that
  proof (induction k)
    case (Suc k)
    then obtain inp' where inp': "foldM (kernel_item t) [0..<k] inp = Inr inp'" "input_ok t inp'"
      "inp_rounds inp' = inp_rounds inp" "length (inp_indices inp') = ?b"
      "\<forall>i < ?b. item inp' i = (if i < k then walk t (item inp i) else item inp i)" by auto
    have k: "k < length (inp_indices inp')" using Suc.prems inp' by simp
    have len: "length (inp_values inp') = length (inp_indices inp')" using inp'(2) by (simp add: input_ok_def)
    let ?inp = "set_item inp' k (walk t (item inp' k))"
    from kernel_item_walk [OF inp'(2) k] inp'(1)
    have "foldM (kernel_item t) [0..<Suc k] inp = Inr ?inp" by (simp add: foldM_append)
    moreover have "\<forall>i < ?b. item ?inp i = (if i < Suc k then walk t (item inp i) else item inp i)"
      using inp'(5) Suc.prems by (simp add: item_set_item [OF len k] less_Suc_eq)
    ultimately show ?case
      using set_item_ok [OF inp'(2) k] inp' by (auto simp: set_item_def)
  qed (use assms in auto)
  from this [of ?b] show ?thesis
    by (auto simp: kernel_round_def walked_def)
qed

lemma walked_trans: "walked t inp r inp' \<Longrightarrow> walked t inp' (Suc 0) inp'' \<Longrightarrow> walked t inp (Suc r) inp''"
  by (auto simp: walked_def)

lemma rounds_walked:
  assumes "input_ok t inp"
  shows "\<exists>inp'. foldM (\<lambda>inp h. kernel_round t inp) [0..<r] inp = Inr inp' \<and> walked t inp r inp'"
proof (induction r)
  case 0
  show ?case using assms by (simp add: walked_def)
next
  case (Suc r)
  then obtain inp' where inp': "foldM (\<lambda>inp h. kernel_round t inp) [0..<r] inp = Inr inp'" "walked t inp r inp'"
    by auto
  then have "input_ok t inp'" by (simp add: walked_def)
  from kernel_round_walked [OF this] inp' show ?case by (auto simp: foldM_append intro: walked_trans)
qed

lemma reference_kernel_walks:
  assumes "input_ok t inp"
  shows "\<exists>inp'. reference_kernel t inp = Inr inp' \<and> walked t inp (nat (inp_rounds inp)) inp'"
  unfolding reference_kernel_def by (rule rounds_walked [OF assms])

section \<open>The layout of the memory image\<close>

definition mem_header :: "tree \<Rightarrow> input \<Rightarrow> int list" where
  "mem_header t inp =
     (let n = int (length (tree_values t)); b = int (length (inp_indices inp))
      in [inp_rounds inp, n, b, int (tree_height t), 7, 7 + n, 7 + n + b])"

definition mem_layout :: "tree \<Rightarrow> input \<Rightarrow> int list" where
  "mem_layout t inp = mem_header t inp @ tree_values t @ inp_indices inp @ inp_values inp"

lemma length_mem_header [simp]: "length (mem_header t inp) = 7"
  by (simp add: mem_header_def Let_def)

lemma py_splice_nat:
  "a \<le> b \<Longrightarrow> b \<le> length xs \<Longrightarrow> py_splice xs (int a) (int b) vs = take a xs @ vs @ drop b xs"
  by (simp add: py_splice_def py_clamp_def min_def max_def)

lemma header_updates:
  assumes "8 \<le> N"
  shows "(replicate N 0)[0 := a0, 1 := a1, 2 := a2, 3 := a3, 4 := a4, 5 := a5, 6 := a6, 7 := a7] =
    [a0, a1, a2, a3, a4, a5, a6, a7 :: int] @ replicate (N - 8) 0"
proof -
  have "replicate N (0 :: int) = replicate 8 0 @ replicate (N - 8) 0"
    using assms by (simp flip: replicate_add)
  then show ?thesis by (simp add: numeral_eq_Suc)
qed

lemma splice_int:
  "0 \<le> lo \<Longrightarrow> lo \<le> hi \<Longrightarrow> hi \<le> int (length xs) \<Longrightarrow>
     py_splice xs lo hi vs = take (nat lo) xs @ vs @ drop (nat hi) xs"
  using py_splice_nat [of "nat lo" "nat hi" xs vs] by simp

lemma build_mem_image_layout:
  assumes "length (inp_values inp) = length (inp_indices inp)"
  shows "build_mem_image t inp = mem_layout t inp"
proof -
  let ?V = "tree_values t" and ?I = "inp_indices inp" and ?W = "inp_values inp"
  let ?n = "length ?V" and ?b = "length ?I"
  let ?k = "?n + 2 * ?b + (?n + ?b * 2 + VLEN * 2 + 32) - 1"
  let ?m1 = "mem_header t inp @ [7 + int ?n + 2 * int ?b] @ replicate ?k 0"
  define N where "N = nat 7 + ?n + ?b + length ?W + (?n + ?b * 2 + VLEN * 2 + 32)"
  have N: "8 \<le> N" "N - 8 = ?k" using assms by (simp_all add: N_def)
  have m1: "(replicate N 0)[0 := inp_rounds inp, 1 := int ?n, 2 := int ?b, 3 := int (tree_height t), 4 := 7,
      5 := 7 + int ?n, 6 := 7 + int ?n + int (length ?W), 7 := 7 + int ?n + int (length ?W) + int (length ?W)] = ?m1"
    unfolding header_updates [OF N(1)] N(2) using assms by (simp add: mem_header_def Let_def)
  have m2: "py_splice ?m1 7 (7 + int ?n) ?V = mem_header t inp @ ?V @ drop (7 + ?n) ?m1"
    by (subst splice_int) (simp_all add: nat_add_distrib)
  let ?m2 = "mem_header t inp @ ?V @ drop (7 + ?n) ?m1"
  have m3: "py_splice ?m2 (7 + int ?n) (7 + int ?n + int (length ?W)) ?I =
      mem_header t inp @ ?V @ ?I @ drop (7 + ?n + ?b) ?m2"
    using assms by (subst splice_int) (simp_all add: nat_add_distrib)
  let ?m3 = "mem_header t inp @ ?V @ ?I @ drop (7 + ?n + ?b) ?m2"
  have m4: "py_splice ?m3 (7 + int ?n + int (length ?W)) (int (length ?m3)) ?W = mem_layout t inp"
    using assms by (subst splice_int) (simp_all add: nat_add_distrib mem_layout_def)
  show ?thesis
    unfolding build_mem_image_def Let_def N_def [symmetric] m1 m2 m3 m4 ..
qed

section \<open>The flat kernel refines the kernel on objects\<close>

lemma mem_layout_get:
  assumes "length (inp_values inp) = length (inp_indices inp)"
  shows "0 \<le> idx \<Longrightarrow> idx < int (length (tree_values t)) \<Longrightarrow>
      py_get (mem_layout t inp) (7 + idx) = Inr (tree_values t ! nat idx)"
    and "i < length (inp_indices inp) \<Longrightarrow>
      py_get (mem_layout t inp) (7 + int (length (tree_values t)) + int i) = Inr (inp_indices inp ! i)"
    and "i < length (inp_indices inp) \<Longrightarrow>
      py_get (mem_layout t inp) (7 + int (length (tree_values t)) + int (length (inp_indices inp)) + int i) =
      Inr (inp_values inp ! i)"
proof -
  let ?H = "mem_header t inp" and ?V = "tree_values t" and ?I = "inp_indices inp" and ?W = "inp_values inp"
  show "py_get (mem_layout t inp) (7 + idx) = Inr (?V ! nat idx)" if "0 \<le> idx" "idx < int (length ?V)"
    using py_get_append [of idx ?H "?V @ ?I @ ?W"] that by (simp add: mem_layout_def py_get_append1)
  show "py_get (mem_layout t inp) (7 + int (length ?V) + int i) = Inr (?I ! i)" if "i < length ?I"
    using py_get_append [of "int i" "?H @ ?V" "?I @ ?W"] that
    by (simp add: mem_layout_def py_get_append1)
  show "py_get (mem_layout t inp) (7 + int (length ?V) + int (length ?I) + int i) = Inr (?W ! i)"
    if "i < length ?I"
    using py_get_append [of "int i" "?H @ ?V @ ?I" "?W"] that assms
    by (simp add: mem_layout_def py_simps add.assoc)
qed

lemma mem_layout_set:
  assumes "length (inp_values inp) = length (inp_indices inp)" and "i < length (inp_indices inp)"
  shows "rbind (py_set (mem_layout t inp)
        (7 + int (length (tree_values t)) + int (length (inp_indices inp)) + int i) v)
      (\<lambda>mm. py_set mm (7 + int (length (tree_values t)) + int i) idx) =
    Inr (mem_layout t (set_item inp i (idx, v)))"
proof -
  let ?H = "mem_header t inp" and ?V = "tree_values t" and ?I = "inp_indices inp" and ?W = "inp_values inp"
  have 1: "py_set (mem_layout t inp) (7 + int (length ?V) + int (length ?I) + int i) v =
      Inr (?H @ ?V @ ?I @ ?W[i := v])"
    using py_set_append [of "int i" "?H @ ?V @ ?I" ?W v] assms
    by (simp add: mem_layout_def py_simps add.assoc)
  have 2: "py_set (?H @ ?V @ ?I @ ?W[i := v]) (7 + int (length ?V) + int i) idx =
      Inr (?H @ ?V @ ?I[i := idx] @ ?W[i := v])"
    using py_set_append [of "int i" "?H @ ?V" "?I @ ?W[i := v]" idx] assms
    by (simp add: py_set_append1)
  have "?H = mem_header t (set_item inp i (idx, v))" by (simp add: mem_header_def set_item_def)
  with 1 2 show ?thesis by (simp add: mem_layout_def set_item_def)
qed

lemma kernel2_item_walk:
  assumes "input_ok t inp" and "i < length (inp_indices inp)"
  shows "\<exists>tr'. kernel2_item (int (length (tree_values t)))
      (7, 7 + int (length (tree_values t)), 7 + int (length (tree_values t)) + int (length (inp_indices inp)))
      h (mem_layout t inp, tr) i =
    Inr (mem_layout t (set_item inp i (walk t (item inp i))), tr')"
proof -
  have len: "length (inp_values inp) = length (inp_indices inp)" using assms(1) by (simp add: input_ok_def)
  have idx: "0 \<le> inp_indices inp ! i" "inp_indices inp ! i < int (length (tree_values t))"
    using assms by (auto simp: input_ok_def)
  note set = mem_layout_set [OF len assms(2), where t = t, unfolded rbind_Inr_iff]
  let ?w = "walk t (item inp i)"
  obtain mm where "py_set (mem_layout t inp)
      (7 + int (length (tree_values t)) + int (length (inp_indices inp)) + int i) (snd ?w) = Inr mm"
    "py_set mm (7 + int (length (tree_values t)) + int i) (fst ?w) = Inr (mem_layout t (set_item inp i ?w))"
    using set [where v = "snd ?w" and idx = "fst ?w"] by auto
  then show ?thesis
    using mem_layout_get(1) [OF len idx] mem_layout_get(2,3) [OF len assms(2), where t = t]
    by (simp add: kernel2_item_def Let_def myhash_traced_eq walk_def item_def)
qed

lemma mem_layout_header:
  "py_get (mem_layout t inp) 0 = Inr (inp_rounds inp)"
  "py_get (mem_layout t inp) 1 = Inr (int (length (tree_values t)))"
  "py_get (mem_layout t inp) 2 = Inr (int (length (inp_indices inp)))"
  "py_get (mem_layout t inp) 3 = Inr (int (tree_height t))"
  "py_get (mem_layout t inp) 4 = Inr 7"
  "py_get (mem_layout t inp) 5 = Inr (7 + int (length (tree_values t)))"
  "py_get (mem_layout t inp) 6 = Inr (7 + int (length (tree_values t)) + int (length (inp_indices inp)))"
  by (simp_all add: mem_layout_def py_get_append1) (simp_all add: mem_header_def Let_def)

lemma reference_kernel2_refines:
  assumes "input_ok t inp"
  shows "\<exists>inp' tr'. reference_kernel t inp = Inr inp' \<and> input_ok t inp' \<and>
    reference_kernel2 (build_mem_image t inp) tr = Inr (build_mem_image t inp', tr')"
proof -
  let ?n = "int (length (tree_values t))" and ?b = "length (inp_indices inp)"
  let ?ptrs = "(7 :: int, 7 + ?n, 7 + ?n + int ?b)"
  define R where "R = (\<lambda>inp' mt. input_ok t inp' \<and> length (inp_indices inp') = ?b \<and>
    fst (mt :: int list \<times> (trace_key \<rightharpoonup> int)) = mem_layout t inp')"
  have item: "\<exists>s' t'. kernel_item t s i = Inr s' \<and> kernel2_item ?n ?ptrs h mt i = Inr t' \<and> R s' t'"
    if "i < ?b" and "R s mt" for i h s mt
  proof -
    from that have ok: "input_ok t s" and len: "length (inp_indices s) = ?b"
      and mt: "mt = (mem_layout t s, snd mt)" and i: "i < length (inp_indices s)"
      by (auto simp: R_def prod_eq_iff)
    from kernel2_item_walk [OF ok i, of h "snd mt"] len mt obtain tr' where
      "kernel2_item ?n ?ptrs h mt i = Inr (mem_layout t (set_item s i (walk t (item s i))), tr')"
      by auto
    with kernel_item_walk [OF ok i] set_item_ok [OF ok i] len show ?thesis
      by (auto simp: R_def set_item_def)
  qed
  have round: "\<exists>s' t'. kernel_round t s = Inr s' \<and> foldM (kernel2_item ?n ?ptrs h) [0..<?b] mt = Inr t' \<and> R s' t'"
    if "R s mt" for h s mt
  proof -
    from that have b: "length (inp_indices s) = ?b" by (simp add: R_def)
    show ?thesis
      unfolding kernel_round_def b by (rule foldM_simulation [where R = R, OF that]) (rule item; simp)
  qed
  have "R inp (mem_layout t inp, tr)" using assms by (simp add: R_def)
  then have "\<exists>s' t'. reference_kernel t inp = Inr s' \<and>
      foldM (\<lambda>mt h. foldM (kernel2_item ?n ?ptrs h) [0..<?b] mt) [0..<nat (inp_rounds inp)]
        (mem_layout t inp, tr) = Inr t' \<and> R s' t'"
    unfolding reference_kernel_def by (rule foldM_simulation [where R = R]) (rule round)
  then obtain inp' mt where inp': "reference_kernel t inp = Inr inp'"
    and mt: "foldM (\<lambda>mt h. foldM (kernel2_item ?n ?ptrs h) [0..<?b] mt) [0..<nat (inp_rounds inp)]
        (mem_layout t inp, tr) = Inr mt" and R: "R inp' mt" by blast
  have len: "length (inp_values inp) = ?b" using assms by (simp add: input_ok_def)
  from R have len': "length (inp_values inp') = length (inp_indices inp')"
    by (simp add: R_def input_ok_def)
  from mt have "reference_kernel2 (build_mem_image t inp) tr = Inr mt"
    unfolding build_mem_image_layout [OF len] reference_kernel2_def mem_layout_header by simp
  with R inp' build_mem_image_layout [OF len'] show ?thesis
    by (intro exI [of _ inp'] exI [of _ "snd mt"]) (simp add: R_def prod_eq_iff)
qed

section \<open>The levels of a perfect tree\<close>

text \<open>
  In a perfect tree the walk goes down one level per round and returns to the root after the last
  one: after \<open>r\<close> rounds from the root it is on level \<open>r mod (height + 1)\<close>. The code generator
  relies on it when it specialises the rounds by level.
\<close>

definition on_level :: "nat \<Rightarrow> int \<Rightarrow> bool" where
  "on_level l idx \<longleftrightarrow> 2 ^ l - 1 \<le> idx \<and> idx < 2 ^ (l + 1) - 1"

definition perfect :: "tree \<Rightarrow> bool" where
  "perfect t \<longleftrightarrow> int (length (tree_values t)) = 2 ^ (tree_height t + 1) - 1"

lemma on_level_0: "on_level 0 idx \<longleftrightarrow> idx = 0"
  by (auto simp: on_level_def)

lemma on_level_step:
  assumes "perfect t" and "l \<le> tree_height t" and "on_level l idx"
  shows "on_level (Suc l mod (tree_height t + 1)) (fst (walk t (idx, v)))"
proof -
  obtain d where d: "fst (walk t (idx, v)) = wrap_index (int (length (tree_values t))) (2 * idx + d)"
    and "d = 1 \<or> d = 2"
    by (auto simp: walk_def next_index_def Let_def)
  with assms(3) have level: "2 ^ Suc l - 1 \<le> 2 * idx + d" "2 * idx + d < 2 ^ (Suc l + 1) - 1"
    by (auto simp: on_level_def)
  show ?thesis
  proof (cases "l = tree_height t")
    case True
    with level(1) assms(1) d show ?thesis by (simp add: perfect_def wrap_index_def on_level_0)
  next
    case False
    with assms(2) have "Suc l \<le> tree_height t" by simp
    then have "(2 :: int) ^ (Suc l + 1) \<le> 2 ^ (tree_height t + 1)" by (intro power_increasing) auto
    with level assms(1) d have "fst (walk t (idx, v)) = 2 * idx + d"
      by (simp add: wrap_index_def perfect_def)
    with level \<open>Suc l \<le> tree_height t\<close> show ?thesis by (simp add: on_level_def)
  qed
qed

lemma walk_level:
  assumes "perfect t"
  shows "on_level (r mod (tree_height t + 1)) (fst ((walk t ^^ r) (0, v)))"
proof (induction r)
  case (Suc r)
  obtain idx w where iw: "(walk t ^^ r) (0, v) = (idx, w)" by (cases "(walk t ^^ r) (0, v)")
  have "r mod (tree_height t + 1) \<le> tree_height t"
    by (metis Suc_eq_plus1 less_Suc_eq_le mod_less_divisor zero_less_Suc)
  from on_level_step [OF assms this] Suc iw show ?case by (simp add: mod_Suc_eq)
qed (simp add: on_level_0)

lemma perfect_generate: "perfect (tree_generate rnd h)"
  by (simp add: perfect_def tree_generate_def)

lemma input_generate_ok: "input_ok (tree_generate rnd h) (input_generate rnd' b n)"
proof -
  have "1 < (2 :: nat) ^ (h + 1)" by (rule one_less_power) simp_all
  then have "0 < int (2 ^ (h + 1) - 1)" by linarith
  then show ?thesis by (auto simp: input_ok_def tree_generate_def input_generate_def)
qed

section \<open>The fused hash of the generated program\<close>

text \<open>
  The block \<open>computation\<close> of \<open>input_to_program.py\<close> on one lane: stages 1 and 5 are multiply-adds,
  stages 3 and 4 are fused into two multiply-adds and one exclusive or.
\<close>

definition multiply_add :: "int \<Rightarrow> int \<Rightarrow> int \<Rightarrow> int" where
  "multiply_add a b c = r32 (r32 (a * b) + c)"

definition computation :: "int \<Rightarrow> int" where
  "computation v0 =
     (let v1 = multiply_add v0 4097 0x7ED55D16;
          p1 = r32 (v1 XOR 0xC761C23C);
          p2 = r32 (drop_bit 19 v1);
          v2 = r32 (p1 XOR p2);
          p1 = multiply_add v2 33 3925396509;
          p2 = multiply_add v2 16896 2899272192;
          v4 = r32 (p1 XOR p2);
          v5 = multiply_add v4 9 0xFD7046C5;
          p1 = r32 (v5 XOR 0xB55A4F09);
          p2 = r32 (drop_bit 16 v5)
      in r32 (p1 XOR p2))"

lemma multiply_add_eq: "multiply_add a b c = r32 (a * b + c)"
  by (simp add: multiply_add_def r32_mod_simps)

lemma r32_push_bit: "r32 (push_bit n (r32 x)) = r32 (push_bit n x)"
  by (simp add: r32_def push_bit_eq_mult mod_simps)

lemma r32_plus: "r32 (r32 x + r32 y) = r32 (x + y)"
  by (simp add: r32_mod_simps)

lemma fuse_mult:
  "multiply_add v 4097 c = r32 (r32 (v + c) + r32 (push_bit 12 v))"
  "multiply_add v 9 c = r32 (r32 (v + c) + r32 (push_bit 3 v))"
  by (simp_all add: multiply_add_eq r32_plus push_bit_eq_mult algebra_simps)

lemma fuse_stages_3_4:
  "multiply_add v 33 3925396509 = r32 (r32 (r32 (v + 0x165667B1) + r32 (push_bit 5 v)) + 0xD3A2646C)"
  "multiply_add v 16896 2899272192 = r32 (push_bit 9 (r32 (r32 (v + 0x165667B1) + r32 (push_bit 5 v))))"
proof -
  show "multiply_add v 33 3925396509 = r32 (r32 (r32 (v + 0x165667B1) + r32 (push_bit 5 v)) + 0xD3A2646C)"
  proof -
    have "r32 (r32 (r32 (v + 0x165667B1) + r32 (push_bit 5 v)) + 0xD3A2646C) =
        r32 (v + 0x165667B1 + push_bit 5 v + 0xD3A2646C)"
      by (simp only: r32_plus r32_mod_simps)
    then show ?thesis by (simp add: multiply_add_eq push_bit_eq_mult algebra_simps)
  qed
  have "r32 (push_bit 9 (r32 (r32 (v + 0x165667B1) + r32 (push_bit 5 v)))) =
      r32 (push_bit 9 (v + 0x165667B1 + push_bit 5 v))"
    by (simp only: r32_plus r32_push_bit)
  also have "\<dots> = r32 (16896 * v + 512 * 0x165667B1)"
    by (simp add: push_bit_eq_mult algebra_simps)
  also have "\<dots> = r32 (16896 * v + r32 (512 * 0x165667B1))" by (simp only: r32_mod_simps)
  finally show "multiply_add v 16896 2899272192 =
      r32 (push_bit 9 (r32 (r32 (v + 0x165667B1) + r32 (push_bit 5 v))))"
    by (simp add: multiply_add_eq r32_def algebra_simps)
qed

text \<open>Stage by stage (the third entry of the code's table is only visible inside the fused step).\<close>

definition shift_xor :: "int \<Rightarrow> nat \<Rightarrow> int \<Rightarrow> int" where
  "shift_xor c n v = r32 (r32 (v XOR c) XOR r32 (drop_bit n v))"

definition stages_3_4 :: "int \<Rightarrow> int" where
  "stages_3_4 v = r32 (multiply_add v 33 3925396509 XOR multiply_add v 16896 2899272192)"

lemma hash_stage_steps:
  "hash_stage a (''+'', 0x7ED55D16, ''+'', ''<<'', 12) = Inr (multiply_add a 4097 0x7ED55D16)"
  "hash_stage a (''^'', 0xC761C23C, ''^'', ''>>'', 19) = Inr (shift_xor 0xC761C23C 19 a)"
  "rbind (hash_stage a (''+'', 0x165667B1, ''+'', ''<<'', 5))
     (\<lambda>b. hash_stage b (''+'', 0xD3A2646C, ''^'', ''<<'', 9)) = Inr (stages_3_4 a)"
  "hash_stage a (''+'', 0xFD7046C5, ''+'', ''<<'', 3) = Inr (multiply_add a 9 0xFD7046C5)"
  "hash_stage a (''^'', 0xB55A4F09, ''^'', ''>>'', 16) = Inr (shift_xor 0xB55A4F09 16 a)"
  by (simp_all add: hash_stage_def hash_fn_def hash_fns_def shift_xor_def stages_3_4_def fuse_mult
      fuse_stages_3_4)

lemma computation_steps:
  "computation v = shift_xor 0xB55A4F09 16 (multiply_add (stages_3_4 (shift_xor 0xC761C23C 19
     (multiply_add v 4097 0x7ED55D16))) 9 0xFD7046C5)"
  unfolding computation_def shift_xor_def stages_3_4_def Let_def ..

lemma myhash_computation: "myhash a = Inr (computation a)"
proof -
  have "myhash a = rbind (hash_stage a (HASH_STAGES ! 0)) (\<lambda>a. rbind (hash_stage a (HASH_STAGES ! 1)) (\<lambda>a.
      rbind (rbind (hash_stage a (HASH_STAGES ! 2)) (\<lambda>b. hash_stage b (HASH_STAGES ! 3))) (\<lambda>a.
      rbind (hash_stage a (HASH_STAGES ! 4)) (\<lambda>a. hash_stage a (HASH_STAGES ! 5)))))"
    by (simp add: myhash_def HASH_STAGES_def rbind_assoc rbind_right foldM_unfold del: foldM.simps)
  then show ?thesis
    by (simp add: HASH_STAGES_def hash_stage_steps computation_steps)
qed

end
