(* ===== verification/Simulator_Props.thy ===== *)
theory Simulator_Props
  imports Machine_Props Kernel
begin

text \<open>
  What the simulator and the reference kernels of \<open>problem.py\<close> promise, and that the hash block of
  the generated program computes the reference hash.
\<close>

section \<open>The simulator\<close>

text \<open>
  C10: a cycle reads everything before it writes anything. On a bundle of data slots the simulator's
  loop over engines and slots, which fills the write buffers as it goes, equals its specification:
  the writes of all slots are computed from the scratch space and memory at the start of the cycle,
  then applied in order; errors included.
\<close>

theorem bundle_reads_before_writes:
  assumes "is_data_instr ins"
  shows "step m ins c =
    rbind (bundle_puts m c ins) (\<lambda>(ps, qs).
    rbind (commit (dict_puts ps []) (scratch c)) (\<lambda>sc.
    rbind (commit (dict_puts qs []) (mem m)) (\<lambda>mm. Inr (c\<lparr>scratch := sc\<rparr>, mm))))"
  by (rule step_data [OF assms])

definition swap_bundle :: instr where
  "swap_bundle = [Group ALU [(''|'', [0, 1, 1]), (''|'', [1, 0, 0])]]"

definition tiny :: machine where
  "tiny = (new_machine [0, 0] [swap_bundle] 1 2 Map.empty)"

theorem bundle_reads_before_writes_witness:
  "step tiny swap_bundle ((new_core 2 0)\<lparr>scratch := [3, 4]\<rparr>) =
     Inr ((new_core 2 0)\<lparr>scratch := [4, 3]\<rparr>, [0, 0])"
proof -
  have "is_data_instr swap_bundle" by code_simp
  note eq = bundle_reads_before_writes [OF this, of tiny "(new_core 2 0)\<lparr>scratch := [3, 4]\<rparr>"]
  show ?thesis unfolding eq by code_simp
qed

text \<open>
  C11: the run loop keeps the machine well formed. When it returns, no core is running, the memory and
  every scratch space still have their lengths, and all they hold are 32-bit words.
\<close>

theorem run_keeps_machine_ok:
  assumes "run m = Some (Inr m')" and "machine_ok n k m"
  shows "machine_ok n k m' \<and> \<not> any_running m'"
  by (rule run_ok [OF assms])

theorem run_keeps_machine_ok_witness: "\<exists>m'. run tiny = Some (Inr m') \<and> machine_ok 2 2 m' \<and> \<not> any_running m'"
proof -
  have "case run tiny of Some (Inr _) \<Rightarrow> True | _ \<Rightarrow> False" by code_simp
  then obtain m' where "run tiny = Some (Inr m')" by (auto split: option.splits sum.splits)
  moreover have "machine_ok 2 2 tiny"
    by (simp add: machine_ok_def tiny_def new_machine_def new_core_def all_words_def is_word_def)
  ultimately show ?thesis using run_keeps_machine_ok [of tiny m' 2 2] by blast
qed

text \<open>
  C12: a program without control flow runs to its end on one core: the loop returns, after one pass
  over the bundles in order, with the core stopped and as many cycles as there are bundles that hold
  more than debug slots; or with the first exception.
\<close>

theorem straight_program_ends:
  assumes "cores m = [c]" "cstate c = RUNNING" "pc c = int p" "p \<le> length (program m)"
    and "list_all is_data_instr (drop p (program m))"
  shows "run_while m = Some (rbind (run_straight m (drop p (program m)) (c, mem m))
    (\<lambda>cm. Inr (stopped m (int (executed (drop p (program m)))) cm)))"
  by (rule run_while_straight [OF assms])

theorem straight_program_ends_witness: "run_while tiny \<noteq> None"
proof -
  have "cores tiny = [new_core 2 0]" "cstate (new_core 2 0) = RUNNING" "pc (new_core 2 0) = int 0"
    "0 \<le> length (program tiny)" by (simp_all add: tiny_def new_machine_def new_core_def)
  moreover have "list_all is_data_instr (drop 0 (program tiny))" by code_simp
  ultimately have "run_while tiny = Some (rbind (run_straight tiny (drop 0 (program tiny)) (new_core 2 0, mem tiny))
      (\<lambda>cm. Inr (stopped tiny (int (executed (drop 0 (program tiny)))) cm)))"
    by (rule straight_program_ends)
  then show ?thesis by simp
qed



section \<open>The reference kernels\<close>

text \<open>
  C14: the kernel on the flat memory refines the kernel on objects. For an input whose indices are
  nodes of the tree, both run without exceptions, and the memory the second leaves is the image of the
  input the first leaves.
\<close>

theorem flat_kernel_refines:
  assumes "input_ok t inp"
  shows "\<exists>inp' tr'. reference_kernel t inp = Inr inp' \<and> input_ok t inp' \<and>
    reference_kernel2 (build_mem_image t inp) tr = Inr (build_mem_image t inp', tr')"
  by (rule reference_kernel2_refines [OF assms])

definition small_tree :: tree where
  "small_tree = tree_generate (\<lambda>i. int i + 5) 1"

definition small_input :: input where
  "small_input = input_generate (\<lambda>i. int i * 11) 2 3"

theorem flat_kernel_refines_witness:
  "\<exists>inp' tr'. reference_kernel2 (build_mem_image small_tree small_input) Map.empty = Inr (build_mem_image small_tree inp', tr')"
  using flat_kernel_refines [OF input_generate_ok] unfolding small_tree_def small_input_def by blast

text \<open>
  C15: the image the kernel builds is the header with its three pointers, the tree, the indices and
  the values, and nothing else: the extra room that is allocated after them is cut off by the last
  assignment, and the eighth word of the header, meant to point to it, is overwritten by the tree.
\<close>

theorem mem_image_layout:
  assumes "length (inp_values inp) = length (inp_indices inp)"
  shows "build_mem_image t inp =
    [inp_rounds inp, int (length (tree_values t)), int (length (inp_indices inp)), int (tree_height t),
     7, 7 + int (length (tree_values t)), 7 + int (length (tree_values t)) + int (length (inp_indices inp))]
    @ tree_values t @ inp_indices inp @ inp_values inp"
  unfolding build_mem_image_layout [OF assms] by (simp add: mem_layout_def mem_header_def Let_def)

theorem mem_image_layout_witness:
  "build_mem_image small_tree small_input = [3, 3, 2, 1, 7, 10, 12, 5, 6, 7, 0, 0, 0, 11]"
proof -
  have "length (inp_values small_input) = length (inp_indices small_input)" by code_simp
  note eq = mem_image_layout [OF this, of small_tree]
  show ?thesis unfolding eq by code_simp
qed

text \<open>
  C16: the six hash stages and the fused block of the generated program agree, for every integer:
  three multiply-adds and the fusion of stages 3 and 4 compute the reference hash modulo \<open>2 ^ 32\<close>.
\<close>

theorem fused_hash_is_reference: "myhash a = Inr (computation a)"
  by (rule myhash_computation)



end
