(* ===== verification/Ast.thy ===== *)
theory Ast
  imports Py_Str
begin

text \<open>
  The syntax trees of \<open>parser.py\<close>. The fields the source types as \<open>VarOrConstant\<close> hold a plain
  string, a constant or a \<open>Variable\<close>, so \<open>operand\<close> has a constructor for each. \<open>Program\<close> keeps its
  two statement lists; \<open>EndGlobalStmt\<close> carries nothing.
\<close>

datatype int_const = NumberStringHex string | NumberString string

datatype operand = Name string | Const int_const | VarAt string "int_const option"

datatype cond = CondName string | CondExpr operand string operand

datatype value_expr =
    DerefIndividualWords string
  | DerefVariable string
  | DerefConstant int_const
  | Variable string "int_const option"
  | BinOpExpr operand string operand
  | MultAddExpr string operand operand
  | SelectExpr cond operand operand
  | IntConstantExpr int_const

datatype decl =
    VariableDeclaration (var_type: string) (decl_name: string) (other_names: "string list")
  | VariableDefinition (var_type: string) (decl_name: string) (decl_value: value_expr)

datatype tid_range = TidRange (range_start: int_const) (range_end: int_const)

datatype stmt =
    VariableDeclarationStmt decl
  | ThreadLocalVariableStmt decl
  | LoadVariable string value_expr
  | StoreMemory string value_expr
  | PauseStmt
  | TidIfElseStmt "tid_range list" "stmt list list"

record program =
  global_prog :: "stmt list"
  thread_prog :: "stmt list"

text \<open>\<open>to_int\<close>\<close>

definition to_int :: "int_const \<Rightarrow> int res" where
  "to_int c = (case c of NumberString s \<Rightarrow> int_of_dec s | NumberStringHex s \<Rightarrow> int_of_hex s)"

section \<open>Well-formed programs\<close>

text \<open>
  What the grammar guarantees of a tree: names are identifiers, constants are numerals, operators are
  the grammar's, operands are names or constants, global and thread statements are of their kinds,
  and an \<open>iftid\<close> has one branch more than it has ranges.
\<close>

definition is_small :: "char \<Rightarrow> bool" where
  "is_small c = (97 \<le> (of_char c :: nat) \<and> (of_char c :: nat) \<le> 122)"

definition is_letter :: "char \<Rightarrow> bool" where
  "is_letter c =
     (is_small c \<or> (65 \<le> (of_char c :: nat) \<and> (of_char c :: nat) \<le> 90) \<or> is_digit c \<or> c = CHR ''_'')"

definition is_ident :: "string \<Rightarrow> bool" where
  "is_ident x = (case x of [] \<Rightarrow> False | c # cs \<Rightarrow> is_small c \<and> list_all is_letter cs)"

definition int_const_wf :: "int_const \<Rightarrow> bool" where
  "int_const_wf c =
     (case c of
        NumberStringHex s \<Rightarrow> take 2 s = ''0x'' \<and> drop 2 s \<noteq> [] \<and> list_all is_hex_digit (drop 2 s)
      | NumberString s \<Rightarrow>
          (let ds = (if take 1 s = ''-'' then drop 1 s else s) in ds \<noteq> [] \<and> list_all is_digit ds))"

definition operand_wf :: "operand \<Rightarrow> bool" where
  "operand_wf p = (case p of Name n \<Rightarrow> is_ident n | Const c \<Rightarrow> int_const_wf c | VarAt _ _ \<Rightarrow> False)"

definition operators :: "string list" where
  "operators = [''*'', ''+'', ''^'', ''>>'', ''-'', ''<<'', ''%'', ''=='']"

definition cond_wf :: "cond \<Rightarrow> bool" where
  "cond_wf c =
     (case c of
        CondName n \<Rightarrow> is_ident n
      | CondExpr l op r \<Rightarrow> operand_wf l \<and> op \<in> {''<'', ''==''} \<and> operand_wf r)"

definition expr_wf :: "value_expr \<Rightarrow> bool" where
  "expr_wf e =
     (case e of
        DerefIndividualWords n \<Rightarrow> is_ident n
      | DerefVariable n \<Rightarrow> is_ident n
      | DerefConstant c \<Rightarrow> int_const_wf c
      | Variable n i \<Rightarrow> is_ident n \<and> pred_option int_const_wf i
      | BinOpExpr l op r \<Rightarrow> operand_wf l \<and> op \<in> set operators \<and> operand_wf r
      | MultAddExpr a b c \<Rightarrow> is_ident a \<and> operand_wf b \<and> operand_wf c
      | SelectExpr c t f \<Rightarrow> cond_wf c \<and> operand_wf t \<and> operand_wf f
      | IntConstantExpr c \<Rightarrow> int_const_wf c)"

definition type_wf :: "string \<Rightarrow> bool" where
  "type_wf t = (t \<in> {''register'', ''register[]''})"

definition decl_wf :: "decl \<Rightarrow> bool" where
  "decl_wf d =
     (case d of
        VariableDeclaration t n ns \<Rightarrow> type_wf t \<and> is_ident n \<and> list_all is_ident ns
      | VariableDefinition t n v \<Rightarrow> type_wf t \<and> is_ident n \<and> expr_wf v)"

definition range_wf :: "tid_range \<Rightarrow> bool" where
  "range_wf r = (int_const_wf (range_start r) \<and> int_const_wf (range_end r))"

definition global_stmt_wf :: "stmt \<Rightarrow> bool" where
  "global_stmt_wf st =
     (case st of
        VariableDeclarationStmt d \<Rightarrow> decl_wf d
      | LoadVariable n v \<Rightarrow> is_ident n \<and> expr_wf v
      | StoreMemory n v \<Rightarrow> is_ident n \<and> expr_wf v
      | PauseStmt \<Rightarrow> True
      | _ \<Rightarrow> False)"

fun thread_stmt_wf :: "stmt \<Rightarrow> bool" where
  "thread_stmt_wf (VariableDeclarationStmt d) = False"
| "thread_stmt_wf (ThreadLocalVariableStmt d) = decl_wf d"
| "thread_stmt_wf (LoadVariable n v) = (is_ident n \<and> expr_wf v)"
| "thread_stmt_wf (StoreMemory n v) = (is_ident n \<and> expr_wf v)"
| "thread_stmt_wf PauseStmt = True"
| "thread_stmt_wf (TidIfElseStmt rs bs) =
     (rs \<noteq> [] \<and> list_all range_wf rs \<and> length bs = length rs + 1 \<and> list_all (list_all thread_stmt_wf) bs)"

definition prog_wf :: "program \<Rightarrow> bool" where
  "prog_wf p = (list_all global_stmt_wf (global_prog p) \<and> list_all thread_stmt_wf (thread_prog p))"

text \<open>No identifier is the name of a constant or of the register that stands for memory.\<close>

lemma is_small_underscore: "\<not> is_small CHR ''_''"
  by (simp add: is_small_def)

lemma ident_no_underscore: "is_ident (CHR ''_'' # cs) = False"
  by (simp add: is_ident_def is_small_underscore)

text \<open>The numerals of a well-formed tree have a value.\<close>

lemma to_int_wf: "int_const_wf c \<Longrightarrow> \<exists>v. to_int c = Inr v"
proof (cases c)
  case (NumberString s)
  assume "int_const_wf c"
  with NumberString show ?thesis
    by (cases s) (auto simp: int_const_wf_def to_int_def int_of_dec_def Let_def split: if_splits)
qed (auto simp: int_const_wf_def to_int_def int_of_hex_def)

end
