(* ===== verification/Grammar.thy ===== *)
theory Grammar
  imports Combinators Ast
begin

text \<open>
  The grammar of \<open>parser.py\<close>, one parser per definition of the source and in its order. The one
  recursion, a thread statement inside an \<open>iftid\<close> branch, is tied in the source by \<open>lazy\<close>; here
  \<open>thread_local_stmt n\<close> allows \<open>n\<close> levels of it. Every level consumes at least the keyword, so as
  many levels as the text has characters are enough.
\<close>

section \<open>Tokens\<close>

definition space :: "string parser" where "space = rx_plus is_space"
definition opt_space :: "string parser" where "opt_space = rx_star is_space"
definition nl :: "string parser" where "nl = rx_nl"
definition digit :: "string parser" where "digit = rx_class is_digit"
definition hex_digit :: "string parser" where "hex_digit = rx_class is_hex_digit"
definition small :: "string parser" where "small = rx_class is_small"
definition letter :: "string parser" where "letter = rx_class is_letter"
definition minus_sign :: "string parser" where "minus_sign = lit ''-''"

definition operator :: "string parser" where
  "operator = por (por (por (por (por (por (por (lit ''*'') (lit ''+'')) (lit ''^'')) (lit ''>>''))
     (lit ''-'')) (lit ''<<'')) (lit ''%'')) (lit ''=='')"

definition cmp_operator :: "string parser" where
  "cmp_operator = por (lit ''<'') (lit ''=='')"

definition spaced :: "'a parser \<Rightarrow> 'a parser" where
  "spaced p = pmap (\<lambda>(_, x, _). x) (pseq opt_space (pseq p opt_space))"

definition lit_eq :: "string parser" where "lit_eq = spaced (lit ''='')"
definition lit_qu :: "string parser" where "lit_qu = spaced (lit ''?'')"
definition lit_op :: "string parser" where "lit_op = spaced operator"
definition lit_cmp_op :: "string parser" where "lit_cmp_op = spaced cmp_operator"
definition lit_comma :: "string parser" where "lit_comma = spaced (lit '','')"
definition lit_colon :: "string parser" where "lit_colon = spaced (lit '':'')"
definition lit_plus :: "string parser" where "lit_plus = spaced (lit ''+'')"
definition lit_mult :: "string parser" where "lit_mult = spaced (lit ''*'')"

definition variable_name :: "string parser" where
  "variable_name = pmap (\<lambda>(x, xs). x @ concat xs) (pseq small (star letter))"

definition int_constant_expr :: "int_const parser" where
  "int_constant_expr =
     por (pmap (\<lambda>(_, ds). NumberStringHex (''0x'' @ concat ds)) (pseq (lit ''0x'') (plus1 hex_digit)))
         (pmap (\<lambda>(m, ds). NumberString ((case m of None \<Rightarrow> [] | Some s \<Rightarrow> s) @ concat ds))
            (pseq (opt minus_sign) (plus1 digit)))"

section \<open>Expressions\<close>

definition var_or_const :: "operand parser" where
  "var_or_const = por (pmap Name variable_name) (pmap Const int_constant_expr)"

definition cond_expr :: "cond parser" where
  "cond_expr =
     por (pmap (\<lambda>(l, op, r). CondExpr l op r) (pseq var_or_const (pseq lit_cmp_op var_or_const)))
         (pmap CondName variable_name)"

definition select_expr :: "value_expr parser" where
  "select_expr = pmap (\<lambda>(c, _, t, _, f). SelectExpr c t f)
     (pseq cond_expr (pseq lit_qu (pseq var_or_const (pseq lit_colon var_or_const))))"

definition bin_op_expr :: "value_expr parser" where
  "bin_op_expr = pmap (\<lambda>(l, op, r). BinOpExpr l op r) (pseq var_or_const (pseq lit_op var_or_const))"

definition mult_add_expr :: "value_expr parser" where
  "mult_add_expr = pmap (\<lambda>(a, _, b, _, c). MultAddExpr a b c)
     (pseq variable_name (pseq lit_mult (pseq var_or_const (pseq lit_plus var_or_const))))"

definition deref_words :: "value_expr parser" where
  "deref_words = pmap (\<lambda>(_, x, _). DerefIndividualWords x)
     (pseq (lit ''@'') (pseq variable_name (pseq (lit ''['') (lit '']''))))"

definition deref_variable :: "value_expr parser" where
  "deref_variable = pmap (\<lambda>(_, x). DerefVariable x) (pseq (lit ''@'') variable_name)"

definition deref_constant :: "value_expr parser" where
  "deref_constant = pmap (\<lambda>(_, c). DerefConstant c) (pseq (lit ''@'') int_constant_expr)"

text \<open>The closing bracket of an index is optional in the source.\<close>

definition variable_expr :: "value_expr parser" where
  "variable_expr = pmap (\<lambda>(x, i). Variable x (case i of None \<Rightarrow> None | Some (_, c, _) \<Rightarrow> Some c))
     (pseq variable_name (opt (pseq (lit ''['') (pseq int_constant_expr (opt (lit '']''))))))"

definition value_expr :: "value_expr parser" where
  "value_expr = por (por (por (por (por (por (por select_expr mult_add_expr) deref_words) deref_variable)
     deref_constant) bin_op_expr) variable_expr) (pmap IntConstantExpr int_constant_expr)"

section \<open>Statements\<close>

definition variable_type :: "string parser" where
  "variable_type = por (lit ''register[]'') (lit ''register'')"

definition variable_declaration_stmt :: "decl parser" where
  "variable_declaration_stmt =
     por (pmap (\<lambda>(t, _, x, xs, _). VariableDeclaration t x (map snd xs))
            (pseq variable_type (pseq space (pseq variable_name
              (pseq (star (pseq lit_comma variable_name)) (plus1 nl))))))
         (pmap (\<lambda>(t, _, x, _, v, _). VariableDefinition t x v)
            (pseq variable_type (pseq space (pseq variable_name (pseq lit_eq (pseq value_expr (plus1 nl)))))))"

definition assignment_stmt :: "stmt parser" where
  "assignment_stmt =
     por (pmap (\<lambda>(x, _, v, _). LoadVariable x v)
            (pseq variable_name (pseq lit_eq (pseq value_expr (plus1 nl)))))
         (pmap (\<lambda>(_, x, _, v, _). StoreMemory x v)
            (pseq (lit ''@'') (pseq variable_name (pseq lit_eq (pseq value_expr (plus1 nl))))))"

definition pause_stmt :: "stmt parser" where
  "pause_stmt = pmap (\<lambda>_. PauseStmt) (pseq (lit ''pause'') (plus1 nl))"

definition global_stmt :: "stmt parser" where
  "global_stmt = por (por (pmap VariableDeclarationStmt variable_declaration_stmt) assignment_stmt) pause_stmt"

definition end_global_stmt :: "unit parser" where
  "end_global_stmt = pmap (\<lambda>_. ()) (pseq (lit ''end global'') (plus1 nl))"

definition global_program :: "stmt list parser" where
  "global_program = pmap fst (pseq (star global_stmt) end_global_stmt)"

definition thread_local_variable_stmt :: "stmt parser" where
  "thread_local_variable_stmt = pmap (\<lambda>(_, _, d). ThreadLocalVariableStmt d)
     (pseq (lit ''thread'') (pseq space variable_declaration_stmt))"

text \<open>Of the numbers after the first comma the source keeps the first; more of them are accepted.\<close>

definition tid_range :: "tid_range parser" where
  "tid_range = pmap (\<lambda>(_, _, a, _, rest, _). TidRange a ((fst \<circ> snd \<circ> snd) (hd rest)))
     (pseq (lit ''range('') (pseq opt_space (pseq int_constant_expr (pseq opt_space (pseq
       (plus1 (pseq lit_comma (pseq opt_space (pseq int_constant_expr opt_space))))
       (lit '')''))))))"

definition tid_if_else_stmt :: "stmt parser \<Rightarrow> stmt parser" where
  "tid_if_else_stmt thread_stmt =
     pmap (\<lambda>(_, _, r, _, ss, elifs, _, _, els, _, _).
             TidIfElseStmt (r # map (\<lambda>(_, _, r, _, _). r) elifs)
               (ss # map (\<lambda>(_, _, _, _, ss). ss) elifs @ [els]))
       (pseq (lit ''iftid'') (pseq space (pseq tid_range (pseq (plus1 nl) (pseq (star thread_stmt)
         (pseq (star (pseq (lit ''eliftid'') (pseq space (pseq tid_range (pseq (plus1 nl) (star thread_stmt))))))
         (pseq (lit ''elsetid'') (pseq (plus1 nl) (pseq (star thread_stmt)
         (pseq (lit ''endiftid'') (plus1 nl)))))))))))"

fun thread_local_stmt :: "nat \<Rightarrow> stmt parser" where
  "thread_local_stmt 0 tx index = None"
| "thread_local_stmt (Suc n) tx index =
     por (por (por thread_local_variable_stmt assignment_stmt) pause_stmt)
       (tid_if_else_stmt (thread_local_stmt n)) tx index"

definition thread_local_program :: "nat \<Rightarrow> stmt list parser" where
  "thread_local_program n = star (thread_local_stmt n)"

definition program_at :: "nat \<Rightarrow> program parser" where
  "program_at n = pmap (\<lambda>(_, g, t). \<lparr>global_prog = g, thread_prog = t\<rparr>)
     (pseq (star nl) (pseq global_program (thread_local_program n)))"

definition program_parser :: "program parser" where
  "program_parser tx index = program_at (length tx + 1) tx index"

end
