(* ===== verification/Parser_Props.thy ===== *)
theory Parser_Props
  imports Grammar
begin

text \<open>
  The parser of \<open>parser.py\<close> as a whole: it returns on every text, with an index inside the text and
  independently of the nesting allowed (C18), and the trees it returns are well formed (C19).
\<close>

section \<open>Every parser of the grammar stays inside the text\<close>

lemmas token_defs =
  space_def opt_space_def nl_def digit_def hex_digit_def small_def letter_def minus_sign_def
  operator_def cmp_operator_def spaced_def lit_eq_def lit_qu_def lit_op_def lit_cmp_op_def
  lit_comma_def lit_colon_def lit_plus_def lit_mult_def

lemmas expr_defs =
  var_or_const_def cond_expr_def select_expr_def bin_op_expr_def mult_add_expr_def deref_words_def
  deref_variable_def deref_constant_def variable_expr_def value_expr_def

lemmas stmt_defs =
  variable_type_def variable_declaration_stmt_def assignment_stmt_def pause_stmt_def global_stmt_def
  end_global_stmt_def global_program_def thread_local_variable_stmt_def tid_range_def

lemma bounded_space [bounded_intros]: "bounded space" "bounded opt_space"
  unfolding token_defs by (intro consuming_bounded bounded_intros)+

lemma consuming_nl' [bounded_intros]: "consuming nl" "bounded nl"
  unfolding nl_def by (intro consuming_bounded bounded_intros)+

lemma bounded_tokens [bounded_intros]:
  "bounded lit_eq" "bounded lit_qu" "bounded lit_op" "bounded lit_cmp_op" "bounded lit_comma"
  "bounded lit_colon" "bounded lit_plus" "bounded lit_mult"
  unfolding token_defs by (intro bounded_intros)+

lemma consuming_name [bounded_intros]: "consuming variable_name" "bounded variable_name"
proof -
  show "consuming variable_name"
    unfolding variable_name_def small_def letter_def by (intro bounded_intros consuming_bounded [OF consuming_class])
  then show "bounded variable_name" by (rule consuming_bounded)
qed

lemma bounded_int_constant [bounded_intros]: "bounded int_constant_expr"
  unfolding int_constant_expr_def hex_digit_def digit_def minus_sign_def
  by (intro bounded_intros; rule consuming_bounded; intro bounded_intros)

lemma bounded_value_expr [bounded_intros]: "bounded value_expr" "bounded var_or_const"
  unfolding expr_defs by (intro bounded_intros)+

lemma bounded_stmts [bounded_intros]:
  "bounded variable_declaration_stmt" "bounded assignment_stmt" "bounded pause_stmt"
  "bounded global_stmt" "bounded end_global_stmt" "bounded global_program"
  "bounded thread_local_variable_stmt" "bounded tid_range"
  unfolding stmt_defs by (intro bounded_intros)+

definition tid_rest :: "stmt parser \<Rightarrow> _ parser" where
  "tid_rest p = pseq space (pseq tid_range (pseq (plus1 nl) (pseq (star p)
     (pseq (star (pseq (lit ''eliftid'') (pseq space (pseq tid_range (pseq (plus1 nl) (star p))))))
     (pseq (lit ''elsetid'') (pseq (plus1 nl) (pseq (star p) (pseq (lit ''endiftid'') (plus1 nl)))))))))"

lemma bounded_tid_rest [bounded_intros]: "bounded p \<Longrightarrow> bounded (tid_rest p)"
  unfolding tid_rest_def by (intro bounded_intros)

lemma bounded_thread_stmt [bounded_intros]: "bounded (thread_local_stmt n)"
proof (induction n)
  case 0
  show ?case by (rule boundedI) simp
next
  case (Suc n)
  then have "bounded (tid_if_else_stmt (thread_local_stmt n))"
    unfolding tid_if_else_stmt_def tid_rest_def [symmetric] by (intro bounded_intros)
  then show ?case by (simp, intro bounded_intros)
qed

lemma bounded_program [bounded_intros]: "bounded (program_at n)"
  unfolding program_at_def thread_local_program_def by (intro bounded_intros)

section \<open>The nesting allowed does not matter\<close>

text \<open>Two parsers that agree on a text from an index on.\<close>

definition agree :: "string \<Rightarrow> nat \<Rightarrow> 'a parser \<Rightarrow> 'a parser \<Rightarrow> bool" where
  "agree tx k p q \<longleftrightarrow> (\<forall>j. k \<le> j \<longrightarrow> j \<le> length tx \<longrightarrow> p tx j = q tx j)"

lemma agreeI: "(\<And>j. k \<le> j \<Longrightarrow> j \<le> length tx \<Longrightarrow> p tx j = q tx j) \<Longrightarrow> agree tx k p q"
  by (simp add: agree_def)

lemma agreeD: "agree tx k p q \<Longrightarrow> k \<le> j \<Longrightarrow> j \<le> length tx \<Longrightarrow> p tx j = q tx j"
  by (simp add: agree_def)

lemma agree_refl [simp, intro]: "agree tx k p p"
  by (simp add: agree_def)

lemma agree_pseq:
  assumes "agree tx k p p'" "agree tx k q q'" "bounded p"
  shows "agree tx k (pseq p q) (pseq p' q')"
proof (rule agreeI)
  fix j assume j: "k \<le> j" "j \<le> length tx"
  note eq = agreeD [OF assms(1) j]
  show "pseq p q tx j = pseq p' q' tx j"
  proof (cases "p tx j")
    case (Some r)
    obtain v l where r: "r = (v, l)" by fastforce
    with Some boundedD [OF assms(3) j(2)] have "j \<le> l" "l \<le> length tx" by auto
    with agreeD [OF assms(2), of l] j Some eq r show ?thesis by (simp add: pseq_def)
  qed (use eq in \<open>simp add: pseq_def\<close>)
qed

lemma agree_star:
  assumes "agree tx k p q" "bounded p"
  shows "agree tx k (star p) (star q)"
proof (rule agreeI)
  fix j assume "k \<le> j" "j \<le> length tx"
  moreover have "star_loop p tx j acc = star_loop q tx j acc" if "k \<le> j" "j \<le> length tx" for acc
    using that
  proof (induction "length tx - j" arbitrary: j acc rule: less_induct)
    case less
    note eq = agreeD [OF assms(1) less.prems]
    show ?case
    proof (cases "p tx j")
      case None
      with eq show ?thesis by (simp add: star_loop.simps [of p tx j] star_loop.simps [of q tx j])
    next
      case (Some r)
      obtain v l where r: "r = (v, l)" by fastforce
      with Some boundedD [OF assms(2) less.prems(2)] have l: "j \<le> l" "l \<le> length tx" by auto
      have q: "q tx j = Some (v, l)" using eq Some r by simp
      show ?thesis
      proof (cases "l \<le> j")
        case False
        with l less.prems have "star_loop p tx l (acc @ [v]) = star_loop q tx l (acc @ [v])"
          by (intro less.hyps) auto
        then show ?thesis
          using q Some r False by (simp add: star_loop.simps [of p tx j] star_loop.simps [of q tx j])
      qed (use q Some r in \<open>simp add: star_loop.simps [of p tx j] star_loop.simps [of q tx j]\<close>)
    qed
  qed
  ultimately show "star p tx j = star q tx j" by (simp add: star_def)
qed

lemma agree_tid_rest:
  assumes "agree tx k p q" "bounded p"
  shows "agree tx k (tid_rest p) (tid_rest q)"
  unfolding tid_rest_def
  by (intro agree_pseq agree_star agree_refl bounded_intros assms)

text \<open>The body of an \<open>iftid\<close> starts after the keyword, so only the rest of the text matters.\<close>

lemma tid_if_else_cong:
  assumes "agree tx (Suc i) p q" "bounded p"
  shows "tid_if_else_stmt p tx i = tid_if_else_stmt q tx i"
proof (cases "lit ''iftid'' tx i")
  case (Some r)
  then obtain j where r: "lit ''iftid'' tx i = Some (''iftid'', j)" "j = i + 5"
    by (auto simp: lit_def split: if_splits)
  have "j \<le> length tx"
  proof -
    from r(1) have "take (length ''iftid'') (drop i tx) = ''iftid''" by (simp only: lit_def split: if_splits) simp
    then have "length (take (length ''iftid'') (drop i tx)) = 5" by (simp only:) simp
    with r(2) show ?thesis by simp
  qed
  with agreeD [OF agree_tid_rest [OF assms], of j] r
  have "tid_rest p tx j = tid_rest q tx j" by simp
  with r show ?thesis unfolding tid_if_else_stmt_def tid_rest_def [symmetric] pmap_def pseq_def by simp
qed (simp add: tid_if_else_stmt_def pmap_def pseq_def)

lemma thread_stmt_fuel:
  assumes "i \<le> length tx" "length tx - i < n" "length tx - i < m"
  shows "thread_local_stmt n tx i = thread_local_stmt m tx i"
  using assms
proof (induction "length tx - i" arbitrary: i n m rule: less_induct)
  case less
  then obtain n' m' where nm: "n = Suc n'" "m = Suc m'" by (metis not_less0 old.nat.exhaust)
  have "agree tx (Suc i) (thread_local_stmt n') (thread_local_stmt m')"
  proof (rule agreeI)
    fix j assume "Suc i \<le> j" "j \<le> length tx"
    with less.prems nm show "thread_local_stmt n' tx j = thread_local_stmt m' tx j"
      by (intro less.hyps) auto
  qed
  from tid_if_else_cong [OF this bounded_thread_stmt] show ?case by (simp add: nm por_def [of _ "tid_if_else_stmt _"] split: option.split)
qed

lemma program_fuel:
  assumes "length tx < n"
  shows "program_at n tx 0 = program_parser tx 0"
proof -
  have "agree tx 0 (thread_local_stmt n) (thread_local_stmt (length tx + 1))"
    by (rule agreeI, rule thread_stmt_fuel) (use assms in auto)
  then have "agree tx 0 (pseq (star nl) (pseq global_program (thread_local_program n)))
      (pseq (star nl) (pseq global_program (thread_local_program (length tx + 1))))"
    unfolding thread_local_program_def by (intro agree_pseq agree_star agree_refl bounded_intros)
  from agreeD [OF this, of 0] show ?thesis by (simp add: program_parser_def program_at_def pmap_def)
qed

section \<open>The trees are well formed\<close>

definition yields :: "'a parser \<Rightarrow> ('a \<Rightarrow> bool) \<Rightarrow> bool" where
  "yields p P \<longleftrightarrow> (\<forall>tx i v j. p tx i = Some (v, j) \<longrightarrow> P v)"

named_theorems yields_intros

lemma yieldsI: "(\<And>tx i v j. p tx i = Some (v, j) \<Longrightarrow> P v) \<Longrightarrow> yields p P"
  unfolding yields_def by blast

lemma yieldsD: "yields p P \<Longrightarrow> p tx i = Some (v, j) \<Longrightarrow> P v"
  unfolding yields_def by blast

lemma yields_mono: "yields p P \<Longrightarrow> (\<And>v. P v \<Longrightarrow> Q v) \<Longrightarrow> yields p Q"
  unfolding yields_def by blast

lemma yields_True: "yields p (\<lambda>_. True)"
  by (simp add: yields_def)

lemma yields_pmap: "yields p P \<Longrightarrow> (\<And>v. P v \<Longrightarrow> Q (f v)) \<Longrightarrow> yields (pmap f p) Q"
  unfolding yields_def pmap_Some by blast

lemma yields_por: "yields p P \<Longrightarrow> yields q P \<Longrightarrow> yields (por p q) P"
  unfolding yields_def por_Some by blast

lemma yields_pseq [yields_intros]: "yields p P \<Longrightarrow> yields q Q \<Longrightarrow> yields (pseq p q) (\<lambda>(a, b). P a \<and> Q b)"
  unfolding yields_def pseq_Some by blast

lemma yields_opt [yields_intros]: "yields p P \<Longrightarrow> yields (opt p) (pred_option P)"
  unfolding yields_def opt_Some by (auto simp: pred_option_def)

lemma star_loop_all:
  assumes "yields p P" "star_loop p tx i acc = Some (vs, j)" "list_all P acc"
  shows "list_all P vs"
proof -
  have "yields p P \<longrightarrow> list_all P acc \<longrightarrow> list_all P (fst (vs, j))"
    using assms(2)
  proof (rule star_loop.raw_induct [where P = "\<lambda>q _ _ acc r. yields q P \<longrightarrow> list_all P acc \<longrightarrow> list_all P (fst r)", rotated])
    fix f q tx i acc and r :: "'a list \<times> nat"
    assume IH: "\<And>q tx i acc r. f q tx i acc = Some r \<Longrightarrow> yields q P \<longrightarrow> list_all P acc \<longrightarrow> list_all P (fst r)"
      and eq: "(case q tx i of None \<Rightarrow> Some (acc, i)
          | Some r \<Rightarrow> if snd r \<le> i then Some (acc, i) else f q tx (snd r) (acc @ [fst r])) = Some r"
    show "yields q P \<longrightarrow> list_all P acc \<longrightarrow> list_all P (fst r)"
    proof (cases "q tx i")
      case (Some a)
      then have "yields q P \<longrightarrow> P (fst a)" by (metis prod.collapse yieldsD)
      with Some eq IH [of q tx "snd a" "acc @ [fst a]" r] show ?thesis by (auto split: if_splits)
    qed (use eq in auto)
  qed
  with assms(1,3) show ?thesis by simp
qed

lemma yields_star [yields_intros]: "yields p P \<Longrightarrow> yields (star p) (list_all P)"
  using star_loop_all by (intro yieldsI) (fastforce simp: star_def)

lemma yields_plus1 [yields_intros]: "yields p P \<Longrightarrow> yields (plus1 p) (\<lambda>vs. vs \<noteq> [] \<and> list_all P vs)"
  by (rule yieldsI) (auto simp: plus1_Some dest: yieldsD yieldsD [OF yields_star])

lemma yields_class: "yields (rx_class C) (\<lambda>s. \<exists>c. s = [c] \<and> C c)"
  by (rule yieldsI) (auto simp: rx_class_def split: list.splits if_splits)

lemma yields_lit: "yields (lit s) (\<lambda>t. t = s)"
  by (rule yieldsI) (auto simp: lit_def split: if_splits)

lemma yields_spaced: "yields p P \<Longrightarrow> yields (spaced p) P"
  unfolding spaced_def by (rule yields_pmap, rule yields_pseq [OF yields_True yields_pseq [OF _ yields_True]]) auto

section \<open>Tokens and constants\<close>

text \<open>What the punctuation answers is never used.\<close>

lemma yields_tokens [yields_intros]:
  "yields (lit s) (\<lambda>_. True)" "yields space (\<lambda>_. True)" "yields opt_space (\<lambda>_. True)" "yields nl (\<lambda>_. True)"
  "yields lit_eq (\<lambda>_. True)" "yields lit_qu (\<lambda>_. True)" "yields lit_comma (\<lambda>_. True)" "yields lit_colon (\<lambda>_. True)"
  "yields lit_plus (\<lambda>_. True)" "yields lit_mult (\<lambda>_. True)"
  by (rule yields_True)+

lemma list_all_concat: "list_all (list_all P) xss \<Longrightarrow> list_all P (concat xss)"
  by (induction xss) auto

lemma list_all_singletons: "list_all (\<lambda>s. \<exists>c. s = [c] \<and> C c) ss \<Longrightarrow> list_all C (concat ss)"
  by (induction ss) auto

lemma singletons_concat_ne: "ss \<noteq> [] \<Longrightarrow> list_all (\<lambda>s. \<exists>c. s = [c] \<and> C c) ss \<Longrightarrow> concat ss \<noteq> []"
  by (cases ss) auto

lemma yields_name [yields_intros]: "yields variable_name is_ident"
  unfolding variable_name_def small_def letter_def
  by (rule yields_pmap [OF yields_pseq [OF yields_class yields_star [OF yields_class]]])
    (auto simp: is_ident_def intro: list_all_singletons)

lemma digit_not_minus: "is_digit c \<Longrightarrow> c \<noteq> CHR ''-''"
  by (auto simp: is_digit_def)

lemma yields_int_constant [yields_intros]: "yields int_constant_expr int_const_wf"
  unfolding int_constant_expr_def hex_digit_def digit_def minus_sign_def
proof (rule yields_por)
  show "yields (pmap (\<lambda>(_, ds). NumberStringHex (''0x'' @ concat ds)) (pseq (lit ''0x'') (plus1 (rx_class is_hex_digit)))) int_const_wf"
    by (rule yields_pmap [OF yields_pseq [OF yields_True yields_plus1 [OF yields_class]]])
      (auto simp: int_const_wf_def list_all_singletons dest: singletons_concat_ne)
  show "yields (pmap (\<lambda>(m, ds). NumberString ((case m of None \<Rightarrow> [] | Some s \<Rightarrow> s) @ concat ds))
      (pseq (opt (lit ''-'')) (plus1 (rx_class is_digit)))) int_const_wf"
  proof (rule yields_pmap [OF yields_pseq [OF yields_opt [OF yields_lit] yields_plus1 [OF yields_class]]])
    fix v :: "string option \<times> string list"
    assume "case v of (a, b) \<Rightarrow> pred_option (\<lambda>t. t = ''-'') a \<and> b \<noteq> [] \<and> list_all (\<lambda>s. \<exists>c. s = [c] \<and> is_digit c) b"
    moreover obtain m ds where v: "v = (m, ds)" by fastforce
    ultimately have "pred_option (\<lambda>t. t = ''-'') m" and "ds \<noteq> []" "list_all (\<lambda>s. \<exists>c. s = [c] \<and> is_digit c) ds"
      by simp_all
    then have m: "m = None \<or> m = Some ''-''" and ds: "concat ds \<noteq> []" "list_all is_digit (concat ds)"
      using singletons_concat_ne list_all_singletons by (cases m, simp, simp, blast, blast)
    from ds have "take 1 (concat ds) \<noteq> ''-''"
      by (cases "concat ds") (auto dest: digit_not_minus)
    with v m ds show "int_const_wf (case v of (m, ds) \<Rightarrow> NumberString ((case m of None \<Rightarrow> [] | Some s \<Rightarrow> s) @ concat ds))"
      by (auto simp: int_const_wf_def Let_def)
  qed
qed

lemma yields_operand [yields_intros]: "yields var_or_const operand_wf"
  unfolding var_or_const_def
  by (rule yields_por; rule yields_pmap, rule yields_intros) (simp_all add: operand_wf_def)

lemma yields_operator [yields_intros]: "yields lit_op (\<lambda>s. s \<in> set operators)"
  unfolding lit_op_def operator_def operators_def
  by (intro yields_spaced yields_por; rule yields_mono [OF yields_lit]) simp_all

lemma yields_cmp [yields_intros]: "yields lit_cmp_op (\<lambda>s. s \<in> {''<'', ''==''})"
  unfolding lit_cmp_op_def cmp_operator_def
  by (intro yields_spaced yields_por; rule yields_mono [OF yields_lit]) simp_all

section \<open>Expressions and statements\<close>

lemma yields_expr [yields_intros]: "yields value_expr expr_wf"
proof -
  have c: "yields cond_expr cond_wf" unfolding cond_expr_def
    by (rule yields_por; (rule yields_pmap, (rule yields_intros)+)) (auto simp: cond_wf_def)
  have "yields select_expr expr_wf" unfolding select_expr_def
    by (rule yields_pmap, (rule c yields_intros)+) (auto simp: expr_wf_def)
  moreover have "yields mult_add_expr expr_wf" unfolding mult_add_expr_def
    by (rule yields_pmap, (rule yields_intros)+) (auto simp: expr_wf_def)
  moreover have "yields deref_words expr_wf" "yields deref_variable expr_wf" "yields deref_constant expr_wf"
    unfolding deref_words_def deref_variable_def deref_constant_def
    by (rule yields_pmap, (rule yields_intros)+, auto simp: expr_wf_def)+
  moreover have "yields bin_op_expr expr_wf" unfolding bin_op_expr_def
    by (rule yields_pmap, (rule yields_intros)+) (auto simp: expr_wf_def)
  moreover have "yields variable_expr expr_wf" unfolding variable_expr_def
    by (rule yields_pmap, (rule yields_intros)+)
      (auto simp: expr_wf_def split: option.splits)
  moreover have "yields (pmap IntConstantExpr int_constant_expr) expr_wf"
    by (rule yields_pmap, rule yields_intros) (simp add: expr_wf_def)
  ultimately show ?thesis unfolding value_expr_def by (intro yields_por)
qed

lemma yields_type [yields_intros]: "yields variable_type type_wf"
  unfolding variable_type_def type_wf_def
  by (intro yields_por; rule yields_mono [OF yields_lit]) simp_all

lemma yields_decl [yields_intros]: "yields variable_declaration_stmt decl_wf"
  unfolding variable_declaration_stmt_def
  by (rule yields_por; (rule yields_pmap, (rule yields_intros)+))
    (auto simp: decl_wf_def list.pred_map comp_def case_prod_unfold)

lemma yields_assignment:
  "yields assignment_stmt (\<lambda>st. (\<exists>n v. (st = LoadVariable n v \<or> st = StoreMemory n v) \<and> is_ident n \<and> expr_wf v))"
  unfolding assignment_stmt_def
  by (rule yields_por; (rule yields_pmap, (rule yields_intros)+)) auto

lemma yields_global [yields_intros]: "yields global_stmt global_stmt_wf"
  unfolding global_stmt_def
proof (intro yields_por)
  show "yields (pmap VariableDeclarationStmt variable_declaration_stmt) global_stmt_wf"
    by (rule yields_pmap, rule yields_intros) (simp add: global_stmt_wf_def)
  show "yields assignment_stmt global_stmt_wf"
    by (rule yields_mono [OF yields_assignment]) (auto simp: global_stmt_wf_def)
  show "yields pause_stmt global_stmt_wf"
    unfolding pause_stmt_def by (rule yields_pmap, rule yields_True) (simp add: global_stmt_wf_def)
qed

lemma yields_range [yields_intros]: "yields tid_range range_wf"
  unfolding tid_range_def
  by (rule yields_pmap, (rule yields_intros)+)
    (auto simp: range_wf_def neq_Nil_conv)

lemma yields_tid_if_else:
  assumes p: "yields p thread_stmt_wf"
  shows "yields (tid_if_else_stmt p) thread_stmt_wf"
  unfolding tid_if_else_stmt_def
  by (rule yields_pmap, (rule p yields_intros)+)
    (auto simp: list_all_iff split: prod.splits)

lemma yields_thread [yields_intros]: "yields (thread_local_stmt n) thread_stmt_wf"
proof (induction n)
  case 0
  show ?case by (rule yieldsI) simp
next
  case (Suc n)
  have "yields thread_local_variable_stmt thread_stmt_wf"
    unfolding thread_local_variable_stmt_def by (rule yields_pmap, (rule yields_intros)+) auto
  moreover have "yields assignment_stmt thread_stmt_wf"
    by (rule yields_mono [OF yields_assignment]) auto
  moreover have "yields pause_stmt thread_stmt_wf"
    unfolding pause_stmt_def by (rule yields_pmap, rule yields_True) simp
  ultimately show ?case using yields_tid_if_else [OF Suc] by (simp, intro yields_por)
qed

lemma yields_program: "yields (program_at n) prog_wf"
  unfolding program_at_def thread_local_program_def
proof (rule yields_pmap)
  have "yields global_program (list_all global_stmt_wf)"
    unfolding global_program_def by (rule yields_pmap, rule yields_pseq [OF yields_star [OF yields_global] yields_True]) auto
  then show "yields (pseq (star nl) (pseq global_program (star (thread_local_stmt n))))
      (\<lambda>(_, g, t). list_all global_stmt_wf g \<and> list_all thread_stmt_wf t)"
    by (rule yields_mono [OF yields_pseq [OF yields_True yields_pseq [OF _ yields_star [OF yields_thread]]]]) auto
qed (auto simp: prog_wf_def)

section \<open>Properties\<close>

text \<open>
  C18: the loops of the grammar end. \<open>star\<close> has no bound of its own and would run forever on a parser
  that answers an index beyond the text over and over; from every index of a text, the repetitions of
  global statements and of thread statements return, with an index between that one and the end.
\<close>

theorem parser_loops_end:
  assumes "i \<le> length tx"
  shows "(\<exists>vs j. star global_stmt tx i = Some (vs, j) \<and> i \<le> j \<and> j \<le> length tx) \<and>
    (\<exists>vs j. star (thread_local_stmt n) tx i = Some (vs, j) \<and> i \<le> j \<and> j \<le> length tx)"
  using star_ends [OF _ assms] bounded_stmts(4) bounded_thread_stmt by blast

definition demo_text :: string where
  "demo_text = ''end global'' @ [newline] @ ''thread register a'' @ [newline]"

theorem parser_loops_end_witness: "\<exists>vs j. star global_stmt demo_text 0 = Some (vs, j) \<and> j \<le> length demo_text"
  using parser_loops_end [of 0 demo_text] by auto



text \<open>
  C20: what the parser accepts is a well-formed program: names are identifiers, constants numerals,
  operators those of the language, operands names or constants; declarations are of the kind their
  part of the program admits; and an \<open>iftid\<close> has one branch more than thread ranges.
\<close>

theorem parsed_program_well_formed:
  assumes "program_parser tx i = Some (prog, j)"
  shows "prog_wf prog"
  using yieldsD [OF yields_program] assms unfolding program_parser_def by blast

lemma short_parsed:
  "program_parser (''end global'' @ [newline] @ ''thread register a'' @ [newline]) 0 =
     Some (\<lparr>global_prog = [], thread_prog = [ThreadLocalVariableStmt (VariableDeclaration ''register'' ''a'' [])]\<rparr>, 29)"
  by code_simp

theorem parsed_program_well_formed_witness:
  "prog_wf \<lparr>global_prog = [], thread_prog = [ThreadLocalVariableStmt (VariableDeclaration ''register'' ''a'' [])]\<rparr>"
  by (rule parsed_program_well_formed [OF short_parsed])

end
