(* ===== verification/Lowering.thy ===== *)
theory Lowering
  imports Ast Packer
begin

text \<open>
  \<open>program_to_graph.py\<close>: the pass that allocates the variables of a program and turns its
  statements into logical instructions of the dependence graph. The scratch space belongs to the
  graph (both share it in the source); the pass adds the number of concurrent threads and the thread
  range of the branch it is in. A source exception is a value of \<open>py_error\<close>.
\<close>

record ir_pipeline =
  ir_conc_threads :: int
  ir_graph :: instr_graph
  tidrange_context :: "int set option"

definition new_pipeline :: "int \<Rightarrow> int \<Rightarrow> ir_pipeline" where
  "new_pipeline nthreads conc =
     \<lparr>ir_conc_threads = conc, ir_graph = new_graph new_space nthreads, tidrange_context = None\<rparr>"

abbreviation ir_ss :: "ir_pipeline \<Rightarrow> scratch_space" where
  "ir_ss s \<equiv> graph_ss (ir_graph s)"

definition put_ss :: "scratch_space \<Rightarrow> ir_pipeline \<Rightarrow> ir_pipeline" where
  "put_ss ss s = s\<lparr>ir_graph := (ir_graph s)\<lparr>graph_ss := ss\<rparr>\<rparr>"

section \<open>Emitting instructions\<close>

definition ir_add :: "bool \<Rightarrow> logical_instr \<Rightarrow> ir_pipeline \<Rightarrow> ir_pipeline res" where
  "ir_add is_global l s =
     rbind (graph_add l is_global (if is_global then Some {- 1} else tidrange_context s) (ir_graph s))
       (\<lambda>g. Inr (s\<lparr>ir_graph := g\<rparr>))"

definition linst :: "engine \<Rightarrow> string \<Rightarrow> logical_op list \<Rightarrow> logical_instr" where
  "linst e op ps = \<lparr>lin_engine = e, lin_opcode = op, lin_params = map Op ps\<rparr>"

definition const_inst :: "logical_op \<Rightarrow> int \<Rightarrow> logical_instr" where
  "const_inst d v = \<lparr>lin_engine = LOAD, lin_opcode = ''const'', lin_params = [Op d, Imm v]\<rparr>"

definition register_variable :: "string \<Rightarrow> string \<Rightarrow> nat \<Rightarrow> ir_pipeline \<Rightarrow> ir_pipeline res" where
  "register_variable name vtype num_slots s =
     rbind (if vtype = ''register[]'' then alloc_wide_word (ir_ss s) name num_slots
            else alloc_word (ir_ss s) name num_slots) (\<lambda>(_, _, ss). Inr (put_ss ss s))"

text \<open>A constant is set up in the global part the first time it is asked for.\<close>

definition handle_const :: "int \<Rightarrow> bool \<Rightarrow> ir_pipeline \<Rightarrow> (logical_op \<times> ir_pipeline) res" where
  "handle_const v is_vector s =
     rbind (alloc_const (ir_ss s) v is_vector) (\<lambda>((_, cname, first_time), ss).
     let s = put_ss ss s in
     rbind (logical_register cname 0 False True) (\<lambda>readSingle.
     rbind (logical_register cname 0 False False) (\<lambda>writeSingle.
     rbind (logical_register cname 0 True False) (\<lambda>writeVec.
     rbind (if first_time then
              rbind (ir_add True (const_inst writeSingle v) s) (\<lambda>s.
                if is_vector then ir_add True (linst VALU ''vbroadcast'' [writeVec, readSingle]) s
                else Inr s)
            else Inr s) (\<lambda>s.
     rbind (logical_register cname 0 is_vector True) (\<lambda>r. Inr (r, s)))))))"

section \<open>Operands\<close>

definition check_is_vector :: "scratch_space \<Rightarrow> string \<Rightarrow> bool \<Rightarrow> unit res" where
  "check_is_vector ss lname expect_vector =
     rbind (var_meta_of ss lname) (\<lambda>vm. check AssertionError (vm_is_vector vm = expect_vector))"

definition read_variable :: "scratch_space \<Rightarrow> string \<Rightarrow> bool \<Rightarrow> logical_op res" where
  "read_variable ss name is_vector =
     rbind (check_is_vector ss name is_vector) (\<lambda>_. logical_register name 0 is_vector True)"

definition write_variable :: "scratch_space \<Rightarrow> string \<Rightarrow> bool \<Rightarrow> logical_op res" where
  "write_variable ss name is_vector =
     rbind (check_is_vector ss name is_vector) (\<lambda>_. logical_register name 0 is_vector False)"

definition read_scalar_within_vector :: "scratch_space \<Rightarrow> string \<Rightarrow> int \<Rightarrow> logical_op res" where
  "read_scalar_within_vector ss name offset =
     rbind (check_is_vector ss name True) (\<lambda>_. logical_register name offset False True)"

definition write_scalar_within_vector :: "scratch_space \<Rightarrow> string \<Rightarrow> int \<Rightarrow> logical_op res" where
  "write_scalar_within_vector ss name offset =
     rbind (check_is_vector ss name True) (\<lambda>_. logical_register name offset False False)"

text \<open>\<open>__addr_of\<close> with \<open>is_read = True\<close>, as it is always called.\<close>

definition ir_addr_of :: "operand \<Rightarrow> bool \<Rightarrow> ir_pipeline \<Rightarrow> (logical_op \<times> ir_pipeline) res" where
  "ir_addr_of original expect_vector s =
     (case original of
        Name n \<Rightarrow>
          rbind (check_is_vector (ir_ss s) n expect_vector) (\<lambda>_.
          rbind (logical_register n 0 expect_vector True) (\<lambda>r. Inr (r, s)))
      | VarAt n idx \<Rightarrow>
          rbind (check_is_vector (ir_ss s) n expect_vector) (\<lambda>_.
          rbind (case idx of None \<Rightarrow> Inr 0 | Some c \<Rightarrow> to_int c) (\<lambda>offset.
          rbind (logical_register n offset expect_vector True) (\<lambda>r. Inr (r, s))))
      | Const c \<Rightarrow> rbind (to_int c) (\<lambda>v. handle_const v expect_vector s))"

section \<open>Assignments\<close>

text \<open>
  The condition of a select: its register, the comparison that computes it into the assigned
  variable, and whether that variable was used so.
\<close>

definition lower_cond ::
  "string \<Rightarrow> cond \<Rightarrow> ir_pipeline \<Rightarrow> (logical_op \<times> logical_instr list \<times> bool \<times> ir_pipeline) res" where
  "lower_cond lname c s =
     (case c of
        CondName n \<Rightarrow> rbind (read_variable (ir_ss s) n True) (\<lambda>caddr. Inr (caddr, [], False, s))
      | CondExpr l op r \<Rightarrow>
          rbind (ir_addr_of l True s) (\<lambda>(l1addr, s).
          rbind (ir_addr_of r True s) (\<lambda>(r1addr, s).
          rbind (write_variable (ir_ss s) lname True) (\<lambda>d.
          rbind (read_variable (ir_ss s) lname True) (\<lambda>caddr.
            Inr (caddr, [linst VALU op [d, l1addr, r1addr]], True, s))))))"

definition lower_select ::
  "string \<Rightarrow> cond \<Rightarrow> operand \<Rightarrow> operand \<Rightarrow> ir_pipeline \<Rightarrow> (logical_instr list \<times> ir_pipeline) res" where
  "lower_select lname c if_true if_false s =
     rbind (lower_cond lname c s) (\<lambda>(caddr, instrs, reused_lhs, s).
     rbind (ir_addr_of if_true True s) (\<lambda>(lbranch, s).
     rbind (ir_addr_of if_false True s) (\<lambda>(rbranch, s).
     rbind (check AssertionError (reused_lhs \<longrightarrow> op_name lbranch \<noteq> lname)) (\<lambda>_.
     rbind (check AssertionError (reused_lhs \<longrightarrow> op_name rbranch \<noteq> lname)) (\<lambda>_.
     rbind (write_variable (ir_ss s) lname True) (\<lambda>d.
       Inr (instrs @ [linst FLOW ''vselect'' [d, caddr, lbranch, rbranch]], s)))))))"

definition lower_variable ::
  "scratch_space \<Rightarrow> string \<Rightarrow> bool \<Rightarrow> string \<Rightarrow> int_const option \<Rightarrow> logical_instr res" where
  "lower_variable ss lname is_vector rname index =
     rbind (case index of None \<Rightarrow> Inr 0 | Some c \<Rightarrow> to_int c) (\<lambda>ridx.
     rbind (var_meta_of ss rname) (\<lambda>rvm.
     rbind (check AssertionError
              (if vm_is_vector rvm then 0 \<le> ridx \<and> ridx < int VLEN else ridx = 0)) (\<lambda>_.
     if is_vector then
       rbind (write_variable ss lname True) (\<lambda>d.
       rbind (if vm_is_vector rvm then read_scalar_within_vector ss rname ridx
              else read_variable ss rname False) (\<lambda>r. Inr (linst VALU ''vbroadcast'' [d, r])))
     else
       rbind (if vm_is_vector rvm then read_scalar_within_vector ss rname ridx
              else read_variable ss rname False) (\<lambda>rhs.
       rbind (write_variable ss lname False) (\<lambda>d. Inr (linst ALU ''|'' [d, rhs, rhs]))))))"

definition lower_value ::
  "string \<Rightarrow> value_expr \<Rightarrow> ir_pipeline \<Rightarrow> (logical_instr list \<times> ir_pipeline) res" where
  "lower_value lname rvalue s =
     rbind (var_meta_of (ir_ss s) lname) (\<lambda>lvm.
     let is_vector = vm_is_vector lvm in
     case rvalue of
       DerefIndividualWords rname \<Rightarrow>
         rbind (if is_vector then rbind (var_meta_of (ir_ss s) rname) (\<lambda>vm. Inr (vm_is_vector vm))
                else Inr False) (\<lambda>b.
         rbind (check AssertionError b) (\<lambda>_.
         rbind (mapM (\<lambda>i. rbind (write_scalar_within_vector (ir_ss s) lname i) (\<lambda>d.
                          rbind (read_scalar_within_vector (ir_ss s) rname i) (\<lambda>a.
                            Inr (linst LOAD ''load'' [d, a])))) lanes) (\<lambda>is. Inr (is, s))))
     | DerefVariable rname \<Rightarrow>
         rbind (write_variable (ir_ss s) lname is_vector) (\<lambda>d.
         rbind (read_variable (ir_ss s) rname False) (\<lambda>a.
           Inr ([linst LOAD (if is_vector then ''vload'' else ''load'') [d, a]], s)))
     | DerefConstant c \<Rightarrow>
         rbind (write_variable (ir_ss s) lname is_vector) (\<lambda>d.
         rbind (ir_addr_of (Const c) False s) (\<lambda>(a, s).
           Inr ([linst LOAD (if is_vector then ''vload'' else ''load'') [d, a]], s)))
     | BinOpExpr l op r \<Rightarrow>
         rbind (ir_addr_of l is_vector s) (\<lambda>(r1, s).
         rbind (ir_addr_of r is_vector s) (\<lambda>(r2, s).
         rbind (write_variable (ir_ss s) lname is_vector) (\<lambda>d.
           Inr ([linst (if is_vector then VALU else ALU) op [d, r1, r2]], s))))
     | MultAddExpr r1name r2 r3 \<Rightarrow>
         rbind (check AssertionError is_vector) (\<lambda>_.
         rbind (write_variable (ir_ss s) lname True) (\<lambda>d.
         rbind (read_variable (ir_ss s) r1name True) (\<lambda>a.
         rbind (ir_addr_of r2 True s) (\<lambda>(b, s).
         rbind (ir_addr_of r3 True s) (\<lambda>(c, s).
           Inr ([linst VALU ''multiply_add'' [d, a, b, c]], s))))))
     | SelectExpr c t f \<Rightarrow>
         rbind (check AssertionError is_vector) (\<lambda>_. lower_select lname c t f s)
     | IntConstantExpr c \<Rightarrow>
         if is_vector then
           rbind (write_variable (ir_ss s) lname True) (\<lambda>d.
           rbind (ir_addr_of (Const c) False s) (\<lambda>(a, s). Inr ([linst VALU ''vbroadcast'' [d, a]], s)))
         else
           rbind (write_variable (ir_ss s) lname False) (\<lambda>d.
           rbind (to_int c) (\<lambda>v. Inr ([const_inst d v], s)))
     | Variable rname index \<Rightarrow>
         rbind (lower_variable (ir_ss s) lname is_vector rname index) (\<lambda>i. Inr ([i], s)))"

definition handle_variable_assignment ::
  "string \<Rightarrow> value_expr \<Rightarrow> bool \<Rightarrow> ir_pipeline \<Rightarrow> ir_pipeline res" where
  "handle_variable_assignment lname rvalue is_global s =
     rbind (lower_value lname rvalue s) (\<lambda>(instrs, s). foldM (\<lambda>s i. ir_add is_global i s) instrs s)"

section \<open>Statements\<close>

text \<open>
  The catch-all case raises a \<open>NameError\<close>: its message refers to a name that does not exist.
\<close>

definition handle_store_memory :: "string \<Rightarrow> value_expr \<Rightarrow> bool \<Rightarrow> ir_pipeline \<Rightarrow> ir_pipeline res" where
  "handle_store_memory lname value is_global s =
     (case value of
        Variable rname _ \<Rightarrow>
          rbind (var_meta_of (ir_ss s) rname) (\<lambda>vm.
          let is_vector = vm_is_vector vm in
          rbind (read_variable (ir_ss s) lname False) (\<lambda>a.
          rbind (write_variable (ir_ss s) rname is_vector) (\<lambda>v.
            ir_add is_global (linst STORE (if is_vector then ''vstore'' else ''store'') [a, v]) s)))
      | _ \<Rightarrow> Inl NameError)"

definition slots_for :: "bool \<Rightarrow> ir_pipeline \<Rightarrow> nat" where
  "slots_for is_global s = (if is_global then 1 else nat (ir_conc_threads s))"

definition handle_variable_definition ::
  "string \<Rightarrow> string \<Rightarrow> value_expr \<Rightarrow> bool \<Rightarrow> ir_pipeline \<Rightarrow> ir_pipeline res" where
  "handle_variable_definition vtype name value is_global s =
     rbind (register_variable name vtype (slots_for is_global s) s)
       (handle_variable_assignment name value is_global)"

definition handle_variable_declaration ::
  "string \<Rightarrow> string list \<Rightarrow> bool \<Rightarrow> ir_pipeline \<Rightarrow> ir_pipeline res" where
  "handle_variable_declaration vtype names is_global s =
     foldM (\<lambda>s n. register_variable n vtype (slots_for is_global s) s) names s"

definition handle_decl :: "decl \<Rightarrow> bool \<Rightarrow> ir_pipeline \<Rightarrow> ir_pipeline res" where
  "handle_decl d is_global s =
     (case d of
        VariableDeclaration t n ns \<Rightarrow> handle_variable_declaration t (n # ns) is_global s
      | VariableDefinition t n v \<Rightarrow> handle_variable_definition t n v is_global s)"

definition handle_pause_stmt :: "bool \<Rightarrow> ir_pipeline \<Rightarrow> ir_pipeline res" where
  "handle_pause_stmt is_global s =
     Inr (s\<lparr>ir_graph := add_pause (linst FLOW ''pause'' []) is_global (ir_graph s)\<rparr>)"

definition to_set :: "tid_range \<Rightarrow> int set res" where
  "to_set r = rbind (to_int (range_start r)) (\<lambda>a. rbind (to_int (range_end r)) (\<lambda>b. Inr (set [a..b - 1])))"

text \<open>
  A branch of an \<open>iftid\<close>: its statements run with its thread range as context; the last branch takes
  the threads no range took. Leaving a branch resets the context, whatever it was before.
\<close>

fun handle_stmt :: "stmt \<Rightarrow> bool \<Rightarrow> ir_pipeline \<Rightarrow> ir_pipeline res"
and handle_stmts :: "stmt list \<Rightarrow> bool \<Rightarrow> ir_pipeline \<Rightarrow> ir_pipeline res"
and handle_branches ::
  "stmt list list \<Rightarrow> tid_range list \<Rightarrow> int set \<Rightarrow> bool \<Rightarrow> ir_pipeline \<Rightarrow> ir_pipeline res" where
  "handle_stmt (VariableDeclarationStmt d) is_global s = handle_decl d is_global s"
| "handle_stmt (ThreadLocalVariableStmt d) is_global s = handle_decl d is_global s"
| "handle_stmt (LoadVariable n v) is_global s = handle_variable_assignment n v is_global s"
| "handle_stmt (StoreMemory n v) is_global s = handle_store_memory n v is_global s"
| "handle_stmt PauseStmt is_global s = handle_pause_stmt is_global s"
| "handle_stmt (TidIfElseStmt rs bs) is_global s =
     handle_branches bs rs (set [0..num_threads (ir_graph s) - 1]) is_global s"
| "handle_stmts [] is_global s = Inr s"
| "handle_stmts (st # sts) is_global s =
     rbind (handle_stmt st is_global s) (handle_stmts sts is_global)"
| "handle_branches [] rs remaining is_global s = Inr s"
| "handle_branches (b # bs) rs remaining is_global s =
     rbind (case rs of [] \<Rightarrow> Inr remaining | r # _ \<Rightarrow> to_set r) (\<lambda>trange.
     rbind (handle_stmts b is_global (s\<lparr>tidrange_context := Some trange\<rparr>)) (\<lambda>s.
       handle_branches bs (tl rs) (remaining - trange) is_global (s\<lparr>tidrange_context := None\<rparr>)))"

section \<open>Programs\<close>

definition program_to_irp :: "program \<Rightarrow> int \<Rightarrow> int \<Rightarrow> ir_pipeline res" where
  "program_to_irp prog nthreads conc =
     rbind (handle_stmts (global_prog prog) True (new_pipeline nthreads conc))
       (handle_stmts (thread_prog prog) False)"

text \<open>The handler for a full scratch space calls a function that does not exist.\<close>

definition estimate_max_conc_threads :: "program \<Rightarrow> int \<Rightarrow> int res" where
  "estimate_max_conc_threads prog nthreads =
     (case program_to_irp prog nthreads 2 of
        Inl e \<Rightarrow> Inl (if e = InsufficientRegisterCount then NameError else e)
      | Inr s \<Rightarrow>
          rbind (check ZeroDivisionError (per_thread_space (ir_ss s) \<noteq> 0)) (\<lambda>_.
            Inr (min (2 + free_space (ir_ss s) div int (per_thread_space (ir_ss s))) nthreads)))"

definition program_to_work ::
  "sorted_set_of \<Rightarrow> nat heap_ops \<Rightarrow> program \<Rightarrow> int \<Rightarrow> int \<Rightarrow> packer res" where
  "program_to_work ss_of hp prog nthreads conc =
     rbind (program_to_irp prog nthreads conc) (\<lambda>s. get_work ss_of hp (ir_graph s) conc True)"

end
