(* ===== verification/Lowering_Props.thy ===== *)
theory Lowering_Props
  imports Lowering Opcode_Sorts
begin

text \<open>
  What lowering does to its state, as a step relation: it declares variables, sets up constants, adds
  instructions whose operands are declared, and changes the thread context. The invariant
  \<open>pipeline_wf\<close> is proved once per kind of step, and every handler of the pass is shown to be a
  sequence of such steps.
\<close>

section \<open>Well-formed scratch spaces and instructions\<close>

definition space_wf :: "nat \<Rightarrow> scratch_space \<Rightarrow> bool" where
  "space_wf c ss \<longleftrightarrow> space_ok ss \<and> (\<forall>n vm. metas ss n = Some vm \<longrightarrow>
     (vm_length vm = 1 \<or> vm_length vm = VLEN) \<and> (vm_slots vm = 1 \<or> vm_slots vm = c) \<and>
     n \<noteq> SPECIAL_MEM_REGISTER_NAME \<and> vm_is_constant vm = (\<not> is_ident n) \<and>
     (vm_is_constant vm \<longrightarrow> (\<exists>vb. const_map ss vb = Some vm)))"

definition reg_ok :: "scratch_space \<Rightarrow> logical_op \<Rightarrow> bool" where
  "reg_ok ss p \<longleftrightarrow> \<not> is_array_op p \<and> 0 \<le> op_offset p \<and> (\<exists>vm. metas ss (op_name p) = Some vm \<and>
     (if op_is_vector p then op_offset p = 0 \<and> vm_length vm = VLEN else op_offset p < int (vm_length vm)))"

definition inst_ok :: "scratch_space \<Rightarrow> logical_instr \<Rightarrow> bool" where
  "inst_ok ss l \<longleftrightarrow> shaped l \<and> (\<forall>p \<in> set (param_ops (lin_params l)). reg_ok ss p)"

definition imeta_ok :: "scratch_space \<Rightarrow> int \<Rightarrow> imeta \<Rightarrow> bool" where
  "imeta_ok ss t x \<longleftrightarrow> inst_ok ss (lin x) \<and> tid x = t"

definition graph_wf :: "nat \<Rightarrow> instr_graph \<Rightarrow> bool" where
  "graph_wf c g \<longleftrightarrow> space_wf c (graph_ss g) \<and> (\<forall>x \<in> set (globalimetas g). imeta_ok (graph_ss g) (- 1) x) \<and>
     (\<forall>x \<in> set (graph_imetas g). imeta_ok (graph_ss g) (- 2) x)"

abbreviation pipeline_wf :: "ir_pipeline \<Rightarrow> bool" where
  "pipeline_wf s \<equiv> graph_wf (nat (ir_conc_threads s)) (ir_graph s)"

text \<open>Every variable of one space is, as it is, a variable of the other.\<close>

definition space_le :: "scratch_space \<Rightarrow> scratch_space \<Rightarrow> bool" where
  "space_le ss ss' \<longleftrightarrow> metas ss \<subseteq>\<^sub>m metas ss' \<and> const_map ss \<subseteq>\<^sub>m const_map ss'"

lemma space_le_refl [simp]: "space_le ss ss"
  by (simp add: space_le_def)

lemma space_le_trans: "space_le a b \<Longrightarrow> space_le b c \<Longrightarrow> space_le a c"
  by (auto simp: space_le_def intro: map_le_trans)

lemma space_le_metas: "space_le ss ss' \<Longrightarrow> metas ss n = Some vm \<Longrightarrow> metas ss' n = Some vm"
  unfolding space_le_def map_le_def by (metis domI)

lemma reg_ok_mono: "reg_ok ss p \<Longrightarrow> space_le ss ss' \<Longrightarrow> reg_ok ss' p"
  unfolding reg_ok_def by (blast dest: space_le_metas)

lemma inst_ok_mono: "inst_ok ss l \<Longrightarrow> space_le ss ss' \<Longrightarrow> inst_ok ss' l"
  unfolding inst_ok_def by (blast dest: reg_ok_mono)

lemma imeta_ok_mono: "imeta_ok ss t x \<Longrightarrow> space_le ss ss' \<Longrightarrow> imeta_ok ss' t x"
  unfolding imeta_ok_def by (blast dest: inst_ok_mono)

lemma graph_wf_space:
  "graph_wf c g \<Longrightarrow> space_wf c ss \<Longrightarrow> space_le (graph_ss g) ss \<Longrightarrow> graph_wf c (g\<lparr>graph_ss := ss\<rparr>)"
  unfolding graph_wf_def by (auto dest: imeta_ok_mono)

lemma var_meta_of_iff: "var_meta_of ss n = Inr vm \<longleftrightarrow> metas ss n = Some vm"
  by (simp add: var_meta_of_def dict_get_def metas_def split: option.splits)

section \<open>Allocation\<close>

lemma space_wf_new: "space_wf c new_space"
  unfolding space_wf_def using space_ok_new by (simp add: new_space_def metas_def)

lemma space_wf_ok: "space_wf c ss \<Longrightarrow> space_ok ss"
  by (simp add: space_wf_def)

lemma ident_not_special: "is_ident n \<Longrightarrow> n \<noteq> SPECIAL_MEM_REGISTER_NAME"
  by (auto simp: SPECIAL_MEM_REGISTER_NAME_def ident_no_underscore)

lemma alloc_le:
  assumes "space_ok ss" "alloc_scratch ss n len slots = Inr (a, vm, ss')"
  shows "space_le ss ss'" "metas ss' = (metas ss)(n \<mapsto> vm)" "metas ss n = None" "const_map ss' = const_map ss"
proof -
  note c = alloc_scratch_cases [OF assms(2)]
  show m: "metas ss' = (metas ss)(n \<mapsto> vm)" by (rule metas_put [OF c(6)])
  show fresh: "metas ss n = None" by (rule fresh_metas [OF assms(1) c(1)])
  show "const_map ss' = const_map ss" by (rule c(9))
  with m fresh show "space_le ss ss'" by (auto simp: space_le_def map_le_def)
qed

lemma alloc_wf:
  assumes "space_wf c ss" "is_ident n" "len = 1 \<or> len = VLEN" "slots = 1 \<or> slots = c"
    and "alloc_scratch ss n len slots = Inr (a, vm, ss')"
  shows "space_wf c ss' \<and> space_le ss ss'"
proof -
  note le = alloc_le [OF space_wf_ok [OF assms(1)] assms(5)]
  note cs = alloc_scratch_cases [OF assms(5)]
  have "space_ok ss'" by (rule alloc_scratch_ok [OF space_wf_ok [OF assms(1)] assms(5)])
  moreover have "(vm_length w = 1 \<or> vm_length w = VLEN) \<and> (vm_slots w = 1 \<or> vm_slots w = c) \<and>
      m \<noteq> SPECIAL_MEM_REGISTER_NAME \<and> vm_is_constant w = (\<not> is_ident m) \<and>
      (vm_is_constant w \<longrightarrow> (\<exists>vb. const_map ss' vb = Some w))" if "metas ss' m = Some w" for m w
  proof (cases "m = n")
    case True
    with that le(2) cs(4) assms(2-4) ident_not_special show ?thesis by auto
  next
    case False
    with that le(2) have "metas ss m = Some w" by simp
    with assms(1) le(4) show ?thesis unfolding space_wf_def by simp
  qed
  ultimately show ?thesis using le(1) unfolding space_wf_def by blast
qed

lemma const_name_not_ident: "\<not> is_ident (const_name v b)" "const_name v b \<noteq> SPECIAL_MEM_REGISTER_NAME"
  by (simp_all add: const_name_def ident_no_underscore SPECIAL_MEM_REGISTER_NAME_def)

text \<open>After \<open>alloc_const\<close> the constant is a declared constant of its name and value.\<close>

lemma alloc_const_wf:
  assumes "space_wf c ss" "alloc_const ss v b = Inr ((a, cname, first), ss')"
  shows "space_wf c ss' \<and> space_le ss ss' \<and> cname = const_name v b \<and>
    (\<exists>vm. metas ss' cname = Some vm \<and> vm_length vm = (if b then VLEN else 1) \<and> vm_slots vm = 1 \<and>
       const_map ss' (v, b) = Some vm \<and> vm_is_constant vm \<and> vm_constant_value vm = v) \<and>
    (first \<longleftrightarrow> const_map ss (v, b) = None)"
  using assms(2)
proof (cases rule: alloc_const_cases)
  case (old w)
  from space_okD(7) [OF space_wf_ok [OF assms(1)] old(1)]
  have k: "const_ok ss (v, b) w" .
  then have m: "metas ss (vm_name w) = Some w" "vm_name w = const_name v b" "vm_is_vector w = b" "vm_slots w = 1"
    "vm_is_constant w" "vm_constant_value w = v"
    by (auto simp: const_ok_def)
  from space_okD(5) [OF space_wf_ok [OF assms(1)] m(1)] m(3)
  have "b = (vm_length w > 1)" by (simp add: meta_ok_def)
  moreover from assms(1) m(1) have "vm_length w = 1 \<or> vm_length w = VLEN" unfolding space_wf_def by blast
  ultimately have "vm_length w = (if b then VLEN else 1)" by (auto simp: VLEN_def)
  with old m assms(1) show ?thesis by auto
next
  case (new vm ss1)
  let ?vm = "vm\<lparr>vm_is_constant := True, vm_constant_value := v\<rparr>"
  note le = alloc_le [OF space_wf_ok [OF assms(1)] new(4)]
  note cs = alloc_scratch_cases [OF new(4)]
  have m': "metas ss' = (metas ss1)(cname \<mapsto> ?vm)" unfolding new(5) by (rule metas_put) simp
  with le have m: "metas ss' = (metas ss)(cname \<mapsto> ?vm)" by simp
  have cm: "const_map ss' = (const_map ss)((v, b) \<mapsto> ?vm)" using new(5) le(4) by simp
  have "space_ok ss'" by (rule alloc_const_ok [OF space_wf_ok [OF assms(1)] assms(2)])
  moreover have "(vm_length w = 1 \<or> vm_length w = VLEN) \<and> (vm_slots w = 1 \<or> vm_slots w = c) \<and>
      k \<noteq> SPECIAL_MEM_REGISTER_NAME \<and> vm_is_constant w = (\<not> is_ident k) \<and>
      (vm_is_constant w \<longrightarrow> (\<exists>vb. const_map ss' vb = Some w))" if "metas ss' k = Some w" for k w
  proof (cases "k = cname")
    case True
    with that m have w: "w = ?vm" by simp
    have "const_map ss' (v, b) = Some w" using cm w by simp
    moreover have "(vm_length w = 1 \<or> vm_length w = VLEN) \<and> vm_slots w = 1 \<and> vm_is_constant w"
      unfolding w by (subst (1 2 3 4) cs(4)) simp
    ultimately show ?thesis unfolding True new(2) using const_name_not_ident by blast
  next
    case False
    with that m have k: "metas ss k = Some w" by simp
    have "\<exists>vb. const_map ss' vb = Some w" if "const_map ss vb = Some w" for vb
      using that cm new(1) by (intro exI [of _ vb]) auto
    with assms(1) k show ?thesis unfolding space_wf_def by blast
  qed
  ultimately have "space_wf c ss'" unfolding space_wf_def by blast
  moreover have "space_le ss ss'" using m cm le(3) new(1) by (auto simp: space_le_def map_le_def)
  moreover have "vm_length ?vm = (if b then VLEN else 1)" "vm_slots ?vm = 1" by (subst cs(4), simp)+
  ultimately show ?thesis using new m cm by auto
qed

section \<open>Steps of the pass\<close>

lemma slots_for_cases: "slots_for g s = 1 \<or> slots_for g s = nat (ir_conc_threads s)"
  by (simp add: slots_for_def)

inductive emits :: "bool \<Rightarrow> ir_pipeline \<Rightarrow> ir_pipeline \<Rightarrow> bool" for g s where
  emits_refl: "emits g s s"
| emits_declare: "emits g s t \<Longrightarrow> is_ident n \<Longrightarrow> len = 1 \<or> len = VLEN \<Longrightarrow>
    alloc_scratch (ir_ss t) n len (slots_for g t) = Inr (a, vm, ss) \<Longrightarrow> emits g s (put_ss ss t)"
| emits_constant: "emits g s t \<Longrightarrow> handle_const v b t = Inr (r, u) \<Longrightarrow> emits g s u"
| emits_add: "emits g s t \<Longrightarrow> inst_ok (ir_ss t) l \<Longrightarrow> ir_add g l t = Inr u \<Longrightarrow> emits g s u"
| emits_context: "emits g s t \<Longrightarrow> emits g s (t\<lparr>tidrange_context := c\<rparr>)"

lemma emits_trans: "emits g t u \<Longrightarrow> emits g s t \<Longrightarrow> emits g s u"
proof (induction rule: emits.induct)
  case emits_refl
  then show ?case .
next
  case (emits_declare t' n len a vm ss)
  show ?case by (rule emits.emits_declare [OF emits_declare.IH [OF emits_declare.prems] emits_declare.hyps(2-4)])
next
  case (emits_constant t' v b r u)
  show ?case by (rule emits.emits_constant [OF emits_constant.IH [OF emits_constant.prems] emits_constant.hyps(2)])
next
  case (emits_add t' l u)
  show ?case by (rule emits.emits_add [OF emits_add.IH [OF emits_add.prems] emits_add.hyps(2,3)])
next
  case (emits_context t' c)
  show ?case by (rule emits.emits_context [OF emits_context.IH [OF emits_context.prems]])
qed

lemma put_ss_sel [simp]:
  "ir_ss (put_ss ss s) = ss" "ir_conc_threads (put_ss ss s) = ir_conc_threads s"
  "graph_imetas (ir_graph (put_ss ss s)) = graph_imetas (ir_graph s)"
  "globalimetas (ir_graph (put_ss ss s)) = globalimetas (ir_graph s)"
  "num_threads (ir_graph (put_ss ss s)) = num_threads (ir_graph s)"
  "tidrange_context (put_ss ss s) = tidrange_context s"
  by (simp_all add: put_ss_def)

text \<open>One instruction added: it goes to the end of the list of its kind.\<close>

lemma ir_add_cases:
  assumes "ir_add g l s = Inr t"
  obtains x where "lin x = l" "tid x = (if g then - 1 else - 2)" "after x = []" "instid x = - 1"
    "tidrange x = (if g then {- 1} else case tidrange_context s of None \<Rightarrow> INFINITE_SET | Some r \<Rightarrow> r)"
    "t = s\<lparr>ir_graph := (if g then (ir_graph s)\<lparr>globalimetas := globalimetas (ir_graph s) @ [x]\<rparr>
          else (ir_graph s)\<lparr>graph_imetas := graph_imetas (ir_graph s) @ [x]\<rparr>)\<rparr>"
proof (cases g)
  case True
  with assms show thesis
    by (intro that [of "\<lparr>instid = - 1, lin = l, tid = - 1, instid_in_thread = - 1, after = [], tidrange = SET_MINUS_ONE\<rparr>"])
      (auto simp: ir_add_def graph_add_def instr_meta_def res_elims SET_MINUS_ONE_def)
next
  case False
  with assms show thesis
    by (intro that [of "\<lparr>instid = - 1, lin = l, tid = - 2, instid_in_thread = - 1, after = [],
          tidrange = (case tidrange_context s of None \<Rightarrow> INFINITE_SET | Some r \<Rightarrow> r)\<rparr>"])
      (auto simp: ir_add_def graph_add_def instr_meta_def res_elims)
qed

lemma ir_add_total: "\<exists>t. ir_add g l s = Inr t"
  by (simp add: ir_add_def graph_add_def instr_meta_def SET_MINUS_ONE_def)

lemma ir_add_frame:
  assumes "ir_add g l s = Inr t"
  shows "ir_ss t = ir_ss s" "ir_conc_threads t = ir_conc_threads s"
    "num_threads (ir_graph t) = num_threads (ir_graph s)" "tidrange_context t = tidrange_context s"
  by (rule ir_add_cases [OF assms]; cases g; simp)+

lemma ir_add_wf:
  assumes "pipeline_wf s" "inst_ok (ir_ss s) l" "ir_add g l s = Inr t"
  shows "pipeline_wf t"
proof -
  from ir_add_cases [OF assms(3)] obtain x where x: "lin x = l" "tid x = (if g then - 1 else - 2)"
    "t = s\<lparr>ir_graph := (if g then (ir_graph s)\<lparr>globalimetas := globalimetas (ir_graph s) @ [x]\<rparr>
          else (ir_graph s)\<lparr>graph_imetas := graph_imetas (ir_graph s) @ [x]\<rparr>)\<rparr>" by metis
  from x(1,2) assms(2) have "imeta_ok (ir_ss s) (if g then - 1 else - 2) x" by (simp add: imeta_ok_def)
  with assms(1) show ?thesis by (cases g) (simp_all add: graph_wf_def x(3))
qed

lemma param_ops_simps [simp]:
  "param_ops [] = []" "param_ops (Op p # ps) = p # param_ops ps" "param_ops (Imm v # ps) = param_ops ps"
  "param_ops (map Op qs) = qs"
  by (simp_all add: param_ops_def) (induction qs; simp)

lemma shaped_simps [simp]:
  "shaped (const_inst d k) \<longleftrightarrow> \<not> op_is_vector d \<and> \<not> op_is_read d"
  "shaped (linst ALU op [d, a, b]) \<longleftrightarrow>
     \<not> op_is_vector d \<and> \<not> op_is_vector a \<and> \<not> op_is_vector b \<and> \<not> op_is_read d \<and> op_is_read a \<and> op_is_read b"
  "shaped (linst VALU ''vbroadcast'' [d, a]) \<longleftrightarrow> op_is_vector d \<and> \<not> op_is_vector a \<and> \<not> op_is_read d \<and> op_is_read a"
  "shaped (linst VALU ''multiply_add'' [d, a, b, e]) \<longleftrightarrow> op_is_vector d \<and> op_is_vector a \<and> op_is_vector b \<and>
     op_is_vector e \<and> \<not> op_is_read d \<and> op_is_read a \<and> op_is_read b \<and> op_is_read e"
  "shaped (linst FLOW ''vselect'' [d, a, b, e]) \<longleftrightarrow> op_is_vector d \<and> op_is_vector a \<and> op_is_vector b \<and>
     op_is_vector e \<and> \<not> op_is_read d \<and> op_is_read a \<and> op_is_read b \<and> op_is_read e"
  "shaped (linst LOAD ''load'' [d, a]) \<longleftrightarrow> \<not> op_is_vector d \<and> \<not> op_is_vector a \<and> \<not> op_is_read d \<and> op_is_read a"
  "shaped (linst LOAD (if v then ''vload'' else ''load'') [d, a]) \<longleftrightarrow>
     op_is_vector d = v \<and> \<not> op_is_vector a \<and> \<not> op_is_read d \<and> op_is_read a"
  "shaped (linst STORE (if v then ''vstore'' else ''store'') [d, a]) \<longleftrightarrow> \<not> op_is_vector d \<and> op_is_vector a = v"
  by (auto simp: shaped_def sorts_def linst_def const_inst_def numeral_3_eq_3 numeral_eq_Suc)

lemma shaped_binop:
  "op \<in> set operators \<union> {''<''} \<Longrightarrow> shaped (linst (if v then VALU else ALU) op [d, a, b]) \<longleftrightarrow>
     op_is_vector d = v \<and> op_is_vector a = v \<and> op_is_vector b = v \<and> \<not> op_is_read d \<and> op_is_read a \<and> op_is_read b"
  by (auto simp: shaped_def sorts_def linst_def operators_def numeral_eq_Suc)

lemma inst_ok_linst [simp]: "inst_ok ss (linst e op ps) \<longleftrightarrow> shaped (linst e op ps) \<and> (\<forall>p \<in> set ps. reg_ok ss p)"
  by (simp add: inst_ok_def) (simp add: linst_def)

lemma inst_ok_const [simp]: "inst_ok ss (const_inst d v) \<longleftrightarrow> \<not> op_is_vector d \<and> \<not> op_is_read d \<and> reg_ok ss d"
  by (simp add: inst_ok_def) (simp add: const_inst_def)

text \<open>The set-up of a constant, as it is emitted.\<close>

definition const_setup :: "string \<Rightarrow> int \<Rightarrow> bool \<Rightarrow> logical_instr list" where
  "const_setup cname v b =
     const_inst (LR cname 0 False False) v #
     (if b then [linst VALU ''vbroadcast'' [LR cname 0 True False, LR cname 0 False True]] else [])"

lemma handle_const_cases:
  assumes "handle_const v b s = Inr (r, t)"
  obtains a cname first ss where "alloc_const (ir_ss s) v b = Inr ((a, cname, first), ss)"
    "r = LR cname 0 b True"
    "foldM (\<lambda>s l. ir_add True l s) (if first then const_setup cname v b else []) (put_ss ss s) = Inr t"
proof -
  have reg: "logical_register n 0 x y = Inr (LR n 0 x y)" for n x y by (simp add: logical_register_iff VLEN_def)
  from assms obtain x where x: "alloc_const (ir_ss s) v b = Inr x" unfolding handle_const_def by (rule rbind_InrE)
  obtain a cname first ss where "x = ((a, cname, first), ss)" by (metis prod.exhaust)
  with x have al: "alloc_const (ir_ss s) v b = Inr ((a, cname, first), ss)" by simp
  from assms obtain u where u: "(if first then rbind (ir_add True (const_inst (LR cname 0 False False) v) (put_ss ss s)) (\<lambda>s.
          if b then ir_add True (linst VALU ''vbroadcast'' [LR cname 0 True False, LR cname 0 False True]) s
          else Inr s) else Inr (put_ss ss s)) = Inr u" "r = LR cname 0 b True" "t = u"
    unfolding handle_const_def al by (auto simp only: rbind_simps Let_def reg prod.case rbind_Inr_iff sum.inject prod.inject)
  have "foldM (\<lambda>s l. ir_add True l s) (if first then const_setup cname v b else []) (put_ss ss s) = Inr t"
    using u by (cases first; cases b) (simp_all add: const_setup_def rbind_right foldM_unfold)
  with al u(2) show thesis by (rule that)
qed

lemma ir_adds_wf:
  assumes "foldM (\<lambda>s l. ir_add g l s) ls s = Inr t" "pipeline_wf s" "\<forall>l \<in> set ls. inst_ok (ir_ss s) l"
  shows "pipeline_wf t \<and> ir_ss t = ir_ss s \<and> ir_conc_threads t = ir_conc_threads s \<and>
    num_threads (ir_graph t) = num_threads (ir_graph s) \<and> tidrange_context t = tidrange_context s"
  using assms(1)
proof (rule foldM_invariant)
  show "pipeline_wf s \<and> ir_ss s = ir_ss s \<and> ir_conc_threads s = ir_conc_threads s \<and>
    num_threads (ir_graph s) = num_threads (ir_graph s) \<and> tidrange_context s = tidrange_context s" using assms(2) by simp
  show "pipeline_wf w \<and> ir_ss w = ir_ss s \<and> ir_conc_threads w = ir_conc_threads s \<and>
      num_threads (ir_graph w) = num_threads (ir_graph s) \<and> tidrange_context w = tidrange_context s"
    if "l \<in> set ls" "pipeline_wf u \<and> ir_ss u = ir_ss s \<and> ir_conc_threads u = ir_conc_threads s \<and>
      num_threads (ir_graph u) = num_threads (ir_graph s) \<and> tidrange_context u = tidrange_context s" "ir_add g l u = Inr w" for u l w
  proof -
    have "inst_ok (ir_ss u) l" using assms(3) that(1,2) by simp
    with ir_add_wf [OF _ this that(3)] ir_add_frame [OF that(3)] that(2) show ?thesis by metis
  qed
qed

lemma handle_const_wf:
  assumes "pipeline_wf s" "handle_const v b s = Inr (r, t)"
  shows "pipeline_wf t \<and> space_le (ir_ss s) (ir_ss t) \<and> reg_ok (ir_ss t) r \<and>
    r = LR (const_name v b) 0 b True \<and> ir_conc_threads t = ir_conc_threads s \<and>
    num_threads (ir_graph t) = num_threads (ir_graph s) \<and> tidrange_context t = tidrange_context s"
proof -
  from handle_const_cases [OF assms(2)] obtain a cname first ss where
    a: "alloc_const (ir_ss s) v b = Inr ((a, cname, first), ss)" "r = LR cname 0 b True"
      "foldM (\<lambda>s l. ir_add True l s) (if first then const_setup cname v b else []) (put_ss ss s) = Inr t" by metis
  from assms(1) have "space_wf (nat (ir_conc_threads s)) (ir_ss s)" by (simp add: graph_wf_def)
  from alloc_const_wf [OF this a(1)] obtain vm where
    w: "space_wf (nat (ir_conc_threads s)) ss" "space_le (ir_ss s) ss" "cname = const_name v b"
      "metas ss cname = Some vm" "vm_length vm = (if b then VLEN else 1)" by auto
  have "pipeline_wf (put_ss ss s)"
    using graph_wf_space [OF assms(1) w(1,2)] by (simp add: put_ss_def)
  moreover have reg: "reg_ok ss (LR cname 0 False rd)" "b \<Longrightarrow> reg_ok ss (LR cname 0 True rd)" for rd
    using w(4,5) by (auto simp: reg_ok_def is_array_op_def VLEN_def)
  then have "\<forall>l \<in> set (if first then const_setup cname v b else []). inst_ok (ir_ss (put_ss ss s)) l"
    by (auto simp: const_setup_def)
  ultimately have "pipeline_wf t \<and> ir_ss t = ir_ss (put_ss ss s) \<and> ir_conc_threads t = ir_conc_threads (put_ss ss s) \<and>
      num_threads (ir_graph t) = num_threads (ir_graph (put_ss ss s)) \<and>
      tidrange_context t = tidrange_context (put_ss ss s)"
    by (rule ir_adds_wf [OF a(3)])
  with w(2,3) reg a(2) show ?thesis by (cases b) auto
qed

lemma emits_wf:
  assumes "emits g s t" "pipeline_wf s"
  shows "pipeline_wf t \<and> space_le (ir_ss s) (ir_ss t) \<and> ir_conc_threads t = ir_conc_threads s \<and>
    num_threads (ir_graph t) = num_threads (ir_graph s)"
  using assms
proof (induction rule: emits.induct)
  case (emits_declare t n len a vm ss)
  then have t: "pipeline_wf t" "space_le (ir_ss s) (ir_ss t)" "ir_conc_threads t = ir_conc_threads s"
    "num_threads (ir_graph t) = num_threads (ir_graph s)" by auto
  from t(1) have "space_wf (nat (ir_conc_threads t)) (ir_ss t)" by (simp add: graph_wf_def)
  from alloc_wf [OF this emits_declare.hyps(2,3) slots_for_cases emits_declare.hyps(4)]
  have ss: "space_wf (nat (ir_conc_threads t)) ss" "space_le (ir_ss t) ss" by auto
  from graph_wf_space [OF t(1) ss] have "pipeline_wf (put_ss ss t)" by (simp add: put_ss_def)
  with t ss(2) show ?case by (auto intro: space_le_trans)
next
  case (emits_constant t v b r u)
  then have t: "pipeline_wf t" "space_le (ir_ss s) (ir_ss t)" "ir_conc_threads t = ir_conc_threads s"
    "num_threads (ir_graph t) = num_threads (ir_graph s)" by auto
  from handle_const_wf [OF t(1) emits_constant.hyps(2)] t(2-) show ?case by (auto intro: space_le_trans)
next
  case (emits_add t l u)
  then have t: "pipeline_wf t" "space_le (ir_ss s) (ir_ss t)" "ir_conc_threads t = ir_conc_threads s"
    "num_threads (ir_graph t) = num_threads (ir_graph s)" by auto
  from ir_add_wf [OF t(1) emits_add.hyps(2,3)] ir_add_frame [OF emits_add.hyps(3)] t(2-) show ?case by simp
qed auto

section \<open>Operands are declared\<close>

lemma rbind_pair_iff: "rbind m (\<lambda>(a, b). f a b) = Inr y \<longleftrightarrow> (\<exists>a b. m = Inr (a, b) \<and> f a b = Inr y)"
  by (cases m) auto

lemma rbind_quad_iff:
  "rbind m (\<lambda>(a, b, c, d). f a b c d) = Inr y \<longleftrightarrow> (\<exists>a b c d. m = Inr (a, b, c, d) \<and> f a b c d = Inr y)"
  by (cases m) auto

lemma check_is_vector_iff:
  "check_is_vector ss n b = Inr u \<longleftrightarrow> (\<exists>vm. metas ss n = Some vm \<and> vm_is_vector vm = b)"
  by (auto simp: check_is_vector_def rbind_Inr_iff var_meta_of_iff check_Inr_iff)

lemma register_iffs:
  "read_variable ss n b = Inr r \<longleftrightarrow> (\<exists>vm. metas ss n = Some vm \<and> vm_is_vector vm = b) \<and> r = LR n 0 b True"
  "write_variable ss n b = Inr r \<longleftrightarrow> (\<exists>vm. metas ss n = Some vm \<and> vm_is_vector vm = b) \<and> r = LR n 0 b False"
  "read_scalar_within_vector ss n i = Inr r \<longleftrightarrow>
     (\<exists>vm. metas ss n = Some vm \<and> vm_is_vector vm) \<and> 0 \<le> i \<and> i < int VLEN \<and> r = LR n i False True"
  "write_scalar_within_vector ss n i = Inr r \<longleftrightarrow>
     (\<exists>vm. metas ss n = Some vm \<and> vm_is_vector vm) \<and> 0 \<le> i \<and> i < int VLEN \<and> r = LR n i False False"
  by (auto simp: read_variable_def write_variable_def read_scalar_within_vector_def write_scalar_within_vector_def
      rbind_Inr_iff check_is_vector_iff logical_register_iff VLEN_def)

lemma vm_length_vector:
  assumes "space_wf c ss" "metas ss n = Some vm"
  shows "vm_length vm = (if vm_is_vector vm then VLEN else 1)"
proof -
  from space_okD(5) [OF space_wf_ok [OF assms(1)] assms(2)] have "vm_is_vector vm = (vm_length vm > 1)"
    by (simp add: meta_ok_def)
  moreover from assms have "vm_length vm = 1 \<or> vm_length vm = VLEN" unfolding space_wf_def by blast
  ultimately show ?thesis by (auto simp: VLEN_def)
qed

lemma reg_ok_register:
  assumes "space_wf c ss" "metas ss n = Some vm"
  shows "reg_ok ss (LR n off b rd) \<longleftrightarrow>
    0 \<le> off \<and> (if b then off = 0 \<and> vm_is_vector vm else off < int (if vm_is_vector vm then VLEN else 1))"
  using assms(2) vm_length_vector [OF assms] by (auto simp: reg_ok_def is_array_op_def VLEN_def)

lemma pipeline_space: "pipeline_wf s \<Longrightarrow> space_wf (nat (ir_conc_threads s)) (ir_ss s)"
  by (simp add: graph_wf_def)

lemma reg_ok_same:
  assumes "space_wf c ss" "metas ss n = Some vm" "vm_is_vector vm = b"
  shows "reg_ok ss (LR n 0 b rd)"
  using assms(3) unfolding reg_ok_register [OF assms(1,2)] by (simp add: VLEN_def)

lemma reg_ok_lane:
  assumes "space_wf c ss" "metas ss n = Some vm" "vm_is_vector vm" "0 \<le> i" "i < int VLEN"
  shows "reg_ok ss (LR n i False rd)"
  using assms(3-5) unfolding reg_ok_register [OF assms(1,2)] by simp

lemma register_ok:
  assumes "pipeline_wf s"
  shows "check_is_vector (ir_ss s) n b = Inr u \<Longrightarrow> reg_ok (ir_ss s) (LR n 0 b rd)"
    "read_variable (ir_ss s) n b = Inr r \<Longrightarrow> reg_ok (ir_ss s) r"
    "write_variable (ir_ss s) n b = Inr r \<Longrightarrow> reg_ok (ir_ss s) r"
    "read_scalar_within_vector (ir_ss s) n i = Inr r \<Longrightarrow> reg_ok (ir_ss s) r"
    "write_scalar_within_vector (ir_ss s) n i = Inr r \<Longrightarrow> reg_ok (ir_ss s) r"
  unfolding check_is_vector_iff register_iffs
  using reg_ok_same [OF pipeline_space [OF assms]] reg_ok_lane [OF pipeline_space [OF assms]] by blast+

lemma register_kind:
  "read_variable ss n b = Inr r \<Longrightarrow> op_is_vector r = b \<and> op_is_read r"
  "write_variable ss n b = Inr r \<Longrightarrow> op_is_vector r = b \<and> \<not> op_is_read r"
  by (auto simp: register_iffs)

text \<open>An operand that was lowered: its steps, and the register it became.\<close>

definition operand_reg :: "operand \<Rightarrow> bool \<Rightarrow> logical_op \<Rightarrow> bool" where
  "operand_reg p b r \<longleftrightarrow> (case p of
      Name n \<Rightarrow> r = LR n 0 b True
    | Const c \<Rightarrow> \<exists>v. to_int c = Inr v \<and> r = LR (const_name v b) 0 b True
    | VarAt n i \<Rightarrow> False)"

lemma ir_addr_of_emits:
  assumes "pipeline_wf s" "operand_wf p" "ir_addr_of p b s = Inr (r, t)"
  shows "emits g s t" "reg_ok (ir_ss t) r" "operand_reg p b r" "pipeline_wf t" "space_le (ir_ss s) (ir_ss t)"
proof -
  show e: "emits g s t"
    using assms(2,3) by (cases p) (auto simp: ir_addr_of_def operand_wf_def rbind_Inr_iff intro: emits.intros)
  show "pipeline_wf t" "space_le (ir_ss s) (ir_ss t)" using emits_wf [OF e assms(1)] by auto
  show "reg_ok (ir_ss t) r" "operand_reg p b r"
  proof (atomize (full), cases p)
    case (Name n)
    with assms(3) have "check_is_vector (ir_ss s) n b = Inr ()" "t = s" "r = LR n 0 b True"
      by (auto simp: ir_addr_of_def rbind_Inr_iff logical_register_iff)
    with Name register_ok(1) [OF assms(1)] show "reg_ok (ir_ss t) r \<and> operand_reg p b r"
      by (auto simp: operand_reg_def)
  next
    case (Const c)
    with assms(3) obtain v where v: "to_int c = Inr v" "handle_const v b s = Inr (r, t)"
      by (auto simp: ir_addr_of_def rbind_Inr_iff)
    from handle_const_wf [OF assms(1) v(2)] v(1) Const show "reg_ok (ir_ss t) r \<and> operand_reg p b r"
      by (auto simp: operand_reg_def)
  next
    case (VarAt n i)
    with assms(2) show "reg_ok (ir_ss t) r \<and> operand_reg p b r" by (simp add: operand_wf_def)
  qed
qed

lemma operand_reg_kind: "operand_reg p b r \<Longrightarrow> op_is_vector r = b \<and> op_is_read r"
  by (auto simp: operand_reg_def split: operand.splits)

lemma ir_addr_of_const:
  assumes "pipeline_wf s" "int_const_wf c" "ir_addr_of (Const c) b s = Inr (r, t)"
  shows "emits g s t" "reg_ok (ir_ss t) r" "operand_reg (Const c) b r" "pipeline_wf t" "space_le (ir_ss s) (ir_ss t)"
  using ir_addr_of_emits [OF assms(1) _ assms(3)] assms(2) by (simp_all add: operand_wf_def)

section \<open>Assignments are steps\<close>

lemma lower_condE:
  assumes "lower_cond n (CondExpr x op y) s = Inr (caddr, ins, reused, t)"
  obtains r1 u r2 where "ir_addr_of x True s = Inr (r1, u)" "ir_addr_of y True u = Inr (r2, t)"
    "write_variable (ir_ss t) n True = Inr (LR n 0 True False)" "caddr = LR n 0 True True"
    "ins = [linst VALU op [LR n 0 True False, r1, r2]]" reused
  using assms unfolding lower_cond_def
  by (auto simp: rbind_pair_iff rbind_Inr_iff register_iffs)

lemma lower_cond_emits:
  assumes wf: "pipeline_wf s" and c: "cond_wf c" and l: "lower_cond n c s = Inr (caddr, ins, reused, t)"
  shows "emits g s t \<and> pipeline_wf t \<and> reg_ok (ir_ss t) caddr \<and> op_is_vector caddr \<and> op_is_read caddr \<and> (\<forall>l \<in> set ins. inst_ok (ir_ss t) l)"
proof (cases c)
  case (CondName m)
  with l wf show ?thesis
    by (auto simp: lower_cond_def rbind_Inr_iff register_ok intro: emits_refl dest: register_kind)
next
  case (CondExpr x op y)
  with l obtain r1 u r2 where r: "ir_addr_of x True s = Inr (r1, u)" "ir_addr_of y True u = Inr (r2, t)"
    "write_variable (ir_ss t) n True = Inr (LR n 0 True False)" "caddr = LR n 0 True True"
    "ins = [linst VALU op [LR n 0 True False, r1, r2]]" by (auto elim: lower_condE)
  from c CondExpr have w: "operand_wf x" "operand_wf y" by (simp_all add: cond_wf_def)
  note a = ir_addr_of_emits [OF wf w(1) r(1)]
  note b = ir_addr_of_emits [OF a(4) w(2) r(2)]
  from r(3) have "reg_ok (ir_ss t) (LR n 0 True rd)" for rd
    using register_ok(1) [OF b(4)] by (auto simp: register_iffs check_is_vector_iff)
  moreover have "shaped (linst VALU op [LR n 0 True False, r1, r2])"
    using shaped_binop [of op True "LR n 0 True False" r1 r2] operand_reg_kind [OF a(3)] operand_reg_kind [OF b(3)]
      c CondExpr by (auto simp: operators_def cond_wf_def)
  ultimately show ?thesis using b r(4,5) reg_ok_mono [OF a(2) b(5)] emits_trans [OF b(1) a(1)] by simp
qed

lemma lower_selectE:
  assumes "lower_select n c p q s = Inr (ls, t)"
  obtains caddr ins reused s1 lb s2 rb where "lower_cond n c s = Inr (caddr, ins, reused, s1)"
    "ir_addr_of p True s1 = Inr (lb, s2)" "ir_addr_of q True s2 = Inr (rb, t)"
    "reused \<longrightarrow> op_name lb \<noteq> n \<and> op_name rb \<noteq> n" "write_variable (ir_ss t) n True = Inr (LR n 0 True False)"
    "ls = ins @ [linst FLOW ''vselect'' [LR n 0 True False, caddr, lb, rb]]"
  using assms [unfolded lower_select_def rbind_quad_iff, unfolded rbind_pair_iff, unfolded rbind_Inr_iff]
  by (auto simp: check_Inr_iff register_iffs)

lemma lower_select_emits:
  assumes wf: "pipeline_wf s" and c: "cond_wf c" "operand_wf p" "operand_wf q"
    and l: "lower_select n c p q s = Inr (ls, t)"
  shows "emits g s t \<and> (\<forall>l \<in> set ls. inst_ok (ir_ss t) l)"
  using l
proof (rule lower_selectE)
  fix caddr ins reused s1 lb s2 rb
  assume r: "lower_cond n c s = Inr (caddr, ins, reused, s1)"
    "ir_addr_of p True s1 = Inr (lb, s2)" "ir_addr_of q True s2 = Inr (rb, t)"
    "write_variable (ir_ss t) n True = Inr (LR n 0 True False)"
    "ls = ins @ [linst FLOW ''vselect'' [LR n 0 True False, caddr, lb, rb]]"
  from lower_cond_emits [OF wf c(1) r(1)]
  have s1: "emits g s s1" "pipeline_wf s1" "reg_ok (ir_ss s1) caddr" "op_is_vector caddr" "op_is_read caddr" "\<forall>l \<in> set ins. inst_ok (ir_ss s1) l" by auto
  note a = ir_addr_of_emits [OF s1(2) c(2) r(2)]
  note b = ir_addr_of_emits [OF a(4) c(3) r(3)]
  have le: "space_le (ir_ss s1) (ir_ss t)" by (rule space_le_trans [OF a(5) b(5)])
  have "emits g s t" by (rule emits_trans [OF b(1) emits_trans [OF a(1) s1(1)]])
  with s1 b r(5) register_ok(3) [OF b(4) r(4)] reg_ok_mono [OF s1(3) le] inst_ok_mono [OF _ le] reg_ok_mono [OF a(2) b(5)]
    operand_reg_kind [OF a(3)] operand_reg_kind [OF b(3)]
  show ?thesis by auto
qed

lemma lower_variableE:
  assumes "lower_variable ss n b m i = Inr x"
  obtains vm vn ridx where "(case i of None \<Rightarrow> Inr 0 | Some c \<Rightarrow> to_int c) = Inr ridx" "metas ss m = Some vm"
    "metas ss n = Some vn" "vm_is_vector vn = b" "0 \<le> ridx" "ridx < int VLEN" "\<not> vm_is_vector vm \<longrightarrow> ridx = 0"
    "x = (if b then linst VALU ''vbroadcast'' [LR n 0 True False, LR m ridx False True]
          else linst ALU ''|'' [LR n 0 False False, LR m ridx False True, LR m ridx False True])"
proof -
  from assms obtain ridx vm where r: "(case i of None \<Rightarrow> Inr 0 | Some c \<Rightarrow> to_int c) = Inr ridx" "metas ss m = Some vm"
      "if vm_is_vector vm then 0 \<le> ridx \<and> ridx < int VLEN else ridx = 0"
    and x: "(if b then rbind (write_variable ss n True) (\<lambda>d.
        rbind (if vm_is_vector vm then read_scalar_within_vector ss m ridx else read_variable ss m False)
          (\<lambda>r. Inr (linst VALU ''vbroadcast'' [d, r])))
      else rbind (if vm_is_vector vm then read_scalar_within_vector ss m ridx else read_variable ss m False)
        (\<lambda>rhs. rbind (write_variable ss n False) (\<lambda>d. Inr (linst ALU ''|'' [d, rhs, rhs])))) = Inr x"
    unfolding lower_variable_def rbind_Inr_iff by (auto simp only: var_meta_of_iff check_Inr_iff)
  from x obtain d rr where d: "write_variable ss n b = Inr d"
      "(if vm_is_vector vm then read_scalar_within_vector ss m ridx else read_variable ss m False) = Inr rr"
      "x = (if b then linst VALU ''vbroadcast'' [d, rr] else linst ALU ''|'' [d, rr, rr])"
    by (cases b) (auto simp only: if_True if_False rbind_Inr_iff sum.inject)
  from r(3) have "0 \<le> ridx" "ridx < int VLEN" "\<not> vm_is_vector vm \<longrightarrow> ridx = 0"
    by (auto simp: VLEN_def split: if_splits)
  moreover from d(2) r(3) have "rr = LR m ridx False True" by (auto simp: register_iffs split: if_splits)
  moreover from d(1) obtain vn where "metas ss n = Some vn" "vm_is_vector vn = b" "d = LR n 0 b False"
    by (auto simp: register_iffs)
  ultimately show thesis using that [OF r(1,2)] d(3) by (cases b) auto
qed

lemma lower_variable_ok:
  assumes wf: "pipeline_wf s" and l: "lower_variable (ir_ss s) n b m i = Inr x"
  shows "inst_ok (ir_ss s) x"
proof -
  from l obtain vm vn ridx where v: "metas (ir_ss s) m = Some vm" "metas (ir_ss s) n = Some vn" "vm_is_vector vn = b"
    "0 \<le> ridx" "ridx < int VLEN" "\<not> vm_is_vector vm \<longrightarrow> ridx = 0"
    "x = (if b then linst VALU ''vbroadcast'' [LR n 0 True False, LR m ridx False True]
          else linst ALU ''|'' [LR n 0 False False, LR m ridx False True, LR m ridx False True])"
    by (auto elim!: lower_variableE)
  have "reg_ok (ir_ss s) (LR m ridx False True)"
    using v(4-6) by (simp add: reg_ok_register [OF pipeline_space [OF wf] v(1)])
  moreover have "reg_ok (ir_ss s) (LR n 0 b False)" by (rule reg_ok_same [OF pipeline_space [OF wf] v(2,3)])
  ultimately show ?thesis using v(7) by (cases b) auto
qed

text \<open>The instructions of one assignment, case by case.\<close>

lemma lower_value_words:
  assumes "lower_value n (DerefIndividualWords m) s = Inr (ls, t)"
  shows "t = s \<and> (\<exists>vm wm. metas (ir_ss s) n = Some vm \<and> metas (ir_ss s) m = Some wm \<and>
    vm_is_vector vm \<and> vm_is_vector wm \<and> ls = map (\<lambda>i. linst LOAD ''load'' [LR n i False False, LR m i False True]) lanes)"
proof -
  let ?ms = "mapM (\<lambda>i. rbind (write_scalar_within_vector (ir_ss s) n i) (\<lambda>d.
                    rbind (read_scalar_within_vector (ir_ss s) m i) (\<lambda>a.
                      Inr (linst LOAD ''load'' [d, a])))) lanes"
  from assms obtain vm where m: "var_meta_of (ir_ss s) n = Inr vm" unfolding lower_value_def by (rule rbind_InrE)
  from assms have "rbind (if vm_is_vector vm then rbind (var_meta_of (ir_ss s) m) (\<lambda>vm. Inr (vm_is_vector vm)) else Inr False)
      (\<lambda>b. rbind (check AssertionError b) (\<lambda>_. rbind ?ms (\<lambda>ks. Inr (ks, s)))) = Inr (ls, t)"
    by (simp add: lower_value_def m)
  then obtain b where b: "(if vm_is_vector vm then rbind (var_meta_of (ir_ss s) m) (\<lambda>vm. Inr (vm_is_vector vm)) else Inr False) = Inr b"
    "b" and ls: "?ms = Inr ls" "t = s"
    by (auto simp only: rbind_Inr_iff check_Inr_iff sum.inject prod.inject)
  from b obtain wm where "vm_is_vector vm" "var_meta_of (ir_ss s) m = Inr wm" "vm_is_vector wm"
    by (auto simp: rbind_Inr_iff split: if_splits)
  with m ls(2) have vm: "metas (ir_ss s) n = Some vm" "metas (ir_ss s) m = Some wm" "vm_is_vector vm" "vm_is_vector wm" "t = s"
    by (simp_all add: var_meta_of_iff)
  have "mapM (\<lambda>i. rbind (write_scalar_within_vector (ir_ss s) n i) (\<lambda>d.
                    rbind (read_scalar_within_vector (ir_ss s) m i) (\<lambda>a.
                      Inr (linst LOAD ''load'' [d, a])))) ks =
      Inr (map (\<lambda>i. linst LOAD ''load'' [LR n i False False, LR m i False True]) ks)"
    if "set ks \<subseteq> {0..<int VLEN}" for "ks"
    using that
  proof (induction "ks")
    case (Cons i ks)
    then have "write_scalar_within_vector (ir_ss s) n i = Inr (LR n i False False)"
      "read_scalar_within_vector (ir_ss s) m i = Inr (LR m i False True)"
      using vm by (auto simp: register_iffs)
    with Cons show ?case by simp
  qed simp
  moreover have "set lanes \<subseteq> {0..<int VLEN}" by (auto simp: lanes_def)
  ultimately show ?thesis using vm ls(1) by auto
qed

lemma lower_value_emits:
  assumes wf: "pipeline_wf s" and e: "expr_wf e" and l: "lower_value n e s = Inr (ls, t)"
  shows "emits g s t \<and> (\<forall>l \<in> set ls. inst_ok (ir_ss t) l)"
proof (cases e)
  case (DerefIndividualWords m)
  with lower_value_words l obtain vm wm where v: "t = s" "metas (ir_ss s) n = Some vm" "metas (ir_ss s) m = Some wm"
    "vm_is_vector vm" "vm_is_vector wm"
    "ls = map (\<lambda>i. linst LOAD ''load'' [LR n i False False, LR m i False True]) lanes" by blast
  have "reg_ok (ir_ss s) (LR n i False rd)" "reg_ok (ir_ss s) (LR m i False rd)" if "i \<in> set lanes" for i rd
    using that v(2-5) reg_ok_lane [OF pipeline_space [OF wf]] by (auto simp: lanes_def)
  with v(1,6) show ?thesis by (auto intro: emits_refl)
next
  case (DerefVariable m)
  with l obtain b d a where "write_variable (ir_ss s) n b = Inr d" "read_variable (ir_ss s) m False = Inr a"
    "t = s" "ls = [linst LOAD (if b then ''vload'' else ''load'') [d, a]]"
    unfolding lower_value_def by (auto simp: rbind_Inr_iff Let_def)
  with register_ok [OF wf] show ?thesis by (auto intro: emits_refl dest: register_kind)
next
  case (DerefConstant c)
  with l obtain b d a where r: "write_variable (ir_ss s) n b = Inr d" "ir_addr_of (Const c) False s = Inr (a, t)"
    "ls = [linst LOAD (if b then ''vload'' else ''load'') [d, a]]"
    unfolding lower_value_def by (auto simp: rbind_Inr_iff rbind_pair_iff Let_def)
  from e DerefConstant have c: "int_const_wf c" by (simp add: expr_wf_def)
  note a = ir_addr_of_const [OF wf c r(2)]
  from reg_ok_mono [OF register_ok(3) [OF wf r(1)] a(5)] a r(3) operand_reg_kind [OF a(3)] register_kind(2) [OF r(1)]
  show ?thesis by auto
next
  case (Variable m i)
  with l obtain b x where "lower_variable (ir_ss s) n b m i = Inr x" "t = s" "ls = [x]"
    unfolding lower_value_def by (auto simp: rbind_Inr_iff Let_def)
  with lower_variable_ok [OF wf] show ?thesis by (auto intro: emits_refl)
next
  case (BinOpExpr x op y)
  with l obtain b r1 u r2 d where r: "ir_addr_of x b s = Inr (r1, u)" "ir_addr_of y b u = Inr (r2, t)"
    "write_variable (ir_ss t) n b = Inr d" "ls = [linst (if b then VALU else ALU) op [d, r1, r2]]"
    unfolding lower_value_def by (auto simp: rbind_Inr_iff rbind_pair_iff Let_def)
  from e BinOpExpr have w: "operand_wf x" "operand_wf y" by (simp_all add: expr_wf_def)
  note a = ir_addr_of_emits [OF wf w(1) r(1)]
  note b = ir_addr_of_emits [OF a(4) w(2) r(2)]
  have "shaped (linst (if b then VALU else ALU) op [d, r1, r2])"
    using shaped_binop [of op b d r1 r2] operand_reg_kind [OF a(3)] operand_reg_kind [OF b(3)] register_kind(2) [OF r(3)]
      e BinOpExpr by (simp add: expr_wf_def)
  with register_ok(3) [OF b(4) r(3)] reg_ok_mono [OF a(2) b(5)] b emits_trans [OF b(1) a(1)] r(4)
  show ?thesis by auto
next
  case (MultAddExpr x y z)
  with l obtain d r1 r2 u r3 where r: "write_variable (ir_ss s) n True = Inr d" "read_variable (ir_ss s) x True = Inr r1"
    "ir_addr_of y True s = Inr (r2, u)" "ir_addr_of z True u = Inr (r3, t)"
    "ls = [linst VALU ''multiply_add'' [d, r1, r2, r3]]"
    unfolding lower_value_def by (auto simp: rbind_Inr_iff rbind_pair_iff Let_def)
  from e MultAddExpr have w: "operand_wf y" "operand_wf z" by (simp_all add: expr_wf_def)
  note a = ir_addr_of_emits [OF wf w(1) r(3)]
  note b = ir_addr_of_emits [OF a(4) w(2) r(4)]
  have le: "space_le (ir_ss s) (ir_ss t)" by (rule space_le_trans [OF a(5) b(5)])
  from reg_ok_mono [OF register_ok(3) [OF wf r(1)] le] reg_ok_mono [OF register_ok(2) [OF wf r(2)] le]
    reg_ok_mono [OF a(2) b(5)] b emits_trans [OF b(1) a(1)] r(5) operand_reg_kind [OF a(3)] operand_reg_kind [OF b(3)]
    register_kind(2) [OF r(1)] register_kind(1) [OF r(2)]
  show ?thesis by auto
next
  case (SelectExpr c p q)
  with l have "lower_select n c p q s = Inr (ls, t)"
    unfolding lower_value_def by (auto simp: rbind_Inr_iff Let_def)
  from lower_select_emits [OF wf _ _ _ this] e SelectExpr show ?thesis by (simp add: expr_wf_def)
next
  case (IntConstantExpr c)
  from e IntConstantExpr have c: "int_const_wf c" by (simp add: expr_wf_def)
  from l IntConstantExpr consider
    (vec) d a where "write_variable (ir_ss s) n True = Inr d" "ir_addr_of (Const c) False s = Inr (a, t)"
      "ls = [linst VALU ''vbroadcast'' [d, a]]"
  | (word) d v where "write_variable (ir_ss s) n False = Inr d" "t = s" "ls = [const_inst d v]"
    unfolding lower_value_def by (auto simp: rbind_Inr_iff rbind_pair_iff Let_def split: if_splits)
  then show ?thesis
  proof cases
    case vec
    note a = ir_addr_of_const [OF wf c vec(2)]
    from reg_ok_mono [OF register_ok(3) [OF wf vec(1)] a(5)] a vec(3) operand_reg_kind [OF a(3)] register_kind(2) [OF vec(1)]
    show ?thesis by auto
  next
    case word
    with register_ok(3) [OF wf word(1)] register_kind(2) [OF word(1)] show ?thesis by (auto intro: emits_refl)
  qed
qed

section \<open>Statements are steps\<close>

lemma emits_adds:
  assumes "foldM (\<lambda>s l. ir_add g l s) ls s = Inr t" "\<forall>l \<in> set ls. inst_ok (ir_ss s) l"
  shows "emits g s t"
proof -
  have "emits g s t \<and> ir_ss t = ir_ss s"
    using assms(1)
  proof (rule foldM_invariant)
    show "emits g s s \<and> ir_ss s = ir_ss s" by (simp add: emits_refl)
    show "emits g s w \<and> ir_ss w = ir_ss s"
      if "l \<in> set ls" "emits g s u \<and> ir_ss u = ir_ss s" "ir_add g l u = Inr w" for u l w
      using that assms(2) ir_add_frame(1) [OF that(3)] emits_add [of g s u l w] by auto
  qed
  then show ?thesis ..
qed

lemma assignment_emits:
  assumes "pipeline_wf s" "expr_wf e" "handle_variable_assignment n e g s = Inr t"
  shows "emits g s t"
proof -
  from assms(3) obtain ls u where u: "lower_value n e s = Inr (ls, u)" "foldM (\<lambda>s l. ir_add g l s) ls u = Inr t"
    by (auto simp: handle_variable_assignment_def rbind_pair_iff)
  from lower_value_emits [OF assms(1,2) u(1)] have "emits g s u" "\<forall>l \<in> set ls. inst_ok (ir_ss u) l" by auto
  with emits_adds [OF u(2)] show ?thesis by (blast intro: emits_trans)
qed

lemma store_emits:
  assumes "pipeline_wf s" "handle_store_memory n e g s = Inr t"
  shows "emits g s t"
  using assms register_ok [OF assms(1)]
  by (auto simp: handle_store_memory_def rbind_Inr_iff Let_def split: value_expr.splits intro!: emits_add [OF emits_refl]
      dest: register_kind)

lemma register_emits:
  assumes "is_ident n" "register_variable n ty (slots_for g s) s = Inr t"
  shows "emits g s t"
proof -
  have "register_variable n ty (slots_for g s) s =
      rbind (alloc_scratch (ir_ss s) n (if ty = ''register[]'' then VLEN else 1) (slots_for g s)) (\<lambda>(_, _, ss). Inr (put_ss ss s))"
    by (simp add: register_variable_def alloc_wide_word_def alloc_word_def)
  with assms(2) obtain a vm ss where
    ss: "alloc_scratch (ir_ss s) n (if ty = ''register[]'' then VLEN else 1) (slots_for g s) = Inr (a, vm, ss)" "t = put_ss ss s"
    by (auto simp only: rbind_Inr_iff split_paired_Ex prod.case sum.inject)
  show ?thesis unfolding ss(2) by (rule emits_declare [OF emits_refl assms(1) _ ss(1)]) simp
qed

lemma decl_emits:
  assumes wf: "pipeline_wf s" and d: "decl_wf d" and h: "handle_decl d g s = Inr t"
  shows "emits g s t"
proof (cases d)
  case (VariableDeclaration ty n ns)
  with h have f: "foldM (\<lambda>s n. register_variable n ty (slots_for g s) s) (n # ns) s = Inr t"
    by (simp add: handle_decl_def handle_variable_declaration_def)
  from f show ?thesis
  proof (rule foldM_invariant)
    show "emits g s w" if "m \<in> set (n # ns)" "emits g s u" "register_variable m ty (slots_for g u) u = Inr w" for u m w
      using register_emits [OF _ that(3)] that(1,2) d VariableDeclaration
      by (auto simp: decl_wf_def list_all_iff intro: emits_trans)
  qed (rule emits_refl)
next
  case (VariableDefinition ty n e)
  with h obtain u where u: "register_variable n ty (slots_for g s) s = Inr u" "handle_variable_assignment n e g u = Inr t"
    by (auto simp: handle_decl_def handle_variable_definition_def rbind_Inr_iff)
  from d VariableDefinition have w: "is_ident n" "expr_wf e" by (simp_all add: decl_wf_def)
  have a: "emits g s u" by (rule register_emits [OF w(1) u(1)])
  with emits_wf [OF this wf] have "pipeline_wf u" by blast
  from emits_trans [OF assignment_emits [OF this w(2) u(2)] a] show ?thesis .
qed

text \<open>Statements of either kind; the three functions together.\<close>

definition stmt_wf :: "stmt \<Rightarrow> bool" where
  "stmt_wf st = (global_stmt_wf st \<or> thread_stmt_wf st)"

lemma handle_emits:
  "pipeline_wf s \<Longrightarrow> stmt_wf st \<Longrightarrow> handle_stmt st g s = Inr t \<Longrightarrow> emits g s t"
  "pipeline_wf s \<Longrightarrow> list_all stmt_wf sts \<Longrightarrow> handle_stmts sts g s = Inr t \<Longrightarrow> emits g s t"
  "pipeline_wf s \<Longrightarrow> list_all (list_all stmt_wf) bs \<Longrightarrow> handle_branches bs rs remaining g s = Inr t \<Longrightarrow> emits g s t"
proof (induction st g s and sts g s and bs rs remaining g s arbitrary: t and t and t
    rule: handle_stmt_handle_stmts_handle_branches.induct)
  case (1 d g s)
  then show ?case by (auto simp: stmt_wf_def global_stmt_wf_def intro: decl_emits)
next
  case (2 d g s)
  then show ?case by (auto simp: stmt_wf_def global_stmt_wf_def intro: decl_emits)
next
  case (3 n v g s)
  then show ?case by (auto simp: stmt_wf_def global_stmt_wf_def intro: assignment_emits)
next
  case (4 n v g s)
  then show ?case by (auto intro: store_emits)
next
  case (5 g s)
  then show ?case by (auto simp: handle_pause_stmt_def add_pause_def intro: emits_refl)
next
  case (6 rs bs g s)
  then have "list_all (list_all thread_stmt_wf) bs" by (simp add: stmt_wf_def global_stmt_wf_def)
  then have "list_all (list_all stmt_wf) bs" by (auto simp: list_all_iff stmt_wf_def)
  with 6 show ?case by simp
next
  case (7 g s)
  then show ?case by (simp add: emits_refl)
next
  case (8 st sts g s)
  then obtain u where u: "handle_stmt st g s = Inr u" "handle_stmts sts g u = Inr t" by (auto simp: rbind_Inr_iff)
  from 8 u(1) have e: "emits g s u" by simp
  with emits_wf [OF e] 8 have "pipeline_wf u" by blast
  with 8 u have "emits g u t" by simp
  with e show ?case by (blast intro: emits_trans)
next
  case (9 rs remaining g s)
  then show ?case by (simp add: emits_refl)
next
  case (10 b bs rs remaining g s)
  then obtain tr u where u: "(case rs of [] \<Rightarrow> Inr remaining | r # _ \<Rightarrow> to_set r) = Inr tr"
    "handle_stmts b g (s\<lparr>tidrange_context := Some tr\<rparr>) = Inr u"
    "handle_branches bs (tl rs) (remaining - tr) g (u\<lparr>tidrange_context := None\<rparr>) = Inr t"
    by (auto simp: rbind_Inr_iff)
  from 10(3) have wf: "pipeline_wf (s\<lparr>tidrange_context := Some tr\<rparr>)" by simp
  from 10(4) have b: "list_all stmt_wf b" "list_all (list_all stmt_wf) bs" by simp_all
  have e: "emits g (s\<lparr>tidrange_context := Some tr\<rparr>) u" by (rule 10(1) [OF u(1) wf b(1) u(2)])
  from emits_wf [OF e wf] have "pipeline_wf (u\<lparr>tidrange_context := None\<rparr>)" by auto
  from 10(2) [OF u(1,2) this b(2) u(3)] have "emits g (u\<lparr>tidrange_context := None\<rparr>) t" .
  moreover have "emits g s (u\<lparr>tidrange_context := None\<rparr>)"
    by (rule emits_context [OF emits_trans [OF e emits_context [OF emits_refl]]])
  ultimately show ?case by (blast intro: emits_trans)
qed

end
