(* ===== verification/Graph_Total.thy ===== *)
theory Graph_Total
  imports Lowering_Props Packer_Run
begin

text \<open>
  A graph whose instructions name declared variables of the right shape is linked without an
  exception, and the thread prologue is built without one under conditions on \<open>tidxlen\<close>, the number
  of threads and the space left for one constant. Together: what lowering produces can be packed.
\<close>

section \<open>Linking\<close>

definition links :: "scratch_space \<Rightarrow> int \<Rightarrow> logical_op \<Rightarrow> bool" where
  "links ss sl p \<longleftrightarrow> (\<exists>r. op_range ss sl p = Inr r \<and>
     (\<forall>loc \<in> set (range_values r). - 1 \<le> loc \<and> loc < int (ss_size ss)))"

definition inst_links :: "scratch_space \<Rightarrow> int \<Rightarrow> logical_instr \<times> int \<Rightarrow> bool" where
  "inst_links ss c lt = (\<forall>p \<in> set (lin_registers (fst lt)). links ss (snd lt mod c) p)"

abbreviation shape :: "imeta list \<Rightarrow> (logical_instr \<times> int) list" where
  "shape ims \<equiv> map (\<lambda>x. (lin x, tid x)) ims"

lemma shape_add_edge: "shape (add_edge hp i j ims) = shape ims"
proof (cases "i < length ims")
  case True
  then have "(lin (ims ! i), tid (ims ! i)) = shape ims ! i" by simp
  then show ?thesis by (simp only: add_edge_def map_update) (simp add: list_update_id)
qed (simp add: add_edge_def list_update_beyond)

lemma cell_range: "- 1 \<le> loc \<Longrightarrow> loc < int n \<Longrightarrow> \<exists>k. py_index (n + 1) loc = Some k"
  by (auto simp: py_index_def Let_def)

lemma link_register_total:
  assumes "links ss sl p" "length lw = ss_size ss + 1"
  shows "\<exists>ims'. link_register hp ss sl lc idx lw ims p = Inr ims' \<and> shape ims' = shape ims"
proof (cases "is_mem p")
  case False
  from assms(1) obtain r where r: "op_range ss sl p = Inr r" "\<forall>loc \<in> set (range_values r). - 1 \<le> loc \<and> loc < int (ss_size ss)"
    by (auto simp: links_def)
  have "\<exists>ims'. foldM (link_loc hp lc idx lw) (range_values r) ims = Inr ims' \<and> shape ims' = shape ims"
  proof (rule foldM_total)
    fix a loc assume loc: "loc \<in> set (range_values r)" and a: "shape a = shape ims"
    from r(2) loc have "- 1 \<le> loc" "loc < int (ss_size ss)" by auto
    from cell_range [OF this] obtain k where "py_index (length lw) loc = Some k" using assms(2) by auto
    with a show "\<exists>b. link_loc hp lc idx lw a loc = Inr b \<and> shape b = shape ims"
      by (auto simp: link_loc_def py_get_def handle_conflict_def shape_add_edge)
  qed simp
  with r False show ?thesis by (simp add: link_register_def)
qed (simp add: link_register_def)

lemma mark_register_total:
  assumes "links ss sl p" "length lw = ss_size ss + 1"
  shows "\<exists>lw'. mark_register ss sl idx lw p = Inr lw' \<and> length lw' = ss_size ss + 1"
proof (cases "op_is_read p")
  case False
  from assms(1) obtain r where r: "op_range ss sl p = Inr r" "\<forall>loc \<in> set (range_values r). - 1 \<le> loc \<and> loc < int (ss_size ss)"
    by (auto simp: links_def)
  have "\<exists>lw'. foldM (\<lambda>lw loc. py_set lw loc (int idx)) (range_values r) lw = Inr lw' \<and> length lw' = ss_size ss + 1"
  proof (rule foldM_total)
    fix a :: "int list" and loc assume loc: "loc \<in> set (range_values r)" and a: "length a = ss_size ss + 1"
    from r(2) loc have "- 1 \<le> loc" "loc < int (ss_size ss)" by auto
    from cell_range [OF this] obtain k where "py_index (length a) loc = Some k" using a by auto
    with a show "\<exists>b. py_set a loc (int idx) = Inr b \<and> length b = ss_size ss + 1" by (auto simp: py_set_def)
  qed (rule assms(2))
  with r False show ?thesis by (simp add: mark_register_def)
qed (simp add: mark_register_def assms(2))

lemma link_instr_total:
  assumes "inst_links ss c (lin (ims ! idx), tid (ims ! idx))" "length lw = ss_size ss + 1" "c \<noteq> 0"
  shows "\<exists>st. link_instr hp ss c lc (ims, lw) idx = Inr st \<and> shape (fst st) = shape ims \<and>
    length (snd st) = ss_size ss + 1"
proof -
  let ?x = "ims ! idx"
  have l: "links ss (tid ?x mod c) p" if "p \<in> set (registers ?x)" for p
    using assms(1) that by (simp add: inst_links_def registers_def)
  have "\<exists>ims'. foldM (link_register hp ss (tid ?x mod c) lc idx lw) (registers ?x) ims = Inr ims' \<and> shape ims' = shape ims"
    by (rule foldM_total) (use link_register_total [OF l assms(2)] in metis)+
  moreover have "\<exists>lw'. foldM (mark_register ss (tid ?x mod c) idx) (registers ?x) lw = Inr lw' \<and> length lw' = ss_size ss + 1"
    by (rule foldM_total) (use assms(2) mark_register_total [OF l] in blast)+
  ultimately show ?thesis using assms(3) by (auto simp: link_instr_def Let_def work_slot_of_def)
qed

lemma link_pass_total:
  assumes "\<forall>s \<in> set (shape ims). inst_links ss c s" "c \<noteq> 0"
  shows "\<exists>ims'. link_pass hp ss c ims lc = Inr ims' \<and> set (shape ims') = set (shape ims)"
proof -
  have "\<exists>st. foldM (link_instr hp ss c lc) [0..<length ims] (ims, replicate (ss_size ss + 1) (- 1)) = Inr st \<and>
      (shape (fst st) = shape ims \<and> length (snd st) = ss_size ss + 1)"
  proof (rule foldM_total)
    fix st :: "imeta list \<times> int list" and idx
    assume i: "idx \<in> set [0..<length ims]" and st: "shape (fst st) = shape ims \<and> length (snd st) = ss_size ss + 1"
    obtain a lw where a: "st = (a, lw)" by (cases st)
    from st a have sh: "shape a = shape ims" "length lw = ss_size ss + 1" by simp_all
    have "length a = length ims" using arg_cong [OF sh(1), of length] by simp
    with i have i: "idx < length a" by simp
    then have "(lin (a ! idx), tid (a ! idx)) \<in> set (shape a)" by auto
    then have "inst_links ss c (lin (a ! idx), tid (a ! idx))" unfolding sh(1) using assms(1) by blast
    from link_instr_total [OF this sh(2) assms(2), of hp lc] sh(1) a
    show "\<exists>st'. link_instr hp ss c lc st idx = Inr st' \<and> (shape (fst st') = shape ims \<and> length (snd st') = ss_size ss + 1)"
      by simp
  qed simp
  then obtain a lw where "foldM (link_instr hp ss c lc) [0..<length ims] (ims, replicate (ss_size ss + 1) (- 1)) = Inr (a, lw)"
    and sh: "shape a = shape ims" by auto
  then have "link_pass hp ss c ims lc = Inr (rev a)" by (simp only: link_pass_def rbind_simps prod.case)
  moreover have "set (shape (rev a)) = set (shape ims)" by (simp only: set_map set_rev sh [THEN arg_cong, of set, unfolded set_map])
  ultimately show ?thesis by blast
qed

lemma shape_number_insts: "shape (number_insts hp opt ims) = shape ims"
  by (rule nth_equalityI) (simp_all add: number_insts_def nth_enumerate_eq)

lemma linked_work_total:
  assumes "all_insts g c = Inr (ims, g')" "\<forall>x \<in> set ims. inst_links (graph_ss g') c (lin x, tid x)" "c \<noteq> 0"
  shows "\<exists>ims'. linked_work hp g c opt = Inr (ims', g')"
proof -
  let ?n = "number_insts hp opt ims"
  have "\<forall>s \<in> set (shape ?n). inst_links (graph_ss g') c s"
    unfolding shape_number_insts using assms(2) by auto
  then obtain a where a: "link_pass hp (graph_ss g') c ?n 0 = Inr a" "set (shape a) = set (shape ?n)"
    using link_pass_total [OF _ assms(3)] by blast
  with \<open>\<forall>s \<in> set (shape ?n). _ s\<close> have "\<forall>s \<in> set (shape a). inst_links (graph_ss g') c s" by simp
  then obtain b where "link_pass hp (graph_ss g') c a 1 = Inr b"
    using link_pass_total [OF _ assms(3)] by blast
  with a(1) assms(1) show ?thesis by (simp add: linked_work_def)
qed

section \<open>Operands of well-formed instructions link\<close>

lemma reg_links:
  assumes "space_wf c ss" "reg_ok ss p" "0 \<le> sl" "sl < int c"
  shows "links ss sl p"
proof -
  from assms(2) obtain n off b rd where p: "p = LR n off b rd" by (cases p) (auto simp: reg_ok_def is_array_op_def)
  with assms(2) obtain vm where vm: "metas ss n = Some vm" "0 \<le> off"
    "if b then off = 0 \<and> vm_length vm = VLEN else off < int (vm_length vm)"
    unfolding reg_ok_def by (metis logical_op.sel(1,3,5))
  have w: "vm_slots vm = 1 \<or> vm_slots vm = c" "n \<noteq> SPECIAL_MEM_REGISTER_NAME" 
    using assms(1) vm(1) unfolding space_wf_def by auto
  have so: "slot_ok vm sl" using w(1) assms(3,4) unfolding slot_ok_def by metis
  define a where "a = (if vm_slots vm = 1 then int (vm_addr vm) else int (vm_addr vm) + sl * int (vm_length vm))"
  have ao: "addr_of vm sl = Inr a" using so by (simp add: addr_of_iff a_def)
  have vec: "vm_is_vector vm" if b
  proof -
    from vm(3) that have "vm_length vm = VLEN" by simp
    with vm_length_vector [OF assms(1) vm(1)] show ?thesis by (cases "vm_is_vector vm") (simp_all add: VLEN_def)
  qed
  have "op_range ss sl p = Inr \<lparr>lo = a + off, hi = a + off + (if b then int VLEN else 1) - 1\<rparr>"
    using p w(2) vm(2,3) vec ao vm(1) [folded var_meta_of_iff] by (auto simp: op_range_def is_mem_def)
  moreover have "loc \<in> slot_region vm sl"
    if "loc \<in> set (range_values \<lparr>lo = a + off, hi = a + off + (if b then int VLEN else 1) - 1\<rparr>)" for loc
    using that vm(2,3) by (auto simp: slot_region_def Let_def a_def range_values_def VLEN_def split: if_splits)
  then have "- 1 \<le> loc \<and> loc < int (ss_size ss)"
    if "loc \<in> set (range_values \<lparr>lo = a + off, hi = a + off + (if b then int VLEN else 1) - 1\<rparr>)" for loc
    using slot_region_in_scratch [OF space_wf_ok [OF assms(1)] vm(1) so] that by force
  ultimately show ?thesis unfolding links_def by blast
qed

lemma mem_links: "links ss sl (LR SPECIAL_MEM_REGISTER_NAME 0 False rd)"
  by (auto simp: links_def op_range_def is_mem_def range_values_def)

lemma inst_ok_links:
  assumes "space_wf (nat c) ss" "inst_ok ss l" "0 < c"
  shows "inst_links ss c (l, t)"
proof -
  have "0 \<le> t mod c" "t mod c < int (nat c)" using assms(3) by simp_all
  with reg_links [OF assms(1)] assms(2) mem_links show ?thesis
    by (auto simp: inst_links_def lin_registers_def inst_ok_def)
qed

section \<open>The thread prologue\<close>

text \<open>
  When the prologue can be built: no thread is numbered beyond \<open>INFINITE_SET\<close>, and with more than
  \<open>2 * VLEN\<close> concurrent threads \<open>tidxlen\<close> has a slot for each and there is room for the constant 2.
\<close>

definition prologue_ok :: "scratch_space \<Rightarrow> int \<Rightarrow> int \<Rightarrow> bool" where
  "prologue_ok ss nthreads c \<longleftrightarrow> c \<le> nthreads \<and> (\<forall>vm. metas ss ''tidxlen'' = Some vm \<longrightarrow> nthreads \<le> 100 \<and>
     (2 * int VLEN < c \<longrightarrow> vm_slots vm = nat c \<and>
        (const_map ss (2, True) = None \<longrightarrow> scratch_ptr ss + VLEN \<le> SCRATCH_SIZE)))"

lemma tidxlen_const_total:
  assumes "- 1 \<le> i" "i < 100"
  shows "\<exists>x. tidxlen_const i = Inr x \<and> tid x = i \<and> lin x = \<lparr>lin_engine = LOAD, lin_opcode = ''const'',
    lin_params = [Op (LR ''tidxlen'' 0 False False), Imm (i * int VLEN)]\<rparr>"
  using assms by (simp add: tidxlen_const_def logical_register_def VLEN_def instr_meta_def INFINITE_SET_def)

lemma mapM_total:
  assumes "\<And>x. x \<in> set xs \<Longrightarrow> \<exists>y. f x = Inr y \<and> P y"
  shows "\<exists>ys. mapM f xs = Inr ys \<and> (\<forall>y \<in> set ys. P y)"
  using assms
proof (induction xs)
  case (Cons x xs)
  then obtain y ys where "f x = Inr y" "P y" "mapM f xs = Inr ys" "\<forall>y \<in> set ys. P y" by force
  then show ?case by simp
qed simp

lemma tidxlen_consts_total:
  assumes "- 1 \<le> a" "b < 100" "space_wf (nat c) ss" "0 < c" "metas ss ''tidxlen'' = Some vm"
  shows "\<exists>xs. mapM tidxlen_const [a..b] = Inr xs \<and> (\<forall>x \<in> set xs. inst_links ss c (lin x, tid x))"
proof (rule mapM_total)
  fix i assume "i \<in> set [a..b]"
  with assms(1,2) have "- 1 \<le> i" "i < 100" by auto
  from tidxlen_const_total [OF this] obtain x where x: "tidxlen_const i = Inr x" "tid x = i"
    "lin x = \<lparr>lin_engine = LOAD, lin_opcode = ''const'', lin_params = [Op (LR ''tidxlen'' 0 False False), Imm (i * int VLEN)]\<rparr>"
    by blast
  have "reg_ok ss (LR ''tidxlen'' 0 False False)"
    by (simp add: reg_ok_register [OF assms(3,5)] VLEN_def)
  then have "inst_ok ss (lin x)" by (simp add: x(3) inst_ok_def shaped_def sorts_def)
  from inst_ok_links [OF assms(3) this assms(4)] x(1)
  show "\<exists>x. tidxlen_const i = Inr x \<and> inst_links ss c (lin x, tid x)" by blast
qed

lemma array_links:
  assumes "space_wf c ss" "metas ss ''tidxlen'' = Some vm" "0 \<le> off"
    and "off + (if b then int VLEN else 1) \<le> int (vm_size vm)"
  shows "tid_array_op ss off b rd = Inr (ArrayOp ''tidxlen'' off b rd) \<and> links ss sl (ArrayOp ''tidxlen'' off b rd)"
proof -
  note v = assms(2) [folded var_meta_of_iff]
  have op: "tid_array_op ss off b rd = Inr (ArrayOp ''tidxlen'' off b rd)"
    using assms(4) by (cases b) (simp_all add: tid_array_op_def array_op_of_def v VLEN_def)
  have size: "0 < vm_size vm" using assms(3,4) by (cases "vm_size vm") (auto simp: VLEN_def split: if_splits)
  then have ao: "addr_of vm 0 = Inr (int (vm_addr vm))"
    by (auto simp: addr_of_iff slot_ok_def vm_size_def)
  have in_scratch: "vm_addr vm + vm_size vm \<le> scratch_ptr ss"
    using space_okD(5) [OF space_wf_ok [OF assms(1)] assms(2)] by (simp add: meta_ok_def)
  have "op_range ss sl (ArrayOp ''tidxlen'' off b rd) =
      Inr \<lparr>lo = int (vm_addr vm) + off, hi = int (vm_addr vm) + off + (if b then int VLEN else 1) - 1\<rparr>"
    by (simp add: op_range_def is_mem_def op_addr_def v ao)
  then have "links ss sl (ArrayOp ''tidxlen'' off b rd)"
    using assms(3,4) in_scratch by (auto simp: links_def range_values_def ss_size_def)
  with op show ?thesis by simp
qed

lemma tid_blocks_range:
  assumes "2 * int VLEN < c" "int VLEN \<le> n"
  shows "\<forall>st \<in> set (tid_blocks c n). int VLEN \<le> st \<and> st + int VLEN \<le> c"
  using assms
proof (induction c n rule: tid_blocks.induct)
  case (1 c n)
  show ?case
  proof (cases "n < c")
    case True
    have "int VLEN \<le> block_start c n + int VLEN" "int VLEN \<le> block_start c n" "block_start c n + int VLEN \<le> c"
      using 1(2,3) True by (auto simp: block_start_def)
    with 1(1) [OF True 1(2)] True show ?thesis by (subst tid_blocks.simps) auto
  next
    case False
    then show ?thesis by (subst tid_blocks.simps) simp
  qed
qed

lemma set_constant_total:
  assumes "space_wf (nat c) ss" "0 < c" "const_map ss (v, True) = None \<longrightarrow> scratch_ptr ss + VLEN \<le> SCRATCH_SIZE"
  shows "\<exists>xs ss'. set_constant v w ss = Inr (xs, ss') \<and> space_wf (nat c) ss' \<and> space_le ss ss' \<and>
    const_map ss' (v, True) \<noteq> None \<and> constant_name ss' v True = Inr (const_name v True) \<and>
    reg_ok ss' (LR (const_name v True) 0 True True) \<and> (\<forall>x \<in> set xs. inst_links ss' c (lin x, tid x)) \<and>
    (const_map ss (v, True) \<noteq> None \<longrightarrow> ss' = ss)"
proof -
  note ok = space_wf_ok [OF assms(1)]
  have "\<exists>a cname first ss'. alloc_const ss v True = Inr ((a, cname, first), ss')"
  proof (cases "const_map ss (v, True)")
    case None
    have "metas ss (const_name v True) = None"
    proof (rule ccontr)
      assume "metas ss (const_name v True) \<noteq> None"
      then obtain vm where vm: "metas ss (const_name v True) = Some vm" by blast
      with assms(1) const_name_not_ident(1) obtain vb where vb: "const_map ss vb = Some vm"
        unfolding space_wf_def by metis
      from space_okD(7) [OF ok this] space_okD(5) [OF ok vm] have "vb = (v, True)"
        by (auto simp: const_ok_def meta_ok_def prod_eq_iff)
      with vb None show False by simp
    qed
    then have "scratch_addr ss (const_name v True) = None" using space_okD(2) [OF ok] by (metis domIff)
    with None assms(3) show ?thesis by (auto simp: alloc_const_def alloc_scratch_def Let_def)
  next
    case (Some vm)
    then have "alloc_const ss v True = Inr ((vm_addr vm, vm_name vm, False), ss)" by (simp add: alloc_const_def)
    then show ?thesis by blast
  qed
  then obtain a cname first ss' where al: "alloc_const ss v True = Inr ((a, cname, first), ss')" by blast
  have same: "ss' = ss" if "const_map ss (v, True) \<noteq> None" using al that by (auto simp: alloc_const_def)
  from alloc_const_wf [OF assms(1) al] obtain vm where vm: "space_wf (nat c) ss'" "space_le ss ss'"
    "metas ss' (const_name v True) = Some vm" "vm_length vm = VLEN" "const_map ss' (v, True) = Some vm" by auto
  have name: "constant_name ss' v True = Inr (const_name v True)"
    using space_okD(7) [OF space_wf_ok [OF vm(1)] vm(5)] vm(5) by (simp add: constant_name_def const_ok_def)
  have reg: "reg_ok ss' (LR (const_name v True) 0 b rd)" for b rd
    using vm(3,4) by (auto simp: reg_ok_def is_array_op_def VLEN_def)
  have lr: "logical_register n 0 x y = Inr (LR n 0 x y)" for n x y by (simp add: logical_register_iff VLEN_def)
  let ?l1 = "\<lparr>lin_engine = LOAD, lin_opcode = ''const'', lin_params = [Op (LR (const_name v True) 0 False False), Imm w]\<rparr>"
  let ?l2 = "\<lparr>lin_engine = VALU, lin_opcode = ''vbroadcast'',
    lin_params = [Op (LR (const_name v True) 0 True False), Op (LR (const_name v True) 0 False True)]\<rparr>"
  have "inst_ok ss' ?l1" "inst_ok ss' ?l2" using reg by (simp_all add: inst_ok_def shaped_def sorts_def)
  then have "inst_links ss' c (?l1, t)" "inst_links ss' c (?l2, t)" for t
    using inst_ok_links [OF vm(1) _ assms(2)] by blast+
  moreover have "\<exists>x y. set_constant v w ss = Inr ([x, y], ss') \<and> lin x = ?l1 \<and> lin y = ?l2"
    by (simp add: set_constant_def al name lr instr_meta_def INFINITE_SET_def)
  ultimately show ?thesis using vm name reg same by fastforce
qed

lemma tid_block_const_total:
  assumes "space_wf c ss" "metas ss ''tidxlen'' = Some vm" "0 \<le> i" "i < int (vm_size vm)"
  shows "\<exists>x. tid_block_const ss i = Inr x \<and> inst_links ss k (lin x, tid x)"
proof -
  from array_links [OF assms(1-3), of False] assms(4)
  have "tid_array_op ss i False False = Inr (ArrayOp ''tidxlen'' i False False)"
    "links ss sl (ArrayOp ''tidxlen'' i False False)" for sl by auto
  then show ?thesis
    by (simp add: tid_block_const_def instr_meta_def INFINITE_SET_def inst_links_def lin_registers_def touches_memory_def)
qed

lemma tid_block_add_total:
  assumes "space_wf (nat k) ss" "metas ss ''tidxlen'' = Some vm" "int VLEN \<le> st" "st + int VLEN \<le> int (vm_size vm)"
    and "constant_name ss 2 True = Inr (const_name 2 True)" "reg_ok ss (LR (const_name 2 True) 0 True True)" "0 < k"
  shows "\<exists>x. tid_block_add ss st = Inr x \<and> inst_links ss k (lin x, tid x)"
proof -
  have st: "0 \<le> st" "0 \<le> st - int VLEN" "st - int VLEN + int VLEN \<le> int (vm_size vm)" using assms(3,4) by auto
  from array_links [OF assms(1,2) st(1), of True] array_links [OF assms(1,2) st(2), of True] st(3) assms(4)
  have t: "tid_array_op ss st True False = Inr (ArrayOp ''tidxlen'' st True False)"
    "tid_array_op ss (st - int VLEN) True True = Inr (ArrayOp ''tidxlen'' (st - int VLEN) True True)"
    "links ss sl (ArrayOp ''tidxlen'' st True False)" "links ss sl (ArrayOp ''tidxlen'' (st - int VLEN) True True)" for sl
    by auto
  have "0 \<le> - 1 mod k" "- 1 mod k < int (nat k)" using assms(7) by simp_all
  from reg_links [OF assms(1,6) this] have "links ss (- 1 mod k) (LR (const_name 2 True) 0 True True)" .
  with t show ?thesis
    by (simp add: tid_block_add_def assms(5) logical_register_def VLEN_def [symmetric] instr_meta_def INFINITE_SET_def
        inst_links_def lin_registers_def touches_memory_def)
qed

lemma get_tidmetas_total:
  assumes wf: "space_wf (nat c) (graph_ss g)" and c: "0 < c" and ok: "prologue_ok (graph_ss g) (num_threads g) c"
  shows "\<exists>tm mg ss'. get_tidmetas g c = Inr (tm, mg, g\<lparr>graph_ss := ss'\<rparr>) \<and> space_wf (nat c) ss' \<and>
    space_le (graph_ss g) ss' \<and> (\<forall>x \<in> set tm \<union> set mg. inst_links ss' c (lin x, tid x))"
proof -
  let ?ss = "graph_ss g" and ?n = "num_threads g"
  have cn: "c \<le> ?n" using ok by (simp add: prologue_ok_def)
  show ?thesis
  proof (cases "metas ?ss ''tidxlen''")
    case None
    then have "\<not> has_variable ?ss ''tidxlen''" by (simp add: has_variable_def metas_def)
    with cn wf show ?thesis by (intro exI [of _ "[]"] exI [of _ ?ss]) (simp add: get_tidmetas_def)
  next
    case (Some vm)
    then have has: "has_variable ?ss ''tidxlen''" by (simp add: has_variable_def metas_def)
    from ok Some have n: "?n \<le> 100" by (simp add: prologue_ok_def)
    show ?thesis
    proof (cases "c \<le> 2 * int VLEN")
      case True
      from tidxlen_consts_total [OF _ _ wf c Some, of 0 "?n - 1"] n obtain xs where
        "mapM tidxlen_const [0..?n - 1] = Inr xs" "\<forall>x \<in> set xs. inst_links ?ss c (lin x, tid x)" by auto
      with cn has True wf show ?thesis
        by (intro exI [of _ xs] exI [of _ "[]"] exI [of _ ?ss]) (simp add: get_tidmetas_def)
    next
      case False
      with ok Some have slots: "vm_slots vm = nat c"
        and room: "const_map ?ss (2, True) = None \<longrightarrow> scratch_ptr ?ss + VLEN \<le> SCRATCH_SIZE"
        by (simp_all add: prologue_ok_def)
      from set_constant_total [OF wf c room, of "int (VLEN * VLEN)"] obtain pre ss1 where
        pre: "set_constant 2 (int (VLEN * VLEN)) ?ss = Inr (pre, ss1)" and s1: "space_wf (nat c) ss1" "space_le ?ss ss1"
          "const_map ss1 (2, True) \<noteq> None" "constant_name ss1 2 True = Inr (const_name 2 True)"
          "reg_ok ss1 (LR (const_name 2 True) 0 True True)" "\<forall>x \<in> set pre. inst_links ss1 c (lin x, tid x)"
        by blast
      from set_constant_total [OF s1(1) c, of 2 2] s1(3) obtain post where
        post: "set_constant 2 2 ss1 = Inr (post, ss1)" "\<forall>x \<in> set post. inst_links ss1 c (lin x, tid x)" by blast
      note vm1 = space_le_metas [OF s1(2) Some]
      have "1 \<le> vm_length vm" using vm_length_vector [OF wf Some] by (simp add: VLEN_def)
      then have "nat c * 1 \<le> vm_size vm" unfolding vm_size_def slots by (intro mult_le_mono) auto
      then have size: "c \<le> int (vm_size vm)" by linarith
      have "\<exists>xs. mapM (tid_block_const ss1) [0..int VLEN - 1] = Inr xs \<and> (\<forall>x \<in> set xs. inst_links ss1 c (lin x, tid x))"
        by (intro mapM_total tid_block_const_total [OF s1(1) vm1]) (use False size in auto)
      then obtain firsts where firsts: "mapM (tid_block_const ss1) [0..int VLEN - 1] = Inr firsts"
        "\<forall>x \<in> set firsts. inst_links ss1 c (lin x, tid x)" by blast
      have blocks: "\<forall>st \<in> set (tid_blocks c (int VLEN)). int VLEN \<le> st \<and> st + int VLEN \<le> c"
        using tid_blocks_range [of c "int VLEN"] False by simp
      have "\<exists>xs. mapM (tid_block_add ss1) (tid_blocks c (int VLEN)) = Inr xs \<and> (\<forall>x \<in> set xs. inst_links ss1 c (lin x, tid x))"
        by (intro mapM_total tid_block_add_total [OF s1(1) vm1 _ _ s1(4,5) c]) (use blocks size in force)+
      then obtain adds where adds: "mapM (tid_block_add ss1) (tid_blocks c (int VLEN)) = Inr adds"
        "\<forall>x \<in> set adds. inst_links ss1 c (lin x, tid x)" by blast
      from tidxlen_consts_total [OF _ _ s1(1) c vm1, of c "?n - 1"] c n obtain ts where
        ts: "mapM tidxlen_const [c..?n - 1] = Inr ts" "\<forall>x \<in> set ts. inst_links ss1 c (lin x, tid x)" by auto
      have "get_tidmetas g c = Inr (ts, pre @ firsts @ adds @ post, g\<lparr>graph_ss := ss1\<rparr>)"
        using cn has False by (simp add: get_tidmetas_def Let_def pre firsts(1) adds(1) post(1) ts(1) del: of_nat_mult)
      with s1 firsts(2) adds(2) post(2) ts(2) show ?thesis by (intro exI conjI) auto
    qed
  qed
qed

section \<open>The work list\<close>

lemma all_insts_total:
  assumes wf: "graph_wf (nat c) g" and c: "0 < c" and ok: "prologue_ok (graph_ss g) (num_threads g) c"
  shows "\<exists>ims ss'. all_insts g c = Inr (ims, g\<lparr>graph_ss := ss'\<rparr>) \<and> (\<forall>x \<in> set ims. inst_links ss' c (lin x, tid x))"
proof -
  from wf have sw: "space_wf (nat c) (graph_ss g)" by (simp add: graph_wf_def)
  from get_tidmetas_total [OF sw c ok] obtain tm mg ss' where
    t: "get_tidmetas g c = Inr (tm, mg, g\<lparr>graph_ss := ss'\<rparr>)" "space_wf (nat c) ss'" "space_le (graph_ss g) ss'"
      "\<forall>x \<in> set tm \<union> set mg. inst_links ss' c (lin x, tid x)" by blast
  have glob: "inst_links ss' c (lin x, u)" if "x \<in> set (globalimetas g) \<union> set (graph_imetas g)" for x u
    using that wf inst_ok_links [OF t(2) inst_ok_mono [OF _ t(3)] c] by (auto simp: graph_wf_def imeta_ok_def)
  have "\<exists>tss. mapM (thread_insts tm (graph_imetas g)) [0..num_threads g - 1] = Inr tss \<and>
      (\<forall>ts \<in> set tss. \<forall>x \<in> set ts. inst_links ss' c (lin x, tid x))"
  proof (rule mapM_total)
    fix i assume "i \<in> set [0..num_threads g - 1]"
    have "\<exists>own. mapM (for_thread i) (filter (\<lambda>x. i \<in> tidrange x) (graph_imetas g)) = Inr own \<and>
        (\<forall>y \<in> set own. inst_links ss' c (lin y, tid y))"
      by (rule mapM_total) (use glob in \<open>auto simp: for_thread_def instr_meta_def\<close>)
    then obtain own where own: "mapM (for_thread i) (filter (\<lambda>x. i \<in> tidrange x) (graph_imetas g)) = Inr own"
      "\<forall>y \<in> set own. inst_links ss' c (lin y, tid y)" by blast
    have "\<forall>x \<in> set (filter (\<lambda>x. tid x = i) tm @ own). inst_links ss' c (lin x, tid x)" using t(4) own(2) by auto
    then have "\<forall>x \<in> set (map (\<lambda>(idx, x). x\<lparr>instid_in_thread := int idx\<rparr>) (enumerate 0 (filter (\<lambda>x. tid x = i) tm @ own))).
        inst_links ss' c (lin x, tid x)" by (auto simp: enumerate_eq_zip dest!: set_zip_rightD)
    then show "\<exists>ts. thread_insts tm (graph_imetas g) i = Inr ts \<and> (\<forall>x \<in> set ts. inst_links ss' c (lin x, tid x))"
      by (simp only: thread_insts_def own(1) rbind_simps) blast
  qed
  then obtain tss where tss: "mapM (thread_insts tm (graph_imetas g)) [0..num_threads g - 1] = Inr tss"
    "\<forall>ts \<in> set tss. \<forall>x \<in> set ts. inst_links ss' c (lin x, tid x)" by blast
  have "all_insts g c = Inr (mg @ globalimetas g @ concat tss, g\<lparr>graph_ss := ss'\<rparr>)"
    by (simp add: all_insts_def t(1) tss(1))
  with t(4) glob tss(2) show ?thesis by (intro exI conjI) auto
qed

lemma get_work_total:
  assumes hp: "packing hp S" and wf: "graph_wf (nat c) g" and c: "0 < c" and ok: "prologue_ok (graph_ss g) (num_threads g) c"
  shows "\<exists>p. get_work S hp g c opt = Inr p"
proof -
  from all_insts_total [OF wf c ok] obtain ims ss' where
    a: "all_insts g c = Inr (ims, g\<lparr>graph_ss := ss'\<rparr>)" "\<forall>x \<in> set ims. inst_links ss' c (lin x, tid x)" by blast
  from a(2) have "\<forall>x \<in> set ims. inst_links (graph_ss (g\<lparr>graph_ss := ss'\<rparr>)) c (lin x, tid x)" by simp
  from linked_work_total [OF a(1) this, of hp opt] c obtain ims' where
    l: "linked_work hp g c opt = Inr (ims', g\<lparr>graph_ss := ss'\<rparr>)" by auto
  have graph: "graph_ok ims'" by (rule packing.linked_graph_ok [OF hp l])
  obtain p where "new_packer S ims' (num_threads g) c ss' = Inr p"
    by (rule packing.new_packer_ok [OF hp graph])
  with l show ?thesis by (simp add: get_work_def)
qed

section \<open>Lowered programs\<close>

lemma list_all_stmt_wf:
  "list_all global_stmt_wf sts \<Longrightarrow> list_all stmt_wf sts" "list_all thread_stmt_wf sts \<Longrightarrow> list_all stmt_wf sts"
  by (auto simp: list_all_iff stmt_wf_def)

lemma new_pipeline_wf: "pipeline_wf (new_pipeline n c)"
  by (simp add: new_pipeline_def new_graph_def graph_wf_def space_wf_new)

lemma program_to_irp_wf:
  assumes "prog_wf prog" "program_to_irp prog n c = Inr s"
  shows "graph_wf (nat c) (ir_graph s) \<and> num_threads (ir_graph s) = n"
proof -
  from assms(2) obtain u where u: "handle_stmts (global_prog prog) True (new_pipeline n c) = Inr u"
    "handle_stmts (thread_prog prog) False u = Inr s" by (auto simp: program_to_irp_def rbind_Inr_iff)
  from assms(1) have w: "list_all stmt_wf (global_prog prog)" "list_all stmt_wf (thread_prog prog)"
    by (simp_all add: prog_wf_def list_all_stmt_wf)
  from emits_wf [OF handle_emits(2) [OF new_pipeline_wf w(1) u(1)] new_pipeline_wf]
  have "pipeline_wf u" "ir_conc_threads u = c" "num_threads (ir_graph u) = n"
    by (auto simp: new_pipeline_def new_graph_def)
  with emits_wf [OF handle_emits(2) [OF _ w(2) u(2)]] show ?thesis by metis
qed

end
