(* ===== verification/Language.thy ===== *)
theory Language
  imports Ast Kernel
begin

text \<open>
  The meaning of the language, as \<open>language.md\<close> describes it, independent of registers and slots: a
  thread has an environment of words (a vector is \<open>VLEN\<close> of them) and shares the memory. Assignments
  evaluate their right side in the width of the assigned variable; an operand is a variable of that
  width or a constant, repeated to it. Exceptions of the machine (a bad address, a division by zero)
  are those of the program.
\<close>

type_synonym env = "string \<Rightarrow> int list"

definition width :: "bool \<Rightarrow> nat" where
  "width is_vector = (if is_vector then VLEN else 1)"

section \<open>Expressions\<close>

definition operand_value :: "env \<Rightarrow> bool \<Rightarrow> operand \<Rightarrow> int list res" where
  "operand_value env b p =
     (case p of
        Name n \<Rightarrow> Inr (env n)
      | Const c \<Rightarrow> rbind (to_int c) (\<lambda>v. Inr (replicate (width b) (r32 v)))
      | VarAt n i \<Rightarrow> Inl NotImplementedError)"

definition word_op :: "string \<Rightarrow> int \<Rightarrow> int \<Rightarrow> int res" where
  "word_op op x y = rbind (alu_res op x y) (\<lambda>v. Inr (r32 v))"

definition lanes_op :: "nat \<Rightarrow> string \<Rightarrow> int list \<Rightarrow> int list \<Rightarrow> int list res" where
  "lanes_op k op xs ys = mapM (\<lambda>i. word_op op (xs ! i) (ys ! i)) [0..<k]"

definition cond_value :: "env \<Rightarrow> cond \<Rightarrow> int list res" where
  "cond_value env c =
     (case c of
        CondName n \<Rightarrow> Inr (env n)
      | CondExpr l op r \<Rightarrow>
          rbind (operand_value env True l) (\<lambda>xs.
          rbind (operand_value env True r) (\<lambda>ys. lanes_op VLEN op xs ys)))"

definition expr_value :: "env \<Rightarrow> int list \<Rightarrow> bool \<Rightarrow> value_expr \<Rightarrow> int list res" where
  "expr_value env mm b e =
     (case e of
        DerefIndividualWords n \<Rightarrow> mapM (\<lambda>i. py_get mm (env n ! i)) [0..<VLEN]
      | DerefVariable n \<Rightarrow> mapM (\<lambda>i. py_get mm (env n ! 0 + int i)) [0..<width b]
      | DerefConstant c \<Rightarrow> rbind (to_int c) (\<lambda>v. mapM (\<lambda>i. py_get mm (r32 v + int i)) [0..<width b])
      | Variable n i \<Rightarrow>
          rbind (case i of None \<Rightarrow> Inr 0 | Some c \<Rightarrow> to_int c) (\<lambda>k.
            Inr (replicate (width b) (env n ! nat k)))
      | BinOpExpr l op r \<Rightarrow>
          rbind (operand_value env b l) (\<lambda>xs.
          rbind (operand_value env b r) (\<lambda>ys. lanes_op (width b) op xs ys))
      | MultAddExpr x y z \<Rightarrow>
          rbind (operand_value env True y) (\<lambda>ys.
          rbind (operand_value env True z) (\<lambda>zs.
            Inr (map (\<lambda>i. multiply_add (env x ! i) (ys ! i) (zs ! i)) [0..<VLEN])))
      | SelectExpr c p q \<Rightarrow>
          rbind (cond_value env c) (\<lambda>cs.
          rbind (operand_value env True p) (\<lambda>xs.
          rbind (operand_value env True q) (\<lambda>ys.
            Inr (map (\<lambda>i. if cs ! i \<noteq> 0 then xs ! i else ys ! i) [0..<VLEN]))))
      | IntConstantExpr c \<Rightarrow> rbind (to_int c) (\<lambda>v. Inr (replicate (width b) (r32 v))))"

section \<open>Statements\<close>

text \<open>
  What a statement does to environment and memory. Declared variables keep what they hold; \<open>kind\<close>
  says which variables are vectors. A store writes all words of the stored variable.
\<close>

type_synonym lang_state = "env \<times> int list"

definition lang_assign :: "(string \<Rightarrow> bool) \<Rightarrow> string \<Rightarrow> value_expr \<Rightarrow> lang_state \<Rightarrow> lang_state res" where
  "lang_assign kind n e st =
     rbind (expr_value (fst st) (snd st) (kind n) e) (\<lambda>vs. Inr ((fst st)(n := vs), snd st))"

definition lang_store :: "(string \<Rightarrow> bool) \<Rightarrow> string \<Rightarrow> value_expr \<Rightarrow> lang_state \<Rightarrow> lang_state res" where
  "lang_store kind n e st =
     (case e of
        Variable m _ \<Rightarrow>
          rbind (commit (map (\<lambda>i. (fst st n ! 0 + int i, fst st m ! i)) [0..<width (kind m)]) (snd st))
            (\<lambda>mm. Inr (fst st, mm))
      | _ \<Rightarrow> Inl NameError)"

definition lang_decl :: "(string \<Rightarrow> bool) \<Rightarrow> decl \<Rightarrow> lang_state \<Rightarrow> lang_state res" where
  "lang_decl kind d st =
     (case d of
        VariableDeclaration _ _ _ \<Rightarrow> Inr st
      | VariableDefinition _ n e \<Rightarrow> lang_assign kind n e st)"

text \<open>
  The branches of an \<open>iftid\<close> are tried in order: a thread runs the first one whose range holds it, and
  the last one if no range does.
\<close>

definition range_set :: "tid_range \<Rightarrow> int set res" where
  "range_set r = rbind (to_int (range_start r)) (\<lambda>a. rbind (to_int (range_end r)) (\<lambda>b. Inr {a ..< b}))"

fun lang_stmt :: "(string \<Rightarrow> bool) \<Rightarrow> int \<Rightarrow> stmt \<Rightarrow> lang_state \<Rightarrow> lang_state res"
and lang_stmts :: "(string \<Rightarrow> bool) \<Rightarrow> int \<Rightarrow> stmt list \<Rightarrow> lang_state \<Rightarrow> lang_state res"
and lang_branches ::
  "(string \<Rightarrow> bool) \<Rightarrow> int \<Rightarrow> stmt list list \<Rightarrow> tid_range list \<Rightarrow> lang_state \<Rightarrow> lang_state res" where
  "lang_stmt kind tid (VariableDeclarationStmt d) st = lang_decl kind d st"
| "lang_stmt kind tid (ThreadLocalVariableStmt d) st = lang_decl kind d st"
| "lang_stmt kind tid (LoadVariable n e) st = lang_assign kind n e st"
| "lang_stmt kind tid (StoreMemory n e) st = lang_store kind n e st"
| "lang_stmt kind tid PauseStmt st = Inr st"
| "lang_stmt kind tid (TidIfElseStmt rs bs) st = lang_branches kind tid bs rs st"
| "lang_stmts kind tid [] st = Inr st"
| "lang_stmts kind tid (s # ss) st = rbind (lang_stmt kind tid s st) (lang_stmts kind tid ss)"
| "lang_branches kind tid [] rs st = Inr st"
| "lang_branches kind tid (b # bs) rs st =
     (case rs of
        [] \<Rightarrow> lang_stmts kind tid b st
      | r # rs' \<Rightarrow> rbind (range_set r) (\<lambda>S.
          if tid \<in> S then lang_stmts kind tid b st else lang_branches kind tid bs rs' st))"

end
