(* ===== verification/Codegen.thy ===== *)
theory Codegen
  imports Language Graph_Total Linear_Code
begin

text \<open>
  Lowering keeps the meaning: the instructions an assignment is lowered to, executed one after the
  other on a scratch space that holds the variables of a thread in its slot and the constants in
  theirs, leave the scratch space that holds the variables after the assignment.
\<close>

section \<open>The scratch space of a thread\<close>

definition slot_addr :: "var_meta \<Rightarrow> int \<Rightarrow> int" where
  "slot_addr vm sl = (if vm_slots vm = 1 then int (vm_addr vm) else int (vm_addr vm) + sl * int (vm_length vm))"

definition var_val :: "env \<Rightarrow> string \<Rightarrow> var_meta \<Rightarrow> int list" where
  "var_val env n vm =
     (if vm_is_constant vm then replicate (vm_length vm) (r32 (vm_constant_value vm)) else env n)"

definition sim :: "scratch_space \<Rightarrow> int \<Rightarrow> env \<Rightarrow> int list \<Rightarrow> bool" where
  "sim ss sl env sc \<longleftrightarrow> ss_size ss \<le> length sc \<and> all_words sc \<and> (\<forall>n vm. metas ss n = Some vm \<longrightarrow>
     length (var_val env n vm) = vm_length vm \<and>
     (\<forall>i < vm_length vm. sc ! nat (slot_addr vm sl + int i) = var_val env n vm ! i))"

lemma sim_env_length:
  assumes "sim ss sl env sc" "metas ss n = Some vm" "\<not> vm_is_constant vm"
  shows "length (env n) = vm_length vm"
proof -
  from assms(1,2) have "length (var_val env n vm) = vm_length vm" unfolding sim_def by blast
  with assms(3) show ?thesis by (simp add: var_val_def)
qed

lemma slot_addr_region: "slot_region vm sl = {slot_addr vm sl ..< slot_addr vm sl + int (vm_length vm)}"
  by (simp add: slot_region_def slot_addr_def Let_def)

lemma addr_of_slot: "slot_ok vm sl \<Longrightarrow> addr_of vm sl = Inr (slot_addr vm sl)"
  by (simp add: addr_of_iff slot_addr_def)

text \<open>A slot of a space that was laid out for \<open>c\<close> concurrent threads.\<close>

definition thread_slot :: "nat \<Rightarrow> scratch_space \<Rightarrow> int \<Rightarrow> bool" where
  "thread_slot c ss sl \<longleftrightarrow> space_wf c ss \<and> 0 \<le> sl \<and> sl < int c"

lemma slot_ok_var:
  assumes "thread_slot c ss sl" "metas ss n = Some vm"
  shows "slot_ok vm sl"
proof -
  from assms have sl: "space_wf c ss" "0 \<le> sl" "sl < int c" by (auto simp: thread_slot_def)
  with assms(2) have "vm_slots vm = 1 \<or> vm_slots vm = c" unfolding space_wf_def by blast
  then show ?thesis using sl unfolding slot_ok_def by metis
qed

lemma slot_bounds:
  assumes "thread_slot c ss sl" "metas ss n = Some vm"
  shows "0 \<le> slot_addr vm sl" "slot_addr vm sl + int (vm_length vm) \<le> int (ss_size ss)"
proof -
  from assms(1) have wf: "space_wf c ss" by (simp add: thread_slot_def)
  have len: "0 < vm_length vm" using vm_length_vector [OF wf assms(2)] by (simp add: VLEN_def)
  have "slot_addr vm sl \<in> slot_region vm sl" "slot_addr vm sl + int (vm_length vm) - 1 \<in> slot_region vm sl"
    using len by (auto simp: slot_addr_region)
  with slot_region_in_scratch [OF space_wf_ok [OF wf] assms(2) slot_ok_var [OF assms]]
  show "0 \<le> slot_addr vm sl" "slot_addr vm sl + int (vm_length vm) \<le> int (ss_size ss)" by force+
qed

lemma slots_apart:
  assumes "thread_slot c ss sl" "metas ss n = Some vm" "metas ss m = Some wm" "n \<noteq> m"
  shows "slot_region vm sl \<inter> slot_region wm sl = {}"
proof -
  have "space_ok ss" using assms(1) space_wf_ok unfolding thread_slot_def by blast
  from regions_disjoint [OF this assms(2,3) slot_ok_var [OF assms(1,2)] slot_ok_var [OF assms(1,3)] assms(4)]
  show ?thesis .
qed

lemma reg_addr:
  assumes "thread_slot c ss sl" "metas ss n = Some vm"
  shows "serialize_param ss sl (Op (LR n off b rd)) = Inr (slot_addr vm sl + off)"
proof -
  from assms have "n \<noteq> SPECIAL_MEM_REGISTER_NAME" unfolding thread_slot_def space_wf_def by blast
  then show ?thesis
    by (simp add: serialize_param_def op_addr_def is_mem_def assms(2) [folded var_meta_of_iff]
        addr_of_slot [OF slot_ok_var [OF assms]])
qed

lemma read_word:
  assumes "thread_slot c ss sl" "sim ss sl env sc" "metas ss n = Some vm" "i < vm_length vm"
  shows "py_get sc (slot_addr vm sl + int i) = Inr (var_val env n vm ! i)"
proof -
  from slot_bounds [OF assms(1,3)] assms(2,4)
  have "0 \<le> slot_addr vm sl + int i" "slot_addr vm sl + int i < int (length sc)" by (auto simp: sim_def)
  with assms(2-4) show ?thesis by (simp add: py_get_nonneg sim_def)
qed

text \<open>Writing \<open>k\<close> consecutive words of a variable.\<close>

lemma write_words:
  assumes t: "thread_slot c ss sl" and s: "sim ss sl env sc" and vm: "metas ss n = Some vm" "\<not> vm_is_constant vm"
    and k: "off + length vs \<le> vm_length vm" and w: "all_words vs"
  shows "\<exists>sc'. commit (dict_puts (map (\<lambda>i. (slot_addr vm sl + int off + int i, vs ! i)) [0..<length vs]) []) sc = Inr sc' \<and>
    length sc' = length sc \<and>
    sim ss sl (env(n := take off (env n) @ vs @ drop (off + length vs) (env n))) sc'"
proof -
  let ?a = "slot_addr vm sl" and ?ps = "map (\<lambda>i. (slot_addr vm sl + int off + int i, vs ! i)) [0..<length vs]"
  have keys: "distinct (map fst ?ps)" by (simp add: comp_def distinct_map inj_on_def)
  have puts: "map_of (dict_puts ?ps []) = map_of ?ps"
    unfolding map_of_dict_puts using map_of_inject_set [of "rev ?ps" ?ps] keys by (simp add: rev_map [symmetric])
  have dom: "fst ` set (dict_puts ?ps []) = fst ` set ?ps"
    using map_of_dict_puts_dom [of ?ps "[]"] by (simp add: dom_map_of_conv_image_fst)
  note b = slot_bounds [OF t vm(1)]
  have len: "ss_size ss \<le> length sc" and words: "all_words sc" using s by (simp_all add: sim_def)
  have "\<forall>a \<in> fst ` set (dict_puts ?ps []). 0 \<le> a \<and> a < int (length sc)"
    unfolding dom using b k len by auto
  from commit_in_range [OF this distinct_dict_puts] obtain sc' where
    sc': "commit (dict_puts ?ps []) sc = Inr sc'" "length sc' = length sc"
      "\<forall>j < length sc. sc' ! j = (case map_of ?ps (int j) of None \<Rightarrow> sc ! j | Some v \<Rightarrow> v)"
    unfolding puts by auto
  have hit: "map_of ?ps (?a + int off + int i) = Some (vs ! i)" if "i < length vs" for i
    using that keys by (subst map_of_eq_Some_iff) auto
  have miss: "map_of ?ps x = None" if "x < ?a + int off \<or> ?a + int off + int (length vs) \<le> x" for x
    using that by (auto simp: map_of_eq_None_iff)
  let ?env = "env(n := take off (env n) @ vs @ drop (off + length vs) (env n))"
  have "length (var_val ?env m wm) = vm_length wm \<and>
      (\<forall>i < vm_length wm. sc' ! nat (slot_addr wm sl + int i) = var_val ?env m wm ! i)" if wm: "metas ss m = Some wm" for m wm
  proof -
    have old: "length (var_val env m wm) = vm_length wm"
      "\<And>i. i < vm_length wm \<Longrightarrow> sc ! nat (slot_addr wm sl + int i) = var_val env m wm ! i"
      using s wm by (auto simp: sim_def)
    note bw = slot_bounds [OF t wm]
    have idx: "nat (slot_addr wm sl + int i) < length sc" "int (nat (slot_addr wm sl + int i)) = slot_addr wm sl + int i"
      if "i < vm_length wm" for i using that bw len by auto
    show ?thesis
    proof (cases "m = n")
      case False
      have "slot_addr wm sl + int i \<notin> slot_region vm sl" if "i < vm_length wm" for i
        using slots_apart [OF t vm(1) wm] False that by (auto simp: slot_addr_region)
      then have "map_of ?ps (slot_addr wm sl + int i) = None" if "i < vm_length wm" for i
        using that k by (intro miss) (force simp: slot_addr_region)
      with sc'(3) idx old False show ?thesis by (auto simp: var_val_def)
    next
      case True
      with wm vm have [simp]: "wm = vm" and e: "length (env n) = vm_length vm"
        using old(1) by (auto simp: var_val_def)
      have "sc' ! nat (?a + int i) = (take off (env n) @ vs @ drop (off + length vs) (env n)) ! i"
        if i: "i < vm_length vm" for i
      proof -
        note at = sc'(3) [rule_format, OF idx(1), unfolded idx(2)]
        have old_i: "sc ! nat (?a + int i) = env n ! i" using old(2) [of i] i vm(2) True by (simp add: var_val_def)
        have nn: "0 \<le> ?a + int i" using b by simp
        consider "i < off" | "off \<le> i" "i < off + length vs" | "off + length vs \<le> i" by linarith
        then show ?thesis
        proof cases
          case 1
          then have "map_of ?ps (?a + int i) = None" by (intro miss) simp
          with at [of i] i old_i 1 e nn True show ?thesis by (simp add: nth_append)
        next
          case 2
          then have j: "?a + int i = ?a + int off + int (i - off)" "i - off < length vs" by auto
          then have "map_of ?ps (?a + int i) = Some (vs ! (i - off))" using hit [of "i - off"] by (simp only:)
          with at [of i] i e k 2 j(2) nn True show ?thesis by (simp add: nth_append)
        next
          case 3
          then have "map_of ?ps (?a + int i) = None" by (intro miss) simp
          moreover from 3 have "\<not> i - off < length vs" "\<not> i < off" by linarith+
          ultimately show ?thesis using at [of i] i old_i 3 e k nn True by (simp add: nth_append)
        qed
      qed
      then show ?thesis using True e k vm(2) by (simp add: var_val_def)
    qed
  qed
  moreover have "dict_words ?ps" using w by (auto simp: dict_words_def all_words_def)
  then have "all_words sc'"
    by (intro commit_words [OF sc'(1) _ words] dict_words_puts dict_words_Nil)
  ultimately have "sim ss sl ?env sc'" using sc'(2) len by (simp add: sim_def)
  with sc'(1,2) show ?thesis by blast
qed

section \<open>One instruction\<close>

lemma mapM_puts:
  "mapM (\<lambda>i. rbind (F i) (\<lambda>v. Inr (h i, v))) xs = rbind (mapM F xs) (\<lambda>vs. Inr (zip (map h xs) vs))"
proof (induction xs)
  case (Cons x xs)
  then show ?case by (cases "F x"; cases "mapM F xs") auto
qed simp

lemma mapM_lanes: "mapM f lanes = mapM (\<lambda>i. f (int i)) [0..<VLEN]"
  by (simp only: lanes_int mapM_map)

lemma mapM_length: "mapM f xs = Inr ys \<Longrightarrow> length ys = length xs"
  by (simp add: mapM_Inr_iff)

lemma zip_nths:
  assumes "length vs = k"
  shows "zip (map h [0..<k]) vs = map (\<lambda>i. (h i, vs ! i)) [0..<k]"
  using assms by (intro nth_equalityI) auto

text \<open>State and environment of a thread.\<close>

definition tstate :: "scratch_space \<Rightarrow> int \<Rightarrow> int list \<times> int list \<Rightarrow> lang_state \<Rightarrow> bool" where
  "tstate ss sl st t \<longleftrightarrow> snd st = snd t \<and> all_words (snd t) \<and> sim ss sl (fst t) (fst st)"

lemma exec_puts:
  assumes t: "thread_slot c ss sl" and s: "sim ss sl env sc" and vm: "metas ss n = Some vm" "\<not> vm_is_constant vm"
    and mm: "all_words mm" and k: "off + k \<le> vm_length vm" and e: "lin_engine l \<noteq> STORE"
    and ps: "mapM (serialize_param ss sl) (lin_params l) = Inr as"
    and puts: "slot_puts sc mm (lin_engine l) (lin_opcode l, as) =
      mapM (\<lambda>i. rbind (F i) (\<lambda>v. Inr (slot_addr vm sl + int off + int i, v))) [0..<k]"
  shows "rel_sum (=) (tstate ss sl) (exec_lin ss sl (sc, mm) l)
    (rbind (mapM F [0..<k]) (\<lambda>vs. Inr (env(n := take off (env n) @ vs @ drop (off + k) (env n)), mm)))"
proof (cases "mapM F [0..<k]")
  case (Inl x)
  then show ?thesis by (simp add: exec_lin_def ps puts mapM_puts)
next
  case (Inr vs)
  then have len: "length vs = k" by (simp add: mapM_Inr_iff)
  from s mm puts Inr have "dict_words (zip (map (\<lambda>i. slot_addr vm sl + int off + int i) [0..<k]) vs)"
    by (intro slot_puts_words [of sc mm "lin_engine l" "(lin_opcode l, as)"]) (simp_all add: mapM_puts sim_def)
  then have "all_words vs"
    using len by (simp add: dict_words_def all_words_def set_map [symmetric] del: set_map)
  with write_words [OF t s vm, of off vs] k len obtain sc' where
    sc': "commit (dict_puts (zip (map (\<lambda>i. slot_addr vm sl + int off + int i) [0..<k]) vs) []) sc = Inr sc'"
      "sim ss sl (env(n := take off (env n) @ vs @ drop (off + k) (env n))) sc'"
    by (auto simp: zip_nths [OF len])
  with Inr e mm show ?thesis by (simp add: exec_lin_def ps puts mapM_puts tstate_def)
qed

lemma exec_puts_all:
  assumes t: "thread_slot c ss sl" and s: "sim ss sl env sc" and vm: "metas ss n = Some vm" "\<not> vm_is_constant vm"
    and mm: "all_words mm" and e: "lin_engine l \<noteq> STORE" and ps: "mapM (serialize_param ss sl) (lin_params l) = Inr as"
    and puts: "slot_puts sc mm (lin_engine l) (lin_opcode l, as) =
      mapM (\<lambda>i. rbind (F i) (\<lambda>v. Inr (slot_addr vm sl + int i, v))) [0..<vm_length vm]"
  shows "rel_sum (=) (tstate ss sl) (exec_lin ss sl (sc, mm) l)
    (rbind (mapM F [0..<vm_length vm]) (\<lambda>vs. Inr (env(n := vs), mm)))"
proof -
  note sim_env_length [OF s vm]
  with exec_puts [OF t s vm mm _ e ps, of 0 "vm_length vm" F] puts show ?thesis by (simp cong: rbind_cong)
qed

section \<open>Operands\<close>

lemma const_meta:
  assumes "space_wf c ss" "metas ss (const_name v b) = Some vm"
  shows "vm_is_constant vm" "vm_constant_value vm = v" "vm_is_vector vm = b"
proof -
  show k: "vm_is_constant vm" using assms const_name_not_ident(1) unfolding space_wf_def by blast
  with assms obtain vb where vb: "const_map ss vb = Some vm" unfolding space_wf_def by blast
  have ok: "space_ok ss" by (rule space_wf_ok [OF assms(1)])
  from space_okD(7) [OF ok vb] have c: "const_ok ss vb vm" .
  from space_okD(5) [OF ok assms(2)] have "vm_name vm = const_name v b" by (simp add: meta_ok_def)
  with c have "vb = (v, b)" by (cases vb) (auto simp: const_ok_def)
  with c show "vm_constant_value vm = v" "vm_is_vector vm = b" by (auto simp: const_ok_def)
qed

lemma operand_read:
  assumes t: "thread_slot c ss sl" and s: "sim ss sl env sc" and p: "operand_wf p" "operand_reg p b r" "reg_ok ss r"
  obtains a xs where "serialize_param ss sl (Op r) = Inr a" "operand_value env b p = Inr xs"
    "\<And>i. i < width b \<Longrightarrow> py_get sc (a + int i) = Inr (xs ! i)"
proof (cases p)
  case (Name n)
  with p have r: "r = LR n 0 b True" "is_ident n" by (simp_all add: operand_reg_def operand_wf_def)
  with p(3) obtain vm where vm: "metas ss n = Some vm" "width b \<le> vm_length vm"
    by (auto simp: reg_ok_def width_def VLEN_def split: if_splits)
  from t vm(1) r(2) have "\<not> vm_is_constant vm" unfolding thread_slot_def space_wf_def by blast
  then have val: "var_val env n vm = env n" by (simp add: var_val_def)
  show thesis
  proof (rule that)
    show "serialize_param ss sl (Op r) = Inr (slot_addr vm sl)" using reg_addr [OF t vm(1), of 0] r(1) by simp
    show "operand_value env b p = Inr (env n)" by (simp add: operand_value_def Name)
    show "py_get sc (slot_addr vm sl + int i) = Inr (env n ! i)" if "i < width b" for i
      using read_word [OF t s vm(1), of i] that vm(2) val by simp
  qed
next
  case (Const k)
  with p obtain v where r: "to_int k = Inr v" "r = LR (const_name v b) 0 b True" by (auto simp: operand_reg_def)
  with p(3) obtain vm where vm: "metas ss (const_name v b) = Some vm" "width b \<le> vm_length vm"
    by (auto simp: reg_ok_def width_def VLEN_def split: if_splits)
  have wf: "space_wf c ss" using t by (simp add: thread_slot_def)
  have val: "var_val env (const_name v b) vm = replicate (vm_length vm) (r32 v)"
    using const_meta [OF wf vm(1)] by (simp add: var_val_def)
  show thesis
  proof (rule that)
    show "serialize_param ss sl (Op r) = Inr (slot_addr vm sl)" using reg_addr [OF t vm(1), of 0] r(2) by simp
    show "operand_value env b p = Inr (replicate (width b) (r32 v))" by (simp add: operand_value_def Const r(1))
    show "py_get sc (slot_addr vm sl + int i) = Inr (replicate (width b) (r32 v) ! i)" if "i < width b" for i
      using read_word [OF t s vm(1), of i] that vm(2) val by simp
  qed
next
  case (VarAt n i)
  with p(1) show thesis by (simp add: operand_wf_def)
qed

section \<open>The instructions of assignments\<close>

lemma width_simps [simp]: "width True = VLEN" "width False = 1" "0 < width b"
  by (simp_all add: width_def VLEN_def)

text \<open>The variable an instruction writes, of its width.\<close>

definition target :: "nat \<Rightarrow> scratch_space \<Rightarrow> int \<Rightarrow> string \<Rightarrow> bool \<Rightarrow> bool" where
  "target c ss sl n b \<longleftrightarrow> thread_slot c ss sl \<and> (\<exists>vm. metas ss n = Some vm \<and> vm_is_vector vm = b \<and> \<not> vm_is_constant vm)"

lemma targetE:
  assumes "target c ss sl n b"
  obtains vm where "thread_slot c ss sl" "metas ss n = Some vm" "\<not> vm_is_constant vm" "vm_length vm = width b"
    "\<And>rd. serialize_param ss sl (Op (LR n 0 b rd)) = Inr (slot_addr vm sl)"
    "\<And>i rd. serialize_param ss sl (Op (LR n i False rd)) = Inr (slot_addr vm sl + i)"
proof -
  from assms obtain vm where vm: "thread_slot c ss sl" "metas ss n = Some vm" "vm_is_vector vm = b" "\<not> vm_is_constant vm"
    by (auto simp: target_def)
  then have "vm_length vm = width b" using vm_length_vector [of c ss n vm] by (auto simp: thread_slot_def width_def)
  with vm reg_addr [OF vm(1,2)] show thesis by (intro that) auto
qed

text \<open>An argument of an instruction: where it is, and the words it holds.\<close>

definition argument :: "scratch_space \<Rightarrow> int \<Rightarrow> int list \<Rightarrow> nat \<Rightarrow> logical_op \<Rightarrow> int \<Rightarrow> int list \<Rightarrow> bool" where
  "argument ss sl sc k r a xs \<longleftrightarrow>
     serialize_param ss sl (Op r) = Inr a \<and> (\<forall>i < k. py_get sc (a + int i) = Inr (xs ! i))"

lemma argumentD:
  "argument ss sl sc k r a xs \<Longrightarrow> serialize_param ss sl (Op r) = Inr a"
  "argument ss sl sc k r a xs \<Longrightarrow> i < k \<Longrightarrow> py_get sc (a + int i) = Inr (xs ! i)"
  "argument ss sl sc k r a xs \<Longrightarrow> 0 < k \<Longrightarrow> py_get sc a = Inr (xs ! 0)"
  unfolding argument_def by (blast, blast, force)

lemma exec_binop:
  assumes t: "target c ss sl n b" and s: "sim ss sl env sc" and mm: "all_words mm"
    and x: "argument ss sl sc (width b) r1 a1 xs" and y: "argument ss sl sc (width b) r2 a2 ys"
  shows "rel_sum (=) (tstate ss sl)
    (exec_lin ss sl (sc, mm) (linst (if b then VALU else ALU) op [LR n 0 b False, r1, r2]))
    (rbind (lanes_op (width b) op xs ys) (\<lambda>vs. Inr (env(n := vs), mm)))"
  using t
proof (rule targetE)
  fix vm
  assume vm: "thread_slot c ss sl" "metas ss n = Some vm" "\<not> vm_is_constant vm" "vm_length vm = width b"
    "\<And>rd. serialize_param ss sl (Op (LR n 0 b rd)) = Inr (slot_addr vm sl)"
  have ps: "mapM (serialize_param ss sl) (map Op [LR n 0 b False, r1, r2]) = Inr [slot_addr vm sl, a1, a2]"
    using vm(5) argumentD(1) [OF x] argumentD(1) [OF y] by simp
  have one: "alu_put sc op (d + int i) (a1 + int i) (a2 + int i) = rbind (word_op op (xs ! i) (ys ! i)) (\<lambda>v. Inr (d + int i, v))"
    if "i < width b" for d i
    using argumentD(2) [OF x that] argumentD(2) [OF y that] by (simp add: alu_put_def word_op_def rbind_assoc)
  have "slot_puts sc mm (if b then VALU else ALU) (op, [slot_addr vm sl, a1, a2]) =
      mapM (\<lambda>i. rbind (word_op op (xs ! i) (ys ! i)) (\<lambda>v. Inr (slot_addr vm sl + int i, v))) [0..<vm_length vm]"
  proof (cases b)
    case True
    then show ?thesis using one vm(4)
      by (auto simp: slot_puts_def mapM_lanes intro!: mapM_upt_cong)
  next
    case False
    then show ?thesis using one [of 0] vm(4) by (simp add: slot_puts_def)
  qed
  with exec_puts_all [OF vm(1) s vm(2,3) mm, of "linst (if b then VALU else ALU) op [LR n 0 b False, r1, r2]"
      "[slot_addr vm sl, a1, a2]" "\<lambda>i. word_op op (xs ! i) (ys ! i)"]
  show ?thesis using ps vm(4) by (simp add: linst_def lanes_op_def)
qed

text \<open>One word into all words of a variable: a broadcast, and a copy of a word.\<close>

lemma exec_broadcast:
  assumes t: "target c ss sl n True" and s: "sim ss sl env sc" and mm: "all_words mm"
    and x: "argument ss sl sc 1 r a xs"
  shows "rel_sum (=) (tstate ss sl)
    (exec_lin ss sl (sc, mm) (linst VALU ''vbroadcast'' [LR n 0 True False, r]))
    (Inr (env(n := replicate VLEN (xs ! 0)), mm))"
  using t
proof (rule targetE)
  fix vm
  assume vm: "thread_slot c ss sl" "metas ss n = Some vm" "\<not> vm_is_constant vm" "vm_length vm = width True"
    "\<And>rd. serialize_param ss sl (Op (LR n 0 True rd)) = Inr (slot_addr vm sl)"
  have ps: "mapM (serialize_param ss sl) (map Op [LR n 0 True False, r]) = Inr [slot_addr vm sl, a]"
    using vm(5) argumentD(1) [OF x] by simp
  have "slot_puts sc mm VALU (''vbroadcast'', [slot_addr vm sl, a]) =
      mapM (\<lambda>i. rbind (Inr (xs ! 0)) (\<lambda>v. Inr (slot_addr vm sl + int i, v))) [0..<vm_length vm]"
    using argumentD(3) [OF x] vm(4) by (simp add: slot_puts_def mapM_lanes copy_put_def)
  with exec_puts_all [OF vm(1) s vm(2,3) mm, of "linst VALU ''vbroadcast'' [LR n 0 True False, r]"
      "[slot_addr vm sl, a]" "\<lambda>i. Inr (xs ! 0)"]
  show ?thesis using ps vm(4) by (simp add: linst_def mapM_Inr map_replicate_const)
qed

lemma exec_copy:
  assumes t: "target c ss sl n False" and s: "sim ss sl env sc" and mm: "all_words mm"
    and x: "argument ss sl sc 1 r a xs"
  shows "rel_sum (=) (tstate ss sl)
    (exec_lin ss sl (sc, mm) (linst ALU ''|'' [LR n 0 False False, r, r]))
    (Inr (env(n := [xs ! 0]), mm))"
proof -
  have x': "argument ss sl sc (width False) r a xs" using x by simp
  have "is_word (xs ! 0)" using argumentD(3) [OF x] s all_words_get by (auto simp: sim_def)
  then have "lanes_op 1 ''|'' xs xs = Inr [xs ! 0]"
    by (simp add: lanes_op_def word_op_def alu_res_def)
  with exec_binop [OF t s mm x' x', of "''|''"] show ?thesis by simp
qed

lemma exec_const:
  assumes t: "target c ss sl n False" and s: "sim ss sl env sc" and mm: "all_words mm"
  shows "rel_sum (=) (tstate ss sl) (exec_lin ss sl (sc, mm) (const_inst (LR n 0 False False) v))
    (Inr (env(n := [r32 v]), mm))"
  using t
proof (rule targetE)
  fix vm
  assume vm: "thread_slot c ss sl" "metas ss n = Some vm" "\<not> vm_is_constant vm" "vm_length vm = width False"
    "\<And>rd. serialize_param ss sl (Op (LR n 0 False rd)) = Inr (slot_addr vm sl)"
  have ps: "mapM (serialize_param ss sl) (lin_params (const_inst (LR n 0 False False) v)) = Inr [slot_addr vm sl, v]"
    using vm(5) by (simp add: const_inst_def serialize_param_def)
  have "slot_puts sc mm LOAD (''const'', [slot_addr vm sl, v]) =
      mapM (\<lambda>i. rbind (Inr (r32 v)) (\<lambda>v. Inr (slot_addr vm sl + int i, v))) [0..<vm_length vm]"
    using vm(4) by (simp add: slot_puts_def)
  with exec_puts_all [OF vm(1) s vm(2,3) mm _ ps, of "\<lambda>i. Inr (r32 v)"]
  show ?thesis using vm(4) by (simp add: const_inst_def mapM_Inr)
qed

lemma exec_multiply_add:
  assumes t: "target c ss sl n True" and s: "sim ss sl env sc" and mm: "all_words mm"
    and x: "argument ss sl sc VLEN r1 a1 xs" and y: "argument ss sl sc VLEN r2 a2 ys" and z: "argument ss sl sc VLEN r3 a3 zs"
  shows "rel_sum (=) (tstate ss sl)
    (exec_lin ss sl (sc, mm) (linst VALU ''multiply_add'' [LR n 0 True False, r1, r2, r3]))
    (Inr (env(n := map (\<lambda>i. multiply_add (xs ! i) (ys ! i) (zs ! i)) [0..<VLEN]), mm))"
  using t
proof (rule targetE)
  fix vm
  assume vm: "thread_slot c ss sl" "metas ss n = Some vm" "\<not> vm_is_constant vm" "vm_length vm = width True"
    "\<And>rd. serialize_param ss sl (Op (LR n 0 True rd)) = Inr (slot_addr vm sl)"
  have ps: "mapM (serialize_param ss sl) (map Op [LR n 0 True False, r1, r2, r3]) = Inr [slot_addr vm sl, a1, a2, a3]"
    using vm(5) argumentD(1) [OF x] argumentD(1) [OF y] argumentD(1) [OF z] by simp
  have "slot_puts sc mm VALU (''multiply_add'', [slot_addr vm sl, a1, a2, a3]) =
      mapM (\<lambda>i. rbind (Inr (multiply_add (xs ! i) (ys ! i) (zs ! i))) (\<lambda>v. Inr (slot_addr vm sl + int i, v))) [0..<vm_length vm]"
    using argumentD(2) [OF x] argumentD(2) [OF y] argumentD(2) [OF z] vm(4)
    by (auto simp: slot_puts_def mapM_lanes mul_add_put_def multiply_add_def intro!: mapM_upt_cong)
  with exec_puts_all [OF vm(1) s vm(2,3) mm, of "linst VALU ''multiply_add'' [LR n 0 True False, r1, r2, r3]"
      "[slot_addr vm sl, a1, a2, a3]" "\<lambda>i. Inr (multiply_add (xs ! i) (ys ! i) (zs ! i))"]
  show ?thesis using ps vm(4) by (simp add: linst_def mapM_Inr)
qed

lemma exec_vselect:
  assumes t: "target c ss sl n True" and s: "sim ss sl env sc" and mm: "all_words mm"
    and x: "argument ss sl sc VLEN r1 a1 xs" and y: "argument ss sl sc VLEN r2 a2 ys" and z: "argument ss sl sc VLEN r3 a3 zs"
  shows "rel_sum (=) (tstate ss sl)
    (exec_lin ss sl (sc, mm) (linst FLOW ''vselect'' [LR n 0 True False, r1, r2, r3]))
    (Inr (env(n := map (\<lambda>i. if xs ! i \<noteq> 0 then ys ! i else zs ! i) [0..<VLEN]), mm))"
  using t
proof (rule targetE)
  fix vm
  assume vm: "thread_slot c ss sl" "metas ss n = Some vm" "\<not> vm_is_constant vm" "vm_length vm = width True"
    "\<And>rd. serialize_param ss sl (Op (LR n 0 True rd)) = Inr (slot_addr vm sl)"
  have ps: "mapM (serialize_param ss sl) (map Op [LR n 0 True False, r1, r2, r3]) = Inr [slot_addr vm sl, a1, a2, a3]"
    using vm(5) argumentD(1) [OF x] argumentD(1) [OF y] argumentD(1) [OF z] by simp
  have "slot_puts sc mm FLOW (''vselect'', [slot_addr vm sl, a1, a2, a3]) =
      mapM (\<lambda>i. rbind (Inr (if xs ! i \<noteq> 0 then ys ! i else zs ! i)) (\<lambda>v. Inr (slot_addr vm sl + int i, v))) [0..<vm_length vm]"
    using argumentD(2) [OF x] argumentD(2) [OF y] argumentD(2) [OF z] vm(4)
    by (auto simp: slot_puts_def mapM_lanes sel_put_def sel_val_def intro!: mapM_upt_cong)
  with exec_puts_all [OF vm(1) s vm(2,3) mm, of "linst FLOW ''vselect'' [LR n 0 True False, r1, r2, r3]"
      "[slot_addr vm sl, a1, a2, a3]" "\<lambda>i. Inr (if xs ! i \<noteq> 0 then ys ! i else zs ! i)"]
  show ?thesis using ps vm(4) by (simp add: linst_def mapM_Inr)
qed

lemma exec_load:
  assumes t: "target c ss sl n b" and s: "sim ss sl env sc" and mm: "all_words mm"
    and x: "argument ss sl sc 1 r a xs"
  shows "rel_sum (=) (tstate ss sl)
    (exec_lin ss sl (sc, mm) (linst LOAD (if b then ''vload'' else ''load'') [LR n 0 b False, r]))
    (rbind (mapM (\<lambda>i. py_get mm (xs ! 0 + int i)) [0..<width b]) (\<lambda>vs. Inr (env(n := vs), mm)))"
  using t
proof (rule targetE)
  fix vm
  assume vm: "thread_slot c ss sl" "metas ss n = Some vm" "\<not> vm_is_constant vm" "vm_length vm = width b"
    "\<And>rd. serialize_param ss sl (Op (LR n 0 b rd)) = Inr (slot_addr vm sl)"
  have ps: "mapM (serialize_param ss sl) (map Op [LR n 0 b False, r]) = Inr [slot_addr vm sl, a]"
    using vm(5) argumentD(1) [OF x] by simp
  have "slot_puts sc mm LOAD (if b then ''vload'' else ''load'', [slot_addr vm sl, a]) =
      mapM (\<lambda>i. rbind (py_get mm (xs ! 0 + int i)) (\<lambda>v. Inr (slot_addr vm sl + int i, v))) [0..<vm_length vm]"
    using argumentD(3) [OF x] vm(4) by (cases b) (simp_all add: slot_puts_def mapM_lanes copy_put_def)
  with exec_puts_all [OF vm(1) s vm(2,3) mm, of "linst LOAD (if b then ''vload'' else ''load'') [LR n 0 b False, r]"
      "[slot_addr vm sl, a]" "\<lambda>i. py_get mm (xs ! 0 + int i)"]
  show ?thesis using ps vm(4) by (simp add: linst_def)
qed

text \<open>A load into one word of a vector variable.\<close>

lemma exec_load_lane:
  assumes t: "target c ss sl n True" and s: "sim ss sl env sc" and mm: "all_words mm" and i: "i < VLEN"
    and x: "serialize_param ss sl (Op r) = Inr a" "py_get sc a = Inr x"
  shows "rel_sum (=) (tstate ss sl)
    (exec_lin ss sl (sc, mm) (linst LOAD ''load'' [LR n (int i) False False, r]))
    (rbind (py_get mm x) (\<lambda>v. Inr (env(n := (env n)[i := v]), mm)))"
  using t
proof (rule targetE)
  fix vm
  assume vm: "thread_slot c ss sl" "metas ss n = Some vm" "\<not> vm_is_constant vm" "vm_length vm = width True"
    "\<And>i rd. serialize_param ss sl (Op (LR n i False rd)) = Inr (slot_addr vm sl + i)"
  have ps: "mapM (serialize_param ss sl) (map Op [LR n (int i) False False, r]) = Inr [slot_addr vm sl + int i, a]"
    using vm(5) x(1) by simp
  have puts: "slot_puts sc mm LOAD (''load'', [slot_addr vm sl + int i, a]) =
      mapM (\<lambda>j. rbind (py_get mm x) (\<lambda>v. Inr (slot_addr vm sl + int i + int j, v))) [0..<1]"
    using x(2) by (simp add: slot_puts_def copy_put_def)
  have upd: "take i (env n) @ v # drop (Suc i) (env n) = (env n)[i := v]" for v
    using sim_env_length [OF s vm(2,3)] vm(4) i by (simp add: upd_conv_take_nth_drop)
  from exec_puts [OF vm(1) s vm(2,3) mm, of i 1 "linst LOAD ''load'' [LR n (int i) False False, r]"
      "[slot_addr vm sl + int i, a]" "\<lambda>j. py_get mm x"] ps puts i vm(4)
  show ?thesis by (simp add: linst_def rbind_assoc upd)
qed

section \<open>Assignments\<close>

lemma rel_rbind:
  assumes "rel_sum (=) R m m'" "\<And>x y. R x y \<Longrightarrow> rel_sum (=) S (f x) (g y)"
  shows "rel_sum (=) S (rbind m f) (rbind m' g)"
  using assms by (cases m; cases m') auto

lemma foldM_one: "foldM f [x] s = f s x"
  by (cases "f s x") simp_all

lemma foldM_single: "foldM f [x] = (\<lambda>s. f s x)"
  by (simp only: fun_eq_iff foldM_one simp_thms)

lemma rel_Inl: "rel_sum (=) S m (Inl e) \<longleftrightarrow> m = Inl e"
  by (cases m) auto

lemma rel_Inr: "rel_sum R S m (Inr y) \<longleftrightarrow> (\<exists>x. m = Inr x \<and> S x y)"
  by (cases m) auto

text \<open>What was lowered in a space is there in the space of the whole program.\<close>

lemma target_of:
  assumes "thread_slot c ss sl" "space_le (ir_ss s) ss" "is_ident n" "write_variable (ir_ss s) n b = Inr d"
  shows "target c ss sl n b" "d = LR n 0 b False"
proof -
  from assms(4) obtain vm where vm: "metas (ir_ss s) n = Some vm" "vm_is_vector vm = b" "d = LR n 0 b False"
    by (auto simp: register_iffs)
  from space_le_metas [OF assms(2) vm(1)] have m: "metas ss n = Some vm" .
  with assms(1,3) have "\<not> vm_is_constant vm" unfolding thread_slot_def space_wf_def by blast
  with m vm assms(1) show "target c ss sl n b" "d = LR n 0 b False" by (auto simp: target_def)
qed

lemma argument_of:
  assumes t: "thread_slot c ss sl" and s: "sim ss sl env sc" and le: "space_le (ir_ss t) ss"
    and p: "pipeline_wf s" "operand_wf p" "ir_addr_of p b s = Inr (r, t)"
  obtains a xs where "argument ss sl sc (width b) r a xs" "operand_value env b p = Inr xs"
proof -
  note a = ir_addr_of_emits [OF p]
  from operand_read [OF t s p(2) a(3) reg_ok_mono [OF a(2) le]] show thesis
    using that unfolding argument_def by metis
qed

lemma argument_lane:
  assumes t: "thread_slot c ss sl" and s: "sim ss sl env sc" and m: "metas ss m = Some vm" "is_ident m"
    and i: "0 \<le> i" "i < int (width (vm_is_vector vm))"
  shows "argument ss sl sc 1 (LR m i False True) (slot_addr vm sl + i) [env m ! nat i]"
proof -
  from t m have "\<not> vm_is_constant vm" unfolding thread_slot_def space_wf_def by blast
  moreover from t have "vm_length vm = width (vm_is_vector vm)"
    using vm_length_vector [OF _ m(1), of c] by (auto simp: thread_slot_def width_def)
  ultimately show ?thesis
    using read_word [OF t s m(1), of "nat i"] reg_addr [OF t m(1)] i by (simp add: argument_def var_val_def)
qed

lemma argument_var:
  assumes t: "thread_slot c ss sl" and s: "sim ss sl env sc" and le: "space_le (ir_ss u) ss"
    and m: "is_ident m" "read_variable (ir_ss u) m b = Inr r"
  obtains a where "argument ss sl sc (width b) r a (env m)" "r = LR m 0 b True"
proof -
  from m(2) obtain vm where vm: "metas (ir_ss u) m = Some vm" "vm_is_vector vm = b" "r = LR m 0 b True"
    by (auto simp: register_iffs)
  from space_le_metas [OF le vm(1)] have m': "metas ss m = Some vm" .
  with t m(1) have "\<not> vm_is_constant vm" unfolding thread_slot_def space_wf_def by blast
  moreover from t have "vm_length vm = width b"
    using vm_length_vector [OF _ m', of c] vm(2) by (auto simp: thread_slot_def width_def)
  ultimately have "argument ss sl sc (width b) r (slot_addr vm sl) (env m)"
    using read_word [OF t s m'] reg_addr [OF t m', of 0] vm(3) by (simp add: argument_def var_val_def)
  with vm(3) show thesis by (rule that [rotated])
qed

lemma argument_weaken: "argument ss sl sc k r a xs \<Longrightarrow> j \<le> k \<Longrightarrow> argument ss sl sc j r a xs"
  by (simp add: argument_def)

lemma assign_words:
  assumes t: "target c ss sl n True" and s: "sim ss sl env sc" and mm: "all_words mm"
    and m: "metas ss m = Some vm" "vm_is_vector vm" "is_ident m" and k: "k \<le> VLEN"
  shows "rel_sum (=) (tstate ss sl)
    (foldM (exec_lin ss sl) (map (\<lambda>i. linst LOAD ''load'' [LR n (int i) False False, LR m (int i) False True]) [0..<k]) (sc, mm))
    (rbind (mapM (\<lambda>i. py_get mm (env m ! i)) [0..<k]) (\<lambda>vs. Inr (env(n := vs @ drop k (env n)), mm)))"
  using k
proof (induction k)
  case 0
  have e: "env(n := [] @ drop 0 (env n)) = env" by (simp add: fun_eq_iff)
  have "tstate ss sl (sc, mm) (env, mm)" using s mm by (simp add: tstate_def)
  then show ?case by (simp only: upt.simps list.map foldM.simps mapM.simps rbind_simps e rel_sum_simps simp_thms)
next
  case (Suc k)
  from t have slot: "thread_slot c ss sl" by (simp add: target_def)
  have n: "length (env n) = VLEN" using t s by (auto elim!: targetE dest: sim_env_length)
  let ?l = "linst LOAD ''load'' [LR n (int k) False False, LR m (int k) False True]"
  let ?env = "\<lambda>vs. env(n := vs @ drop k (env n))"
  have "rel_sum (=) (tstate ss sl) (exec_lin ss sl st ?l)
      (rbind (py_get mm (env m ! k)) (\<lambda>v. Inr (env(n := vs @ v # drop (Suc k) (env n)), mm)))"
    if st: "tstate ss sl st (?env vs, mm)" and vs: "length vs = k" for st vs
  proof -
    obtain sc' where st': "st = (sc', mm)" "sim ss sl (?env vs) sc'" using st by (cases st) (auto simp: tstate_def)
    have same: "?env vs m ! k = env m ! k" using vs Suc.prems n by (simp add: nth_append)
    have "argument ss sl sc' 1 (LR m (int k) False True) (slot_addr vm sl + int k) [?env vs m ! k]"
      using argument_lane [OF slot st'(2) m(1,3), of "int k"] m(2) Suc.prems by (simp del: fun_upd_apply)
    then have "serialize_param ss sl (Op (LR m (int k) False True)) = Inr (slot_addr vm sl + int k)"
      "py_get sc' (slot_addr vm sl + int k) = Inr (env m ! k)"
      unfolding same by (auto dest: argumentD)
    from exec_load_lane [OF t st'(2) mm _ this] Suc.prems
    have "rel_sum (=) (tstate ss sl) (exec_lin ss sl (sc', mm) ?l)
        (rbind (py_get mm (env m ! k)) (\<lambda>v. Inr ((?env vs)(n := (?env vs n)[k := v]), mm)))" by simp
    moreover have "(?env vs n)[k := v] = vs @ v # drop (Suc k) (env n)" for v
      using vs n Suc.prems by (simp add: list_update_append Cons_nth_drop_Suc [symmetric])
    ultimately show ?thesis using st'(1) by simp
  qed
  note step = this
  have IH: "rel_sum (=) (\<lambda>st y. tstate ss sl st (?env (fst y), mm) \<and> length (fst y) = k)
      (foldM (exec_lin ss sl) (map (\<lambda>i. linst LOAD ''load'' [LR n (int i) False False, LR m (int i) False True]) [0..<k]) (sc, mm))
      (rbind (mapM (\<lambda>i. py_get mm (env m ! i)) [0..<k]) (\<lambda>vs. Inr (vs, ())))"
  proof (cases "mapM (\<lambda>i. py_get mm (env m ! i)) [0..<k]")
    case (Inl e)
    with Suc show ?thesis by (simp add: rel_Inl)
  next
    case (Inr vs)
    from Suc.IH [OF Suc_leD [OF Suc.prems]] have "\<exists>st. foldM (exec_lin ss sl)
        (map (\<lambda>i. linst LOAD ''load'' [LR n (int i) False False, LR m (int i) False True]) [0..<k]) (sc, mm) = Inr st \<and>
        tstate ss sl st (?env vs, mm)" unfolding Inr rbind_simps rel_Inr .
    with mapM_length [OF Inr] show ?thesis unfolding Inr rbind_simps rel_Inr fst_conv by simp
  qed
  have "rel_sum (=) (tstate ss sl)
      (rbind (foldM (exec_lin ss sl) (map (\<lambda>i. linst LOAD ''load'' [LR n (int i) False False, LR m (int i) False True]) [0..<k]) (sc, mm))
        (\<lambda>st. exec_lin ss sl st ?l))
      (rbind (rbind (mapM (\<lambda>i. py_get mm (env m ! i)) [0..<k]) (\<lambda>vs. Inr (vs, ())))
        (\<lambda>y. rbind (py_get mm (env m ! k)) (\<lambda>v. Inr (env(n := fst y @ v # drop (Suc k) (env n)), mm))))"
    by (rule rel_rbind [OF IH]) (use step in blast)
  then show ?case
    by (simp only: upt_Suc le0 if_True map_append list.map foldM_append foldM_single mapM_append mapM.simps
        rbind_assoc rbind_simps append_assoc append_Cons append_Nil fst_conv)
qed

lemma assign_select:
  assumes t: "thread_slot c ss sl" and s: "sim ss sl env sc" and mm: "all_words mm" and n: "is_ident n"
    and wf: "pipeline_wf u" "cond_wf k" "operand_wf p" "operand_wf q"
    and l: "lower_select n k p q u = Inr (ls, w)" and le: "space_le (ir_ss w) ss"
  shows "rel_sum (=) (tstate ss sl) (foldM (exec_lin ss sl) ls (sc, mm))
    (rbind (expr_value env mm True (SelectExpr k p q)) (\<lambda>vs. Inr (env(n := vs), mm)))"
  using l
proof (rule lower_selectE)
  fix caddr ins reused s1 lb s2 rb
  assume r: "lower_cond n k u = Inr (caddr, ins, reused, s1)"
    "ir_addr_of p True s1 = Inr (lb, s2)" "ir_addr_of q True s2 = Inr (rb, w)"
    "reused \<longrightarrow> op_name lb \<noteq> n \<and> op_name rb \<noteq> n" "write_variable (ir_ss w) n True = Inr (LR n 0 True False)"
    "ls = ins @ [linst FLOW ''vselect'' [LR n 0 True False, caddr, lb, rb]]"
  have s1: "pipeline_wf s1" using lower_cond_emits [OF wf(1,2) r(1)] by blast
  note a = ir_addr_of_emits [OF s1 wf(3) r(2)]
  note b = ir_addr_of_emits [OF a(4) wf(4) r(3)]
  have le2: "space_le (ir_ss s2) ss" by (rule space_le_trans [OF b(5) le])
  have le1: "space_le (ir_ss s1) ss" by (rule space_le_trans [OF a(5) le2])
  note tg = target_of(1) [OF t le n r(5)]
  have select: "rel_sum (=) (tstate ss sl)
      (exec_lin ss sl (sc', mm) (linst FLOW ''vselect'' [LR n 0 True False, caddr, lb, rb]))
      (rbind (operand_value env' True p) (\<lambda>xs. rbind (operand_value env' True q) (\<lambda>ys.
        Inr (env'(n := map (\<lambda>i. if cs ! i \<noteq> 0 then xs ! i else ys ! i) [0..<VLEN]), mm))))"
    if s': "sim ss sl env' sc'" and cs: "argument ss sl sc' VLEN caddr a0 cs" for env' sc' a0 cs
  proof -
    from argument_of [OF t s' le2 s1 wf(3) r(2)] obtain a1 xs where
      x: "argument ss sl sc' VLEN lb a1 xs" "operand_value env' True p = Inr xs" by auto
    from argument_of [OF t s' le a(4) wf(4) r(3)] obtain a2 ys where
      y: "argument ss sl sc' VLEN rb a2 ys" "operand_value env' True q = Inr ys" by auto
    from exec_vselect [OF tg s' mm cs x(1) y(1)] x(2) y(2) show ?thesis by simp
  qed
  show ?thesis
  proof (cases k)
    case (CondName m)
    with r(1) have c: "read_variable (ir_ss u) m True = Inr caddr" "ins = []" "s1 = u"
      by (auto simp: lower_cond_def rbind_Inr_iff)
    from wf(2) CondName have m: "is_ident m" by (simp add: cond_wf_def)
    from le1 c(3) have leu: "space_le (ir_ss u) ss" by simp
    from argument_var [OF t s leu m c(1)] obtain a0 where "argument ss sl sc (width True) caddr a0 (env m)" by auto
    then have "argument ss sl sc VLEN caddr a0 (env m)" by simp
    from select [OF s this] CondName c(2) r(6) show ?thesis
      by (simp add: foldM_one expr_value_def cond_value_def rbind_assoc del: foldM.simps)
  next
    case (CondExpr x op y)
    with r(1) obtain r1 v r2 where c: "ir_addr_of x True u = Inr (r1, v)" "ir_addr_of y True v = Inr (r2, s1)"
      "write_variable (ir_ss s1) n True = Inr (LR n 0 True False)" "caddr = LR n 0 True True"
      "ins = [linst VALU op [LR n 0 True False, r1, r2]]" reused
      by (auto elim!: lower_condE)
    from wf(2) CondExpr have xy: "operand_wf x" "operand_wf y" by (simp_all add: cond_wf_def)
    note a' = ir_addr_of_emits [OF wf(1) xy(1) c(1)]
    note b' = ir_addr_of_emits [OF a'(4) xy(2) c(2)]
    from argument_of [OF t s space_le_trans [OF b'(5) le1] wf(1) xy(1) c(1)] obtain a1 xs where
      x: "argument ss sl sc (width True) r1 a1 xs" "operand_value env True x = Inr xs" by auto
    from argument_of [OF t s le1 a'(4) xy(2) c(2)] obtain a2 ys where
      y: "argument ss sl sc (width True) r2 a2 ys" "operand_value env True y = Inr ys" by auto
    from exec_binop [OF tg s mm x(1) y(1), of op]
    have cond: "rel_sum (=) (tstate ss sl) (exec_lin ss sl (sc, mm) (linst VALU op [LR n 0 True False, r1, r2]))
        (rbind (rbind (cond_value env k) (\<lambda>cs. Inr (env(n := cs), mm))) Inr)"
      using x(2) y(2) CondExpr by (simp add: cond_value_def rbind_right)
    have other: "operand_value (env(n := cs)) True p = operand_value env True p"
      "operand_value (env(n := cs)) True q = operand_value env True q" for cs
      using a(3) b(3) r(4) c(6) by (auto simp: operand_value_def operand_reg_def split: operand.splits)
    let ?first = "linst VALU op [LR n 0 True False, r1, r2]"
      and ?second = "linst FLOW ''vselect'' [LR n 0 True False, caddr, lb, rb]"
    have "rel_sum (=) (tstate ss sl)
        (rbind (exec_lin ss sl (sc, mm) ?first) (\<lambda>st. exec_lin ss sl st ?second))
        (rbind (cond_value env k) (\<lambda>cs. rbind (operand_value env True p) (\<lambda>xs. rbind (operand_value env True q) (\<lambda>ys.
            Inr (env(n := map (\<lambda>i. if cs ! i \<noteq> 0 then xs ! i else ys ! i) [0..<VLEN]), mm)))))"
    proof (cases "cond_value env k")
      case (Inl e)
      with cond show ?thesis by (cases "exec_lin ss sl (sc, mm) ?first") auto
    next
      case (Inr cs)
      with cond obtain sc' where sc': "exec_lin ss sl (sc, mm) ?first = Inr (sc', mm)" "sim ss sl (env(n := cs)) sc'"
        by (cases "exec_lin ss sl (sc, mm) ?first") (auto simp: tstate_def)
      from argument_var [OF t sc'(2) le1 n, of True caddr] c(3,4) obtain a0 where
        "argument ss sl sc' (width True) caddr a0 ((env(n := cs)) n)"
        by (auto simp: register_iffs)
      then have "argument ss sl sc' VLEN caddr a0 cs" by simp
      from select [OF sc'(2) this] sc'(1) Inr show ?thesis unfolding other by simp
    qed
    then show ?thesis unfolding r(6) c(5) foldM_append foldM_one
      by (simp add: foldM_one expr_value_def rbind_assoc CondExpr del: foldM.simps)
  qed
qed

lemma expr_value_const:
  "int_const_wf k \<Longrightarrow> \<exists>v. to_int k = Inr v \<and> operand_value env b (Const k) = Inr (replicate (width b) (r32 v))"
  using to_int_wf [of k] by (auto simp: operand_value_def)

lemma assign_value:
  assumes t: "thread_slot c ss sl" and s: "sim ss sl env sc" and mm: "all_words mm" and n: "is_ident n"
    and wf: "pipeline_wf u" "expr_wf e" and l: "lower_value n e u = Inr (ls, w)" and le: "space_le (ir_ss w) ss"
    and kind: "metas (ir_ss u) n = Some vn" "b = vm_is_vector vn"
  shows "rel_sum (=) (tstate ss sl) (foldM (exec_lin ss sl) ls (sc, mm))
    (rbind (expr_value env mm b e) (\<lambda>vs. Inr (env(n := vs), mm)))"
proof -
  have leu: "space_le (ir_ss u) ss"
    using emits_wf lower_value_emits [OF wf l] wf(1) le space_le_trans by blast
  have tg: "target c ss sl n b"
    by (rule target_of(1) [OF t leu n, of b "LR n 0 b False"]) (use kind in \<open>auto simp: register_iffs\<close>)
  have m: "var_meta_of (ir_ss u) n = Inr vn" using kind(1) by (simp add: var_meta_of_iff)
  note l' = l [unfolded lower_value_def m rbind_simps Let_def, folded kind(2)]
  show ?thesis
  proof (cases e)
    case (DerefIndividualWords m)
    with lower_value_words l kind obtain wm where v: "metas (ir_ss u) m = Some wm" "b" "vm_is_vector wm"
      "ls = map (\<lambda>i. linst LOAD ''load'' [LR n i False False, LR m i False True]) lanes" by fastforce
    have m: "is_ident m" using wf(2) DerefIndividualWords by (simp add: expr_wf_def)
    have tgv: "target c ss sl n True" using tg v(2) by simp
    have "length (env n) = VLEN" using tgv s by (auto elim!: targetE dest: sim_env_length)
    with assign_words [OF tgv s mm space_le_metas [OF leu v(1)] v(3) m order_refl] v(2,4) DerefIndividualWords
    show ?thesis by (simp add: expr_value_def lanes_int comp_def)
  next
    case (DerefVariable m)
    with l' obtain r where r: "read_variable (ir_ss u) m False = Inr r"
      "ls = [linst LOAD (if b then ''vload'' else ''load'') [LR n 0 b False, r]]"
      by (auto simp: rbind_Inr_iff register_iffs)
    from DerefVariable wf(2) have "is_ident m" by (simp add: expr_wf_def)
    from argument_var [OF t s leu this r(1)] obtain a where "argument ss sl sc 1 r a (env m)" by auto
    from exec_load [OF tg s mm this] r(2) DerefVariable show ?thesis
      by (simp add: foldM_one expr_value_def del: foldM.simps)
  next
    case (DerefConstant k)
    with l' obtain r where r: "ir_addr_of (Const k) False u = Inr (r, w)"
      "ls = [linst LOAD (if b then ''vload'' else ''load'') [LR n 0 b False, r]]"
      by (auto simp: rbind_Inr_iff rbind_pair_iff register_iffs)
    from DerefConstant wf(2) have k: "operand_wf (Const k)" "int_const_wf k" by (simp_all add: expr_wf_def operand_wf_def)
    from argument_of [OF t s le wf(1) k(1) r(1)] obtain a xs where
      x: "argument ss sl sc (width False) r a xs" "operand_value env False (Const k) = Inr xs" by auto
    from expr_value_const [OF k(2), of env False] x(2) obtain v where v: "to_int k = Inr v" "xs = [r32 v]" by auto
    from exec_load [OF tg s mm, of r a xs] x(1) v r(2) DerefConstant show ?thesis
      by (simp add: foldM_one expr_value_def del: foldM.simps)
  next
    case (Variable m i)
    with l' obtain x where x: "lower_variable (ir_ss u) n b m i = Inr x" "ls = [x]"
      by (auto simp: rbind_Inr_iff)
    from x(1) obtain wm ridx where v: "(case i of None \<Rightarrow> Inr 0 | Some c \<Rightarrow> to_int c) = Inr ridx" "metas (ir_ss u) m = Some wm"
      "0 \<le> ridx" "ridx < int VLEN" "\<not> vm_is_vector wm \<longrightarrow> ridx = 0"
      "x = (if b then linst VALU ''vbroadcast'' [LR n 0 True False, LR m ridx False True]
          else linst ALU ''|'' [LR n 0 False False, LR m ridx False True, LR m ridx False True])"
      by (auto elim!: lower_variableE)
    from Variable wf(2) have m: "is_ident m" by (simp add: expr_wf_def)
    have "ridx < int (width (vm_is_vector wm))" using v(4,5) by (cases "vm_is_vector wm") auto
    from argument_lane [OF t s space_le_metas [OF leu v(2)] m v(3) this]
    have a: "argument ss sl sc 1 (LR m ridx False True) (slot_addr wm sl + ridx) [env m ! nat ridx]" .
    show ?thesis
    proof (cases b)
      case True
      with exec_broadcast [OF _ s mm a, where n = n] tg x(2) v(1,6) Variable show ?thesis
        by (simp add: foldM_one expr_value_def del: foldM.simps)
    next
      case False
      with exec_copy [OF _ s mm a, where n = n] tg x(2) v(1,6) Variable show ?thesis
        by (simp add: foldM_one expr_value_def del: foldM.simps)
    qed
  next
    case (BinOpExpr x op y)
    with l' obtain r1 v r2 where r: "ir_addr_of x b u = Inr (r1, v)" "ir_addr_of y b v = Inr (r2, w)"
      "ls = [linst (if b then VALU else ALU) op [LR n 0 b False, r1, r2]]"
      by (auto simp: rbind_Inr_iff rbind_pair_iff register_iffs)
    from wf(2) BinOpExpr have xy: "operand_wf x" "operand_wf y" by (simp_all add: expr_wf_def)
    note a = ir_addr_of_emits [OF wf(1) xy(1) r(1)]
    note b = ir_addr_of_emits [OF a(4) xy(2) r(2)]
    from argument_of [OF t s space_le_trans [OF b(5) le] wf(1) xy(1) r(1)] obtain a1 xs where
      x: "argument ss sl sc (width b) r1 a1 xs" "operand_value env b x = Inr xs" by auto
    from argument_of [OF t s le a(4) xy(2) r(2)] obtain a2 ys where
      y: "argument ss sl sc (width b) r2 a2 ys" "operand_value env b y = Inr ys" by auto
    from exec_binop [OF tg s mm x(1) y(1), of op] x(2) y(2) r(3) BinOpExpr show ?thesis
      by (simp add: foldM_one expr_value_def del: foldM.simps)
  next
    case (MultAddExpr x y z)
    with l' obtain r1 r2 v r3 where r: "b" "read_variable (ir_ss u) x True = Inr r1"
      "ir_addr_of y True u = Inr (r2, v)" "ir_addr_of z True v = Inr (r3, w)"
      "ls = [linst VALU ''multiply_add'' [LR n 0 True False, r1, r2, r3]]"
      by (auto simp: rbind_Inr_iff rbind_pair_iff register_iffs check_Inr_iff)
    from wf(2) MultAddExpr have o: "is_ident x" "operand_wf y" "operand_wf z" by (simp_all add: expr_wf_def)
    note a = ir_addr_of_emits [OF wf(1) o(2) r(3)]
    note b = ir_addr_of_emits [OF a(4) o(3) r(4)]
    from argument_var [OF t s leu o(1) r(2)] obtain a1 where x: "argument ss sl sc VLEN r1 a1 (env x)" by auto
    from argument_of [OF t s space_le_trans [OF b(5) le] wf(1) o(2) r(3)] obtain a2 ys where
      y: "argument ss sl sc VLEN r2 a2 ys" "operand_value env True y = Inr ys" by auto
    from argument_of [OF t s le a(4) o(3) r(4)] obtain a3 zs where
      z: "argument ss sl sc VLEN r3 a3 zs" "operand_value env True z = Inr zs" by auto
    from exec_multiply_add [OF _ s mm x y(1) z(1), where n = n] tg r(1,5) y(2) z(2) MultAddExpr show ?thesis
      by (simp add: foldM_one expr_value_def del: foldM.simps)
  next
    case (SelectExpr k p q)
    with l' have r: "lower_select n k p q u = Inr (ls, w)" "b" by (auto simp: rbind_Inr_iff check_Inr_iff)
    from wf(2) SelectExpr have o: "cond_wf k" "operand_wf p" "operand_wf q" by (simp_all add: expr_wf_def)
    from assign_select [OF t s mm n wf(1) o r(1) le] SelectExpr r(2) show ?thesis by simp
  next
    case (IntConstantExpr k)
    from wf(2) IntConstantExpr have k: "operand_wf (Const k)" "int_const_wf k" by (simp_all add: expr_wf_def operand_wf_def)
    show ?thesis
    proof (cases b)
      case True
      with l' IntConstantExpr obtain r where r: "ir_addr_of (Const k) False u = Inr (r, w)"
        "ls = [linst VALU ''vbroadcast'' [LR n 0 True False, r]]"
        by (auto simp: rbind_Inr_iff rbind_pair_iff register_iffs)
      from argument_of [OF t s le wf(1) k(1) r(1)] obtain a xs where
        x: "argument ss sl sc (width False) r a xs" "operand_value env False (Const k) = Inr xs" by auto
      from expr_value_const [OF k(2), of env False] x(2) obtain v where v: "to_int k = Inr v" "xs = [r32 v]" by auto
      from exec_broadcast [OF _ s mm x(1) [unfolded width_simps], where n = n] tg x(1) v r(2) IntConstantExpr True show ?thesis
        by (simp add: foldM_one expr_value_def del: foldM.simps)
    next
      case False
      with l' IntConstantExpr obtain v where v: "to_int k = Inr v" "ls = [const_inst (LR n 0 False False) v]"
        by (auto simp: rbind_Inr_iff register_iffs)
      from exec_const [OF _ s mm, where n = n and v = v] tg v IntConstantExpr False show ?thesis
        by (simp add: foldM_one expr_value_def del: foldM.simps)
    qed
  qed
qed

end
