(* ===== verification/Codegen_Stmts.thy ===== *)
theory Codegen_Stmts
  imports Codegen
begin

text \<open>
  Lowering keeps the meaning of statements: the instructions a list of thread statements adds to the
  graph, those of one thread among them executed in order, do what the statements do to the thread's
  variables and to the memory.
\<close>

section \<open>Stores\<close>

lemma dict_puts_distinct:
  "distinct (map fst ps) \<Longrightarrow> fst ` set ps \<inter> fst ` set d = {} \<Longrightarrow> dict_puts ps d = d @ ps"
proof (induction ps arbitrary: d)
  case (Cons p ps)
  then have "dict_put (fst p) (snd p) d = d @ [p]" by (cases p) (simp add: dict_put_new)
  with Cons show ?case by (cases p) auto
qed simp

lemma assign_store:
  assumes t: "thread_slot c ss sl" and s: "sim ss sl env sc" and mm: "all_words mm"
    and n: "is_ident n" "read_variable (ir_ss u) n False = Inr r"
    and m: "is_ident m" "metas (ir_ss u) m = Some wm" and le: "space_le (ir_ss u) ss"
  shows "rel_sum (=) (tstate ss sl)
    (exec_lin ss sl (sc, mm) (linst STORE (if vm_is_vector wm then ''vstore'' else ''store'') [r, LR m 0 (vm_is_vector wm) False]))
    (rbind (commit (map (\<lambda>i. (env n ! 0 + int i, env m ! i)) [0..<width (vm_is_vector wm)]) mm) (\<lambda>mm'. Inr (env, mm')))"
proof -
  let ?b = "vm_is_vector wm"
  from argument_var [OF t s le n] obtain a where a: "argument ss sl sc 1 r a (env n)" by auto
  have "read_variable (ir_ss u) m ?b = Inr (LR m 0 ?b True)" using m(2) by (simp add: register_iffs)
  from argument_var [OF t s le m(1) this] obtain a' where
    a': "argument ss sl sc (width ?b) (LR m 0 ?b True) a' (env m)" by auto
  have ser: "serialize_param ss sl (Op (LR m 0 ?b False)) = Inr a'"
    using argumentD(1) [OF a'] by (simp add: serialize_param_def op_addr_def is_mem_def)
  have ps: "mapM (serialize_param ss sl) (map Op [r, LR m 0 ?b False]) = Inr [a, a']"
    using argumentD(1) [OF a] ser by simp
  define ps where "ps = map (\<lambda>i. (env n ! 0 + int i, env m ! i)) [0..<width ?b]"
  have "mapM (\<lambda>i. copy_put sc (env n ! 0 + int i) (a' + int i)) [0..<width ?b] = Inr ps"
    unfolding ps_def mapM_Inr [symmetric]
    by (rule mapM_upt_cong) (use argumentD(2) [OF a'] in \<open>simp add: copy_put_def\<close>)
  then have puts: "slot_puts sc mm STORE (if ?b then ''vstore'' else ''store'', [a, a']) = Inr ps"
    using argumentD(3) [OF a] by (cases ?b) (simp_all add: slot_puts_def mapM_lanes)
  have "distinct (map fst ps)" by (simp add: ps_def comp_def distinct_map inj_on_def)
  then have put: "dict_puts ps [] = ps" by (simp add: dict_puts_distinct)
  have "dict_words ps" using slot_puts_words [OF puts] s mm by (simp add: sim_def)
  then have "all_words mm'" if "commit ps mm = Inr mm'" for mm' using commit_words [OF that _ mm] by blast
  then show ?thesis
    using ps puts put s by (cases "commit ps mm") (auto simp: exec_lin_def linst_def ps_def [symmetric] tstate_def)
qed

section \<open>What lowering adds to the thread part of the graph\<close>

definition thread_set :: "ir_pipeline \<Rightarrow> int set" where
  "thread_set u = (case tidrange_context u of None \<Rightarrow> INFINITE_SET | Some r \<Rightarrow> r)"

definition extends :: "ir_pipeline \<Rightarrow> ir_pipeline \<Rightarrow> logical_instr list \<Rightarrow> bool" where
  "extends u w ls \<longleftrightarrow> tidrange_context w = tidrange_context u \<and> num_threads (ir_graph w) = num_threads (ir_graph u) \<and>
     (\<exists>new. graph_imetas (ir_graph w) = graph_imetas (ir_graph u) @ new \<and> map lin new = ls \<and>
       (\<forall>x \<in> set new. tidrange x = thread_set u))"

lemma extends_refl [simp]: "extends u u []"
  by (simp add: extends_def)

lemma extends_trans:
  assumes "extends u v ls" "extends v w ms"
  shows "extends u w (ls @ ms)"
proof -
  from assms obtain xs ys where
    "graph_imetas (ir_graph v) = graph_imetas (ir_graph u) @ xs" "map lin xs = ls" "\<forall>x \<in> set xs. tidrange x = thread_set u"
    "graph_imetas (ir_graph w) = graph_imetas (ir_graph v) @ ys" "map lin ys = ms" "\<forall>x \<in> set ys. tidrange x = thread_set v"
    unfolding extends_def by blast
  moreover from assms have "thread_set v = thread_set u" by (simp add: extends_def thread_set_def)
  ultimately show ?thesis using assms unfolding extends_def by (intro conjI exI [of _ "xs @ ys"]) auto
qed

lemma extends_none: "extends u v [] \<Longrightarrow> extends v w [] \<Longrightarrow> extends u w []"
  using extends_trans [of u v "[]" w "[]"] by simp

lemma put_ss_extends [simp]: "extends u (put_ss ss u) []"
  by (simp add: extends_def)

lemma ir_add_extends: "ir_add g l s = Inr t \<Longrightarrow> extends s t (if g then [] else [l])"
  by (erule ir_add_cases) (cases g; simp add: extends_def thread_set_def)

lemma ir_adds_extends:
  "foldM (\<lambda>s l. ir_add g l s) ls s = Inr t \<Longrightarrow> extends s t (if g then [] else ls)"
proof (induction ls arbitrary: s)
  case (Cons l ls)
  from Cons.prems obtain u where u: "ir_add g l s = Inr u" "foldM (\<lambda>s l. ir_add g l s) ls u = Inr t"
    by (auto simp: rbind_Inr_iff)
  from extends_trans [OF ir_add_extends [OF u(1)] Cons.IH [OF u(2)]] show ?case by (cases g) simp_all
qed simp

lemma ir_addr_of_extends:
  assumes "ir_addr_of p b s = Inr (r, t)"
  shows "extends s t []"
proof (cases p)
  case (Const c)
  with assms obtain v where "handle_const v b s = Inr (r, t)" by (auto simp: ir_addr_of_def rbind_Inr_iff)
  then obtain ls ss where "foldM (\<lambda>s l. ir_add True l s) ls (put_ss ss s) = Inr t" by (rule handle_const_cases)
  from extends_none [OF put_ss_extends] ir_adds_extends [OF this] show ?thesis by auto
qed (use assms in \<open>auto simp: ir_addr_of_def rbind_Inr_iff\<close>)

lemma lower_select_extends:
  assumes "lower_select n k p q u = Inr (ls, w)"
  shows "extends u w []"
  using assms
proof (rule lower_selectE)
  fix caddr ins reused s1 lb s2 rb
  assume r: "lower_cond n k u = Inr (caddr, ins, reused, s1)" "ir_addr_of p True s1 = Inr (lb, s2)" "ir_addr_of q True s2 = Inr (rb, w)"
  have "extends u s1 []"
  proof (cases k)
    case (CondName m)
    with r(1) show ?thesis by (auto simp: lower_cond_def rbind_Inr_iff)
  next
    case (CondExpr x op y)
    with r(1) show ?thesis by (auto elim!: lower_condE intro: extends_none dest!: ir_addr_of_extends)
  qed
  with r(2,3) show ?thesis by (blast intro: extends_none dest: ir_addr_of_extends)
qed

lemma lower_value_extends:
  assumes "lower_value n e u = Inr (ls, w)"
  shows "extends u w []"
proof -
  from assms obtain vm where m: "var_meta_of (ir_ss u) n = Inr vm" unfolding lower_value_def by (rule rbind_InrE)
  note l = assms [unfolded lower_value_def m rbind_simps Let_def]
  show ?thesis
  proof (cases e)
    case (DerefIndividualWords m)
    with lower_value_words assms show ?thesis by fastforce
  next
    case (SelectExpr k p q)
    with l lower_select_extends show ?thesis by (auto simp: rbind_Inr_iff)
  qed (use l in \<open>auto simp: rbind_Inr_iff rbind_pair_iff split: if_splits
      intro: extends_none dest!: ir_addr_of_extends\<close>)
qed

lemma assignment_extends:
  assumes "handle_variable_assignment n e False u = Inr w"
  obtains ls v where "lower_value n e u = Inr (ls, v)" "extends u w ls" "ir_ss w = ir_ss v"
proof -
  from assms obtain ls v where v: "lower_value n e u = Inr (ls, v)" "foldM (\<lambda>s l. ir_add False l s) ls v = Inr w"
    by (auto simp: handle_variable_assignment_def rbind_pair_iff)
  from extends_trans [OF lower_value_extends [OF v(1)] ir_adds_extends [OF v(2)]] have "extends u w ls" by simp
  moreover have "ir_ss w = ir_ss v"
    using v(2) by (rule foldM_invariant) (auto dest: ir_add_frame(1))
  ultimately show thesis by (rule that [OF v(1)])
qed

lemma register_extends: "register_variable n ty k u = Inr w \<Longrightarrow> extends u w []"
  by (auto simp: register_variable_def rbind_Inr_iff split_paired_Ex)

section \<open>Single statements\<close>

definition kind_of :: "scratch_space \<Rightarrow> string \<Rightarrow> bool" where
  "kind_of ss n = (case metas ss n of None \<Rightarrow> False | Some vm \<Rightarrow> vm_is_vector vm)"

text \<open>Lowered instructions are no control flow.\<close>

definition data_lin :: "logical_instr \<Rightarrow> bool" where
  "data_lin l = (lin_engine l = FLOW \<longrightarrow> lin_opcode l = ''vselect'')"

lemma data_lin_simps [simp]: "data_lin (linst e op ps) = (e = FLOW \<longrightarrow> op = ''vselect'')" "data_lin (const_inst d v)"
  by (simp_all add: data_lin_def linst_def const_inst_def)

lemma lower_select_data: "lower_select n k p q u = Inr (ls, w) \<Longrightarrow> list_all data_lin ls"
proof (erule lower_selectE)
  fix caddr ins reused s1 lb s2 rb
  assume r: "lower_cond n k u = Inr (caddr, ins, reused, s1)"
    "ls = ins @ [linst FLOW ''vselect'' [LR n 0 True False, caddr, lb, rb]]"
  show "list_all data_lin ls"
  proof (cases k)
    case (CondExpr x op y)
    with r show ?thesis by (auto elim!: lower_condE)
  qed (use r in \<open>auto simp: lower_cond_def rbind_Inr_iff\<close>)
qed

lemma lower_value_data:
  assumes "lower_value n e u = Inr (ls, w)"
  shows "list_all data_lin ls"
proof -
  from assms obtain vm where m: "var_meta_of (ir_ss u) n = Inr vm" unfolding lower_value_def by (rule rbind_InrE)
  note l = assms [unfolded lower_value_def m rbind_simps Let_def]
  show ?thesis
  proof (cases e)
    case (DerefIndividualWords m)
    with lower_value_words assms have "ls = map (\<lambda>i. linst LOAD ''load'' [LR n i False False, LR m i False True]) lanes" by blast
    then show ?thesis by (simp add: list_all_iff)
  next
    case (Variable m i)
    with l show ?thesis by (auto simp: rbind_Inr_iff elim!: lower_variableE)
  next
    case (SelectExpr k p q)
    with l lower_select_data show ?thesis by (auto simp: rbind_Inr_iff)
  qed (use l in \<open>auto simp: rbind_Inr_iff rbind_pair_iff split: if_splits\<close>)
qed

text \<open>Where the constants hold their values, those an instruction adds do.\<close>

lemma last_reg_ok:
  assumes "inst_ok ss l"
  shows "reg_ok ss (last (param_ops (lin_params l)))"
proof -
  obtain so where so: "sorts (lin_engine l) (lin_opcode l) = Some so" "list_all2 of_sort (lin_params l) so"
    using assms by (auto simp: inst_ok_def shaped_def split: option.splits)
  obtain w so' where "so = Some w # so'"
    using so(1) by (auto simp: sorts_def numeral_eq_Suc split: engine.splits if_splits)
  with so(2) obtain d qs where "lin_params l = Op d # qs"
    by (cases "lin_params l") (auto simp: of_sort_def split: param.splits)
  then have "param_ops (lin_params l) \<noteq> []" by simp
  then show ?thesis using assms last_in_set unfolding inst_ok_def by blast
qed

lemma sim_addend:
  assumes t: "thread_slot c ss sl" and s: "sim ss sl env sc" and ok: "inst_ok ss l"
  shows "addend_holds ss sl sc l"
proof -
  have ok': "reg_ok ss (last (param_ops (lin_params l)))" by (rule last_reg_ok [OF ok])
  obtain n off b rd where r: "last (param_ops (lin_params l)) = LR n off b rd"
    using ok' by (cases "last (param_ops (lin_params l))") (auto simp: reg_ok_def is_array_op_def)
  with ok' obtain vm where vm: "metas ss n = Some vm" "0 \<le> off"
    "if b then off = 0 \<and> vm_length vm = VLEN else off < int (vm_length vm)"
    unfolding reg_ok_def by (metis logical_op.sel(1,3,5))
  show ?thesis
  proof (cases "constant_value ss (LR n off b rd)")
    case (Inr v)
    then have k: "vm_is_constant vm" "vm_constant_value vm = v"
      using vm(1) [folded var_meta_of_iff]
      by (auto simp: constant_value_def is_vector_constant_def is_scalar_constant_def res_elims split: if_splits)
    then have val: "var_val env n vm = replicate (vm_length vm) (r32 v)" by (simp add: var_val_def)
    have get: "py_get sc (slot_addr vm sl + off + int i) = Inr (r32 v)" if "nat off + i < vm_length vm" for i
      using read_word [OF t s vm(1) that] val vm(2) that by (simp add: add.assoc)
    have "op_addr ss sl (LR n off b rd) = Inr (slot_addr vm sl + off)"
      using reg_addr [OF t vm(1)] by (simp add: serialize_param_def)
    with Inr get [of 0] get vm(2,3) show ?thesis
      by (auto simp: addend_holds_def constant_holds_def r list_all_iff lanes_int split: if_splits)
  qed (simp add: addend_holds_def constant_holds_def r split: sum.splits)
qed

text \<open>Instructions that do what a function on language states does.\<close>

definition implements ::
  "scratch_space \<Rightarrow> int \<Rightarrow> logical_instr list \<Rightarrow> (lang_state \<Rightarrow> lang_state res) \<Rightarrow> bool" where
  "implements ss sl ls f \<longleftrightarrow> list_all data_lin ls \<and>
     (\<forall>st z. tstate ss sl st z \<longrightarrow> rel_sum (=) (tstate ss sl) (foldM (exec_lin ss sl) ls st) (f z) \<and>
       adds_safely ss (map (Pair sl) ls) st)"

lemma implementsI:
  assumes "list_all data_lin ls" and "\<And>sc mm env. sim ss sl env sc \<Longrightarrow> all_words mm \<Longrightarrow>
    rel_sum (=) (tstate ss sl) (foldM (exec_lin ss sl) ls (sc, mm)) (f (env, mm))"
    and "\<And>sc mm env. sim ss sl env sc \<Longrightarrow> adds_safely ss (map (Pair sl) ls) (sc, mm)"
  shows "implements ss sl ls f"
  unfolding implements_def using assms by (auto simp: tstate_def)

lemma implements_skip [simp]: "implements ss sl [] Inr"
  by (simp add: implements_def)

lemma implements_seq:
  assumes "implements ss sl ls f" "implements ss sl ms g"
  shows "implements ss sl (ls @ ms) (\<lambda>z. rbind (f z) g)"
  unfolding implements_def foldM_append list_all_append map_append adds_safely_append run_slots_map
proof (intro conjI allI impI)
  show "list_all data_lin ls" "list_all data_lin ms" using assms unfolding implements_def by blast+
  fix st z assume z: "tstate ss sl st z"
  with assms(1) have r: "rel_sum (=) (tstate ss sl) (foldM (exec_lin ss sl) ls st) (f z)"
    and "adds_safely ss (map (Pair sl) ls) st" unfolding implements_def by blast+
  from this(2) show "adds_safely ss (map (Pair sl) ls) st" .
  from r show "rel_sum (=) (tstate ss sl) (rbind (foldM (exec_lin ss sl) ls st) (foldM (exec_lin ss sl) ms)) (rbind (f z) g)"
    by (rule rel_rbind) (use assms(2) in \<open>unfold implements_def, blast\<close>)
  fix st' assume "foldM (exec_lin ss sl) ls st = Inr st'"
  with r obtain z' where "tstate ss sl st' z'" by (cases "f z") auto
  with assms(2) show "adds_safely ss (map (Pair sl) ms) st'" unfolding implements_def by blast
qed

text \<open>The instructions of an assignment: one, or none that adds.\<close>

lemma lower_value_adds:
  assumes "lower_value n e u = Inr (ls, w)" "expr_wf e"
  shows "(\<exists>l. ls = [l]) \<or> (\<forall>l \<in> set ls. lin_opcode l \<notin> {''+'', ''multiply_add''})"
proof -
  from assms obtain vm where m: "var_meta_of (ir_ss u) n = Inr vm" unfolding lower_value_def by (auto elim: rbind_InrE)
  note l = assms(1) [unfolded lower_value_def m rbind_simps Let_def]
  show ?thesis
  proof (cases e)
    case (DerefIndividualWords m)
    with lower_value_words assms have "ls = map (\<lambda>i. linst LOAD ''load'' [LR n i False False, LR m i False True]) lanes" by blast
    then show ?thesis by (simp add: linst_def)
  next
    case (SelectExpr k p q)
    with l have "lower_select n k p q u = Inr (ls, w)" by (auto simp: rbind_Inr_iff)
    then show ?thesis
    proof (rule lower_selectE)
      fix caddr ins reused s1 lb s2 rb
      assume r: "lower_cond n k u = Inr (caddr, ins, reused, s1)"
        "ls = ins @ [linst FLOW ''vselect'' [LR n 0 True False, caddr, lb, rb]]"
      show ?thesis
      proof (cases k)
        case (CondExpr x op y)
        with assms(2) SelectExpr have "op \<in> {''<'', ''==''}" by (simp add: expr_wf_def cond_wf_def)
        with CondExpr r show ?thesis by (auto elim!: lower_condE simp: linst_def)
      qed (use r in \<open>auto simp: lower_cond_def rbind_Inr_iff\<close>)
    qed
  qed (use l in \<open>auto simp: rbind_Inr_iff rbind_pair_iff split: if_splits\<close>)
qed

lemma safely:
  assumes t: "thread_slot c ss sl" and s: "sim ss sl env sc" and ok: "\<forall>l \<in> set ls. inst_ok ss l"
    and ls: "(\<exists>l. ls = [l]) \<or> (\<forall>l \<in> set ls. lin_opcode l \<notin> {''+'', ''multiply_add''})"
  shows "adds_safely ss (map (Pair sl) ls) (sc, mm)"
  using ls
proof
  assume "\<exists>l. ls = [l]"
  with ok sim_addend [OF t s] show ?thesis by (auto split: sum.splits)
next
  assume "\<forall>l \<in> set ls. lin_opcode l \<notin> {''+'', ''multiply_add''}"
  then show ?thesis by (intro adds_safely_plain) auto
qed

lemma assignment_implements:
  assumes t: "thread_slot c ss sl" and wf: "pipeline_wf u" "is_ident n" "expr_wf e"
    and h: "handle_variable_assignment n e False u = Inr w" and le: "space_le (ir_ss w) ss"
  obtains ls where "extends u w ls" "implements ss sl ls (lang_assign (kind_of ss) n e)"
  using h
proof (rule assignment_extends)
  fix ls v assume v: "lower_value n e u = Inr (ls, v)" "extends u w ls" "ir_ss w = ir_ss v"
  from v(1) obtain vn where vn: "metas (ir_ss u) n = Some vn"
    by (auto simp: lower_value_def rbind_Inr_iff var_meta_of_iff)
  from le v(3) have lev: "space_le (ir_ss v) ss" by simp
  have leu: "space_le (ir_ss u) ss"
    using emits_wf lower_value_emits [OF wf(1,3) v(1)] wf(1) lev space_le_trans by blast
  from space_le_metas [OF leu vn] have kind: "vm_is_vector vn = kind_of ss n" by (simp add: kind_of_def)
  have ok: "\<forall>l \<in> set ls. inst_ok ss l" using lower_value_emits [OF wf(1,3) v(1)] inst_ok_mono [OF _ lev] by blast
  have "implements ss sl ls (lang_assign (kind_of ss) n e)"
    by (rule implementsI [OF lower_value_data [OF v(1)] _ safely [OF t _ ok lower_value_adds [OF v(1) wf(3)]]])
      (use assign_value [OF t _ _ wf(2,1,3) v(1) lev vn kind [symmetric]] in \<open>simp add: lang_assign_def\<close>)
  with v(2) show thesis by (rule that)
qed

lemma store_implements:
  assumes t: "thread_slot c ss sl" and wf: "is_ident n" "expr_wf e"
    and h: "handle_store_memory n e False u = Inr w" and le: "space_le (ir_ss w) ss"
  obtains ls where "extends u w ls" "implements ss sl ls (lang_store (kind_of ss) n e)"
proof -
  from h obtain m i where e: "e = Variable m i"
    by (cases e) (auto simp: handle_store_memory_def)
  with wf(2) have m: "is_ident m" by (simp add: expr_wf_def)
  from h e obtain wm r where w: "metas (ir_ss u) m = Some wm" "read_variable (ir_ss u) n False = Inr r"
    "ir_add False (linst STORE (if vm_is_vector wm then ''vstore'' else ''store'') [r, LR m 0 (vm_is_vector wm) False]) u = Inr w"
    by (auto simp: handle_store_memory_def rbind_Inr_iff Let_def var_meta_of_iff register_iffs)
  let ?l = "linst STORE (if vm_is_vector wm then ''vstore'' else ''store'') [r, LR m 0 (vm_is_vector wm) False]"
  from ir_add_frame(1) [OF w(3)] le have leu: "space_le (ir_ss u) ss" by simp
  from space_le_metas [OF leu w(1)] have kind: "kind_of ss m = vm_is_vector wm" by (simp add: kind_of_def)
  have "implements ss sl [?l] (lang_store (kind_of ss) n e)"
    by (rule implementsI, simp)
      (use assign_store [OF t _ _ wf(1) w(2) m w(1) leu] in
        \<open>simp_all add: lang_store_def e foldM_one kind linst_def split: sum.splits del: foldM.simps\<close>)
  with ir_add_extends [OF w(3)] show thesis by (intro that) auto
qed

lemma decl_implements:
  assumes t: "thread_slot c ss sl" and wf: "pipeline_wf u" "decl_wf d"
    and h: "handle_decl d False u = Inr w" and le: "space_le (ir_ss w) ss"
  obtains ls where "extends u w ls" "implements ss sl ls (lang_decl (kind_of ss) d)"
proof (cases d)
  case (VariableDeclaration ty n ns)
  with h have f: "foldM (\<lambda>s n. register_variable n ty (slots_for False s) s) (n # ns) u = Inr w"
    by (simp add: handle_decl_def handle_variable_declaration_def)
  from f have "extends u w []"
    by (rule foldM_invariant) (auto intro: extends_none dest: register_extends)
  moreover have "lang_decl (kind_of ss) d = Inr" by (simp add: lang_decl_def VariableDeclaration fun_eq_iff)
  ultimately show thesis by (intro that [of "[]"]) simp_all
next
  case (VariableDefinition ty n e)
  with h obtain v where v: "register_variable n ty (slots_for False u) u = Inr v" "handle_variable_assignment n e False v = Inr w"
    by (auto simp: handle_decl_def handle_variable_definition_def rbind_Inr_iff)
  from wf(2) VariableDefinition have n: "is_ident n" "expr_wf e" by (simp_all add: decl_wf_def)
  from register_emits [OF n(1) v(1)] wf(1) emits_wf have wfv: "pipeline_wf v" by blast
  obtain ls where ls: "extends v w ls" "implements ss sl ls (lang_assign (kind_of ss) n e)"
    by (rule assignment_implements [OF t wfv n v(2) le])
  moreover have "lang_decl (kind_of ss) d = lang_assign (kind_of ss) n e"
    by (simp add: lang_decl_def VariableDefinition fun_eq_iff)
  moreover from extends_trans [OF register_extends [OF v(1)] ls(1)] have "extends u w ls" by simp
  ultimately show thesis by (intro that) simp_all
qed

fun branching :: "stmt \<Rightarrow> bool" where
  "branching (TidIfElseStmt _ _) = True"
| "branching _ = False"

lemma stmt_implements:
  assumes t: "thread_slot c ss sl" and wf: "pipeline_wf u" "thread_stmt_wf s" "\<not> branching s"
    and h: "handle_stmt s False u = Inr w" and le: "space_le (ir_ss w) ss"
  obtains ls where "extends u w ls" "implements ss sl ls (lang_stmt (kind_of ss) th s)"
proof (cases s)
  case (ThreadLocalVariableStmt d)
  then have "lang_stmt (kind_of ss) th s = lang_decl (kind_of ss) d" by (simp add: fun_eq_iff)
  with ThreadLocalVariableStmt decl_implements [OF t wf(1) _ _ le, of d] wf(2) h that show thesis by auto
next
  case (LoadVariable n e)
  then have "lang_stmt (kind_of ss) th s = lang_assign (kind_of ss) n e" by (simp add: fun_eq_iff)
  with LoadVariable assignment_implements [OF t wf(1) _ _ _ le, of n e] wf(2) h that show thesis by auto
next
  case (StoreMemory n e)
  then have "lang_stmt (kind_of ss) th s = lang_store (kind_of ss) n e" by (simp add: fun_eq_iff)
  with StoreMemory store_implements [OF t _ _ _ le, of n e u] wf(2) h that show thesis by auto
next
  case PauseStmt
  then have "lang_stmt (kind_of ss) th s = Inr" by (simp add: fun_eq_iff)
  moreover from PauseStmt h have "extends u w []"
    by (auto simp: handle_pause_stmt_def extends_def add_pause_def)
  ultimately show thesis by (intro that [of "[]"]) simp_all
qed (use wf in simp_all)

section \<open>Lists of statements and branches\<close>

definition thread_code :: "int \<Rightarrow> imeta list \<Rightarrow> logical_instr list" where
  "thread_code th ims = map lin (filter (\<lambda>x. th \<in> tidrange x) ims)"

lemma thread_code_append [simp]: "thread_code th (xs @ ys) = thread_code th xs @ thread_code th ys"
  by (simp add: thread_code_def)

text \<open>What a thread gets, in a context that is reset at the end.\<close>

definition adds_for :: "int \<Rightarrow> ir_pipeline \<Rightarrow> ir_pipeline \<Rightarrow> logical_instr list \<Rightarrow> bool" where
  "adds_for th u w ls \<longleftrightarrow> tidrange_context w = None \<and> num_threads (ir_graph w) = num_threads (ir_graph u) \<and>
     (\<exists>new. graph_imetas (ir_graph w) = graph_imetas (ir_graph u) @ new \<and> thread_code th new = ls)"

lemma extends_code:
  assumes "extends u w ls"
  shows "\<exists>new. graph_imetas (ir_graph w) = graph_imetas (ir_graph u) @ new \<and>
    thread_code th new = (if th \<in> thread_set u then ls else [])"
proof -
  from assms obtain new where new: "graph_imetas (ir_graph w) = graph_imetas (ir_graph u) @ new" "map lin new = ls"
    "\<forall>x \<in> set new. tidrange x = thread_set u" unfolding extends_def by blast
  from new(3) have "filter (\<lambda>x. th \<in> tidrange x) new = (if th \<in> thread_set u then new else [])"
    by (induction new) auto
  with new(1,2) show ?thesis by (intro exI [of _ new]) (simp add: thread_code_def)
qed

lemma adds_for_trans: "adds_for th u v ls \<Longrightarrow> adds_for th v w ms \<Longrightarrow> adds_for th u w (ls @ ms)"
  unfolding adds_for_def by auto

lemma extends_adds_for:
  assumes "extends u w ls" "tidrange_context u = None"
  shows "adds_for th u w (if th \<in> INFINITE_SET then ls else [])"
  using extends_code [OF assms(1), of th] assms unfolding adds_for_def extends_def by (auto simp: thread_set_def)

lemma handle_stmts_le:
  assumes "pipeline_wf u" "list_all thread_stmt_wf sts" "handle_stmts sts False u = Inr w"
  shows "pipeline_wf w" "space_le (ir_ss u) (ir_ss w)"
proof -
  from assms(2) have "list_all stmt_wf sts" by (rule list_all_stmt_wf(2))
  from emits_wf [OF handle_emits(2) [OF assms(1) this assms(3)] assms(1)]
  show "pipeline_wf w" "space_le (ir_ss u) (ir_ss w)" by auto
qed

lemma handle_stmt_le:
  assumes "pipeline_wf u" "thread_stmt_wf s" "handle_stmt s False u = Inr w"
  shows "pipeline_wf w" "space_le (ir_ss u) (ir_ss w)"
  using handle_stmts_le [OF assms(1), of "[s]" w] assms(2,3) by (simp_all add: rbind_right)

lemma plain_stmts_implement:
  assumes t: "thread_slot c ss sl"
  shows "pipeline_wf u \<Longrightarrow> list_all thread_stmt_wf b \<Longrightarrow> list_all (\<lambda>s. \<not> branching s) b \<Longrightarrow>
    handle_stmts b False u = Inr w \<Longrightarrow> space_le (ir_ss w) ss \<Longrightarrow>
    \<exists>ls. extends u w ls \<and> implements ss sl ls (lang_stmts (kind_of ss) th b)"
proof (induction b arbitrary: u)
  case Nil
  then have "lang_stmts (kind_of ss) th [] = Inr" by (simp add: fun_eq_iff)
  with Nil show ?case by (intro exI [of _ "[]"]) simp
next
  case (Cons s b)
  from Cons.prems(4) obtain v where v: "handle_stmt s False u = Inr v" "handle_stmts b False v = Inr w"
    by (auto simp: rbind_Inr_iff)
  from Cons.prems(2,3) have s: "thread_stmt_wf s" "list_all thread_stmt_wf b" "\<not> branching s" "list_all (\<lambda>s. \<not> branching s) b"
    by simp_all
  note wv = handle_stmt_le [OF Cons.prems(1) s(1) v(1)]
  note ww = handle_stmts_le [OF wv(1) s(2) v(2)]
  obtain ls where ls: "extends u v ls" "implements ss sl ls (lang_stmt (kind_of ss) th s)"
    by (rule stmt_implements [OF t Cons.prems(1) s(1,3) v(1) space_le_trans [OF ww(2) Cons.prems(5)]])
  from Cons.IH [OF wv(1) s(2,4) v(2) Cons.prems(5)] obtain ms where
    ms: "extends v w ms" "implements ss sl ms (lang_stmts (kind_of ss) th b)" by blast
  have "lang_stmts (kind_of ss) th (s # b) = (\<lambda>z. rbind (lang_stmt (kind_of ss) th s z) (lang_stmts (kind_of ss) th b))"
    by (simp add: fun_eq_iff)
  with implements_seq [OF ls(2) ms(2)] extends_trans [OF ls(1) ms(1)] show ?case by metis
qed

text \<open>Ranges of an \<open>iftid\<close> that do not overlap, and programs without nested \<open>iftid\<close>.\<close>

definition apart :: "tid_range \<Rightarrow> tid_range \<Rightarrow> bool" where
  "apart r q = (case (range_set r, range_set q) of (Inr A, Inr B) \<Rightarrow> A \<inter> B = {} | _ \<Rightarrow> True)"

fun ranges_apart :: "tid_range list \<Rightarrow> bool" where
  "ranges_apart [] = True"
| "ranges_apart (r # rs) = (list_all (apart r) rs \<and> ranges_apart rs)"

definition flat_stmt :: "stmt \<Rightarrow> bool" where
  "flat_stmt s = (case s of
     TidIfElseStmt rs bs \<Rightarrow> ranges_apart rs \<and> list_all (list_all (\<lambda>s. \<not> branching s)) bs
   | _ \<Rightarrow> True)"

lemma to_set_range: "to_set r = range_set r"
proof -
  have "{a..b - 1} = {a..<b}" for a b :: int by auto
  then show ?thesis by (simp add: to_set_def range_set_def)
qed

lemma branch_step:
  assumes "handle_branches (b # bs) rs remaining False u = Inr w"
  obtains S v where "(case rs of [] \<Rightarrow> Inr remaining | r # _ \<Rightarrow> range_set r) = Inr S"
    "handle_stmts b False (u\<lparr>tidrange_context := Some S\<rparr>) = Inr v"
    "handle_branches bs (tl rs) (remaining - S) False (v\<lparr>tidrange_context := None\<rparr>) = Inr w"
  using assms unfolding handle_branches.simps to_set_range rbind_Inr_iff by blast

lemma context_adds_for:
  assumes "extends (u\<lparr>tidrange_context := Some S\<rparr>) v ls"
  shows "adds_for th u (v\<lparr>tidrange_context := None\<rparr>) (if th \<in> S then ls else [])"
  using extends_code [OF assms, of th] assms unfolding adds_for_def extends_def by (auto simp: thread_set_def)

lemma context_wf: "pipeline_wf u \<Longrightarrow> pipeline_wf (u\<lparr>tidrange_context := x\<rparr>)"
  by simp

text \<open>A thread that no remaining range holds gets nothing from the remaining branches.\<close>

lemma branches_skip:
  assumes t: "thread_slot c ss sl"
  shows "handle_branches bs rs remaining False u = Inr w \<Longrightarrow> pipeline_wf u \<Longrightarrow> list_all (list_all thread_stmt_wf) bs \<Longrightarrow>
    list_all (list_all (\<lambda>s. \<not> branching s)) bs \<Longrightarrow> th \<notin> remaining \<Longrightarrow>
    list_all (\<lambda>r. case range_set r of Inr S \<Rightarrow> th \<notin> S | _ \<Rightarrow> True) rs \<Longrightarrow> space_le (ir_ss w) ss \<Longrightarrow>
    tidrange_context u = None \<Longrightarrow> adds_for th u w []"
proof (induction bs arbitrary: rs remaining u)
  case Nil
  then show ?case by (simp add: adds_for_def thread_code_def)
next
  case (Cons b bs)
  from Cons.prems(1) obtain S v where v: "(case rs of [] \<Rightarrow> Inr remaining | r # _ \<Rightarrow> range_set r) = Inr S"
    "handle_stmts b False (u\<lparr>tidrange_context := Some S\<rparr>) = Inr v"
    "handle_branches bs (tl rs) (remaining - S) False (v\<lparr>tidrange_context := None\<rparr>) = Inr w" by (rule branch_step)
  from Cons.prems(5,6) v(1) have out: "th \<notin> S" by (cases rs) auto
  from Cons.prems have b: "list_all thread_stmt_wf b" "list_all (\<lambda>s. \<not> branching s) b" by simp_all
  note wv = handle_stmts_le [OF context_wf [OF Cons.prems(2)] b(1) v(2)]
  have "list_all (list_all stmt_wf) bs" using Cons.prems(3) list_all_stmt_wf(2) by (auto simp: list_all_iff)
  from emits_wf [OF handle_emits(3) [OF context_wf [OF wv(1)] this v(3)] context_wf [OF wv(1)]]
  have "space_le (ir_ss v) (ir_ss w)" by simp
  with Cons.prems(7) have "space_le (ir_ss v) ss" by (blast intro: space_le_trans)
  from plain_stmts_implement [OF t context_wf [OF Cons.prems(2)] b v(2) this] obtain ls where
    "extends (u\<lparr>tidrange_context := Some S\<rparr>) v ls" by blast
  from context_adds_for [OF this, of th] out have a: "adds_for th u (v\<lparr>tidrange_context := None\<rparr>) []" by simp
  have "adds_for th (v\<lparr>tidrange_context := None\<rparr>) w []"
    by (rule Cons.IH [OF v(3) context_wf [OF wv(1)]]) (use Cons.prems in \<open>cases rs; simp\<close>)+
  with adds_for_trans [OF a] show ?case by simp
qed

lemma branches_implement:
  assumes t: "thread_slot c ss sl"
  shows "handle_branches bs rs remaining False u = Inr w \<Longrightarrow> pipeline_wf u \<Longrightarrow> list_all (list_all thread_stmt_wf) bs \<Longrightarrow>
    list_all (list_all (\<lambda>s. \<not> branching s)) bs \<Longrightarrow> th \<in> remaining \<Longrightarrow> ranges_apart rs \<Longrightarrow> length bs = length rs + 1 \<Longrightarrow>
    space_le (ir_ss w) ss \<Longrightarrow> tidrange_context u = None \<Longrightarrow>
    \<exists>ls. adds_for th u w ls \<and> implements ss sl ls (lang_branches (kind_of ss) th bs rs)"
proof (induction bs arbitrary: rs remaining u)
  case (Cons b bs)
  from Cons.prems(1) obtain S v where v: "(case rs of [] \<Rightarrow> Inr remaining | r # _ \<Rightarrow> range_set r) = Inr S"
    "handle_stmts b False (u\<lparr>tidrange_context := Some S\<rparr>) = Inr v"
    "handle_branches bs (tl rs) (remaining - S) False (v\<lparr>tidrange_context := None\<rparr>) = Inr w" by (rule branch_step)
  let ?v = "v\<lparr>tidrange_context := None\<rparr>"
  from Cons.prems have b: "list_all thread_stmt_wf b" "list_all (\<lambda>s. \<not> branching s) b" by simp_all
  note wv = handle_stmts_le [OF context_wf [OF Cons.prems(2)] b(1) v(2)]
  have "list_all (list_all stmt_wf) bs" using Cons.prems(3) list_all_stmt_wf(2) by (auto simp: list_all_iff)
  from emits_wf [OF handle_emits(3) [OF context_wf [OF wv(1)] this v(3)] context_wf [OF wv(1)]]
  have "space_le (ir_ss v) (ir_ss w)" by simp
  with Cons.prems(8) have "space_le (ir_ss v) ss" by (blast intro: space_le_trans)
  from plain_stmts_implement [OF t context_wf [OF Cons.prems(2)] b v(2) this] obtain ls where
    ls: "extends (u\<lparr>tidrange_context := Some S\<rparr>) v ls" "implements ss sl ls (lang_stmts (kind_of ss) th b)" by blast
  note first = context_adds_for [OF ls(1), of th]
  show ?case
  proof (cases rs)
    case Nil
    with Cons.prems(7) v(1,3) have "bs = []" "w = ?v" "S = remaining" by auto
    moreover have "lang_branches (kind_of ss) th [b] [] = lang_stmts (kind_of ss) th b" by (simp add: fun_eq_iff)
    ultimately show ?thesis using first ls(2) Nil Cons.prems(5) by auto
  next
    case (Cons r rs')
    with v(1) have S: "range_set r = Inr S" by simp
    have eq: "lang_branches (kind_of ss) th (b # bs) rs =
        (if th \<in> S then lang_stmts (kind_of ss) th b else lang_branches (kind_of ss) th bs rs')"
      using Cons S by (auto simp: fun_eq_iff)
    show ?thesis
    proof (cases "th \<in> S")
      case True
      have "list_all (\<lambda>r. case range_set r of Inr S \<Rightarrow> th \<notin> S | _ \<Rightarrow> True) rs'"
        using Cons.prems(6) Cons S True by (auto simp: list_all_iff apart_def split: sum.splits)
      then have "adds_for th ?v w []"
        using branches_skip [OF t v(3) context_wf [OF wv(1)]] Cons.prems(3,4,8) True Cons by simp
      with adds_for_trans [OF first] True have "adds_for th u w ls" by fastforce
      with ls(2) eq True show ?thesis by auto
    next
      case False
      have "\<exists>ls. adds_for th ?v w ls \<and> implements ss sl ls (lang_branches (kind_of ss) th bs rs')"
        using Cons.IH [OF v(3) context_wf [OF wv(1)]] Cons.prems False Cons by simp
      with adds_for_trans [OF first] False eq show ?thesis by fastforce
    qed
  qed
qed simp

text \<open>The statements of a thread.\<close>

lemma stmts_implement:
  assumes t: "thread_slot c ss sl" and th: "th \<in> INFINITE_SET" "0 \<le> th"
  shows "pipeline_wf u \<Longrightarrow> list_all thread_stmt_wf sts \<Longrightarrow> list_all flat_stmt sts \<Longrightarrow>
    handle_stmts sts False u = Inr w \<Longrightarrow> space_le (ir_ss w) ss \<Longrightarrow> th < num_threads (ir_graph u) \<Longrightarrow>
    tidrange_context u = None \<Longrightarrow>
    \<exists>ls. adds_for th u w ls \<and> implements ss sl ls (lang_stmts (kind_of ss) th sts)"
proof (induction sts arbitrary: u)
  case Nil
  then have "lang_stmts (kind_of ss) th [] = Inr" by (simp add: fun_eq_iff)
  with Nil show ?case by (intro exI [of _ "[]"]) (simp add: adds_for_def thread_code_def)
next
  case (Cons s sts)
  from Cons.prems(4) obtain v where v: "handle_stmt s False u = Inr v" "handle_stmts sts False v = Inr w"
    by (auto simp: rbind_Inr_iff)
  from Cons.prems(2,3) have s: "thread_stmt_wf s" "list_all thread_stmt_wf sts" "flat_stmt s" "list_all flat_stmt sts"
    by simp_all
  note wv = handle_stmt_le [OF Cons.prems(1) s(1) v(1)]
  note ww = handle_stmts_le [OF wv(1) s(2) v(2)]
  note le = space_le_trans [OF ww(2) Cons.prems(5)]
  have "\<exists>ls. adds_for th u v ls \<and> implements ss sl ls (lang_stmt (kind_of ss) th s)"
  proof (cases "branching s")
    case False
    obtain ls where "extends u v ls" "implements ss sl ls (lang_stmt (kind_of ss) th s)"
      by (rule stmt_implements [OF t Cons.prems(1) s(1) False v(1) le])
    with extends_adds_for [of u v ls th] Cons.prems(7) th(1) show ?thesis by auto
  next
    case True
    then obtain rs bs where i: "s = TidIfElseStmt rs bs" by (cases s) auto
    with s(1,3) have f: "list_all (list_all thread_stmt_wf) bs" "list_all (list_all (\<lambda>s. \<not> branching s)) bs"
      "ranges_apart rs" "length bs = length rs + 1" by (simp_all add: flat_stmt_def)
    have "th \<in> set [0..num_threads (ir_graph u) - 1]" using th(2) Cons.prems(6) by simp
    from branches_implement [OF t v(1) [unfolded i handle_stmt.simps] Cons.prems(1) f(1,2) this f(3,4) le Cons.prems(7)]
    have "\<exists>ls. adds_for th u v ls \<and> implements ss sl ls (lang_branches (kind_of ss) th bs rs)" .
    moreover have "lang_stmt (kind_of ss) th s = lang_branches (kind_of ss) th bs rs" by (simp add: i fun_eq_iff)
    ultimately show ?thesis by simp
  qed
  then obtain ls where ls: "adds_for th u v ls" "implements ss sl ls (lang_stmt (kind_of ss) th s)" by blast
  from ls(1) Cons.prems(6) have "th < num_threads (ir_graph v)" "tidrange_context v = None" by (simp_all add: adds_for_def)
  from Cons.IH [OF wv(1) s(2,4) v(2) Cons.prems(5) this] obtain ms where
    ms: "adds_for th v w ms" "implements ss sl ms (lang_stmts (kind_of ss) th sts)" by blast
  have "lang_stmts (kind_of ss) th (s # sts) = (\<lambda>z. rbind (lang_stmt (kind_of ss) th s z) (lang_stmts (kind_of ss) th sts))"
    by (simp add: fun_eq_iff)
  with implements_seq [OF ls(2) ms(2)] adds_for_trans [OF ls(1) ms(1)] show ?case by metis
qed

section \<open>On the machine\<close>

text \<open>The instructions of one thread as bundles of one slot each.\<close>

definition single_bundle :: "scratch_space \<Rightarrow> int \<Rightarrow> logical_instr \<Rightarrow> instr res" where
  "single_bundle ss sl l =
     rbind (mapM (serialize_param ss sl) (lin_params l)) (\<lambda>as. Inr [Group (lin_engine l) [(lin_opcode l, as)]])"

lemma step_single:
  assumes "single_bundle ss sl l = Inr ins" "data_lin l"
  shows "step m ins c = rbind (exec_lin ss sl (scratch c, mem m) l) (\<lambda>(sc, mm). Inr (c\<lparr>scratch := sc\<rparr>, mm))"
proof -
  from assms(1) obtain as where as: "mapM (serialize_param ss sl) (lin_params l) = Inr as"
    "ins = [Group (lin_engine l) [(lin_opcode l, as)]]" by (auto simp: single_bundle_def rbind_Inr_iff)
  have data: "is_data_instr ins"
    using assms(2) by (simp add: as(2) is_data_instr_def is_data_group_def is_data_slot_def data_lin_def)
  have lim: "1 \<le> SLOT_LIMITS (lin_engine l)" by (cases "lin_engine l") simp_all
  note sd = step_data [OF data, of m c, unfolded as(2)]
  show ?thesis
  proof (cases "slot_puts (scratch c) (mem m) (lin_engine l) (lin_opcode l, as)")
    case (Inl e)
    with as lim show ?thesis
      unfolding as(2) sd by (simp add: bundle_puts_def group_puts_def exec_lin_def check_def)
  next
    case (Inr ps)
    with as lim show ?thesis
      unfolding as(2) sd by (simp add: bundle_puts_def group_puts_def exec_lin_def check_def rbind_assoc)
  qed
qed

lemma run_single:
  assumes "mapM (single_bundle ss sl) ls = Inr prg" "list_all data_lin ls"
  shows "run_straight m prg (c, mm) = rbind (foldM (exec_lin ss sl) ls (scratch c, mm))
    (\<lambda>(sc', mm'). Inr (c\<lparr>pc := pc c + int (length ls), scratch := sc'\<rparr>, mm'))"
  using assms
proof (induction ls arbitrary: prg c mm)
  case Nil
  then show ?case by (simp add: run_straight_def)
next
  case (Cons l ls)
  from Cons.prems obtain ins prg' where p: "single_bundle ss sl l = Inr ins" "mapM (single_bundle ss sl) ls = Inr prg'"
    "prg = ins # prg'" by (auto simp: rbind_Inr_iff)
  from Cons.prems(2) have d: "data_lin l" "list_all data_lin ls" by simp_all
  note step = step_single [OF p(1) d(1), of "m\<lparr>mem := mm\<rparr>" "c\<lparr>pc := pc c + 1\<rparr>"]
  have run: "run_straight m prg (c, mm) =
      rbind (step (m\<lparr>mem := mm\<rparr>) ins (c\<lparr>pc := pc c + 1\<rparr>)) (run_straight m prg')"
    by (simp add: p(3) run_straight_def)
  show ?case
  proof (cases "exec_lin ss sl (scratch c, mm) l")
    case (Inr st)
    obtain sc' mm' where st: "st = (sc', mm')" by fastforce
    from Inr st step have "step (m\<lparr>mem := mm\<rparr>) ins (c\<lparr>pc := pc c + 1\<rparr>) = Inr (c\<lparr>pc := pc c + 1, scratch := sc'\<rparr>, mm')" by simp
    with run Cons.IH [OF p(2) d(2), of "c\<lparr>pc := pc c + 1, scratch := sc'\<rparr>" mm'] Inr st show ?thesis
      by (simp add: add.assoc)
  qed (use run step in simp)
qed

lemma reg_serialized:
  assumes "thread_slot c ss sl" "reg_ok ss r"
  shows "\<exists>a. serialize_param ss sl (Op r) = Inr a"
proof (cases r)
  case (LR n off b rd)
  with assms(2) obtain vm where "metas ss n = Some vm" by (auto simp: reg_ok_def)
  from reg_addr [OF assms(1) this] LR show ?thesis by blast
qed (use assms(2) in \<open>simp add: reg_ok_def is_array_op_def\<close>)

lemma inst_serialized:
  assumes "thread_slot c ss sl" "inst_ok ss l"
  shows "\<exists>ins. single_bundle ss sl l = Inr ins"
proof -
  have "\<exists>as. mapM (serialize_param ss sl) ps = Inr as" if "\<forall>r \<in> set (param_ops ps). reg_ok ss r" for ps
    using that
  proof (induction ps)
    case (Cons q ps)
    then have "\<exists>a. serialize_param ss sl q = Inr a"
      by (cases q) (auto simp: reg_serialized [OF assms(1)] serialize_param_def [of _ _ "Imm _"])
    moreover from Cons have "\<exists>as. mapM (serialize_param ss sl) ps = Inr as" by (cases q) auto
    ultimately show ?case by auto
  qed simp
  then obtain as where "mapM (serialize_param ss sl) (lin_params l) = Inr as"
    using assms(2) by (auto simp: inst_ok_def)
  then show ?thesis by (simp add: single_bundle_def)
qed

section \<open>Whole programs\<close>

lemma global_stmt_extends:
  assumes "global_stmt_wf s" "handle_stmt s True u = Inr w"
  shows "extends u w []"
proof -
  have assign: "extends v w []" if "handle_variable_assignment n e True v = Inr w" for n e v
  proof -
    from that obtain ls x where x: "lower_value n e v = Inr (ls, x)" "foldM (\<lambda>s l. ir_add True l s) ls x = Inr w"
      by (auto simp: handle_variable_assignment_def rbind_pair_iff)
    from extends_none [OF lower_value_extends [OF x(1)]] ir_adds_extends [OF x(2)] show ?thesis by simp
  qed
  show ?thesis
  proof (cases s)
    case (VariableDeclarationStmt d)
    show ?thesis
    proof (cases d)
      case (VariableDeclaration ty n ns)
      with assms VariableDeclarationStmt
      have f: "foldM (\<lambda>s n. register_variable n ty (slots_for True s) s) (n # ns) u = Inr w"
        by (simp add: handle_decl_def handle_variable_declaration_def)
      from f show ?thesis by (rule foldM_invariant) (auto intro: extends_none dest: register_extends)
    next
      case (VariableDefinition ty n e)
      with assms VariableDeclarationStmt obtain v where
        v: "register_variable n ty (slots_for True u) u = Inr v" "handle_variable_assignment n e True v = Inr w"
        by (auto simp: handle_decl_def handle_variable_definition_def rbind_Inr_iff)
      from extends_none [OF register_extends [OF v(1)] assign [OF v(2)]] show ?thesis .
    qed
  next
    case (LoadVariable n e)
    with assms assign show ?thesis by simp
  next
    case (StoreMemory n e)
    with assms show ?thesis
      by (auto simp: handle_store_memory_def rbind_Inr_iff Let_def split: value_expr.splits dest!: ir_add_extends)
  next
    case PauseStmt
    with assms show ?thesis by (auto simp: handle_pause_stmt_def extends_def add_pause_def)
  qed (use assms(1) in \<open>simp_all add: global_stmt_wf_def\<close>)
qed

lemma global_stmts_extend:
  "list_all global_stmt_wf sts \<Longrightarrow> handle_stmts sts True u = Inr w \<Longrightarrow> extends u w []"
proof (induction sts arbitrary: u)
  case (Cons s sts)
  then obtain v where v: "handle_stmt s True u = Inr v" "handle_stmts sts True v = Inr w" by (auto simp: rbind_Inr_iff)
  with Cons.prems Cons.IH [of v] global_stmt_extends [of s u v] show ?case by (auto intro: extends_none)
qed simp

lemma program_implements:
  assumes prog: "prog_wf prog" "list_all flat_stmt (thread_prog prog)" and s: "program_to_irp prog n c = Inr s"
    and th: "th \<in> INFINITE_SET" "0 \<le> th" "th < n" and sl: "0 \<le> sl" "sl < c"
  shows "thread_slot (nat c) (ir_ss s) sl" "implements (ir_ss s) sl (thread_code th (graph_imetas (ir_graph s)))
    (lang_stmts (kind_of (ir_ss s)) th (thread_prog prog))"
proof -
  from s obtain u where u: "handle_stmts (global_prog prog) True (new_pipeline n c) = Inr u"
    "handle_stmts (thread_prog prog) False u = Inr s" by (auto simp: program_to_irp_def rbind_Inr_iff)
  from prog(1) have w: "list_all global_stmt_wf (global_prog prog)" "list_all thread_stmt_wf (thread_prog prog)"
    by (simp_all add: prog_wf_def)
  from emits_wf [OF handle_emits(2) [OF new_pipeline_wf list_all_stmt_wf(1) [OF w(1)] u(1)] new_pipeline_wf]
  have wfu: "pipeline_wf u" by blast
  from global_stmts_extend [OF w(1) u(1)] have g: "graph_imetas (ir_graph u) = []" "tidrange_context u = None" "num_threads (ir_graph u) = n"
    by (auto simp: extends_def new_pipeline_def new_graph_def)
  from program_to_irp_wf [OF prog(1) s] sl show slot: "thread_slot (nat c) (ir_ss s) sl"
    by (simp add: thread_slot_def graph_wf_def)
  from stmts_implement [OF slot th(1,2) wfu w(2) prog(2) u(2) space_le_refl _ g(2)] th(3) g(3) obtain ls where
    ls: "adds_for th u s ls" "implements (ir_ss s) sl ls (lang_stmts (kind_of (ir_ss s)) th (thread_prog prog))" by auto
  from ls(1) g(1) have "thread_code th (graph_imetas (ir_graph s)) = ls" by (auto simp: adds_for_def)
  with ls(2) show "implements (ir_ss s) sl (thread_code th (graph_imetas (ir_graph s)))
      (lang_stmts (kind_of (ir_ss s)) th (thread_prog prog))" by simp
qed

end
