(* ===== verification/Codegen_Props.thy ===== *)
theory Codegen_Props
  imports Codegen_Stmts Compile_Props
begin

text \<open>
  The compiler keeps the meaning of thread programs (C23).
\<close>

text \<open>
  C23: the code of a thread does what its statements mean. Take the instructions the compiled program
  has for thread \<open>th\<close>, one bundle each, in order, in slot \<open>sl\<close> of the scratch space; run them on the
  simulator from a scratch space that holds the variables of the environment in that slot and the
  constants in theirs. They compute what the thread program computes in the language: the same
  exception, or the same memory and a scratch space that holds the new environment. The \<open>iftid\<close>
  ranges must not overlap and not be nested.
\<close>

theorem thread_program_refines:
  assumes "prog_wf prog" "list_all flat_stmt (thread_prog prog)" "program_to_irp prog n c = Inr s"
    and "0 \<le> th" "th < n" "th < 100" "0 \<le> sl" "sl < c"
    and "tstate (ir_ss s) sl (scratch co, mm) (env, mm)"
  shows "\<exists>prg. mapM (single_bundle (ir_ss s) sl) (thread_code th (graph_imetas (ir_graph s))) = Inr prg \<and>
    rel_sum (=) (\<lambda>(co', mm') z. tstate (ir_ss s) sl (scratch co', mm') z) (run_straight m prg (co, mm))
      (lang_stmts (kind_of (ir_ss s)) th (thread_prog prog) (env, mm))"
proof -
  let ?ls = "thread_code th (graph_imetas (ir_graph s))"
  have "th \<in> INFINITE_SET" using assms(4,6) by (simp add: INFINITE_SET_def)
  note p = program_implements [OF assms(1-3) this assms(4,5,7,8)]
  from program_to_irp_wf [OF assms(1,3)] have "\<forall>l \<in> set ?ls. inst_ok (ir_ss s) l"
    by (auto simp: thread_code_def graph_wf_def imeta_ok_def)
  then have "\<exists>prg. mapM (single_bundle (ir_ss s) sl) ?ls = Inr prg"
    using mapM_total [of ?ls "single_bundle (ir_ss s) sl" "\<lambda>_. True"] inst_serialized [OF p(1)] by simp
  then obtain prg where prg: "mapM (single_bundle (ir_ss s) sl) ?ls = Inr prg" by blast
  from p(2) have d: "list_all data_lin ?ls" by (simp add: implements_def)
  from p(2) assms(9) have "rel_sum (=) (tstate (ir_ss s) sl) (foldM (exec_lin (ir_ss s) sl) ?ls (scratch co, mm))
      (lang_stmts (kind_of (ir_ss s)) th (thread_prog prog) (env, mm))" unfolding implements_def by blast
  then have "rel_sum (=) (\<lambda>(co', mm') z. tstate (ir_ss s) sl (scratch co', mm') z)
      (rbind (foldM (exec_lin (ir_ss s) sl) ?ls (scratch co, mm))
        (\<lambda>(sc', mm'). Inr (co\<lparr>pc := pc co + int (length ?ls), scratch := sc'\<rparr>, mm')))
      (rbind (lang_stmts (kind_of (ir_ss s)) th (thread_prog prog) (env, mm)) Inr)"
    by (rule rel_rbind) auto
  then have "rel_sum (=) (\<lambda>(co', mm') z. tstate (ir_ss s) sl (scratch co', mm') z) (run_straight m prg (co, mm))
      (lang_stmts (kind_of (ir_ss s)) th (thread_prog prog) (env, mm))"
    unfolding run_single [OF prg d] rbind_right .
  with prg show ?thesis by blast
qed

text \<open>A scratch space of zeros holds the environment of zeros, if there are no constants.\<close>

lemma zero_state:
  assumes "thread_slot c ss sl" "\<And>n vm. metas ss n = Some vm \<Longrightarrow> \<not> vm_is_constant vm"
  shows "tstate ss sl (replicate SCRATCH_SIZE 0, []) (\<lambda>n. case metas ss n of None \<Rightarrow> [] | Some vm \<Rightarrow> replicate (vm_length vm) 0, [])"
proof -
  have "space_ok ss" using assms(1) space_wf_ok unfolding thread_slot_def by blast
  from space_okD(3) [OF this] have len: "ss_size ss \<le> SCRATCH_SIZE" by (simp add: ss_size_def)
  have "replicate SCRATCH_SIZE 0 ! nat (slot_addr vm sl + int i) = (0 :: int)" if "metas ss n = Some vm" "i < vm_length vm" for n vm i
    using slot_bounds [OF assms(1) that(1)] that(2) len by (intro nth_replicate) linarith
  with assms(2) len show ?thesis
    by (auto simp: tstate_def sim_def var_val_def all_words_def)
qed

definition small_prog :: program where
  "small_prog = \<lparr>global_prog = [],
     thread_prog = [ThreadLocalVariableStmt (VariableDeclaration ''register[]'' ''v'' []),
       TidIfElseStmt [TidRange (NumberString ''0'') (NumberString ''1'')]
         [[LoadVariable ''v'' (BinOpExpr (Name ''v'') ''=='' (Name ''v''))], [PauseStmt]]]\<rparr>"

lemma small_lowers:
  "case program_to_irp small_prog 2 2 of
     Inl _ \<Rightarrow> False
   | Inr s \<Rightarrow> ss_var_meta (ir_ss s) = [(''v'', \<lparr>vm_name = ''v'', vm_addr = 0, vm_is_vector = True, vm_length = VLEN,
       vm_slots = 2, vm_is_constant = False, vm_constant_value = - 123\<rparr>)]"
  by code_simp

lemma small_runs:
  "lang_stmts (\<lambda>n. n = ''v'') 0 (thread_prog small_prog) (\<lambda>n. if n = ''v'' then replicate VLEN 0 else [], []) =
     Inr ((\<lambda>n. if n = ''v'' then replicate VLEN 0 else [])(''v'' := replicate VLEN 1), [])"
proof -
  have [simp]: "to_int (NumberString ''0'') = Inr 0" "to_int (NumberString ''1'') = Inr 1" by code_simp+
  have [simp]: "lanes_op VLEN ''=='' (replicate VLEN 0) (replicate VLEN 0) = Inr (replicate VLEN 1)" by code_simp
  show ?thesis
    by (simp add: small_prog_def lang_decl_def range_set_def lang_assign_def expr_value_def operand_value_def width_def)
qed

theorem thread_program_refines_witness:
  "\<exists>s prg co mm. program_to_irp small_prog 2 2 = Inr s \<and>
     mapM (single_bundle (ir_ss s) 1) (thread_code 0 (graph_imetas (ir_graph s))) = Inr prg \<and>
     run_straight (new_machine [] [] 1 SCRATCH_SIZE Map.empty) prg (new_core SCRATCH_SIZE 0, []) = Inr (co, mm) \<and>
     sim (ir_ss s) 1 ((\<lambda>n. if n = ''v'' then replicate VLEN 0 else [])(''v'' := replicate VLEN 1)) (scratch co)"
proof -
  from small_lowers obtain s where s: "program_to_irp small_prog 2 2 = Inr s"
    and v: "ss_var_meta (ir_ss s) = [(''v'', \<lparr>vm_name = ''v'', vm_addr = 0, vm_is_vector = True, vm_length = VLEN,
       vm_slots = 2, vm_is_constant = False, vm_constant_value = - 123\<rparr>)]" by (auto split: sum.splits)
  have wf: "prog_wf small_prog" "list_all flat_stmt (thread_prog small_prog)"
    by (simp_all add: small_prog_def prog_wf_def decl_wf_def expr_wf_def type_wf_def operand_wf_def
      int_const_wf_def range_wf_def operators_def is_ident_def is_small_def is_digit_def flat_stmt_def)
  have kind: "kind_of (ir_ss s) = (\<lambda>n. n = ''v'')" by (auto simp: kind_of_def metas_def v fun_eq_iff)
  have slot: "thread_slot (nat 2) (ir_ss s) 1"
    using program_to_irp_wf [OF wf(1) s] by (simp add: thread_slot_def graph_wf_def)
  have env: "(\<lambda>n. case metas (ir_ss s) n of None \<Rightarrow> [] | Some vm \<Rightarrow> replicate (vm_length vm) 0) =
      (\<lambda>n. if n = ''v'' then replicate VLEN (0 :: int) else [])"
    by (auto simp: metas_def v fun_eq_iff)
  have "tstate (ir_ss s) 1 (replicate SCRATCH_SIZE 0, []) (\<lambda>n. if n = ''v'' then replicate VLEN 0 else [], [])"
    unfolding env [symmetric] by (rule zero_state [OF slot]) (auto simp: metas_def v split: if_splits)
  then have "tstate (ir_ss s) 1 (scratch (new_core SCRATCH_SIZE 0), []) (\<lambda>n. if n = ''v'' then replicate VLEN 0 else [], [])"
    by (simp add: new_core_def)
  from thread_program_refines [OF wf s _ _ _ _ _ this, of 0 "new_machine [] [] 1 SCRATCH_SIZE Map.empty"] obtain prg where
    p: "mapM (single_bundle (ir_ss s) 1) (thread_code 0 (graph_imetas (ir_graph s))) = Inr prg"
    "rel_sum (=) (\<lambda>(co', mm') z. tstate (ir_ss s) 1 (scratch co', mm') z)
      (run_straight (new_machine [] [] 1 SCRATCH_SIZE Map.empty) prg (new_core SCRATCH_SIZE 0, []))
      (Inr ((\<lambda>n. if n = ''v'' then replicate VLEN 0 else [])(''v'' := replicate VLEN 1), []))"
    unfolding kind small_runs by auto
  from p(2) obtain st where st: "run_straight (new_machine [] [] 1 SCRATCH_SIZE Map.empty) prg (new_core SCRATCH_SIZE 0, []) = Inr st"
    "tstate (ir_ss s) 1 (scratch (fst st), snd st) ((\<lambda>n. if n = ''v'' then replicate VLEN 0 else [])(''v'' := replicate VLEN 1), [])"
    unfolding rel_Inr by (auto simp: case_prod_unfold)
  obtain co mm where "st = (co, mm)" by fastforce
  with s p(1) st show ?thesis by (auto simp: tstate_def)
qed

end
