(* ===== verification/Parse_Rest.thy ===== *)
theory Parse_Rest
  imports Parser_Props
begin

text \<open>
  The parsers of the grammar look only at the rest of the text from their index on. \<open>on p r\<close> runs a
  parser on a rest and answers the value and the new rest; its equations evaluate a parser on a text
  that is known piecewise, without indices.
\<close>

definition on :: "'a parser \<Rightarrow> string \<Rightarrow> ('a \<times> string) option" where
  "on p r = (case p r 0 of None \<Rightarrow> None | Some (v, j) \<Rightarrow> Some (v, drop j r))"

definition local :: "'a parser \<Rightarrow> bool" where
  "local p \<longleftrightarrow> bounded p \<and> (\<forall>tx i. i \<le> length tx \<longrightarrow>
     p tx i = (case on p (drop i tx) of None \<Rightarrow> None | Some (v, r) \<Rightarrow> Some (v, length tx - length r)))"

named_theorems on_eqs

lemma localD:
  "local p \<Longrightarrow> i \<le> length tx \<Longrightarrow>
    p tx i = (case on p (drop i tx) of None \<Rightarrow> None | Some (v, r) \<Rightarrow> Some (v, length tx - length r))"
  "local p \<Longrightarrow> bounded p"
  unfolding local_def by blast+

lemma on_suffix:
  assumes "bounded p" "on p r = Some (v, r')"
  obtains s where "r = s @ r'"
proof -
  from assms(2) obtain j where j: "p r 0 = Some (v, j)" "r' = drop j r" by (auto simp: on_def split: option.splits)
  then have "r = take j r @ r'" by simp
  then show thesis by (rule that)
qed

lemma on_pseq [on_eqs]:
  assumes "bounded p" "local q"
  shows "on (pseq p q) r = (case on p r of None \<Rightarrow> None
    | Some (v, r') \<Rightarrow> (case on q r' of None \<Rightarrow> None | Some (w, r'') \<Rightarrow> Some ((v, w), r'')))"
proof (cases "p r 0")
  case (Some x)
  obtain v j where x: "p r 0 = Some (v, j)" using Some by (cases x) auto
  with boundedD [OF assms(1)] have j: "j \<le> length r" by blast
  note q = localD(1) [OF assms(2) j]
  show ?thesis
  proof (cases "on q (drop j r)")
    case (Some y)
    obtain w r'' where y: "on q (drop j r) = Some (w, r'')" using Some by (cases y) auto
    from on_suffix [OF localD(2) [OF assms(2)] y] obtain s where s: "drop j r = s @ r''" .
    then have "r = take j r @ s @ r''" by (metis append_take_drop_id)
    then have "drop (length r - length r'') r = r''" by (metis append_assoc diff_diff_cancel length_drop append_eq_conv_conj length_append add_diff_cancel_right')
    with x q y show ?thesis by (simp add: on_def [of "pseq p q"] on_def [of p] pseq_def)
  qed (use x q in \<open>simp add: on_def [of "pseq p q"] on_def [of p] pseq_def\<close>)
qed (simp add: on_def pseq_def)

lemma local_pseq [intro]:
  assumes p: "local p" and q: "local q"
  shows "local (pseq p q)"
  unfolding local_def
proof (intro conjI allI impI)
  show "bounded (pseq p q)" using p q by (intro bounded_intros localD)
  fix tx :: string and i assume i: "i \<le> length tx"
  note eq = on_pseq [OF localD(2) [OF p] q, of "drop i tx"]
  show "pseq p q tx i = (case on (pseq p q) (drop i tx) of None \<Rightarrow> None | Some (v, r) \<Rightarrow> Some (v, length tx - length r))"
  proof (cases "on p (drop i tx)")
    case (Some x)
    obtain v r where x: "on p (drop i tx) = Some (v, r)" using Some by (cases x) auto
    from on_suffix [OF localD(2) [OF p] x] obtain s where s: "drop i tx = s @ r" .
    then have "tx = take i tx @ s @ r" by (metis append_take_drop_id)
    then have d: "drop (length tx - length r) tx = r" by (metis append_assoc append_eq_conv_conj length_append add_diff_cancel_right')
    have l: "length tx - length r \<le> length tx" by simp
    from localD(1) [OF p i] x localD(1) [OF q l] d show ?thesis
      by (cases "on q r") (auto simp: pseq_def eq)
  qed (use localD(1) [OF p i] in \<open>simp add: pseq_def eq\<close>)
qed

lemma on_pmap [on_eqs]: "on (pmap f p) r = (case on p r of None \<Rightarrow> None | Some (v, r') \<Rightarrow> Some (f v, r'))"
  by (auto simp: on_def pmap_def split: option.splits)

lemma local_pmap [intro]: "local p \<Longrightarrow> local (pmap f p)"
  unfolding local_def by (auto intro: bounded_intros simp: on_pmap pmap_def split: option.splits)

lemma on_por [on_eqs]: "on (por p q) r = (case on p r of None \<Rightarrow> on q r | Some x \<Rightarrow> Some x)"
  by (auto simp: on_def por_def split: option.splits)

lemma local_por [intro]: "local p \<Longrightarrow> local q \<Longrightarrow> local (por p q)"
  unfolding local_def by (auto intro: bounded_intros simp: on_por por_def split: option.splits)

lemma on_opt [on_eqs]: "on (opt p) r = (case on p r of None \<Rightarrow> Some (None, r) | Some (v, r') \<Rightarrow> Some (Some v, r'))"
  by (auto simp: on_def opt_def split: option.splits)

lemma local_opt [intro]: "local p \<Longrightarrow> local (opt p)"
  unfolding local_def by (auto intro: bounded_intros simp: on_opt opt_def split: option.splits)

lemma on_lit [on_eqs]: "on (lit s) r = (if take (length s) r = s then Some (s, drop (length s) r) else None)"
  by (simp add: on_def lit_def)

lemma localI:
  assumes "bounded p" "\<And>tx i. i \<le> length tx \<Longrightarrow> p tx i = map_option (\<lambda>(v, j). (v, i + j)) (p (drop i tx) 0)"
  shows "local p"
  unfolding local_def
proof (intro conjI allI impI)
  fix tx :: string and i assume i: "i \<le> length tx"
  show "p tx i = (case on p (drop i tx) of None \<Rightarrow> None | Some (v, r) \<Rightarrow> Some (v, length tx - length r))"
  proof (cases "p (drop i tx) 0")
    case (Some x)
    obtain v j where x: "p (drop i tx) 0 = Some (v, j)" using Some by (cases x) auto
    from boundedD [OF assms(1) _ x] have "j \<le> length tx - i" by simp
    with x assms(2) [OF i] i show ?thesis by (simp add: on_def)
  qed (use assms(2) [OF i] in \<open>simp add: on_def\<close>)
qed (rule assms(1))

lemma local_lit [intro]: "local (lit s)"
  by (rule localI [OF bounded_lit]) (simp add: lit_def)

lemma on_class [on_eqs]: "on (rx_class P) r = (case r of [] \<Rightarrow> None | c # r' \<Rightarrow> if P c then Some ([c], r') else None)"
  by (auto simp: on_def rx_class_def split: list.splits)

lemma local_class [intro]: "local (rx_class P)"
  by (rule localI [OF consuming_bounded [OF consuming_class]]) (auto simp: rx_class_def split: list.splits)

lemma on_rx_star [on_eqs]: "on (rx_star P) r = Some (takeWhile P r, dropWhile P r)"
  by (simp add: on_def rx_star_def Let_def dropWhile_eq_drop)

lemma local_rx_star [intro]: "local (rx_star P)"
  by (rule localI [OF bounded_rx_star]) (simp add: rx_star_def Let_def)

lemma on_rx_plus [on_eqs]:
  "on (rx_plus P) r = (if takeWhile P r = [] then None else Some (takeWhile P r, dropWhile P r))"
  by (simp add: on_def rx_plus_def Let_def dropWhile_eq_drop)

lemma local_rx_plus [intro]: "local (rx_plus P)"
  by (rule localI [OF consuming_bounded [OF consuming_rx_plus]]) (simp add: rx_plus_def Let_def)

lemma local_rx_nl [intro]: "local rx_nl"
  by (rule localI [OF consuming_bounded [OF consuming_nl]])
    (auto simp: rx_nl_def Let_def split: list.splits)

text \<open>After a newline and the spaces after it.\<close>

definition skip_comment :: "string \<Rightarrow> string" where
  "skip_comment r = (case r of c # _ \<Rightarrow> if c = CHR ''#'' then dropWhile (\<lambda>c. c \<noteq> newline) r else r | [] \<Rightarrow> [])"

definition before :: "string \<Rightarrow> string \<Rightarrow> string" where
  "before r r' = take (length r - length r') r"

lemma on_nl [on_eqs]:
  "on rx_nl r = (case skip_comment (dropWhile is_space r) of [] \<Rightarrow> None
    | c # r' \<Rightarrow> if c = newline then Some (before r (dropWhile is_space r'), dropWhile is_space r') else None)"
proof -
  let ?sp = "takeWhile is_space r" and ?r1 = "dropWhile is_space r"
  define com where "com = (case ?r1 of c # _ \<Rightarrow> if c = CHR ''#'' then takeWhile (\<lambda>c. c \<noteq> newline) ?r1 else [] | [] \<Rightarrow> [])"
  have r: "r = ?sp @ ?r1" by simp
  have "t = (case t of c # _ \<Rightarrow> if c = CHR ''#'' then takeWhile (\<lambda>c. c \<noteq> newline) t else [] | [] \<Rightarrow> []) @ skip_comment t" for t
    by (cases t) (auto simp: skip_comment_def)
  from this [of ?r1] have r1: "?r1 = com @ skip_comment ?r1" unfolding com_def .
  have d1: "drop (length ?sp) r = ?r1" by (metis dropWhile_eq_drop)
  have d2: "drop (length com) ?r1 = skip_comment ?r1" using r1 by (metis append_eq_conv_conj)
  show ?thesis
  proof (cases "skip_comment ?r1")
    case (Cons c r3)
    have "r = (?sp @ com @ [c]) @ r3" using r r1 Cons by (metis append.assoc append_Cons append_Nil)
    moreover have "r3 = takeWhile is_space r3 @ dropWhile is_space r3" by simp
    ultimately have s: "r = (?sp @ com @ [c] @ takeWhile is_space r3) @ dropWhile is_space r3" by (metis append.assoc)
    let ?m = "?sp @ com @ [c] @ takeWhile is_space r3"
    from s have "drop (length ?m) r = dropWhile is_space r3" by (metis append_eq_conv_conj)
    moreover from s have "?m = before r (dropWhile is_space r3)"
      unfolding before_def by (metis add_diff_cancel_right' append_eq_conv_conj length_append)
    ultimately show ?thesis using Cons unfolding on_def rx_nl_def Let_def drop_0 d1 com_def [symmetric] d2
      by (cases "c = newline") simp_all
  qed (unfold on_def rx_nl_def Let_def drop_0 d1 com_def [symmetric] d2, simp)
qed

section \<open>Repetition\<close>

lemma star_loop_acc:
  assumes "star_loop p tx i acc = Some (vs, j)"
  shows "star_loop p tx i (xs @ acc) = Some (xs @ vs, j)"
proof -
  have "\<forall>xs. star_loop p tx i (xs @ acc) = Some (xs @ fst (vs, j), snd (vs, j))"
    using assms
  proof (rule star_loop.raw_induct [where P = "\<lambda>p tx i acc r. \<forall>xs. star_loop p tx i (xs @ acc) = Some (xs @ fst r, snd r)", rotated])
    fix f p tx i acc and r :: "'a list \<times> nat"
    assume IH: "\<And>p tx i acc r. f p tx i acc = Some r \<Longrightarrow> \<forall>xs. star_loop p tx i (xs @ acc) = Some (xs @ fst r, snd r)"
      and eq: "(case p tx i of None \<Rightarrow> Some (acc, i)
          | Some r \<Rightarrow> if snd r \<le> i then Some (acc, i) else f p tx (snd r) (acc @ [fst r])) = Some r"
    show "\<forall>xs. star_loop p tx i (xs @ acc) = Some (xs @ fst r, snd r)"
      using eq IH [of p tx _ "acc @ [_]" r] by (auto simp: star_loop.simps [of p tx i] split: option.splits if_splits)
  qed
  then show ?thesis by simp
qed

lemma star_unfold:
  assumes "bounded p" "i \<le> length tx"
  shows "star p tx i = (case p tx i of None \<Rightarrow> Some ([], i)
    | Some (v, j) \<Rightarrow> if j \<le> i then Some ([], i)
        else (case star p tx j of None \<Rightarrow> None | Some (vs, k) \<Rightarrow> Some (v # vs, k)))"
proof (cases "p tx i")
  case (Some x)
  obtain v j where x: "p tx i = Some (v, j)" using Some by (cases x) auto
  with boundedD [OF assms] have "j \<le> length tx" by blast
  from star_ends [OF assms(1) this] obtain vs k where vs: "star_loop p tx j [] = Some (vs, k)" by (auto simp: star_def)
  from star_loop_acc [OF this, of "[v]"] x vs show ?thesis
    by (simp add: star_def star_loop.simps [of p tx i])
qed (simp add: star_def star_loop.simps)

lemma star_shift:
  assumes p: "local p" and "i + k \<le> length tx"
  shows "star p tx (i + k) = map_option (\<lambda>(v, j). (v, i + j)) (star p (drop i tx) k)"
  using assms(2)
proof (induction "length tx - (i + k)" arbitrary: k rule: less_induct)
  case less
  have b: "bounded p" using p by (rule localD)
  have k: "k \<le> length (drop i tx)" using less.prems by simp
  note u1 = star_unfold [OF b less.prems] and u2 = star_unfold [OF b k]
  note e1 = localD(1) [OF p less.prems] and e2 = localD(1) [OF p k]
  have d: "drop k (drop i tx) = drop (i + k) tx" by (simp add: add.commute)
  show ?case
  proof (cases "on p (drop (i + k) tx)")
    case (Some x)
    obtain v r where x: "on p (drop (i + k) tx) = Some (v, r)" using Some by (cases x) auto
    from on_suffix [OF b x] obtain s where s: "drop (i + k) tx = s @ r" .
    then have "length (s @ r) = length tx - (i + k)" by (metis length_drop)
    then have len: "length r = length tx - (i + k) - length s" "length s \<le> length tx - (i + k)" by simp_all
    then have j: "length tx - length r = i + (k + length s)" "length (drop i tx) - length r = k + length s"
      using less.prems by auto
    show ?thesis
    proof (cases "s = []")
      case True
      with u1 u2 e1 e2 x j d show ?thesis by simp
    next
      case False
      have "i + (k + length s) \<le> length tx" using len(2) less.prems by simp
      moreover have "0 < length s" using False by simp
      ultimately have "star p tx (i + (k + length s)) = map_option (\<lambda>(v, j). (v, i + j)) (star p (drop i tx) (k + length s))"
        using len by (intro less.hyps) linarith+
      with u1 u2 e1 e2 x j d False show ?thesis by (auto split: option.splits)
    qed
  next
    case None
    have "p tx (i + k) = None" "p (drop i tx) k = None" unfolding e1 e2 d None by simp_all
    with u1 u2 show ?thesis by simp
  qed
qed

lemma local_star [intro]:
  assumes "local p"
  shows "local (star p)"
proof (rule localI)
  show "bounded (star p)" using localD(2) [OF assms] by (rule bounded_star)
  fix tx :: string and i assume "i \<le> length tx"
  with star_shift [OF assms, of i 0 tx]
  show "star p tx i = map_option (\<lambda>(v, j). (v, i + j)) (star p (drop i tx) 0)" by simp
qed

lemma on_star:
  assumes p: "local p"
  shows "on (star p) r = (case on p r of None \<Rightarrow> Some ([], r)
    | Some (v, r') \<Rightarrow> if length r \<le> length r' then Some ([], r)
        else (case on (star p) r' of None \<Rightarrow> None | Some (vs, r'') \<Rightarrow> Some (v # vs, r'')))"
proof -
  have b: "bounded p" using p by (rule localD)
  note u = star_unfold [OF b, of 0 r]
  show ?thesis
  proof (cases "p r 0")
    case (Some x)
    obtain v j where x: "p r 0 = Some (v, j)" using Some by (cases x) auto
    with boundedD [OF b] have j: "j \<le> length r" by blast
    from star_ends [OF b, of 0 "drop j r"] obtain vs k where vs: "star p (drop j r) 0 = Some (vs, k)" by auto
    with star_shift [OF p, of j 0 r] j have "star p r j = Some (vs, j + k)" by simp
    with u x vs j show ?thesis by (auto simp: on_def add.commute)
  qed (use u in \<open>simp add: on_def\<close>)
qed

lemma on_plus1 [on_eqs]:
  assumes "local p"
  shows "on (plus1 p) r = (case on p r of None \<Rightarrow> None
    | Some (v, r') \<Rightarrow> (case on (star p) r' of None \<Rightarrow> None | Some (vs, r'') \<Rightarrow> Some (v # vs, r'')))"
proof -
  have eq: "plus1 p = pmap (\<lambda>(v, vs). v # vs) (pseq p (star p))"
    by (intro ext) (auto simp: plus1_def pmap_def pseq_def split: option.splits)
  show ?thesis
    unfolding eq on_pmap on_pseq [OF localD(2) [OF assms] local_star [OF assms]] by (auto split: option.splits)
qed

lemma local_plus1 [intro]:
  assumes "local p"
  shows "local (plus1 p)"
proof -
  have eq: "plus1 p = pmap (\<lambda>(v, vs). v # vs) (pseq p (star p))"
    by (intro ext) (auto simp: plus1_def pmap_def pseq_def split: option.splits)
  show ?thesis unfolding eq using assms by blast
qed

section \<open>The grammar\<close>

text \<open>Without the punctuation: what the parsers of the grammar read of a rest.\<close>

lemma local_tokens [intro]:
  "local space" "local opt_space" "local nl" "local digit" "local hex_digit" "local small" "local letter"
  "local minus_sign" "local operator" "local cmp_operator"
  "local lit_eq" "local lit_qu" "local lit_op" "local lit_cmp_op" "local lit_comma" "local lit_colon" "local lit_plus" "local lit_mult"
  unfolding token_defs by blast+

lemma local_names [intro]: "local variable_name" "local int_constant_expr"
  unfolding variable_name_def int_constant_expr_def by blast+

lemma local_operand [intro]: "local var_or_const"
  unfolding var_or_const_def by blast

lemma local_cond [intro]: "local cond_expr"
  unfolding cond_expr_def by blast

lemma local_exprs [intro]:
  "local select_expr" "local mult_add_expr" "local deref_words" "local deref_variable" "local deref_constant"
  "local bin_op_expr" "local variable_expr"
  unfolding select_expr_def mult_add_expr_def deref_words_def deref_variable_def deref_constant_def
    bin_op_expr_def variable_expr_def by blast+

lemma local_value_expr [intro]: "local value_expr"
  unfolding value_expr_def by blast

lemma local_decl [intro]: "local variable_declaration_stmt"
  unfolding variable_declaration_stmt_def variable_type_def by blast

lemma local_assignment [intro]: "local assignment_stmt" "local pause_stmt"
  unfolding assignment_stmt_def pause_stmt_def by blast+

lemma local_globals [intro]: "local global_stmt" "local end_global_stmt"
  unfolding global_stmt_def end_global_stmt_def by blast+

lemma local_stmts [intro]: "local global_program" "local thread_local_variable_stmt" "local tid_range"
  unfolding global_program_def thread_local_variable_stmt_def tid_range_def by blast+

lemma local_tid_if_else [intro]: "local p \<Longrightarrow> local (tid_if_else_stmt p)"
  unfolding tid_if_else_stmt_def by blast

lemma local_thread_stmt [intro]: "local (thread_local_stmt n)"
proof (induction n)
  case 0
  have "thread_local_stmt 0 = (\<lambda>_ _. None)" by (simp add: fun_eq_iff)
  then show ?case by (simp add: local_def bounded_def on_def)
next
  case (Suc n)
  have "thread_local_stmt (Suc n) = por (por (por thread_local_variable_stmt assignment_stmt) pause_stmt)
      (tid_if_else_stmt (thread_local_stmt n))" by (simp add: fun_eq_iff)
  with Suc show ?case by auto
qed

lemma local_program [intro]: "local (program_at n)"
  unfolding program_at_def thread_local_program_def by blast

end
