(* ===== verification/Printer.thy ===== *)
theory Printer
  imports Parse_Rest
begin

text \<open>
  A printer for programs, and that the parser reads back what it prints.
\<close>

section \<open>Tokens on a rest\<close>

lemma takeWhile_all [simp]: "list_all P xs \<Longrightarrow> takeWhile P (xs @ r) = xs @ takeWhile P r"
  by (induction xs) auto

lemma dropWhile_all [simp]: "list_all P xs \<Longrightarrow> dropWhile P (xs @ r) = dropWhile P r"
  by (induction xs) auto

lemma on_star_class [on_eqs]: "on (star (rx_class P)) r = Some (map (\<lambda>c. [c]) (takeWhile P r), dropWhile P r)"
proof (induction r)
  case Nil
  show ?case by (simp add: on_star [OF local_class] on_class)
next
  case (Cons c r)
  then show ?case by (simp add: on_star [OF local_class] on_class)
qed

lemma on_spaced [on_eqs]:
  assumes "local p"
  shows "on (spaced p) r = (case on p (dropWhile is_space r) of None \<Rightarrow> None | Some (v, r') \<Rightarrow> Some (v, dropWhile is_space r'))"
proof -
  have "local (rx_star is_space)" by blast
  moreover from assms this have "local (pseq p (rx_star is_space))" by blast
  ultimately show ?thesis using assms
    by (auto simp: spaced_def opt_space_def on_pmap on_pseq localD on_rx_star split: option.splits)
qed

lemma concat_singletons [simp]: "concat (map (\<lambda>c. [c]) xs) = xs"
  by (induction xs) auto

lemma on_name:
  "on variable_name r = (case r of [] \<Rightarrow> None
    | c # r' \<Rightarrow> if is_small c then Some (c # takeWhile is_letter r', dropWhile is_letter r') else None)"
proof -
  have "local (star (rx_class is_letter))" "local (rx_class is_small)" by blast+
  then show ?thesis
    by (cases r) (simp_all add: variable_name_def small_def letter_def on_pmap on_pseq localD on_class on_star_class)
qed

lemma on_number:
  "on int_constant_expr r =
    (if take 2 r = ''0x'' \<and> takeWhile is_hex_digit (drop 2 r) \<noteq> []
     then Some (NumberStringHex (''0x'' @ takeWhile is_hex_digit (drop 2 r)), dropWhile is_hex_digit (drop 2 r))
     else let m = (if take 1 r = ''-'' then ''-'' else []); r' = drop (length m) r in
       if takeWhile is_digit r' = [] then None else Some (NumberString (m @ takeWhile is_digit r'), dropWhile is_digit r'))"
proof -
  have plus: "on (plus1 (rx_class P)) r = (if takeWhile P r = [] then None
      else Some (map (\<lambda>c. [c]) (takeWhile P r), dropWhile P r))" for P r
    by (cases r) (auto simp: on_plus1 [OF local_class] on_class on_star_class)
  have l: "local (lit s)" "local (plus1 (rx_class P))" "local (opt (lit s))" for s P by blast+
  show ?thesis
    unfolding int_constant_expr_def hex_digit_def digit_def minus_sign_def on_por on_pmap
      on_pseq [OF localD(2) [OF l(1)] l(2)] on_pseq [OF localD(2) [OF l(3)] l(2)] on_lit on_opt plus Let_def
    by (auto simp: numeral_2_eq_2)
qed

section \<open>The printer\<close>

definition print_const :: "int_const \<Rightarrow> string" where
  "print_const c = (case c of NumberStringHex s \<Rightarrow> s | NumberString s \<Rightarrow> s)"

definition print_operand :: "operand \<Rightarrow> string" where
  "print_operand p = (case p of Name n \<Rightarrow> n | Const c \<Rightarrow> print_const c | VarAt n _ \<Rightarrow> n)"

definition print_cond :: "cond \<Rightarrow> string" where
  "print_cond c = (case c of CondName n \<Rightarrow> n
    | CondExpr l op r \<Rightarrow> print_operand l @ '' '' @ op @ '' '' @ print_operand r)"

definition print_expr :: "value_expr \<Rightarrow> string" where
  "print_expr e = (case e of
      DerefIndividualWords n \<Rightarrow> ''@'' @ n @ ''[]''
    | DerefVariable n \<Rightarrow> ''@'' @ n
    | DerefConstant c \<Rightarrow> ''@'' @ print_const c
    | Variable n i \<Rightarrow> n @ (case i of None \<Rightarrow> [] | Some c \<Rightarrow> ''['' @ print_const c @ '']'')
    | BinOpExpr l op r \<Rightarrow> print_operand l @ '' '' @ op @ '' '' @ print_operand r
    | MultAddExpr a b c \<Rightarrow> a @ '' * '' @ print_operand b @ '' + '' @ print_operand c
    | SelectExpr c t f \<Rightarrow> print_cond c @ '' ? '' @ print_operand t @ '' : '' @ print_operand f
    | IntConstantExpr c \<Rightarrow> print_const c)"

definition more_names :: "string list \<Rightarrow> string" where
  "more_names ns = concat (map (\<lambda>m. '', '' @ m) ns)"

definition print_decl :: "decl \<Rightarrow> string" where
  "print_decl d = (case d of
      VariableDeclaration t n ns \<Rightarrow> t @ '' '' @ n @ more_names ns @ [newline]
    | VariableDefinition t n e \<Rightarrow> t @ '' '' @ n @ '' = '' @ print_expr e @ [newline])"

definition print_range :: "tid_range \<Rightarrow> string" where
  "print_range r = ''range('' @ print_const (range_start r) @ '', '' @ print_const (range_end r) @ '')''"

fun print_elifs :: "tid_range list \<Rightarrow> string list \<Rightarrow> string" where
  "print_elifs (r # rs) (t # ts) = ''eliftid '' @ print_range r @ [newline] @ t @ print_elifs rs ts"
| "print_elifs [] (t # ts) = ''elsetid'' @ [newline] @ t @ ''endiftid'' @ [newline]"
| "print_elifs rs [] = []"

definition print_if :: "tid_range list \<Rightarrow> string list \<Rightarrow> string" where
  "print_if rs ts = ''iftid '' @ print_range (hd rs) @ [newline] @ hd ts @ print_elifs (tl rs) (tl ts)"

fun print_stmt :: "stmt \<Rightarrow> string" where
  "print_stmt (VariableDeclarationStmt d) = print_decl d"
| "print_stmt (ThreadLocalVariableStmt d) = ''thread '' @ print_decl d"
| "print_stmt (LoadVariable n e) = n @ '' = '' @ print_expr e @ [newline]"
| "print_stmt (StoreMemory n e) = ''@'' @ n @ '' = '' @ print_expr e @ [newline]"
| "print_stmt PauseStmt = ''pause'' @ [newline]"
| "print_stmt (TidIfElseStmt rs bs) = print_if rs (map (\<lambda>b. concat (map print_stmt b)) bs)"

definition print_stmts :: "stmt list \<Rightarrow> string" where
  "print_stmts sts = concat (map print_stmt sts)"

definition print_program :: "program \<Rightarrow> string" where
  "print_program p = print_stmts (global_prog p) @ ''end global'' @ [newline] @ print_stmts (thread_prog p)"

section \<open>Operands\<close>

lemma letter_facts [simp]:
  "is_small c \<Longrightarrow> is_letter c" "is_digit c \<Longrightarrow> is_letter c" "is_hex_digit c \<Longrightarrow> is_letter c"
  by (auto simp: is_letter_def is_small_def is_digit_def is_hex_digit_def)

lemma newline_facts [simp]:
  "\<not> is_letter newline" "\<not> is_small newline" "\<not> is_space newline" "newline \<noteq> CHR ''#''" "newline \<noteq> CHR ''=''"
  "newline \<noteq> CHR ''[''" "newline \<noteq> CHR '',''" "newline \<noteq> CHR ''+''" "newline \<noteq> CHR ''?''" "newline \<noteq> CHR ''*''"
  "newline \<noteq> CHR ''<''" "newline \<noteq> CHR ''>''" "newline \<noteq> CHR ''^''" "newline \<noteq> CHR ''-''" "newline \<noteq> CHR ''%''" "newline \<noteq> CHR '':''" "newline \<noteq> CHR ''@''"
  "CHR ''@'' \<noteq> newline" "CHR ''#'' \<noteq> newline" "CHR ''='' \<noteq> newline" "CHR '','' \<noteq> newline" "CHR ''r'' \<noteq> newline"
  by code_simp+

lemma char_facts [simp]:
  "\<not> is_letter CHR '' ''" "\<not> is_letter CHR '',''" "\<not> is_letter CHR '')''" "\<not> is_letter CHR ''[''"
  "\<not> is_letter CHR '']''" "\<not> is_letter CHR ''=''" "\<not> is_letter CHR ''@''" "\<not> is_small CHR ''@''"
  "\<not> is_small CHR ''=''" "\<not> is_small CHR ''<''" "\<not> is_digit CHR ''<''" "\<not> is_small CHR ''0''" "\<not> is_small CHR ''-''"
  "is_space CHR '' ''" "\<not> is_digit CHR ''@''" "\<not> is_digit CHR ''-''" "is_digit CHR ''0''" "\<not> is_digit CHR ''x''"
  "\<not> is_small CHR '']''" "\<not> is_digit CHR '']''" "\<not> is_small CHR '' ''"
  by (simp_all add: is_letter_def is_small_def is_digit_def is_space_def)

lemma letter_not_space: "is_letter c \<Longrightarrow> \<not> is_space c"
  by (auto simp: is_space_def)

lemma small_not_digit: "is_small c \<Longrightarrow> \<not> is_digit c"
  by (auto simp: is_small_def is_digit_def)

lemma identE:
  assumes "is_ident n"
  obtains c cs where "n = c # cs" "is_small c" "list_all is_letter cs"
  using assms by (cases n) (auto simp: is_ident_def)

lemma ident_letters: "is_ident n \<Longrightarrow> list_all is_letter n"
  by (erule identE) simp

lemma name_on [simp]:
  assumes "is_ident n" "\<not> is_letter c"
  shows "on variable_name (n @ c # r) = Some (n, c # r)"
  using assms by (auto simp: on_name elim!: identE)

lemma const_on [simp]:
  assumes "int_const_wf k" "\<not> is_letter c"
  shows "on int_constant_expr (print_const k @ c # r) = Some (k, c # r)"
proof (cases k)
  case (NumberStringHex s)
  define ds where "ds = drop 2 s"
  with assms(1) NumberStringHex have "take 2 s = ''0x''" and ds: "ds \<noteq> []" "list_all is_hex_digit ds"
    by (simp_all add: int_const_wf_def)
  then have s: "s = ''0x'' @ ds" unfolding ds_def by (metis append_take_drop_id)
  have "\<not> is_hex_digit c" using assms(2) letter_facts(3) by blast
  with s ds show ?thesis by (simp add: on_number print_const_def NumberStringHex)
next
  case (NumberString s)
  define m where "m = (if take 1 s = ''-'' then ''-'' else [])"
  define ds where "ds = (if take 1 s = ''-'' then drop 1 s else s)"
  from assms(1) NumberString have ds: "ds \<noteq> []" "list_all is_digit ds" by (simp_all add: int_const_wf_def ds_def Let_def)
  have s: "s = m @ ds" by (cases s) (auto simp: m_def ds_def)
  have m: "m = [] \<or> m = ''-''" by (simp add: m_def)
  from ds obtain d ds' where d: "ds = d # ds'" "is_digit d" "list_all is_digit ds'" by (cases ds) auto
  have c: "\<not> is_digit c" using assms(2) letter_facts(2) by blast
  have hex: "take 2 (s @ c # r) \<noteq> ''0x''"
  proof
    assume t: "take 2 (s @ c # r) = ''0x''"
    show False
    proof (cases "m = []")
      case True
      with t s d have "take 1 (ds' @ c # r) = ''x''" by (simp add: numeral_2_eq_2)
      then show False using d(3) assms(2) by (cases ds') (auto simp: is_letter_def is_small_def is_digit_def)
    next
      case False
      with m t show False by (simp add: s numeral_2_eq_2)
    qed
  qed
  have minus: "take 1 (s @ c # r) = ''-'' \<longleftrightarrow> m = ''-''"
    using m
  proof
    assume "m = []"
    with d show ?thesis by (auto simp: s)
  qed (simp add: s)
  show ?thesis
    unfolding on_number print_const_def NumberString int_const.case
    using m hex minus ds c by (auto simp: Let_def s)
qed

lemma name_on_const [simp]:
  assumes "int_const_wf k"
  shows "on variable_name (print_const k @ r) = None"
proof -
  have "\<exists>c cs. print_const k = c # cs \<and> \<not> is_small c"
  proof (cases k)
    case (NumberStringHex s)
    with assms show ?thesis by (cases s) (auto simp: int_const_wf_def print_const_def numeral_2_eq_2)
  next
    case (NumberString s)
    with assms show ?thesis
      by (cases s) (auto simp: int_const_wf_def print_const_def Let_def small_not_digit split: if_splits)
  qed
  then show ?thesis by (auto simp: on_name)
qed

lemma operand_on [simp]:
  assumes "operand_wf p" "\<not> is_letter c"
  shows "on var_or_const (print_operand p @ c # r) = Some (p, c # r)"
  using assms by (cases p) (simp_all add: var_or_const_def on_por on_pmap print_operand_def operand_wf_def)

lemma name_on_operand [simp]:
  assumes "operand_wf p" "\<not> is_letter c"
  shows "on variable_name (print_operand p @ c # r) = (case p of Name n \<Rightarrow> Some (n, c # r) | _ \<Rightarrow> None)"
  using assms by (cases p) (simp_all add: print_operand_def operand_wf_def)

text \<open>How tokens start.\<close>

definition starts :: "(char \<Rightarrow> bool) \<Rightarrow> string \<Rightarrow> bool" where
  "starts P r = (case r of [] \<Rightarrow> False | c # _ \<Rightarrow> P c)"

lemma starts_Cons [simp]: "starts P (c # r) = P c"
  by (simp add: starts_def)

lemma starts_append: "starts P s \<Longrightarrow> starts P (s @ r)"
  by (cases s) (auto simp: starts_def)

definition token_char :: "char \<Rightarrow> bool" where
  "token_char c = (is_letter c \<or> c = CHR ''-'')"

lemma token_starts:
  "is_ident n \<Longrightarrow> starts token_char n" "int_const_wf k \<Longrightarrow> starts token_char (print_const k)"
  "operand_wf p \<Longrightarrow> starts token_char (print_operand p)"
proof -
  show n: "is_ident n \<Longrightarrow> starts token_char n" for n by (erule identE) (simp add: token_char_def)
  show k: "int_const_wf k \<Longrightarrow> starts token_char (print_const k)" for k
    by (cases k; cases "print_const k")
      (auto simp: int_const_wf_def print_const_def token_char_def is_letter_def numeral_2_eq_2 Let_def split: if_splits)
  show "operand_wf p \<Longrightarrow> starts token_char (print_operand p)"
    using n k by (cases p) (auto simp: operand_wf_def print_operand_def)
qed

lemma starts_no_space: "starts token_char s \<Longrightarrow> dropWhile is_space (s @ r) = s @ r"
  by (cases s) (auto simp: starts_def token_char_def letter_not_space is_space_def)

lemma starts_no_lit: "starts token_char s \<Longrightarrow> \<not> token_char c \<Longrightarrow> on (lit (c # cs)) (s @ r) = None"
  by (cases s) (auto simp: starts_def on_lit)

lemma no_space [simp]:
  "is_ident n \<Longrightarrow> dropWhile is_space (n @ r) = n @ r"
  "int_const_wf k \<Longrightarrow> dropWhile is_space (print_const k @ r) = print_const k @ r"
  "operand_wf p \<Longrightarrow> dropWhile is_space (print_operand p @ r) = print_operand p @ r"
  by (rule starts_no_space, erule token_starts)+

lemma no_at [simp]:
  "is_ident n \<Longrightarrow> on (lit ''@'') (n @ r) = None"
  "int_const_wf k \<Longrightarrow> on (lit ''@'') (print_const k @ r) = None"
  "operand_wf p \<Longrightarrow> on (lit ''@'') (print_operand p @ r) = None"
  by (rule starts_no_lit, erule token_starts, simp add: token_char_def)+

section \<open>Punctuation\<close>

lemma on_char_token:
  "on (spaced (lit [x])) r = (case dropWhile is_space r of [] \<Rightarrow> None
    | c # r' \<Rightarrow> if c = x then Some ([x], dropWhile is_space r') else None)"
proof -
  have "local (lit [x])" by blast
  then show ?thesis by (cases "dropWhile is_space r") (simp_all add: on_spaced on_lit del: dropWhile_eq_Nil_conv)
qed

lemmas on_punctuation =
  on_char_token [of "CHR ''=''", folded lit_eq_def] on_char_token [of "CHR ''?''", folded lit_qu_def]
  on_char_token [of "CHR '',''", folded lit_comma_def] on_char_token [of "CHR '':''", folded lit_colon_def]
  on_char_token [of "CHR ''+''", folded lit_plus_def] on_char_token [of "CHR ''*''", folded lit_mult_def]

lemma on_lit_op: "on lit_op r = (case on operator (dropWhile is_space r) of None \<Rightarrow> None | Some (v, r') \<Rightarrow> Some (v, dropWhile is_space r'))"
  unfolding lit_op_def by (rule on_spaced) blast

lemma on_lit_cmp_op:
  "on lit_cmp_op r = (case on cmp_operator (dropWhile is_space r) of None \<Rightarrow> None | Some (v, r') \<Rightarrow> Some (v, dropWhile is_space r'))"
  unfolding lit_cmp_op_def by (rule on_spaced) blast

lemma operatorsE:
  assumes "op \<in> set operators"
  obtains "op = ''*''" | "op = ''+''" | "op = ''^''" | "op = ''>>''" | "op = ''-''" | "op = ''<<''" | "op = ''%''" | "op = ''==''"
  using assms unfolding operators_def by (simp only: list.set insert_iff empty_iff) blast

lemma not_spaces [simp]:
  "\<not> is_space CHR ''*''" "\<not> is_space CHR ''+''" "\<not> is_space CHR ''^''" "\<not> is_space CHR ''>''" "\<not> is_space CHR ''-''"
  "\<not> is_space CHR ''<''" "\<not> is_space CHR ''%''" "\<not> is_space CHR ''=''" "\<not> is_space CHR ''?''" "\<not> is_space CHR '':''"
  "\<not> is_space CHR '',''" "\<not> is_space CHR ''[''" "\<not> is_space CHR '']''" "\<not> is_space CHR ''@''"
  by (simp_all add: is_space_def)

lemma operator_on [simp]:
  "op \<in> set operators \<Longrightarrow> on lit_op (CHR '' '' # op @ CHR '' '' # r) = Some (op, dropWhile is_space r)"
  by (erule operatorsE) (simp_all add: on_lit_op operator_def on_por on_lit)

lemma operator_no_op [simp]: "on lit_op (newline # r) = None" "on lit_op (CHR ''['' # r) = None"
  by (simp_all add: on_lit_op operator_def on_por on_lit)

lemma cmp_on [simp]:
  "op = ''<'' \<or> op = ''=='' \<Longrightarrow> on lit_cmp_op (CHR '' '' # op @ CHR '' '' # r) = Some (op, dropWhile is_space r)"
  "op \<in> set operators \<Longrightarrow> op \<noteq> ''=='' \<Longrightarrow> on lit_cmp_op (CHR '' '' # op @ CHR '' '' # r) =
    (if op = ''<<'' then Some (''<'', CHR ''<'' # CHR '' '' # r) else None)"
  by (elim disjE; simp add: on_lit_cmp_op cmp_operator_def on_por on_lit)
    (erule operatorsE; simp add: on_lit_cmp_op cmp_operator_def on_por on_lit)

lemma cmp_off [simp]:
  "on lit_cmp_op (newline # r) = None" "on lit_cmp_op (CHR ''['' # r) = None"
  "on lit_cmp_op (CHR '' '' # CHR ''?'' # r) = None" "on lit_cmp_op (CHR '' '' # CHR ''*'' # r) = None"
  by (simp_all add: on_lit_cmp_op cmp_operator_def on_por on_lit)

section \<open>Expressions\<close>

lemmas local_simps [simp] =
  local_pseq local_pmap local_por local_opt local_lit local_star local_plus1 local_tokens local_names local_operand
  local_cond local_exprs local_value_expr local_decl local_assignment local_globals local_stmts local_tid_if_else
  local_thread_stmt

lemma local_bounded [simp]: "local p \<Longrightarrow> bounded p"
  by (rule localD)

lemmas parse_simps = on_pmap on_por on_pseq on_opt on_punctuation

text \<open>The two parsers that read a condition, on what is not one.\<close>

lemma cond_on:
  assumes "cond_wf c"
  shows "on cond_expr (print_cond c @ CHR '' '' # CHR ''?'' # r) = Some (c, CHR '' '' # CHR ''?'' # r)"
proof (cases c)
  case (CondName n)
  with assms operand_on [of "Name n" "CHR '' ''"] show ?thesis
    by (simp add: cond_wf_def cond_expr_def parse_simps print_cond_def print_operand_def operand_wf_def)
next
  case (CondExpr l op q)
  with assms have w: "operand_wf l" "op = ''<'' \<or> op = ''==''" "operand_wf q" by (auto simp: cond_wf_def)
  with CondExpr show ?thesis
    by (simp add: cond_expr_def parse_simps print_cond_def)
qed

lemma no_cond_operand:
  assumes "operand_wf p" "c = newline \<or> c = CHR ''[''"
  shows "on select_expr (print_operand p @ c # r) = None"
  using assms by (elim disjE; simp add: select_expr_def cond_expr_def parse_simps split: operand.splits)

lemma no_cond_binop:
  assumes p: "operand_wf p" "operand_wf q" and op: "op \<in> set operators"
  shows "on select_expr (print_operand p @ CHR '' '' # op @ CHR '' '' # print_operand q @ newline # r) = None"
proof -
  have q: "on lit_qu (CHR '' '' # op @ CHR '' '' # print_operand q @ newline # r) = None"
    using op by (elim operatorsE) (simp_all add: on_punctuation)
  have c: "on cond_expr (print_operand p @ CHR '' '' # op @ CHR '' '' # print_operand q @ newline # r) =
      (if op = ''=='' then Some (CondExpr p op q, newline # r)
       else case p of Name n \<Rightarrow> Some (CondName n, CHR '' '' # op @ CHR '' '' # print_operand q @ newline # r) | _ \<Rightarrow> None)"
  proof (cases "op = ''==''")
    case True
    with p cmp_on(1) [of "''==''" "print_operand q @ newline # r"] show ?thesis by (simp add: cond_expr_def parse_simps)
  next
    case False
    have "on var_or_const (CHR ''<'' # CHR '' '' # print_operand q @ newline # r) = None"
      by (simp add: var_or_const_def parse_simps on_name on_number)
    with p op False show ?thesis by (simp add: cond_expr_def parse_simps split: operand.splits)
  qed
  show ?thesis
  proof (cases "op = ''==''")
    case True
    with c show ?thesis by (simp add: select_expr_def parse_simps)
  next
    case False
    with c q show ?thesis by (simp add: select_expr_def parse_simps split: operand.splits)
  qed
qed

lemma at_fails:
  "on select_expr (CHR ''@'' # r) = None" "on mult_add_expr (CHR ''@'' # r) = None"
  by (simp_all add: select_expr_def cond_expr_def mult_add_expr_def var_or_const_def parse_simps on_name on_number)

lemma no_mult_operand:
  assumes "operand_wf p" "c = newline \<or> c = CHR ''[''"
  shows "on mult_add_expr (print_operand p @ c # r) = None"
  using assms by (elim disjE; simp add: mult_add_expr_def parse_simps split: operand.splits)

lemma no_mult_binop:
  assumes p: "operand_wf p" "operand_wf q" and op: "op \<in> set operators"
  shows "on mult_add_expr (print_operand p @ CHR '' '' # op @ CHR '' '' # print_operand q @ newline # r) = None"
proof -
  have "on lit_mult (CHR '' '' # op @ CHR '' '' # print_operand q @ newline # r) =
      (if op = ''*'' then Some (''*'', print_operand q @ newline # r) else None)"
    using op p(2) by (elim operatorsE) (simp_all add: on_punctuation)
  with p show ?thesis by (simp add: mult_add_expr_def parse_simps split: operand.splits)
qed

lemma no_deref:
  assumes "operand_wf p"
  shows "on deref_words (print_operand p @ r) = None" "on deref_variable (print_operand p @ r) = None"
    "on deref_constant (print_operand p @ r) = None"
  using assms by (simp_all add: deref_words_def deref_variable_def deref_constant_def parse_simps)

lemma no_binop_operand:
  assumes "operand_wf p" "c = newline \<or> c = CHR ''[''"
  shows "on bin_op_expr (print_operand p @ c # r) = None"
  using assms by (elim disjE; simp add: bin_op_expr_def parse_simps)

lemmas no_operand = no_cond_operand no_mult_operand no_deref no_binop_operand

lemma value_expr_on:
  assumes "expr_wf e"
  shows "on value_expr (print_expr e @ newline # r) = Some (e, newline # r)"
proof (cases e)
  case (DerefIndividualWords n)
  with assms show ?thesis
    by (simp add: value_expr_def on_por at_fails deref_words_def on_pmap on_pseq on_lit print_expr_def expr_wf_def)
next
  case (DerefVariable n)
  with assms show ?thesis
    by (simp add: value_expr_def on_por at_fails deref_words_def deref_variable_def on_pmap on_pseq on_lit print_expr_def expr_wf_def)
next
  case (DerefConstant k)
  with assms show ?thesis
    by (simp add: value_expr_def on_por at_fails deref_words_def deref_variable_def deref_constant_def on_pmap on_pseq on_lit
        print_expr_def expr_wf_def)
next
  case (Variable n i)
  then have n: "operand_wf (Name n)" "print_operand (Name n) = n" using assms by (simp_all add: operand_wf_def print_operand_def expr_wf_def)
  note no = no_operand [OF n(1), unfolded n(2)]
  have name: "is_ident n" using n(1) by (simp add: operand_wf_def)
  show ?thesis
  proof (cases i)
    case None
    with Variable name no show ?thesis
      by (simp add: value_expr_def variable_expr_def on_por on_pmap on_pseq on_opt on_lit print_expr_def)
  next
    case (Some k)
    with assms Variable have "int_const_wf k" by (simp add: expr_wf_def)
    with Variable name no Some show ?thesis
      by (simp add: value_expr_def variable_expr_def on_por on_pmap on_pseq on_opt on_lit print_expr_def)
  qed
next
  case (BinOpExpr p op q)
  with assms have w: "operand_wf p" "op \<in> set operators" "operand_wf q" by (simp_all add: expr_wf_def)
  with BinOpExpr show ?thesis
    by (simp add: value_expr_def on_por no_cond_binop no_mult_binop no_deref print_expr_def bin_op_expr_def on_pmap on_pseq)
next
  case (MultAddExpr a b c)
  with assms have w: "is_ident a" "operand_wf b" "operand_wf c" by (simp_all add: expr_wf_def)
  have "on cond_expr (a @ CHR '' '' # CHR ''*'' # CHR '' '' # r) = Some (CondName a, CHR '' '' # CHR ''*'' # CHR '' '' # r)" for r
    using w(1) operand_on [of "Name a" "CHR '' ''"] by (simp add: cond_expr_def parse_simps operand_wf_def print_operand_def)
  with MultAddExpr w show ?thesis
    by (simp add: value_expr_def on_por select_expr_def mult_add_expr_def parse_simps print_expr_def)
next
  case (SelectExpr c p q)
  with assms have w: "cond_wf c" "operand_wf p" "operand_wf q" by (simp_all add: expr_wf_def)
  with SelectExpr show ?thesis
    by (simp add: value_expr_def on_por select_expr_def cond_on parse_simps print_expr_def)
next
  case (IntConstantExpr k)
  then have k: "operand_wf (Const k)" "print_operand (Const k) = print_const k" "int_const_wf k"
    using assms by (simp_all add: operand_wf_def print_operand_def expr_wf_def)
  note no = no_operand [OF k(1), unfolded k(2)]
  from IntConstantExpr k(3) no show ?thesis
    by (simp add: value_expr_def variable_expr_def on_por on_pmap on_pseq print_expr_def)
qed

lemma expr_starts: "expr_wf e \<Longrightarrow> dropWhile is_space (print_expr e @ r) = print_expr e @ r"
  by (cases e) (auto simp: print_expr_def expr_wf_def print_cond_def cond_wf_def split: option.splits cond.splits)

section \<open>Statements\<close>

text \<open>What may follow a statement: nothing a line end would swallow.\<close>

definition fresh :: "string \<Rightarrow> bool" where
  "fresh r \<longleftrightarrow> r = [] \<or> starts (\<lambda>c. is_small c \<or> c = CHR ''@'') r"

lemma fresh_no_nl: "fresh r \<Longrightarrow> on nl r = None" "fresh r \<Longrightarrow> dropWhile is_space r = r"
proof -
  show d: "dropWhile is_space r = r" if "fresh r"
    using that by (cases r) (auto simp: fresh_def letter_not_space)
  show "on nl r = None" if "fresh r"
  proof (cases r)
    case (Cons c cs)
    with that have c: "is_letter c \<or> c = CHR ''@''" by (auto simp: fresh_def)
    then have "c \<noteq> newline" "c \<noteq> CHR ''#''" using newline_facts(1,17) char_facts(7)
      by (auto simp: is_letter_def is_small_def is_digit_def)
    with Cons show ?thesis unfolding nl_def on_nl d [OF that] by (simp add: skip_comment_def)
  qed (simp add: nl_def on_nl skip_comment_def)
qed

text \<open>What a line end swallows: spaces, comments and empty lines.\<close>

lemma length_skip_comment: "length (skip_comment r) \<le> length r"
  using length_dropWhile_le [of "\<lambda>c. c \<noteq> newline" r] by (auto simp: skip_comment_def split: list.splits)

function skip :: "string \<Rightarrow> string" where
  "skip r = (let t = dropWhile is_space r in
     case skip_comment t of [] \<Rightarrow> t | c # s \<Rightarrow> if c = newline then skip s else t)"
  by auto
termination
proof (relation "measure length")
  fix r t c s assume "t = dropWhile is_space r" "skip_comment t = c # s"
  then show "(s, r) \<in> measure length"
    using length_skip_comment [of t] length_dropWhile_le [of is_space r] by simp
qed simp

declare skip.simps [simp del]

lemma skip_spaces: "skip (dropWhile is_space r) = skip r"
proof -
  have "dropWhile is_space (dropWhile is_space r) = dropWhile is_space r" by (simp add: dropWhile_idem)
  then show ?thesis by (simp add: skip.simps [of "dropWhile is_space r"] skip.simps [of r])
qed

lemma skip_simps [simp]:
  "skip [] = []" "skip (newline # r) = skip r" "skip (CHR '' '' # r) = skip r"
  "is_letter c \<Longrightarrow> skip (c # r) = c # r" "skip (CHR ''@'' # r) = CHR ''@'' # r"
proof -
  show "skip (CHR '' '' # r) = skip r" using skip_spaces [of "CHR '' '' # r"] skip_spaces [of r] by simp
  show "skip (c # r) = c # r" if "is_letter c"
  proof -
    from that newline_facts(1) have "c \<noteq> newline" by blast
    moreover from that have "c \<noteq> CHR ''#''" by (auto simp: is_letter_def is_small_def is_digit_def)
    ultimately show ?thesis using that by (simp add: skip.simps [of "c # r"] letter_not_space skip_comment_def)
  qed
qed (simp_all add: skip.simps [of "newline # r"] skip.simps [of "CHR ''@'' # r"] skip.simps [of "[]"] skip_comment_def)

lemma fresh_skip [simp]: "fresh r \<Longrightarrow> skip r = r"
  by (cases r) (auto simp: fresh_def)

lemma skip_no_space: "dropWhile is_space (skip r) = skip r"
  by (induction r rule: skip.induct) (subst (1 2) skip.simps, simp add: Let_def dropWhile_idem split: list.split)

lemma length_skip: "length (skip r) \<le> length r"
proof (induction r rule: skip.induct)
  case (1 r)
  show ?case
  proof (cases "skip_comment (dropWhile is_space r)")
    case (Cons c s)
    have "Suc (length s) \<le> length r"
      using length_skip_comment [of "dropWhile is_space r"] length_dropWhile_le [of is_space r] Cons by simp
    with 1 [OF refl Cons] Cons length_dropWhile_le [of is_space r] show ?thesis
      by (subst skip.simps) (auto simp: Let_def)
  qed (subst skip.simps, simp add: length_dropWhile_le)
qed

lemma star_nl: "dropWhile is_space r = r \<Longrightarrow> \<exists>w. on (star nl) r = Some (w, skip r)"
proof (induction "length r" arbitrary: r rule: less_induct)
  case less
  show ?case
  proof (cases "on nl r")
    case None
    then have "skip r = r" using less.prems
      by (subst skip.simps) (auto simp: nl_def on_nl Let_def split: list.splits if_splits)
    with None show ?thesis by (simp add: on_star)
  next
    case (Some x)
    then obtain s where s: "skip_comment (dropWhile is_space r) = newline # s" and x: "x = (before r (dropWhile is_space s), dropWhile is_space s)"
      by (auto simp: nl_def on_nl split: list.splits if_splits)
    have l: "length (dropWhile is_space s) < length r"
      using s length_skip_comment [of "dropWhile is_space r"] length_dropWhile_le [of is_space r] length_dropWhile_le [of is_space s] by simp
    from less.hyps [OF l dropWhile_idem] obtain w where "on (star nl) (dropWhile is_space s) = Some (w, skip s)"
      unfolding skip_spaces by blast
    moreover have "skip r = skip s" using s by (subst skip.simps) simp
    ultimately show ?thesis using Some x l by (simp add: on_star)
  qed
qed

definition breaks :: "string \<Rightarrow> string list" where
  "breaks r = (case on (plus1 nl) r of None \<Rightarrow> [] | Some (w, _) \<Rightarrow> w)"

lemma breaks_on:
  assumes "skip_comment (dropWhile is_space x) = newline # r"
  shows "on (plus1 nl) x = Some (breaks x, skip r)"
proof -
  obtain w where "on (star nl) (dropWhile is_space r) = Some (w, skip (dropWhile is_space r))"
    using star_nl dropWhile_idem by blast
  moreover have "on nl x = Some (before x (dropWhile is_space r), dropWhile is_space r)"
    using assms by (simp add: nl_def on_nl)
  ultimately show ?thesis by (simp add: breaks_def on_plus1 skip_spaces)
qed

lemma newline_on [simp]: "on (plus1 nl) (newline # r) = Some (breaks (newline # r), skip r)"
  by (rule breaks_on) (simp add: skip_comment_def)

lemma line_end: "fresh r \<Longrightarrow> on (plus1 nl) (newline # r) = Some (breaks (newline # r), r)"
  by simp

lemma no_space_taken [simp]: "is_ident n \<Longrightarrow> takeWhile is_space (n @ r) = []"
  by (erule identE) (simp add: letter_not_space)

lemma on_space [simp]: "is_ident n \<Longrightarrow> on space (CHR '' '' # n @ r) = Some ('' '', n @ r)"
  by (simp add: space_def on_rx_plus)

lemma type_on [simp]: "type_wf t \<Longrightarrow> on variable_type (t @ CHR '' '' # r) = Some (t, CHR '' '' # r)"
  by (auto simp: type_wf_def variable_type_def on_por on_lit)

lemma local_variable_type [simp]: "local variable_type"
  unfolding variable_type_def by blast

lemma more_names_simps [simp]:
  "more_names [] = []" "more_names (n # ns) = CHR '','' # CHR '' '' # n @ more_names ns"
  by (simp_all add: more_names_def)

lemma more_names_on:
  assumes "list_all is_ident ns"
  shows "on (star (pseq lit_comma variable_name)) (more_names ns @ newline # r) =
    Some (map (\<lambda>m. ('','', m)) ns, newline # r)"
  using assms
proof (induction ns)
  case Nil
  show ?case by (simp add: on_star on_pseq on_punctuation)
next
  case (Cons n ns)
  obtain c x where c: "more_names ns @ newline # r = c # x" "\<not> is_letter c" by (cases ns) auto
  from Cons have n: "is_ident n" by simp
  from Cons have IH: "on (star (pseq lit_comma variable_name)) (c # x) = Some (map (\<lambda>m. ('','', m)) ns, newline # r)"
    using c(1) by simp
  have "on (pseq lit_comma variable_name) (CHR '','' # CHR '' '' # n @ c # x) = Some (('','', n), c # x)"
    using n c(2) by (simp add: on_pseq on_punctuation)
  with IH show ?case using c(1) by (subst on_star) simp_all
qed

lemma decl_on:
  assumes "decl_wf d"
  shows "on variable_declaration_stmt (print_decl d @ r) = Some (d, skip r)"
proof (cases d)
  case (VariableDeclaration t n ns)
  with assms have w: "type_wf t" "is_ident n" "list_all is_ident ns" by (simp_all add: decl_wf_def)
  obtain c x where c: "more_names ns @ newline # r = c # x" "\<not> is_letter c" by (cases ns) auto
  from more_names_on [OF w(3), of r] have names: "on (star (pseq lit_comma variable_name)) (c # x) = Some (map (\<lambda>m. ('','', m)) ns, newline # r)"
    using c(1) by simp
  have "print_decl d @ r = t @ CHR '' '' # n @ c # x" by (simp add: print_decl_def VariableDeclaration c(1) [symmetric])
  with w c(2) names VariableDeclaration show ?thesis
    by (simp add: variable_declaration_stmt_def on_por on_pmap on_pseq comp_def)
next
  case (VariableDefinition t n e)
  with assms have w: "type_wf t" "is_ident n" "expr_wf e" by (simp_all add: decl_wf_def)
  have "on (star (pseq lit_comma variable_name)) (CHR '' '' # CHR ''='' # x) = Some ([], CHR '' '' # CHR ''='' # x)" for x
    by (simp add: on_star on_pseq on_punctuation)
  moreover have "on (plus1 nl) (CHR '' '' # CHR ''='' # x) = None" for x
    by (simp add: on_plus1 nl_def local_tokens(3) [unfolded nl_def] on_nl skip_comment_def)
  ultimately show ?thesis using w VariableDefinition
    by (simp add: variable_declaration_stmt_def on_por on_pmap on_pseq print_decl_def on_punctuation expr_starts value_expr_on)
qed

lemma assignment_on:
  assumes "is_ident n" "expr_wf e"
  shows "on assignment_stmt (n @ CHR '' '' # CHR ''='' # CHR '' '' # print_expr e @ newline # r) = Some (LoadVariable n e, skip r)"
    "on assignment_stmt (CHR ''@'' # n @ CHR '' '' # CHR ''='' # CHR '' '' # print_expr e @ newline # r) = Some (StoreMemory n e, skip r)"
proof -
  have "on variable_name (CHR ''@'' # x) = None" for x by (simp add: on_name)
  with assms show
    "on assignment_stmt (n @ CHR '' '' # CHR ''='' # CHR '' '' # print_expr e @ newline # r) = Some (LoadVariable n e, skip r)"
    "on assignment_stmt (CHR ''@'' # n @ CHR '' '' # CHR ''='' # CHR '' '' # print_expr e @ newline # r) = Some (StoreMemory n e, skip r)"
    by (simp_all add: assignment_stmt_def on_por on_pmap on_pseq on_punctuation expr_starts value_expr_on on_lit)
qed

text \<open>A name and \<open>=\<close> are no declaration, even if the name starts with the keyword.\<close>

lemma prefix_of_name:
  assumes "take (length k) (n @ CHR '' '' # r) = k" "list_all is_letter n" "CHR '' '' \<notin> set k"
  shows "length k \<le> length n \<and> list_all is_letter k"
proof -
  have "length k \<le> length n"
  proof (rule ccontr)
    assume l: "\<not> length k \<le> length n"
    then have "take (length k) (n @ CHR '' '' # r) ! length n = CHR '' ''" by (simp add: nth_append)
    with assms(1) l have "k ! length n = CHR '' ''" by simp
    with l assms(3) show False by (metis not_le nth_mem)
  qed
  with assms(1,2) show ?thesis by (metis append_take_drop_id list_all_append take_append diff_is_0_eq take0 append_Nil2)
qed

lemma space_after_prefix:
  assumes "is_ident n"
  shows "on (pseq space q) (drop j n @ CHR '' '' # CHR ''='' # r) = None \<or> drop j n = []"
proof (cases "drop j n")
  case (Cons c cs)
  have "list_all is_letter (drop j n)" using ident_letters [OF assms] by (metis append_take_drop_id list_all_append)
  with Cons have "\<not> is_space c" by (simp add: letter_not_space)
  with Cons show ?thesis by (simp add: on_def pseq_def space_def rx_plus_def)
qed simp

lemma keyword_fails:
  assumes n: "is_ident n" and k: "CHR '' '' \<notin> set k" and q: "local q" "on q (CHR ''='' # r) = None"
  shows "on (pseq (lit k) (pseq space q)) (n @ CHR '' '' # CHR ''='' # r) = None"
proof (cases "take (length k) (n @ CHR '' '' # CHR ''='' # r) = k")
  case True
  from prefix_of_name [OF this ident_letters [OF n] k] have l: "length k \<le> length n" by simp
  have "on (pseq space q) (drop (length k) n @ CHR '' '' # CHR ''='' # r) = None"
    using space_after_prefix [OF n, of q "length k" r] q by (auto simp: on_pseq space_def on_rx_plus local_tokens(1) [unfolded space_def])
  with True l q(1) show ?thesis by (simp add: on_pseq on_lit)
qed (use q(1) in \<open>simp add: on_pseq on_lit\<close>)

lemma type_fails:
  assumes n: "is_ident n" and q: "local q" "on q (CHR ''='' # r) = None"
  shows "on (pseq variable_type (pseq space q)) (n @ CHR '' '' # CHR ''='' # r) = None"
proof -
  have "on (lit ''register[]'') (n @ CHR '' '' # CHR ''='' # r) = None"
    using prefix_of_name [of "''register[]''" n "CHR ''='' # r"] ident_letters [OF n] by (auto simp: on_lit simp del: take_append)
  moreover have "on (pseq (lit ''register'') (pseq space q)) (n @ CHR '' '' # CHR ''='' # r) = None"
    by (rule keyword_fails [OF n _ q]) simp
  ultimately show ?thesis using q(1) by (simp add: on_pseq variable_type_def on_por split: option.splits)
qed

lemma decl_fails:
  assumes "is_ident n"
  shows "on variable_declaration_stmt (n @ CHR '' '' # CHR ''='' # r) = None"
    "on thread_local_variable_stmt (n @ CHR '' '' # CHR ''='' # r) = None"
proof -
  show "on variable_declaration_stmt (n @ CHR '' '' # CHR ''='' # r) = None"
    unfolding variable_declaration_stmt_def on_por on_pmap
    by (subst type_fails [OF assms]; (subst type_fails [OF assms])?; simp add: on_pseq on_name)
  have "on variable_declaration_stmt (CHR ''='' # r) = None"
    by (simp add: variable_declaration_stmt_def variable_type_def on_por on_pmap on_pseq on_lit)
  then show "on thread_local_variable_stmt (n @ CHR '' '' # CHR ''='' # r) = None"
    unfolding thread_local_variable_stmt_def on_pmap by (subst keyword_fails [OF assms]) simp_all
qed

end
