(* ===== verification/Text_Reading.thy ===== *)
theory Text_Reading
  imports Printer
begin

text \<open>
  How the parser reads statements off a text that goes on: simple statements, and an \<open>iftid\<close> whose
  branches are texts read by what their parsers answer (\<open>reads_to\<close>).
\<close>

section \<open>Statements without branches\<close>

lemmas on_blanks = on_rx_plus [of is_space, folded space_def] on_rx_star [of is_space, folded opt_space_def]

lemma fresh_simps [simp]:
  "fresh []" "is_small c \<Longrightarrow> fresh (c # r)" "fresh (CHR ''@'' # r)"
  by (simp_all add: fresh_def)

lemma fresh_ident [simp]: "is_ident n \<Longrightarrow> fresh (n @ r)"
  by (erule identE) simp

lemma smalls [simp]: "is_small CHR ''t''" "is_small CHR ''p''" "is_small CHR ''i''" "is_small CHR ''e''" "is_small CHR ''r''" "is_small CHR ''g''"
  by (simp_all add: is_small_def)

lemma decl_starts: "decl_wf d \<Longrightarrow> \<exists>x. print_decl d = ''register'' @ x"
  by (auto simp: decl_wf_def type_wf_def print_decl_def split: decl.splits)

lemma fresh_decl [simp]: "decl_wf d \<Longrightarrow> fresh (print_decl d @ r)"
  using decl_starts by fastforce

lemma decl_no_space [simp]: "decl_wf d \<Longrightarrow> takeWhile is_space (print_decl d @ r) = []"
  "decl_wf d \<Longrightarrow> dropWhile is_space (print_decl d @ r) = print_decl d @ r"
  using decl_starts [of d] letter_not_space [OF letter_facts(1), of "CHR ''r''"] by auto

lemma fresh_stmt: "thread_stmt_wf st \<or> global_stmt_wf st \<Longrightarrow> fresh (print_stmt st @ r)"
  by (cases st) (auto simp: global_stmt_wf_def print_if_def)

lemma fresh_stmts:
  "list_all (\<lambda>st. thread_stmt_wf st \<or> global_stmt_wf st) sts \<Longrightarrow> fresh r \<Longrightarrow> fresh (print_stmts sts @ r)"
  by (cases sts) (simp_all add: print_stmts_def fresh_stmt)

lemma thread_decl_on:
  assumes "decl_wf d"
  shows "on thread_local_variable_stmt (''thread '' @ print_decl d @ r) = Some (ThreadLocalVariableStmt d, skip r)"
  using assms by (simp add: thread_local_variable_stmt_def on_pmap on_pseq on_lit on_blanks decl_on)

lemma pause_on: "on pause_stmt (''pause'' @ newline # r) = Some (PauseStmt, skip r)"
  by (simp add: pause_stmt_def on_pmap on_pseq on_lit)

lemma stmts_on:
  assumes p: "local p" and each: "\<And>st r. st \<in> set sts \<Longrightarrow> fresh r \<Longrightarrow> on p (print_stmt st @ r) = Some (st, r)"
    and wf: "list_all (\<lambda>st. thread_stmt_wf st \<or> global_stmt_wf st) sts" and r: "on p r = None" "fresh r"
  shows "on (star p) (print_stmts sts @ r) = Some (sts, r)"
  using each wf
proof (induction sts)
  case Nil
  with r(1) show ?case by (simp add: on_star [OF p] print_stmts_def)
next
  case (Cons st sts)
  have "print_stmts (st # sts) @ r = print_stmt st @ print_stmts sts @ r" by (simp add: print_stmts_def)
  moreover have "fresh (print_stmts sts @ r)" using Cons.prems(2) r(2) by (intro fresh_stmts) auto
  moreover have "0 < length (print_stmt st)" using Cons.prems(2) by (cases st) (auto simp: print_if_def print_decl_def split: decl.splits)
  ultimately show ?case using Cons by (subst on_star [OF p]) simp
qed

section \<open>Global statements\<close>

lemma no_pause_decl [simp]:
  "on variable_declaration_stmt (CHR ''p'' # r) = None" "on variable_declaration_stmt (CHR ''@'' # r) = None"
  "on thread_local_variable_stmt (CHR ''p'' # r) = None" "on thread_local_variable_stmt (CHR ''@'' # r) = None"
  "on thread_local_variable_stmt (CHR ''i'' # r) = None"
  by (simp_all add: variable_declaration_stmt_def thread_local_variable_stmt_def variable_type_def on_por on_pmap on_pseq on_lit)

text \<open>A keyword that is not followed by \<open>=\<close> is no assignment.\<close>

lemma no_assignment:
  assumes "is_ident k" "dropWhile is_space (c # r) = x # y" "x \<noteq> CHR ''=''" "\<not> is_letter c"
  shows "on assignment_stmt (k @ c # r) = None"
proof -
  have "on lit_eq (c # r) = None" using assms(2,3) by (simp add: on_punctuation del: dropWhile.simps)
  with assms show ?thesis by (simp add: assignment_stmt_def on_por on_pmap on_pseq)
qed

lemma keyword_idents: "is_ident ''pause''" "is_ident ''end''" "is_ident ''iftid''" "is_ident ''eliftid''" "is_ident ''elsetid''"
  "is_ident ''endiftid''"
  by code_simp+

lemma global_stmt_on:
  assumes "global_stmt_wf st"
  shows "on global_stmt (print_stmt st @ r) = Some (st, skip r)"
proof (cases st)
  case (LoadVariable n e)
  with assms show ?thesis by (simp add: global_stmt_def on_por on_pmap assignment_on decl_fails global_stmt_wf_def)
next
  case (StoreMemory n e)
  with assms show ?thesis by (simp add: global_stmt_def on_por on_pmap assignment_on global_stmt_wf_def)
next
  case PauseStmt
  have "on assignment_stmt (''pause'' @ newline # r) = None"
    by (rule no_assignment [OF keyword_idents(1), of newline r newline r]) simp_all
  with PauseStmt pause_on show ?thesis by (simp add: global_stmt_def on_por on_pmap)
qed (use assms in \<open>simp_all add: global_stmt_wf_def global_stmt_def on_por on_pmap decl_on\<close>)

lemma global_program_on:
  assumes "list_all global_stmt_wf sts" "fresh r"
  shows "on global_program (print_stmts sts @ ''end global'' @ newline # r) = Some (sts, r)"
proof -
  have "on assignment_stmt (''end'' @ CHR '' '' # ''global'' @ newline # r) = None"
    by (rule no_assignment [OF keyword_idents(2), of "CHR '' ''" _ "CHR ''g''" "''lobal'' @ newline # r"])
      (simp_all add: letter_not_space)
  then have n: "on global_stmt (''end global'' @ newline # r) = None"
    by (simp add: global_stmt_def pause_stmt_def variable_declaration_stmt_def variable_type_def on_por on_pmap on_pseq on_lit)
  have "on (star global_stmt) (print_stmts sts @ ''end global'' @ newline # r) = Some (sts, ''end global'' @ newline # r)"
    using assms(1) n by (intro stmts_on) (auto simp: list_all_iff global_stmt_on)
  moreover have "on end_global_stmt (''end global'' @ newline # r) = Some ((), r)"
    using assms(2) by (simp add: end_global_stmt_def on_pmap on_pseq on_lit)
  ultimately show ?thesis by (simp add: global_program_def on_pmap on_pseq)
qed

section \<open>Branches\<close>

lemma range_on:
  assumes "range_wf rg"
  shows "on tid_range (print_range rg @ r) = Some (rg, r)"
proof -
  have b: "\<not> is_space CHR '')''" by (simp add: is_space_def)
  have w: "int_const_wf (range_start rg)" "int_const_wf (range_end rg)" using assms by (simp_all add: range_wf_def)
  show ?thesis
    using w b by (cases rg) (simp add: tid_range_def print_range_def on_pmap on_pseq on_lit on_plus1 on_star on_punctuation on_blanks)
qed

text \<open>What ends a list of thread statements.\<close>

definition branch_end :: "string \<Rightarrow> bool" where
  "branch_end r \<longleftrightarrow> r = [] \<or> (\<exists>x. r = ''eliftid range'' @ x) \<or> (\<exists>x. r = ''elsetid'' @ newline # x) \<or>
     (\<exists>x. r = ''elsetid '' @ newline # x) \<or>
     (\<exists>x. r = ''endiftid'' @ newline # x)"

lemma branch_end_stops:
  assumes "branch_end r"
  shows "on (thread_local_stmt n) r = None" "fresh r"
proof -
  show "fresh r" using assms by (auto simp: branch_end_def)
  have a: "on assignment_stmt r = None"
    using assms unfolding branch_end_def
  proof (elim disjE exE)
    assume "r = []"
    then show ?thesis by (simp add: assignment_stmt_def on_por on_pmap on_pseq on_name on_lit)
  next
    fix x assume "r = ''eliftid range'' @ x"
    with no_assignment [OF keyword_idents(4), of "CHR '' ''" "''range'' @ x" "CHR ''r''" "''ange'' @ x"] show ?thesis
      by (simp add: letter_not_space)
  next
    fix x assume "r = ''elsetid'' @ newline # x"
    with no_assignment [OF keyword_idents(5), of newline x newline x] show ?thesis by simp
  next
    fix x assume "r = ''elsetid '' @ newline # x"
    with no_assignment [OF keyword_idents(5), of "CHR '' ''" "newline # x" newline x] show ?thesis by simp
  next
    fix x assume "r = ''endiftid'' @ newline # x"
    with no_assignment [OF keyword_idents(6), of newline x newline x] show ?thesis by simp
  qed
  have "on thread_local_variable_stmt r = None" "on pause_stmt r = None" "on (tid_if_else_stmt (thread_local_stmt m)) r = None" for m
    using assms unfolding branch_end_def
    by (auto simp: thread_local_variable_stmt_def pause_stmt_def tid_if_else_stmt_def on_pmap on_pseq on_lit)
  with a show "on (thread_local_stmt n) r = None"
    by (cases n) (simp_all add: on_def [of "thread_local_stmt _"] on_por [unfolded on_def] on_def)
qed

definition elif_branch :: "stmt parser \<Rightarrow> (string \<times> string \<times> tid_range \<times> string list \<times> stmt list) parser" where
  "elif_branch p = pseq (lit ''eliftid'') (pseq space (pseq tid_range (pseq (plus1 nl) (star p))))"

lemma local_elif [simp]: "local p \<Longrightarrow> local (elif_branch p)"
  unfolding elif_branch_def by simp

lemma range_no_space [simp]: "takeWhile is_space (print_range rg @ r) = []" "dropWhile is_space (print_range rg @ r) = print_range rg @ r"
  by (simp_all add: print_range_def letter_not_space)

lemma fresh_branch: "list_all thread_stmt_wf b \<Longrightarrow> branch_end r \<Longrightarrow> fresh (print_stmts b @ r)"
  using branch_end_stops(2) by (intro fresh_stmts) (auto simp: list_all_iff)

lemma thread_Suc: "thread_local_stmt (Suc n) = por (por (por thread_local_variable_stmt assignment_stmt) pause_stmt)
    (tid_if_else_stmt (thread_local_stmt n))"
  by (simp add: fun_eq_iff)

lemma on_seqI: "on p r = Some (v, r') \<Longrightarrow> on q r' = Some (w, r'') \<Longrightarrow> local p \<Longrightarrow> local q \<Longrightarrow> on (pseq p q) r = Some ((v, w), r'')"
  by (simp add: on_pseq)

lemma pmap_onI: "on p r = Some (v, r') \<Longrightarrow> w = f v \<Longrightarrow> on (pmap f p) r = Some (w, r')"
  by (simp add: on_pmap)

section \<open>Branches\<close>

fun elif_texts :: "(tid_range \<times> string) list \<Rightarrow> string" where
  "elif_texts [] = []"
| "elif_texts ((rg, t) # xs) = ''eliftid '' @ print_range rg @ newline # t @ elif_texts xs"

lemma elif_texts_append: "elif_texts (xs @ ys) = elif_texts xs @ elif_texts ys"
  by (induction xs rule: elif_texts.induct) simp_all

definition reads_to :: "stmt parser \<Rightarrow> string \<Rightarrow> stmt list \<Rightarrow> bool" where
  "reads_to p t b \<longleftrightarrow> (\<forall>r. branch_end r \<longrightarrow> on (star p) (skip (t @ r)) = Some (b, r))"

definition else_text :: "string \<Rightarrow> string \<Rightarrow> string" where
  "else_text sp r = ''elsetid'' @ sp @ newline # r"

lemma else_end: "sp = [] \<or> sp = '' '' \<Longrightarrow> branch_end (elif_texts xs @ else_text sp r)"
  by (cases xs rule: elif_texts.cases) (auto simp: branch_end_def print_range_def else_text_def)

lemma elifs_on:
  assumes p: "local p" and sp: "sp = [] \<or> sp = '' ''"
    and "list_all (\<lambda>(rg, t, b). range_wf rg \<and> reads_to p t b) xs"
  shows "\<exists>vs. on (star (elif_branch p)) (elif_texts (map (\<lambda>(rg, t, b). (rg, t)) xs) @ else_text sp r) = Some (vs, else_text sp r) \<and>
    map (\<lambda>(_, _, rg, _, _). rg) vs = map fst xs \<and> map (\<lambda>(_, _, _, _, ss). ss) vs = map (snd \<circ> snd) xs"
  using assms(3)
proof (induction xs)
  case Nil
  have "on (elif_branch p) (else_text sp r) = None" using p by (simp add: elif_branch_def on_pseq on_lit else_text_def)
  with p show ?case by (simp add: on_star)
next
  case (Cons x xs)
  obtain rg t b where x: "x = (rg, t, b)" by (cases x) auto
  let ?rest = "elif_texts (map (\<lambda>(rg, t, b). (rg, t)) xs) @ else_text sp r"
  from Cons.prems x have w: "range_wf rg" "reads_to p t b" by simp_all
  from w(2) else_end [OF sp] have "on (star p) (skip (t @ ?rest)) = Some (b, ?rest)" unfolding reads_to_def by blast
  with p w(1) obtain l where l: "on (elif_branch p) (''eliftid '' @ print_range rg @ newline # t @ ?rest) =
      Some ((''eliftid'', '' '', rg, l, b), ?rest)" by (simp add: elif_branch_def on_pseq on_lit on_blanks range_on)
  from Cons.prems have "list_all (\<lambda>(rg, t, b). range_wf rg \<and> reads_to p t b) xs" by simp
  from Cons.IH [OF this] obtain vs where vs: "on (star (elif_branch p)) ?rest = Some (vs, else_text sp r)"
    "map (\<lambda>(_, _, rg, _, _). rg) vs = map fst xs" "map (\<lambda>(_, _, _, _, ss). ss) vs = map (snd \<circ> snd) xs" by blast
  from l vs p show ?case by (subst on_star) (auto simp: x)
qed

lemma tid_if_else_on:
  assumes p: "local p" and sp: "sp = [] \<or> sp = '' ''" and w: "range_wf rg"
    and xs: "list_all (\<lambda>(rg, t, b). range_wf rg \<and> reads_to p t b) xs" and reads: "reads_to p t b" "reads_to p te be"
  shows "on (tid_if_else_stmt p) (''iftid '' @ print_range rg @ newline # t @ elif_texts (map (\<lambda>(rg, t, b). (rg, t)) xs) @
      else_text sp (te @ ''endiftid'' @ newline # r)) =
    Some (TidIfElseStmt (rg # map fst xs) (b # map (snd \<circ> snd) xs @ [be]), skip r)"
proof -
  let ?els = "te @ ''endiftid'' @ newline # r"
  let ?rest = "elif_texts (map (\<lambda>(rg, t, b). (rg, t)) xs) @ else_text sp ?els"
  have b: "on (star p) (skip (t @ ?rest)) = Some (b, ?rest)" using reads(1) else_end [OF sp] unfolding reads_to_def by blast
  obtain vs where vs: "on (star (elif_branch p)) ?rest = Some (vs, else_text sp ?els)"
    "map (\<lambda>(_, _, rg, _, _). rg) vs = map fst xs" "map (\<lambda>(_, _, _, _, ss). ss) vs = map (snd \<circ> snd) xs"
    using elifs_on [OF p sp xs, of ?els] by blast
  have "branch_end (''endiftid'' @ newline # r)" by (simp add: branch_end_def)
  then have last: "on (star p) (skip ?els) = Some (be, ''endiftid'' @ newline # r)" using reads(2) unfolding reads_to_def by blast
  have line: "on (plus1 nl) (sp @ newline # ?els) = Some (breaks (sp @ newline # ?els), skip ?els)"
    using sp by (intro breaks_on) (auto simp: skip_comment_def)
  have kws: "on (lit ''iftid'') (''iftid'' @ x) = Some (''iftid'', x)" "on (lit ''elsetid'') (else_text sp x) = Some (''elsetid'', sp @ newline # x)"
    "on (lit ''endiftid'') (''endiftid'' @ x) = Some (''endiftid'', x)"
    "on space (CHR '' '' # print_range rg @ x) = Some ('' '', print_range rg @ x)" for x
    by (simp_all add: on_lit on_blanks else_text_def)
  note tail = on_seqI [OF kws(2) on_seqI [OF line on_seqI [OF last on_seqI [OF kws(3) newline_on]]]]
  note all = on_seqI [OF kws(1) on_seqI [OF kws(4) on_seqI [OF range_on [OF w] on_seqI [OF newline_on on_seqI [OF b
    on_seqI [OF vs(1) tail]]]]]]
  have "on (tid_if_else_stmt p) (''iftid'' @ CHR '' '' # print_range rg @ newline # t @ ?rest) =
      Some (TidIfElseStmt (rg # map (\<lambda>(_, _, rg, _, _). rg) vs) (b # map (\<lambda>(_, _, _, _, ss). ss) vs @ [be]), skip r)"
    unfolding tid_if_else_stmt_def elif_branch_def [symmetric]
    by (rule pmap_onI, rule all) (simp_all add: p)
  then show ?thesis unfolding vs(2,3) by simp
qed

section \<open>Statements without branches in a thread\<close>

fun plain :: "stmt \<Rightarrow> bool" where
  "plain (TidIfElseStmt rs bs) = False"
| "plain _ = True"

lemma plain_stmt_on:
  assumes "thread_stmt_wf st" "plain st"
  shows "on (thread_local_stmt (Suc n)) (print_stmt st @ r) = Some (st, skip r)"
proof (cases st)
  case (LoadVariable m e)
  with assms show ?thesis by (simp add: thread_Suc on_por assignment_on decl_fails)
next
  case (StoreMemory m e)
  with assms show ?thesis by (simp add: thread_Suc on_por assignment_on)
next
  case PauseStmt
  have "on assignment_stmt (''pause'' @ newline # r) = None"
    by (rule no_assignment [OF keyword_idents(1), of newline r newline r]) simp_all
  with PauseStmt pause_on show ?thesis by (simp add: thread_Suc on_por)
next
  case (ThreadLocalVariableStmt d)
  with assms thread_decl_on [of d] show ?thesis by (simp add: thread_Suc on_por)
qed (use assms in simp_all)

lemma if_stmt_on:
  "on (thread_local_stmt (Suc n)) (''iftid range'' @ x) = on (tid_if_else_stmt (thread_local_stmt n)) (''iftid range'' @ x)"
proof -
  have "on assignment_stmt (''iftid range'' @ x) = None"
    using no_assignment [OF keyword_idents(3), of "CHR '' ''" "''range'' @ x" "CHR ''r''" "''ange'' @ x"] by (simp add: letter_not_space)
  then show ?thesis by (simp add: thread_Suc on_por pause_stmt_def on_pmap on_pseq on_lit)
qed

end
