(* ===== verification/Roundtrip.thy ===== *)
theory Roundtrip
  imports Text_Reading Compile_Props
begin

text \<open>
  The parser reads every well-formed program back from its text (C24).
\<close>

lemma print_elifs_texts:
  "length bs = length rs + 1 \<Longrightarrow> print_elifs rs (map print_stmts bs) @ r =
    elif_texts (zip rs (map print_stmts (butlast bs))) @ else_text [] (print_stmts (last bs) @ ''endiftid'' @ newline # r)"
proof (induction rs arbitrary: bs)
  case Nil
  then obtain b where "bs = [b]" by (cases bs) auto
  then show ?case by (simp add: else_text_def)
next
  case (Cons rg rs)
  then obtain b bs' where bs: "bs = b # bs'" "length bs' = length rs + 1" by (cases bs) auto
  then have "bs' \<noteq> []" by auto
  with bs Cons.IH [OF bs(2)] show ?case by simp
qed

lemma print_if_on:
  assumes p: "local p" and w: "thread_stmt_wf (TidIfElseStmt rs bs)"
    and each: "\<And>b. b \<in> set bs \<Longrightarrow> reads_to p (print_stmts b) b"
  shows "on (tid_if_else_stmt p) (print_if rs (map print_stmts bs) @ r) = Some (TidIfElseStmt rs bs, skip r)"
proof -
  from w obtain rg rs' where rs: "rs = rg # rs'" by (cases rs) auto
  from w rs obtain b bs' where bs: "bs = b # bs'" "length bs' = length rs' + 1" by (cases bs) auto
  define xs where "xs = map (\<lambda>(rg, b). (rg, print_stmts b, b)) (zip rs' (butlast bs'))"
  have ne: "bs' \<noteq> []" "length (butlast bs') = length rs'" using bs(2) by auto
  have proj: "map (\<lambda>(rg, t, b). (rg, t)) xs = zip rs' (map print_stmts (butlast bs'))" "map fst xs = rs'"
    "map (snd \<circ> snd) xs = butlast bs'" using ne(2)
    by (auto simp: xs_def zip_map2 case_prod_unfold comp_def intro: nth_equalityI)
  from w rs have rw: "range_wf rg" "list_all range_wf rs'" by simp_all
  have "list_all (\<lambda>(rg, t, b). range_wf rg \<and> reads_to p t b) xs"
    unfolding list_all_iff
  proof (rule ballI)
    fix x assume "x \<in> set xs"
    then obtain rg b' where x: "x = (rg, print_stmts b', b')" "(rg, b') \<in> set (zip rs' (butlast bs'))" by (auto simp: xs_def)
    then have "rg \<in> set rs'" "b' \<in> set bs" using bs(1) by (auto dest: set_zip_leftD in_set_butlastD [OF set_zip_rightD])
    with x(1) rw(2) each show "case x of (rg, t, b) \<Rightarrow> range_wf rg \<and> reads_to p t b" by (simp add: list_all_iff)
  qed
  from tid_if_else_on [OF p _ rw(1) this, of "[]" "print_stmts b" b "print_stmts (last bs')" "last bs'" r]
  show ?thesis using each bs ne print_elifs_texts [OF bs(2), of r] rs by (simp add: print_if_def proj)
qed

section \<open>Programs\<close>

lemma branch_size:
  assumes "b \<in> set bs" "st \<in> set b"
  shows "size st < size (TidIfElseStmt rs bs)"
proof -
  from assms(2) have "size st \<le> size_list size b" by (rule size_list_estimation') simp
  moreover from assms(1) have "size_list size b \<le> size_list (size_list size) bs" by (rule size_list_estimation') simp
  ultimately show ?thesis by simp
qed

lemma thread_stmt_on:
  "thread_stmt_wf st \<Longrightarrow> size st < n \<Longrightarrow> on (thread_local_stmt n) (print_stmt st @ r) = Some (st, skip r)"
proof (induction n arbitrary: st r)
  case (Suc n)
  show ?case
  proof (cases "plain st")
    case True
    with Suc.prems(1) show ?thesis by (rule plain_stmt_on)
  next
    case False
    then obtain rs bs where TidIfElseStmt: "st = TidIfElseStmt rs bs" by (cases st) auto
    have b: "reads_to (thread_local_stmt n) (print_stmts b) b" if "b \<in> set bs" for b
      unfolding reads_to_def
    proof (intro allI impI)
      fix r assume r: "branch_end r"
      from Suc.prems(1) TidIfElseStmt that have w: "list_all thread_stmt_wf b" by (simp add: list_all_iff)
      have each: "on (thread_local_stmt n) (print_stmt st' @ r') = Some (st', r')" if "st' \<in> set b" "fresh r'" for st' r'
      proof -
        have "thread_stmt_wf st'" using w that(1) by (simp add: list_all_iff)
        moreover have "size st' < n" using branch_size [OF \<open>b \<in> set bs\<close> that(1), of rs] Suc.prems(2) TidIfElseStmt by simp
        ultimately show ?thesis using Suc.IH that(2) by simp
      qed
      have "on (star (thread_local_stmt n)) (print_stmts b @ r) = Some (b, r)"
        using w branch_end_stops [OF r] by (intro stmts_on each) (auto simp: list_all_iff)
      then show "on (star (thread_local_stmt n)) (skip (print_stmts b @ r)) = Some (b, r)"
        using fresh_branch [OF w r] by simp
    qed
    from Suc.prems(1) TidIfElseStmt have w: "thread_stmt_wf (TidIfElseStmt rs bs)" by simp
    have t: "print_stmt st = print_if rs (map print_stmts bs)"
      by (simp add: TidIfElseStmt print_stmts_def [abs_def])
    obtain x where x: "print_if rs (map print_stmts bs) @ r = ''iftid range'' @ x" by (simp add: print_if_def print_range_def)
    have "on (thread_local_stmt (Suc n)) (print_stmt st @ r) = on (tid_if_else_stmt (thread_local_stmt n)) (print_stmt st @ r)"
      unfolding t x by (rule if_stmt_on)
    also have "\<dots> = Some (st, skip r)"
      unfolding t using print_if_on [OF local_thread_stmt w b] by (simp add: TidIfElseStmt)
    finally show ?thesis .
  qed
qed simp

lemma program_on:
  assumes w: "prog_wf prog" and n: "\<And>st. st \<in> set (thread_prog prog) \<Longrightarrow> size st < n"
  shows "on (program_at n) (print_program prog) = Some (prog, [])"
proof -
  from w have g: "list_all global_stmt_wf (global_prog prog)" and th: "list_all thread_stmt_wf (thread_prog prog)"
    by (simp_all add: prog_wf_def)
  let ?t = "print_stmts (thread_prog prog)"
  have f: "fresh ?t" using fresh_branch [OF th, of "[]"] by (simp add: branch_end_def)
  have "fresh (print_program prog)" unfolding print_program_def
    using g by (intro fresh_stmts) (auto simp: list_all_iff)
  then have a: "on (star nl) (print_program prog) = Some ([], print_program prog)"
    using fresh_no_nl(1) by (simp add: on_star)
  have b: "on global_program (print_program prog) = Some (global_prog prog, ?t)"
    using global_program_on [OF g f] by (simp add: print_program_def)
  have "on (star (thread_local_stmt n)) (?t @ []) = Some (thread_prog prog, [])"
    using th n by (intro stmts_on) (auto simp: list_all_iff thread_stmt_on branch_end_stops branch_end_def)
  then have c: "on (thread_local_program n) ?t = Some (thread_prog prog, [])" by (simp add: thread_local_program_def)
  have l: "local (thread_local_program n)" by (simp add: thread_local_program_def)
  have "on (program_at n) (print_program prog) = Some (\<lparr>global_prog = global_prog prog, thread_prog = thread_prog prog\<rparr>, [])"
    unfolding program_at_def by (rule pmap_onI [OF on_seqI [OF a on_seqI [OF b c]]]) (simp_all add: l)
  then show ?thesis by simp
qed

text \<open>
  C24: the parser accepts every well-formed program. Its text, statement by statement, one to a line,
  branches between \<open>iftid\<close>, \<open>eliftid\<close>, \<open>elsetid\<close> and \<open>endiftid\<close>, is read to the end, and what is read
  is the program: no alternative of the grammar, tried in the order of the source, takes it for
  something else.
\<close>

theorem program_parser_reads_print:
  assumes "prog_wf prog"
  shows "program_parser (print_program prog) 0 = Some (prog, length (print_program prog))"
proof -
  let ?t = "print_program prog"
  define n where "n = Suc (length ?t) + Suc (sum_list (map size (thread_prog prog)))"
  have "size st < n" if "st \<in> set (thread_prog prog)" for st
    using member_le_sum_list [of "size st" "map size (thread_prog prog)"] that by (simp add: n_def)
  then have on: "on (program_at n) ?t = Some (prog, [])" by (rule program_on [OF assms])
  have "program_at n ?t 0 = Some (prog, length ?t)"
    using localD(1) [OF local_program, of 0 ?t n] on by simp
  then show ?thesis using program_fuel [of ?t n] by (simp add: n_def)
qed

theorem program_parser_reads_print_witness:
  "program_parser (print_program demo_prog) 0 = Some (demo_prog, length (print_program demo_prog))"
  using program_parser_reads_print [OF demo_prog_wf] .

end
