(* ===== verification/Generator.thy ===== *)
theory Generator
  imports Grammar Limits
begin

text \<open>
  \<open>input_to_program.py\<close>: the text of the kernel program for a tree height, a batch sz and a number
  of rounds. The text blocks are the source's string constants, line by line; \<open>make_template\<close> wraps
  two variants of a block into an \<open>iftid\<close> over thread ranges; \<open>input_to_program_text\<close> strings the
  rounds together, and \<open>input_to_program\<close> parses the result. The copy written to a file is left out.
\<close>

section \<open>Python string functions\<close>

definition text_lines :: "string list \<Rightarrow> string" where
  "text_lines ls = concat (map (\<lambda>l. l @ [newline]) ls)"

text \<open>\<open>str.replace\<close> with a non-empty pattern: occurrences from left to right, without overlap.\<close>

function replace_all :: "string \<Rightarrow> string \<Rightarrow> string \<Rightarrow> string" where
  "replace_all pat rep s =
     (case s of
        [] \<Rightarrow> []
      | c # cs \<Rightarrow>
          if pat \<noteq> [] \<and> take (length pat) s = pat then rep @ replace_all pat rep (drop (length pat) s)
          else c # replace_all pat rep cs)"
  by auto
termination by (relation "measure (\<lambda>(_, _, s). length s)") auto

declare replace_all.simps [simp del]

text \<open>
  \<open>splitlines(True)\<close> on texts whose only line break is the newline, and \<open>textwrap.indent\<close>: the prefix
  goes before every line that is not blank.
\<close>

fun split_lines :: "string \<Rightarrow> string list" where
  "split_lines [] = []"
| "split_lines (c # cs) =
     (if c = newline then [c] # split_lines cs
      else case split_lines cs of [] \<Rightarrow> [[c]] | l # ls \<Rightarrow> (c # l) # ls)"

definition is_blank :: "string \<Rightarrow> bool" where
  "is_blank l = list_all (\<lambda>c. c = newline \<or> is_space c) l"

definition indent :: "string \<Rightarrow> string" where
  "indent s = concat (map (\<lambda>l. if is_blank l then l else ''    '' @ l) (split_lines s))"

section \<open>Templates\<close>

definition using_template :: "string \<Rightarrow> string \<Rightarrow> string \<Rightarrow> string" where
  "using_template template special standard =
     replace_all ''$standard$'' (indent standard) (replace_all ''$special$'' (indent special) template)"

text \<open>
  The maximal runs of special and of other threads, as half-open ranges. The state of the loop is
  the two lists and the start of the current run, \<open>- 1\<close> before the first thread.
\<close>

definition template_step ::
  "int set \<Rightarrow> (int \<times> int) list \<times> (int \<times> int) list \<times> int \<Rightarrow> int \<Rightarrow>
     (int \<times> int) list \<times> (int \<times> int) list \<times> int" where
  "template_step special_nodes st i =
     (case st of (specials, standards, start) \<Rightarrow>
        let special = i \<in> special_nodes; prev_special = i - 1 \<in> special_nodes in
        if i = 0 \<or> prev_special \<noteq> special then
          if start \<ge> 0 then
            if special then (specials, standards @ [(start, i)], i)
            else (specials @ [(start, i)], standards, i)
          else (specials, standards, i)
        else (specials, standards, start))"

definition template_ranges :: "int \<Rightarrow> int set \<Rightarrow> (int \<times> int) list \<times> (int \<times> int) list" where
  "template_ranges sz special_nodes =
     (case foldl (template_step special_nodes) ([], [], - 1) [0..sz - 1] of
        (specials, standards, start) \<Rightarrow>
          if sz - 1 \<in> special_nodes then (specials @ [(start, sz)], standards)
          else (specials, standards @ [(start, sz)]))"

definition show_range :: "int \<times> int \<Rightarrow> string" where
  "show_range r = ''range('' @ str_int (fst r) @ '', '' @ str_int (snd r) @ '')''"

definition special_branch :: "nat \<times> int \<times> int \<Rightarrow> string" where
  "special_branch x = (case x of (idx, r) \<Rightarrow>
     (if idx > 0 then ''eliftid '' else ''iftid '') @ show_range r @ [newline] @ ''$special$'' @ [newline])"

definition standard_branch :: "nat \<Rightarrow> nat \<times> int \<times> int \<Rightarrow> string" where
  "standard_branch n x = (case x of (idx, r) \<Rightarrow>
     (if idx + 1 < n then ''eliftid '' @ show_range r else ''elsetid '') @ [newline] @ ''$standard$'' @ [newline])"

definition make_template :: "int \<Rightarrow> int set \<Rightarrow> string res" where
  "make_template sz special_nodes =
     rbind (check AssertionError (sz > 0)) (\<lambda>_.
     rbind (check AssertionError (\<forall>x \<in> special_nodes. 0 \<le> x \<and> x < sz)) (\<lambda>_.
     case template_ranges sz special_nodes of (specials, standards) \<Rightarrow>
       Inr (if specials = [] then [newline] @ ''$standard$'' @ [newline]
            else if standards = [] then [newline] @ ''$special$'' @ [newline]
            else [newline, newline] @
                 concat (map special_branch (enumerate 0 specials)) @
                 concat (map (standard_branch (length standards)) (enumerate 0 standards)) @
                 ''endiftid'' @ [newline, newline])))"

section \<open>The text blocks\<close>

definition global_preamble :: string where
  "global_preamble = text_lines [
    '''', ''register[] temp1, temp2, temp3, temp4'', ''register[] treevals'', '''',
    ''treevals = @14'', ''register[] b0 = treevals[0]'', ''register[] b1 = treevals[1]'',
    ''register[] b2 = treevals[2]'', ''register[] b3 = treevals[3]'',
    ''register[] b4 = treevals[4]'', ''register[] b5 = treevals[5]'',
    ''register[] b6 = treevals[6]'', ''register[] b7 = treevals[7]'', '''', ''treevals = @7'',
    ''register[] t0 = treevals[0]'', ''register[] t1 = treevals[1]'',
    ''register[] t2 = treevals[2]'', ''register[] t4 = treevals[4]'',
    ''register[] t5 = treevals[5]'', ''register[] t6 = treevals[6]'',
    ''treevals = treevals[3] # treevals = t3'', '''', '''', ''register inp_values_ptr = @6'',
    ''end global'']"

definition thread_preamble :: string where
  "thread_preamble = text_lines [
    '''', ''# Compiler fills in implicit registers tidx and tidxlen'',
    ''# Declare if you want to use them'', ''thread register tidxlen'', '''', ''# Work registers'',
    ''thread register[] v, idx, p1, p2'', '''', ''tidxlen = tidxlen + inp_values_ptr'',
    ''v = @tidxlen'', '''']"

definition level0_header :: string where
  "level0_header = text_lines [
    '''', ''v = v ^ t0'']"

definition level0_footer :: string where
  "level0_footer = text_lines [
    '''', ''idx = v % 2'']"

definition level1_header :: string where
  "level1_header = text_lines [
    '''', ''p1 = idx ? t2 : t1'', ''v = v ^ p1'']"

definition level1_valu_header :: string where
  "level1_valu_header = text_lines [
    '''', ''p2 = t2 - t1'', ''p1 = idx * p2 + t1'', ''v = v ^ p1'']"

definition level1_footer :: string where
  "level1_footer = text_lines [
    '''', ''p1 = v % 2'']"

definition level21_header :: string where
  "level21_header = text_lines [
    '''', ''p2 = p1 ? t6 : t5'', ''temp1 =  p1 ? t4 : treevals'', ''p2 = idx ? p2 : temp1'', '''',
    ''idx = idx - -5'', ''idx = idx * 2 + p1'', ''v = v ^ p2'']"

definition level22_header :: string where
  "level22_header = text_lines [
    '''', ''p2 = p1 ? t6 : t5'', ''temp2 =  p1 ? t4 : treevals'', ''p2 = idx ? p2 : temp2'', '''',
    ''idx = idx - -5'', ''idx = idx * 2 + p1'', ''v = v ^ p2'']"

definition level2_load_header :: string where
  "level2_load_header = text_lines [
    '''', ''idx = idx - -5'', ''idx = idx * 2 + p1'', ''p1 = @idx[]'', ''v = v ^ p1'']"

definition level2_footer :: string where
  "level2_footer = text_lines [
    '''', ''p1 = v % 2'', ''p2 = p1 ? -5 : -6'', ''idx = idx * 2 + p2'']"

definition level3_header :: string where
  "level3_header = text_lines [
    '''', ''p1 = @idx[]'', ''v = v ^ p1'']"

definition level3_flow_based_header :: string where
  "level3_flow_based_header = text_lines [
    '''', '''', ''p2 = idx - 19'', ''p1 = p2 ? b0 : b5'', '''', ''p2 = p2 + 2'',
    ''p1 = p2 ? p1 : b3'', '''', ''p2 = p2 + 2'', ''p1 = p2 ? p1 : b1'', '''', ''p2 = p2 + -6'',
    ''p1 = p2 ? p1 : b7'', '''', ''p2 = p2 - -5'', ''p1 = p2 ? p1 : b2'', '''', ''p2 = p2 - 2'',
    ''p1 = p2 ? p1 : b4'', '''', ''p2 = p2 - 2'', ''p1 = p2 ? p1 : b6'', '''', ''v = v ^ p1'']"

definition level3_flow_based_footer :: string where
  "level3_flow_based_footer = text_lines [
    '''', ''p1 = v % 2'', ''p2 = p1 ? -5 : -6'', ''idx = idx * 2 + p2'']"

definition computation_text :: string where
  "computation_text = text_lines [
    '''', '''', ''# Stage 1'', ''v = v * 4097 + 0x7ED55D16'', '''', ''# Stage 2'',
    ''p1 = v ^ 0xC761C23C'', ''p2 = v >> 19'', ''v = p1 ^ p2'', '''', ''# Fuse stages 3 and 4'',
    ''p1 = v * 33 + 3925396509'', ''p2 = v * 16896 + 2899272192 '', ''v = p1 ^ p2'', '''',
    ''# Stage 5'', ''v = v * 9 + 0xFD7046C5 '', '''', ''# Stage 6'', ''p1 = v ^ 0xB55A4F09'',
    ''p2 = v >> 16'', ''v = p1 ^ p2'']"

definition level_footer :: string where
  "level_footer = text_lines [
    '''', ''p1 = v % 2'', ''p2 = p1 ? -5 : -6'', ''# p2 = p1 + -6'', ''idx = idx * 2 + p2'']"

definition footer_text :: string where
  "footer_text = text_lines [
    '''', ''@tidxlen = v'']"

section \<open>Blocks by level\<close>

definition conditional_l1 :: "int \<Rightarrow> int set \<Rightarrow> (string \<times> string) res" where
  "conditional_l1 sz special_nodes =
     rbind (make_template sz special_nodes) (\<lambda>template.
       Inr (using_template template level1_valu_header level1_header, level1_footer))"

definition conditional_l21 :: "int \<Rightarrow> int set \<Rightarrow> (string \<times> string) res" where
  "conditional_l21 sz special_nodes =
     rbind (make_template sz special_nodes) (\<lambda>template.
       Inr (using_template template level21_header level22_header, level2_footer))"

definition conditional_l22 :: "int \<Rightarrow> int set \<Rightarrow> (string \<times> string) res" where
  "conditional_l22 sz special_nodes =
     rbind (make_template sz special_nodes) (\<lambda>template.
       Inr (using_template template (replace_all ''temp1'' ''temp3'' level21_header)
              (replace_all ''temp2'' ''temp4'' level22_header), level2_footer))"

definition conditional_l3 :: "int \<Rightarrow> int set \<Rightarrow> (string \<times> string) res" where
  "conditional_l3 sz special_nodes =
     rbind (make_template sz special_nodes) (\<lambda>template.
       Inr (using_template template level3_flow_based_header level3_header,
            using_template template level3_flow_based_footer level_footer))"

definition conditional_footer :: "int \<Rightarrow> int set \<Rightarrow> string res" where
  "conditional_footer sz special_nodes =
     rbind (make_template sz special_nodes) (\<lambda>template.
       Inr (using_template template footer_text footer_text))"

section \<open>The program\<close>

definition round_blocks :: "int \<Rightarrow> nat \<Rightarrow> nat \<Rightarrow> (string \<times> string) res" where
  "round_blocks nthreads level r =
     (if level = 0 then Inr (level0_header, level0_footer)
      else if level = 1 \<and> r = 1 then conditional_l1 nthreads (set [0..31])
      else if level = 1 \<and> r > 1 then conditional_l1 nthreads {}
      else if level = 2 \<and> r = 2 then conditional_l21 nthreads (set (map (\<lambda>i. 2 * i) [0..15]))
      else if level = 2 \<and> r > 2 then conditional_l22 nthreads (set (map (\<lambda>i. 2 * i) [0..15]))
      else if level = 3 \<and> r = 3 then conditional_l3 nthreads (set [2..nthreads - 1])
      else if level = 3 \<and> r > 3 then conditional_l3 nthreads (set [0..nthreads - 1])
      else Inr (level3_header, level_footer))"

definition round_text :: "nat \<Rightarrow> int \<Rightarrow> nat \<Rightarrow> nat \<Rightarrow> string res" where
  "round_text height nthreads rounds r =
     (let level = r mod (height + 1) in
      rbind (round_blocks nthreads level r) (\<lambda>(h, f).
        Inr ([newline] @ ''######### Round '' @ str_int (int r) @ '' #########'' @ [newline] @
             h @ computation_text @ (if level = height \<or> r + 1 = rounds then [] else f))))"

definition input_to_program_text :: "nat \<Rightarrow> int \<Rightarrow> nat \<Rightarrow> string res" where
  "input_to_program_text height batch_size rounds =
     (let nthreads = batch_size div int VLEN in
      rbind (mapM (round_text height nthreads rounds) [0..<rounds]) (\<lambda>texts.
      rbind (conditional_footer nthreads {}) (\<lambda>f.
        Inr (global_preamble @ thread_preamble @ concat texts @ f))))"

text \<open>
  A text the parser rejects outright is an \<open>AttributeError\<close> (the result is \<open>None\<close>), one it does not
  read to the end is refused.
\<close>

definition input_to_program :: "nat \<Rightarrow> int \<Rightarrow> nat \<Rightarrow> program res" where
  "input_to_program height batch_size rounds =
     rbind (check AssertionError (batch_size mod int VLEN = 0)) (\<lambda>_.
     rbind (input_to_program_text height batch_size rounds) (\<lambda>tx.
       case program_parser tx 0 of
         None \<Rightarrow> Inl AttributeError
       | Some (prog, j) \<Rightarrow> if j \<noteq> length tx then Inl ParseFailure else Inr prog))"

end
