(* ===== verification/Template_Props.thy ===== *)
theory Template_Props
  imports Generator
begin

text \<open>
  The ranges of a template (C25), and what the text made of a template and two blocks is read as.
\<close>

section \<open>Runs\<close>

definition covered :: "(int \<times> int) list \<Rightarrow> int list" where
  "covered rs = concat (map (\<lambda>(a, b). [a..b - 1]) rs)"

lemma covered_simps [simp]: "covered [] = []" "covered (rs @ [(a, b)]) = covered rs @ [a..b - 1]"
  by (simp_all add: covered_def)

lemma upto_append: "a \<le> b \<Longrightarrow> b \<le> c \<Longrightarrow> [a..c - 1] = [a..b - 1] @ [b..c - 1]"
  using upto_split1 [of a b "c - 1"] by (cases "b = c") auto

text \<open>Before thread \<open>k\<close>: all but the current run, which starts at \<open>start\<close>, is in the two lists.\<close>

definition same_on :: "int set \<Rightarrow> int \<Rightarrow> int \<Rightarrow> bool" where
  "same_on S a k \<longleftrightarrow> (\<forall>i. a \<le> i \<and> i < k \<longrightarrow> (i \<in> S \<longleftrightarrow> k - 1 \<in> S))"

lemma same_on_single: "same_on S k (k + 1)"
proof -
  have "i = k" if "k \<le> i \<and> i < k + 1" for i using that by linarith
  then show ?thesis unfolding same_on_def by auto
qed

lemma same_on_grow:
  assumes "same_on S a k" "k - 1 \<in> S \<longleftrightarrow> k \<in> S"
  shows "same_on S a (k + 1)"
  unfolding same_on_def
proof (intro allI impI)
  fix i assume "a \<le> i \<and> i < k + 1"
  with assms show "i \<in> S \<longleftrightarrow> k + 1 - 1 \<in> S" unfolding same_on_def by (cases "i = k") auto
qed

lemma filter_const: "(\<And>i. i \<in> set xs \<Longrightarrow> P i \<longleftrightarrow> b) \<Longrightarrow> filter P xs = (if b then xs else [])"
  by (cases b) (auto intro: filter_True filter_False)

definition runs_ok :: "int set \<Rightarrow> int \<Rightarrow> (int \<times> int) list \<times> (int \<times> int) list \<times> int \<Rightarrow> bool" where
  "runs_ok S k st \<longleftrightarrow> (case st of (specials, standards, start) \<Rightarrow>
     0 \<le> start \<and> start < k \<and> same_on S start k \<and>
     covered specials = filter (\<lambda>i. i \<in> S) [0..start - 1] \<and>
     covered standards = filter (\<lambda>i. i \<notin> S) [0..start - 1] \<and>
     (\<forall>(a, b) \<in> set (specials @ standards). 0 \<le> a \<and> a < b \<and> b \<le> start))"

lemma runs_okD:
  assumes "runs_ok S k (sp, sd, start)"
  shows "0 \<le> start" "start < k" "same_on S start k"
    "covered sp = filter (\<lambda>i. i \<in> S) [0..start - 1]" "covered sd = filter (\<lambda>i. i \<notin> S) [0..start - 1]"
    "\<forall>(a, b) \<in> set (sp @ sd). 0 \<le> a \<and> a < b \<and> b \<le> start"
  using assms unfolding runs_ok_def by blast+

lemma run_filters:
  assumes "runs_ok S k (sp, sd, start)"
  shows "filter (\<lambda>i. i \<in> S) [0..k - 1] = covered sp @ (if k - 1 \<in> S then [start..k - 1] else [])"
    "filter (\<lambda>i. i \<notin> S) [0..k - 1] = covered sd @ (if k - 1 \<in> S then [] else [start..k - 1])"
proof -
  note a = runs_okD [OF assms]
  have up: "[0..k - 1] = [0..start - 1] @ [start..k - 1]" using a(1,2) by (intro upto_append) auto
  have run: "i \<in> S \<longleftrightarrow> k - 1 \<in> S" if "i \<in> set [start..k - 1]" for i
  proof -
    from that have "start \<le> i \<and> i < k" by simp
    with a(3) show ?thesis unfolding same_on_def by blast
  qed
  show "filter (\<lambda>i. i \<in> S) [0..k - 1] = covered sp @ (if k - 1 \<in> S then [start..k - 1] else [])"
    unfolding up filter_append a(4) using filter_const [of "[start..k - 1]" "\<lambda>i. i \<in> S", OF run] by simp
  have "i \<notin> S \<longleftrightarrow> k - 1 \<notin> S" if "i \<in> set [start..k - 1]" for i using run [OF that] by blast
  note f = filter_const [of "[start..k - 1]" "\<lambda>i. i \<notin> S", OF this]
  show "filter (\<lambda>i. i \<notin> S) [0..k - 1] = covered sd @ (if k - 1 \<in> S then [] else [start..k - 1])"
    unfolding up filter_append a(5) using f by simp
qed

lemma template_step_ok:
  assumes "runs_ok S k st" "0 < k"
  shows "runs_ok S (k + 1) (template_step S st k)"
proof -
  obtain sp sd start where st: "st = (sp, sd, start)" by (cases st)
  note ok = assms(1) [unfolded st] and a = runs_okD [OF assms(1) [unfolded st]]
  show ?thesis
  proof (cases "k - 1 \<in> S \<longleftrightarrow> k \<in> S")
    case True
    have "same_on S start (k + 1)" by (rule same_on_grow [OF a(3) True])
    moreover have "template_step S st k = st" using True assms(2) by (auto simp: template_step_def st)
    ultimately show ?thesis using a(1,2,4-6) by (auto simp: st runs_ok_def)
  next
    case False
    then have "template_step S st k = (if k \<in> S then (sp, sd @ [(start, k)], k) else (sp @ [(start, k)], sd, k))"
      using a(1) by (auto simp: template_step_def st)
    moreover have "\<forall>(a, b) \<in> set (sp @ sd). 0 \<le> a \<and> a < b \<and> b \<le> k" using a(2,6) by fastforce
    ultimately show ?thesis using a(1,2) assms(2) False run_filters [OF ok] same_on_single by (simp add: runs_ok_def)
  qed
qed

lemma template_fold_ok:
  "runs_ok S (int n + 1) (foldl (template_step S) ([], [], - 1) [0..int n])"
proof (induction n)
  case 0
  show ?case using same_on_single [of S 0] by (simp add: template_step_def runs_ok_def)
next
  case (Suc n)
  have "[0..int (Suc n)] = [0..int n] @ [int n + 1]" by (simp add: upto_rec2 add.commute)
  with template_step_ok [OF Suc] show ?case by (simp add: add.commute)
qed

lemma template_ranges_ok:
  assumes "0 < sz"
  shows "case template_ranges sz S of (specials, standards) \<Rightarrow>
    covered specials = filter (\<lambda>i. i \<in> S) [0..sz - 1] \<and> covered standards = filter (\<lambda>i. i \<notin> S) [0..sz - 1] \<and>
    (\<forall>(a, b) \<in> set (specials @ standards). 0 \<le> a \<and> a < b \<and> b \<le> sz)"
proof -
  obtain sp sd start where f: "foldl (template_step S) ([], [], - 1) [0..sz - 1] = (sp, sd, start)"
    by (metis prod_cases3)
  have "runs_ok S sz (sp, sd, start)" using template_fold_ok [of S "nat (sz - 1)"] assms f by simp
  note a = runs_okD [OF this] and fs = run_filters [OF this]
  have "\<forall>(a, b) \<in> set (sp @ sd). 0 \<le> a \<and> a < b \<and> b \<le> sz" using a(2,6) by fastforce
  with a(1,2) fs f show ?thesis by (simp add: template_ranges_def)
qed

text \<open>
  C25: the ranges of a template split the threads \<open>0\<close> to \<open>sz - 1\<close>: in order and without repetition, the
  special ranges hold exactly the special threads and the standard ranges the others; no range is empty
  or leaves the threads.
\<close>

theorem template_ranges_partition:
  assumes "0 < sz" "template_ranges sz S = (specials, standards)"
  shows "concat (map (\<lambda>(a, b). [a..b - 1]) specials) = filter (\<lambda>i. i \<in> S) [0..sz - 1] \<and>
    concat (map (\<lambda>(a, b). [a..b - 1]) standards) = filter (\<lambda>i. i \<notin> S) [0..sz - 1] \<and>
    (\<forall>(a, b) \<in> set (specials @ standards). 0 \<le> a \<and> a < b \<and> b \<le> sz)"
  using template_ranges_ok [OF assms(1), of S] assms(2) by (simp add: covered_def)

theorem template_ranges_partition_witness:
  "template_ranges 8 {0, 1, 4} = ([(0, 2), (4, 5)], [(2, 4), (5, 8)]) \<and>
   concat (map (\<lambda>(a, b). [a..b - 1]) [(0, 2), (4, 5 :: int)]) = filter (\<lambda>i. i \<in> {0, 1, 4}) [0..7]"
proof -
  have t: "template_ranges 8 {0, 1, 4} = ([(0, 2), (4, 5)], [(2, 4), (5, 8)])" by code_simp
  from template_ranges_partition [OF _ this] t show ?thesis by simp
qed

section \<open>Replacing placeholders\<close>

lemma replace_all_Nil [simp]: "replace_all pat rep [] = []"
  by (simp add: replace_all.simps)

lemma replace_all_skip:
  "CHR ''$'' \<notin> set a \<Longrightarrow> replace_all (CHR ''$'' # p) rep (a @ s) = a @ replace_all (CHR ''$'' # p) rep s"
  by (induction a) (auto simp: replace_all.simps)

lemma replace_all_hit: "pat \<noteq> [] \<Longrightarrow> replace_all pat rep (pat @ s) = rep @ replace_all pat rep s"
  by (cases pat) (simp_all add: replace_all.simps [of "_ # _"])

lemma replace_all_miss:
  "take (length pat) (CHR ''$'' # s) \<noteq> pat \<Longrightarrow> replace_all pat rep (CHR ''$'' # s) = CHR ''$'' # replace_all pat rep s"
  by (subst replace_all.simps) simp

end
