(* ===== verification/Text_Blocks.thy ===== *)
theory Text_Blocks
  imports Text_Reading Generator
begin

text \<open>
  How the parser reads the text blocks of the program generator: line by line, whatever follows, and
  the same when they are indented.
\<close>

section \<open>Texts read by a repetition\<close>

definition reads_by :: "stmt parser \<Rightarrow> string \<Rightarrow> stmt list \<Rightarrow> bool" where
  "reads_by p tx sts \<longleftrightarrow> (\<forall>r vs r'. on (star p) (skip r) = Some (vs, r') \<longrightarrow>
     on (star p) (skip (tx @ r)) = Some (sts @ vs, r'))"

lemma reads_by_Nil: "reads_by p [] []"
  by (simp add: reads_by_def)

lemma reads_by_append: "reads_by p a xs \<Longrightarrow> reads_by p b ys \<Longrightarrow> reads_by p (a @ b) (xs @ ys)"
  unfolding reads_by_def by fastforce

lemma reads_by_concat: "list_all2 (reads_by p) ts stss \<Longrightarrow> reads_by p (concat ts) (concat stss)"
  by (induction rule: list_all2_induct) (simp_all add: reads_by_Nil reads_by_append)

lemma reads_by_indented: "reads_by p tx sts \<Longrightarrow> reads_by p (''    '' @ tx) sts"
  by (simp add: reads_by_def)

lemma reads_by_line:
  assumes p: "local p" and l: "\<And>r. on p (l @ newline # r) = Some (st, skip r)" "\<And>r. skip (l @ newline # r) = l @ newline # r"
  shows "reads_by p (l @ [newline]) [st]"
  unfolding reads_by_def
proof (intro allI impI)
  fix r vs r' assume "on (star p) (skip r) = Some (vs, r')"
  with l p length_skip [of r] show "on (star p) (skip ((l @ [newline]) @ r)) = Some ([st] @ vs, r')"
    by (simp add: on_star [OF p, of "l @ newline # r"])
qed

lemma skip_comment_line:
  assumes "newline \<notin> set l"
  shows "skip (CHR ''#'' # l @ newline # r) = skip r"
proof -
  have "dropWhile (\<lambda>c. c \<noteq> newline) (l @ newline # r) = newline # r"
    using assms by (induction l) auto
  moreover have "\<not> is_space CHR ''#''" by (simp add: is_space_def)
  ultimately show ?thesis by (simp add: skip.simps [of "CHR ''#'' # l @ newline # r"] skip_comment_def)
qed

section \<open>Lines\<close>

text \<open>
  The lines of the blocks: empty, a comment, a statement as the printer writes it, or an assignment with
  another space or a comment.
\<close>

definition odd_line :: "string \<Rightarrow> string \<Rightarrow> value_expr \<Rightarrow> bool" where
  "odd_line l n e \<longleftrightarrow> l = n @ '' =  '' @ print_expr e \<or>
     (case e of
        MultAddExpr _ _ _ \<Rightarrow> l = n @ '' = '' @ print_expr e @ '' ''
      | Variable _ (Some _) \<Rightarrow> take (length n + length (print_expr e) + 5) l = n @ '' = '' @ print_expr e @ '' #''
      | _ \<Rightarrow> False)"

definition ok_stmt :: "bool \<Rightarrow> stmt \<Rightarrow> bool" where
  "ok_stmt th st \<longleftrightarrow> (if th then thread_stmt_wf st \<and> plain st else global_stmt_wf st)"

definition ok_line :: "bool \<Rightarrow> string \<Rightarrow> stmt list \<Rightarrow> bool" where
  "ok_line th l sts \<longleftrightarrow> newline \<notin> set l \<and> CHR ''$'' \<notin> set l \<and>
     (case sts of
        [] \<Rightarrow> l = [] \<or> take 1 l = ''#''
      | [st] \<Rightarrow> ok_stmt th st \<and>
          (l @ [newline] = print_stmt st \<or> (case st of LoadVariable n e \<Rightarrow> odd_line l n e | _ \<Rightarrow> False))
      | _ \<Rightarrow> False)"

definition stmt_parser :: "bool \<Rightarrow> nat \<Rightarrow> stmt parser" where
  "stmt_parser th n = (if th then thread_local_stmt (Suc n) else global_stmt)"

lemma local_stmt_parser [simp]: "local (stmt_parser th n)"
  by (simp add: stmt_parser_def)

lemma ok_stmt_on: "ok_stmt th st \<Longrightarrow> on (stmt_parser th n) (print_stmt st @ r) = Some (st, skip r)"
  by (auto simp: ok_stmt_def stmt_parser_def plain_stmt_on global_stmt_on split: if_splits)

lemma ok_stmt_fresh: "ok_stmt th st \<Longrightarrow> skip (print_stmt st @ r) = print_stmt st @ r"
  by (intro fresh_skip fresh_stmt) (auto simp: ok_stmt_def split: if_splits)

text \<open>An assignment is read by its right side.\<close>

lemma assignment_read:
  assumes n: "is_ident n" and e: "on value_expr et = Some (e, u)" "dropWhile is_space et = et"
    and u: "skip_comment (dropWhile is_space u) = newline # r" and sp: "sp = '' '' \<or> sp = ''  ''"
  shows "on (stmt_parser th k) (n @ '' ='' @ sp @ et) = Some (LoadVariable n e, skip r)"
proof -
  have "on assignment_stmt (n @ CHR '' '' # CHR ''='' # sp @ et) = Some (LoadVariable n e, skip r)"
    using n e sp by (auto simp: assignment_stmt_def on_por on_pmap on_pseq on_punctuation breaks_on [OF u])
  then show ?thesis using decl_fails [OF n]
    by (simp add: stmt_parser_def thread_Suc global_stmt_def on_por on_pmap)
qed

lemma mult_add_on:
  assumes "expr_wf (MultAddExpr a b c)"
  shows "on value_expr (print_expr (MultAddExpr a b c) @ CHR '' '' # r) = Some (MultAddExpr a b c, CHR '' '' # r)"
proof -
  from assms have w: "is_ident a" "operand_wf b" "operand_wf c" by (simp_all add: expr_wf_def)
  have "on cond_expr (a @ CHR '' '' # CHR ''*'' # CHR '' '' # r) = Some (CondName a, CHR '' '' # CHR ''*'' # CHR '' '' # r)" for r
    using w(1) operand_on [of "Name a" "CHR '' ''"] by (simp add: cond_expr_def parse_simps operand_wf_def print_operand_def)
  with w show ?thesis
    by (simp add: value_expr_def on_por select_expr_def mult_add_expr_def parse_simps print_expr_def)
qed

lemma index_on:
  assumes "expr_wf (Variable n (Some k))"
  shows "on value_expr (print_expr (Variable n (Some k)) @ r) = Some (Variable n (Some k), r)"
proof -
  from assms have n: "operand_wf (Name n)" "print_operand (Name n) = n" "is_ident n" "int_const_wf k"
    by (simp_all add: operand_wf_def print_operand_def expr_wf_def)
  note no = no_operand [OF n(1), unfolded n(2)]
  from n(3,4) no show ?thesis
    by (simp add: value_expr_def variable_expr_def on_por on_pmap on_pseq on_opt on_lit print_expr_def)
qed

lemma odd_line_on:
  assumes w: "is_ident n" "expr_wf e" and l: "odd_line l n e" "newline \<notin> set l"
  shows "on (stmt_parser th k) (l @ newline # r) = Some (LoadVariable n e, skip r)"
proof -
  have nl: "skip_comment (dropWhile is_space (newline # r)) = newline # r" by (simp add: skip_comment_def)
  note start = expr_starts [OF w(2)]
  from l(1) consider (wide) "l = n @ '' =  '' @ print_expr e"
    | (trail) a b c where "e = MultAddExpr a b c" "l = n @ '' = '' @ print_expr e @ '' ''"
    | (note_after) m i where "e = Variable m (Some i)" "take (length n + length (print_expr e) + 5) l = n @ '' = '' @ print_expr e @ '' #''"
    unfolding odd_line_def by (auto split: value_expr.splits option.splits)
  then show ?thesis
  proof cases
    case wide
    from assignment_read [OF w(1) value_expr_on [OF w(2)] start nl, of "''  ''" th k] wide show ?thesis by simp
  next
    case trail
    have "skip_comment (dropWhile is_space (CHR '' '' # newline # r)) = newline # r" by (simp add: skip_comment_def)
    from assignment_read [OF w(1) mult_add_on [OF w(2) [unfolded trail(1)]] _ this, of "'' ''" th k] start trail show ?thesis by simp
  next
    case note_after
    define c where "c = drop (length n + length (print_expr e) + 5) l"
    then have l': "l = n @ '' = '' @ print_expr e @ '' #'' @ c" using note_after(2) by (metis append_take_drop_id append.assoc)
    then have "newline \<notin> set c" using l(2) by simp
    then have "dropWhile (\<lambda>c. c \<noteq> newline) (c @ newline # r) = newline # r" by (induction c) auto
    then have "skip_comment (dropWhile is_space ('' #'' @ c @ newline # r)) = newline # r"
      by (simp add: skip_comment_def is_space_def)
    from assignment_read [OF w(1) index_on [OF w(2) [unfolded note_after(1)]] _ this, of "'' ''" th k] start l' note_after(1)
    show ?thesis by simp
  qed
qed

lemma odd_line_prefix:
  assumes "odd_line l n e"
  shows "\<exists>y. l = n @ y"
proof -
  have "\<exists>y. l = n @ y" if "take k l = n @ x" for k x using append_take_drop_id [of k l] that by (metis append.assoc)
  with assms show ?thesis unfolding odd_line_def by (auto split: value_expr.splits option.splits)
qed

lemma ok_line_reads:
  assumes "ok_line th l sts"
  shows "reads_by (stmt_parser th n) (l @ [newline]) sts"
proof (cases sts)
  case Nil
  show ?thesis
  proof (cases l)
    case Nil
    with \<open>sts = []\<close> show ?thesis by (simp add: reads_by_def)
  next
    case (Cons c cs)
    with assms \<open>sts = []\<close> skip_comment_line [of cs] show ?thesis by (auto simp: ok_line_def reads_by_def)
  qed
next
  case (Cons st sts')
  with assms have st: "sts = [st]" "ok_stmt th st" by (auto simp: ok_line_def split: list.splits)
  from assms st consider (printed) "l @ [newline] = print_stmt st"
    | (odd) m e where "st = LoadVariable m e" "odd_line l m e" by (auto simp: ok_line_def split: stmt.splits)
  then show ?thesis
  proof cases
    case printed
    have eq: "l @ newline # r = print_stmt st @ r" for r using printed [symmetric] by simp
    show ?thesis unfolding st(1)
      by (rule reads_by_line) (simp_all only: eq ok_stmt_on [OF st(2)] ok_stmt_fresh [OF st(2)] local_stmt_parser)
  next
    case odd
    from st odd(1) have w: "is_ident m" "expr_wf e" by (auto simp: ok_stmt_def global_stmt_wf_def split: if_splits)
    have "fresh (l @ x)" for x
      using odd_line_prefix [OF odd(2)] w(1) by auto
    with st(1) odd odd_line_on [OF w odd(2)] assms show ?thesis by (auto simp: ok_line_def intro: reads_by_line)
  qed
qed

section \<open>Blocks\<close>

definition block :: "bool \<Rightarrow> string list \<Rightarrow> stmt list list \<Rightarrow> bool" where
  "block th ls stss \<longleftrightarrow> list_all2 (ok_line th) ls stss"

lemma block_reads:
  assumes "block th ls stss"
  shows "reads_by (stmt_parser th n) (text_lines ls) (concat stss)"
  unfolding text_lines_def using assms
  by (intro reads_by_concat) (auto simp: block_def list_all2_map1 intro: ok_line_reads elim: list_all2_mono)

lemma block_no_newline: "block th ls stss \<Longrightarrow> l \<in> set ls \<Longrightarrow> newline \<notin> set l \<and> CHR ''$'' \<notin> set l"
  by (auto simp: block_def list_all2_conv_all_nth in_set_conv_nth ok_line_def)

lemma split_line: "newline \<notin> set l \<Longrightarrow> split_lines (l @ newline # s) = (l @ [newline]) # split_lines s"
  by (induction l) auto

lemma split_text_lines:
  "(\<And>l. l \<in> set ls \<Longrightarrow> newline \<notin> set l) \<Longrightarrow> split_lines (text_lines ls) = map (\<lambda>l. l @ [newline]) ls"
  by (induction ls) (auto simp: text_lines_def split_line)

definition indent_line :: "string \<Rightarrow> string" where
  "indent_line l = (if is_blank l then l else ''    '' @ l)"

lemma indent_text_lines:
  assumes "block th ls stss"
  shows "indent (text_lines ls) = concat (map (\<lambda>l. indent_line (l @ [newline])) ls)"
  using split_text_lines [of ls] block_no_newline [OF assms]
  by (simp add: indent_def indent_line_def comp_def)

lemma indent_reads:
  assumes "block th ls stss"
  shows "reads_by (stmt_parser th n) (indent (text_lines ls)) (concat stss)"
proof -
  have "reads_by (stmt_parser th n) (indent_line (l @ [newline])) sts" if "ok_line th l sts" for l sts
    using ok_line_reads [OF that] reads_by_indented by (auto simp: indent_line_def)
  with assms show ?thesis
    unfolding indent_text_lines [OF assms]
    by (intro reads_by_concat) (auto simp: block_def list_all2_map1 elim: list_all2_mono)
qed

lemma indent_no_placeholder:
  assumes "block th ls stss"
  shows "CHR ''$'' \<notin> set (indent (text_lines ls))"
proof -
  have "CHR ''$'' \<noteq> newline" by code_simp
  then show ?thesis
    unfolding indent_text_lines [OF assms] using block_no_newline [OF assms] by (auto simp: indent_line_def)
qed

text \<open>The text of a branch.\<close>

lemma reads_branch:
  assumes "reads_by (thread_local_stmt n) tx sts"
  shows "reads_to (thread_local_stmt n) (tx @ [newline]) sts"
  unfolding reads_to_def
proof (intro allI impI)
  fix r assume r: "branch_end r"
  from branch_end_stops [OF r] have "on (star (thread_local_stmt n)) (skip (newline # r)) = Some ([], r)"
    by (simp add: on_star)
  with assms have "on (star (thread_local_stmt n)) (skip (tx @ newline # r)) = Some (sts @ [], r)"
    unfolding reads_by_def by blast
  then show "on (star (thread_local_stmt n)) (skip ((tx @ [newline]) @ r)) = Some (sts, r)" by simp
qed

end
