(* ===== verification/Template_Text.thy ===== *)
theory Template_Text
  imports Template_Props Text_Blocks Language
begin

text \<open>
  What the text made of a template and two blocks is read as, and what it does: every thread runs the
  block of its kind.
\<close>

section \<open>The text\<close>

definition range_of :: "int \<times> int \<Rightarrow> tid_range" where
  "range_of r = TidRange (NumberString (str_int (fst r))) (NumberString (str_int (snd r)))"

lemma show_range_print: "show_range r = print_range (range_of r)"
  by (simp add: show_range_def print_range_def range_of_def print_const_def)

lemma str_int_chars: "c \<in> set (str_int k) \<Longrightarrow> is_digit c \<or> c = CHR ''-''"
  using str_nat_digits [of "nat k"] str_nat_digits [of "nat (- k)"] by (auto simp: str_int_def list_all_iff split: if_splits)

lemma str_int_wf: "int_const_wf (NumberString (str_int k))"
  using str_nat_digits [of "nat k"] str_nat_digits [of "nat (- k)"] str_nat_hd [of "nat k"]
  by (cases "str_nat (nat k)") (auto simp: int_const_wf_def str_int_def Let_def)

lemma range_of_wf: "range_wf (range_of r)"
  by (simp add: range_wf_def range_of_def str_int_wf)

lemma to_int_str_int: "to_int (NumberString (str_int k)) = Inr k"
  by (simp add: to_int_def int_of_dec_str_int)

lemma range_set_of: "range_set (range_of (a, b)) = Inr {a ..< b}"
  by (simp add: range_set_def range_of_def to_int_str_int)

lemma no_placeholder: "CHR ''$'' \<notin> set (print_range (range_of r))"
proof -
  have "CHR ''$'' \<notin> set (str_int k)" for k using str_int_chars [of "CHR ''$''" k] by (auto simp: is_digit_def)
  then show ?thesis by (simp add: print_range_def range_of_def print_const_def)
qed

definition fill :: "string \<Rightarrow> string \<Rightarrow> string \<Rightarrow> string" where
  "fill special standard s = replace_all ''$standard$'' standard (replace_all ''$special$'' special s)"

lemma fill_skip: "CHR ''$'' \<notin> set a \<Longrightarrow> fill sp st (a @ s) = a @ fill sp st s"
  by (simp add: fill_def replace_all_skip)

lemma fill_special: "CHR ''$'' \<notin> set sp \<Longrightarrow> fill sp st (''$special$'' @ s) = sp @ fill sp st s"
  using replace_all_hit [of "''$special$''" sp s] by (simp add: fill_def replace_all_skip)

lemma newline_ne_dollar: "CHR ''$'' \<noteq> newline" and newline_ne_s: "newline \<noteq> CHR ''s''"
  by code_simp+

lemma fill_newline: "fill sp st (newline # s) = newline # fill sp st s"
  using fill_skip [of "[newline]" sp st s] newline_ne_dollar by simp

lemma fill_standard: "fill sp st (''$standard$'' @ newline # s) = st @ newline # fill sp st s"
proof -
  let ?R = "replace_all ''$special$'' sp"
  have "?R (''$standard$'' @ newline # s) = CHR ''$'' # ?R (''standard'' @ CHR ''$'' # newline # s)"
    using replace_all_miss [of "''$special$''" "''standard'' @ CHR ''$'' # newline # s" sp] by simp
  also have "?R (''standard'' @ CHR ''$'' # newline # s) = ''standard'' @ ?R (CHR ''$'' # newline # s)"
    by (rule replace_all_skip) simp
  also have "?R (CHR ''$'' # newline # s) = CHR ''$'' # ?R (newline # s)"
    using newline_ne_s by (intro replace_all_miss) auto
  also have "?R (newline # s) = newline # ?R s"
    using replace_all_skip [of "[newline]" "''special$''" sp s] newline_ne_dollar by simp
  finally have "?R (''$standard$'' @ newline # s) = ''$standard$'' @ newline # ?R s" by simp
  moreover have "replace_all ''$standard$'' st (newline # x) = newline # replace_all ''$standard$'' st x" for x
    using replace_all_skip [of "[newline]" "''standard$''" st x] newline_ne_dollar by simp
  ultimately show ?thesis unfolding fill_def using replace_all_hit [of "''$standard$''"] by simp
qed

lemma fill_line_special:
  assumes "CHR ''$'' \<notin> set k" "CHR ''$'' \<notin> set sp"
  shows "fill sp st (k @ newline # ''$special$'' @ newline # s) = k @ newline # sp @ newline # fill sp st s"
  unfolding fill_skip [OF assms(1)] fill_newline fill_special [OF assms(2)] ..

lemma fill_line_standard:
  assumes "CHR ''$'' \<notin> set k"
  shows "fill sp st (k @ newline # ''$standard$'' @ newline # s) = k @ newline # st @ newline # fill sp st s"
  unfolding fill_skip [OF assms] fill_newline fill_standard ..

lemma fill_special_branch:
  assumes "CHR ''$'' \<notin> set sp"
  shows "fill sp st (special_branch (i, r) @ s) =
    (if i > 0 then ''eliftid '' else ''iftid '') @ print_range (range_of r) @ newline # sp @ newline # fill sp st s"
proof -
  define k where "k = (if i > 0 then ''eliftid '' else ''iftid '') @ print_range (range_of r)"
  have "CHR ''$'' \<notin> set k" using no_placeholder by (simp add: k_def)
  moreover have "special_branch (i, r) @ s = k @ newline # ''$special$'' @ newline # s"
    by (simp add: special_branch_def show_range_print k_def)
  ultimately have "fill sp st (special_branch (i, r) @ s) = k @ newline # sp @ newline # fill sp st s"
    using fill_line_special [OF _ assms] by metis
  then show ?thesis by (simp add: k_def)
qed

lemma fill_standard_branch:
  "fill sp st (standard_branch n (i, r) @ s) =
    (if i + 1 < n then ''eliftid '' @ print_range (range_of r) else ''elsetid '') @ newline # st @ newline # fill sp st s"
proof -
  define k where "k = (if i + 1 < n then ''eliftid '' @ print_range (range_of r) else ''elsetid '')"
  have "CHR ''$'' \<notin> set k" using no_placeholder by (simp add: k_def)
  moreover have "standard_branch n (i, r) @ s = k @ newline # ''$standard$'' @ newline # s"
    by (simp add: standard_branch_def show_range_print k_def)
  ultimately show ?thesis unfolding k_def [symmetric] using fill_line_standard by metis
qed

lemma fill_elifs:
  assumes "CHR ''$'' \<notin> set sp"
  shows "fill sp st (concat (map special_branch (enumerate (Suc k) rs)) @ s) =
    elif_texts (map (\<lambda>r. (range_of r, sp @ [newline])) rs) @ fill sp st s"
  by (induction rs arbitrary: k) (simp_all add: fill_special_branch [OF assms])

lemma fill_standards:
  "rs \<noteq> [] \<Longrightarrow> k + length rs = n \<Longrightarrow> fill sp st (concat (map (standard_branch n) (enumerate k rs)) @ s) =
    elif_texts (map (\<lambda>r. (range_of r, st @ [newline])) (butlast rs)) @ else_text '' '' (st @ newline # fill sp st s)"
proof (induction rs arbitrary: k)
  case (Cons r rs)
  show ?case
  proof (cases rs)
    case Nil
    with Cons.prems show ?thesis by (simp add: fill_standard_branch else_text_def)
  next
    case (Cons r' rs')
    with Cons.IH [of "Suc k"] Cons.prems show ?thesis by (simp add: fill_standard_branch)
  qed
qed simp

definition template_text :: "int \<Rightarrow> int set \<Rightarrow> string \<Rightarrow> string \<Rightarrow> string" where
  "template_text sz S sp st =
     (case template_ranges sz S of (specials, standards) \<Rightarrow>
        if specials = [] then newline # st @ [newline]
        else if standards = [] then newline # sp @ [newline]
        else newline # newline # ''iftid '' @ print_range (range_of (hd specials)) @ newline # (sp @ [newline]) @
          elif_texts (map (\<lambda>r. (range_of r, sp @ [newline])) (tl specials) @
            map (\<lambda>r. (range_of r, st @ [newline])) (butlast standards)) @
          else_text '' '' ((st @ [newline]) @ ''endiftid'' @ [newline, newline]))"

lemma using_template_text:
  assumes "make_template sz S = Inr tmpl" "CHR ''$'' \<notin> set (indent special)"
  shows "using_template tmpl special standard = template_text sz S (indent special) (indent standard)"
proof -
  obtain specials standards where r: "template_ranges sz S = (specials, standards)" by (metis prod.exhaust)
  let ?sp = "indent special" and ?st = "indent standard"
  have u: "using_template tmpl special standard = fill ?sp ?st tmpl" by (simp add: using_template_def fill_def)
  note nl = fill_newline [of ?sp ?st]
  have none: "fill ?sp ?st [] = []" by (simp add: fill_def)
  consider "specials = []" | "specials \<noteq> []" "standards = []" | r0 rs where "specials = r0 # rs" "standards \<noteq> []"
    by (cases specials) auto
  then show ?thesis
  proof cases
    case 1
    with assms(1) r have "tmpl = newline # ''$standard$'' @ newline # []" by (auto simp: make_template_def rbind_Inr_iff)
    with 1 r show ?thesis unfolding u template_text_def by (simp only: nl fill_standard none) simp
  next
    case 2
    with assms(1) r have "tmpl = newline # ''$special$'' @ newline # []" by (auto simp: make_template_def rbind_Inr_iff)
    with 2 r show ?thesis unfolding u template_text_def by (simp only: nl fill_special [OF assms(2)] none) simp
  next
    case 3
    with assms(1) r have t: "tmpl = newline # newline # special_branch (0, r0) @ concat (map special_branch (enumerate (Suc 0) rs)) @
        concat (map (standard_branch (length standards)) (enumerate 0 standards)) @ ''endiftid'' @ newline # newline # []"
      by (auto simp: make_template_def rbind_Inr_iff)
    have e: "fill ?sp ?st (''endiftid'' @ newline # newline # []) = ''endiftid'' @ newline # newline # []"
      by (subst fill_skip) (simp_all only: nl none, simp)
    show ?thesis
      unfolding u unfolding t template_text_def r nl fill_special_branch [OF assms(2)] fill_elifs [OF assms(2)]
        fill_standards [OF 3(2) add_0] e
      using 3 by (simp add: elif_texts_append)
  qed
qed

section \<open>Reading it\<close>

definition template_stmts :: "int \<Rightarrow> int set \<Rightarrow> stmt list \<Rightarrow> stmt list \<Rightarrow> stmt list" where
  "template_stmts sz S A B =
     (case template_ranges sz S of (specials, standards) \<Rightarrow>
        if specials = [] then B else if standards = [] then A
        else [TidIfElseStmt (map range_of (specials @ butlast standards)) (map (\<lambda>_. A) specials @ map (\<lambda>_. B) standards)])"

lemma reads_by_newline: "reads_by p [newline] []"
  by (simp add: reads_by_def)

lemma template_reads:
  assumes A: "\<And>n. reads_by (stmt_parser True n) sp A" and B: "\<And>n. reads_by (stmt_parser True n) st B"
  shows "reads_by (stmt_parser True (Suc n)) (template_text sz S sp st) (template_stmts sz S A B)"
proof -
  obtain specials standards where r: "template_ranges sz S = (specials, standards)" by (metis prod.exhaust)
  let ?p = "stmt_parser True (Suc n)"
  have around: "reads_by ?p (newline # t @ [newline]) sts" if "reads_by ?p t sts" for t sts
    using reads_by_append [OF reads_by_newline reads_by_append [OF that reads_by_newline]] by simp
  consider "specials = []" | "specials \<noteq> []" "standards = []" | r0 rs where "specials = r0 # rs" "standards \<noteq> []"
    by (cases specials) auto
  then show ?thesis
  proof cases
    case 1
    with r around [OF B] show ?thesis by (simp add: template_text_def template_stmts_def)
  next
    case 2
    with r around [OF A] show ?thesis by (simp add: template_text_def template_stmts_def)
  next
    case 3
    define xs where "xs = map (\<lambda>r. (range_of r, sp @ [newline], A)) rs @ map (\<lambda>r. (range_of r, st @ [newline], B)) (butlast standards)"
    let ?q = "thread_local_stmt (Suc n)"
    have q: "reads_to ?q (sp @ [newline]) A" "reads_to ?q (st @ [newline]) B"
      using A [of n] B [of n] by (auto simp: stmt_parser_def intro: reads_branch)
    then have xs: "list_all (\<lambda>(rg, t, b). range_wf rg \<and> reads_to ?q t b) xs"
      by (auto simp: xs_def list_all_iff range_of_wf)
    define l where "l = ''iftid '' @ print_range (range_of r0) @ newline # (sp @ [newline]) @
      elif_texts (map (\<lambda>(rg, t, b). (rg, t)) xs) @ else_text '' '' ((st @ [newline]) @ ''endiftid'')"
    define u where "u = TidIfElseStmt (range_of r0 # map fst xs) (A # map (snd \<circ> snd) xs @ [B])"
    have on: "on ?p (l @ newline # r) = Some (u, skip r)" for r
    proof -
      obtain x where x: "l @ newline # r = ''iftid range'' @ x" by (simp add: l_def print_range_def)
      have "on ?p (l @ newline # r) = on (tid_if_else_stmt ?q) (l @ newline # r)"
        unfolding x stmt_parser_def using if_stmt_on [of "Suc n" x] by simp
      also have "\<dots> = Some (u, skip r)"
        using tid_if_else_on [OF local_thread_stmt _ range_of_wf xs q(1) q(2), of "'' ''" r0 r] by (simp add: l_def u_def else_text_def)
      finally show ?thesis .
    qed
    have "skip (l @ newline # r) = l @ newline # r" for r by (simp add: l_def)
    with on have "reads_by ?p (l @ [newline]) [u]" by (intro reads_by_line) simp_all
    from around [OF reads_by_append [OF reads_by_newline this]] 
    have "reads_by ?p (newline # newline # l @ [newline, newline]) [u]" by simp
    moreover have "map (\<lambda>(rg, t, b). (rg, t)) xs = map (\<lambda>r. (range_of r, sp @ [newline])) rs @ map (\<lambda>r. (range_of r, st @ [newline])) (butlast standards)"
      by (simp add: xs_def comp_def)
    then have "newline # newline # l @ [newline, newline] = template_text sz S sp st"
      using 3 by (simp add: template_text_def r l_def else_text_def)
    moreover have "map (\<lambda>_. B) (butlast standards) @ [B] = map (\<lambda>_. B) standards"
      using 3(2) by (metis (no_types, lifting) append_butlast_last_id list.simps(8,9) map_append)
    then have "[u] = template_stmts sz S A B" using 3 by (simp add: template_stmts_def r u_def xs_def comp_def)
    ultimately show ?thesis by simp
  qed
qed

end
