(* ===== verification/Kernel_Program.thy ===== *)
theory Kernel_Program
  imports Template_Text
begin

text \<open>
  The program the generator writes, as a tree: what the parser answers for the generated text, for every
  tree height, batch size and number of rounds (C26, C27).
\<close>

section \<open>The blocks as statements\<close>

abbreviation num :: "string \<Rightarrow> operand" where
  "num s \<equiv> Const (NumberString s)"

abbreviation hex :: "string \<Rightarrow> operand" where
  "hex s \<equiv> Const (NumberStringHex s)"

abbreviation bin :: "string \<Rightarrow> string \<Rightarrow> string \<Rightarrow> operand \<Rightarrow> stmt" where
  "bin x a op b \<equiv> LoadVariable x (BinOpExpr (Name a) op b)"

abbreviation mult_add :: "string \<Rightarrow> string \<Rightarrow> operand \<Rightarrow> operand \<Rightarrow> stmt" where
  "mult_add x a b c \<equiv> LoadVariable x (MultAddExpr a b c)"

abbreviation select :: "string \<Rightarrow> string \<Rightarrow> operand \<Rightarrow> operand \<Rightarrow> stmt" where
  "select x c a b \<equiv> LoadVariable x (SelectExpr (CondName c) a b)"

abbreviation index_decl :: "string \<Rightarrow> string \<Rightarrow> string \<Rightarrow> stmt" where
  "index_decl x a i \<equiv> VariableDeclarationStmt (VariableDefinition ''register[]'' x (Variable a (Some (NumberString i))))"

definition global_stmts :: "stmt list list" where
  "global_stmts = [[],
     [VariableDeclarationStmt (VariableDeclaration ''register[]'' ''temp1'' [''temp2'', ''temp3'', ''temp4''])],
     [VariableDeclarationStmt (VariableDeclaration ''register[]'' ''treevals'' [])], [],
     [LoadVariable ''treevals'' (DerefConstant (NumberString ''14''))],
     [index_decl ''b0'' ''treevals'' ''0''], [index_decl ''b1'' ''treevals'' ''1''],
     [index_decl ''b2'' ''treevals'' ''2''], [index_decl ''b3'' ''treevals'' ''3''],
     [index_decl ''b4'' ''treevals'' ''4''], [index_decl ''b5'' ''treevals'' ''5''],
     [index_decl ''b6'' ''treevals'' ''6''], [index_decl ''b7'' ''treevals'' ''7''], [],
     [LoadVariable ''treevals'' (DerefConstant (NumberString ''7''))],
     [index_decl ''t0'' ''treevals'' ''0''], [index_decl ''t1'' ''treevals'' ''1''],
     [index_decl ''t2'' ''treevals'' ''2''], [index_decl ''t4'' ''treevals'' ''4''],
     [index_decl ''t5'' ''treevals'' ''5''], [index_decl ''t6'' ''treevals'' ''6''],
     [LoadVariable ''treevals'' (Variable ''treevals'' (Some (NumberString ''3'')))], [], [],
     [VariableDeclarationStmt (VariableDefinition ''register'' ''inp_values_ptr'' (DerefConstant (NumberString ''6'')))]]"

definition thread_stmts :: "stmt list list" where
  "thread_stmts = [[], [], [],
     [ThreadLocalVariableStmt (VariableDeclaration ''register'' ''tidxlen'' [])], [], [],
     [ThreadLocalVariableStmt (VariableDeclaration ''register[]'' ''v'' [''idx'', ''p1'', ''p2''])], [],
     [bin ''tidxlen'' ''tidxlen'' ''+'' (Name ''inp_values_ptr'')],
     [LoadVariable ''v'' (DerefVariable ''tidxlen'')], []]"

definition xor_stmt :: "string \<Rightarrow> stmt" where
  "xor_stmt x = bin ''v'' ''v'' ''^'' (Name x)"

definition level0_header_stmts :: "stmt list list" where
  "level0_header_stmts = [[], [xor_stmt ''t0'']]"

definition level0_footer_stmts :: "stmt list list" where
  "level0_footer_stmts = [[], [bin ''idx'' ''v'' ''%'' (num ''2'')]]"

definition level1_header_stmts :: "stmt list list" where
  "level1_header_stmts = [[], [select ''p1'' ''idx'' (Name ''t2'') (Name ''t1'')], [xor_stmt ''p1'']]"

definition level1_valu_header_stmts :: "stmt list list" where
  "level1_valu_header_stmts = [[], [bin ''p2'' ''t2'' ''-'' (Name ''t1'')],
     [mult_add ''p1'' ''idx'' (Name ''p2'') (Name ''t1'')], [xor_stmt ''p1'']]"

definition level1_footer_stmts :: "stmt list list" where
  "level1_footer_stmts = [[], [bin ''p1'' ''v'' ''%'' (num ''2'')]]"

text \<open>The two blocks of level 2, in the temporary variable they use.\<close>

definition level2_header_stmts :: "string \<Rightarrow> stmt list list" where
  "level2_header_stmts temp = [[], [select ''p2'' ''p1'' (Name ''t6'') (Name ''t5'')],
     [select temp ''p1'' (Name ''t4'') (Name ''treevals'')], [select ''p2'' ''idx'' (Name ''p2'') (Name temp)], [],
     [bin ''idx'' ''idx'' ''-'' (num ''-5'')], [mult_add ''idx'' ''idx'' (num ''2'') (Name ''p1'')], [xor_stmt ''p2'']]"

definition level_footer_stmts :: "stmt list list" where
  "level_footer_stmts = [[], [bin ''p1'' ''v'' ''%'' (num ''2'')], [select ''p2'' ''p1'' (num ''-5'') (num ''-6'')],
     [mult_add ''idx'' ''idx'' (num ''2'') (Name ''p2'')]]"

text \<open>The same with a comment before its last line.\<close>

definition level_footer_noted :: "stmt list list" where
  "level_footer_noted = [level_footer_stmts ! 0, level_footer_stmts ! 1, level_footer_stmts ! 2, [], level_footer_stmts ! 3]"

definition level3_header_stmts :: "stmt list list" where
  "level3_header_stmts = [[], [LoadVariable ''p1'' (DerefIndividualWords ''idx'')], [xor_stmt ''p1'']]"

definition pick_stmts :: "string \<Rightarrow> string \<Rightarrow> string \<Rightarrow> string \<Rightarrow> string \<Rightarrow> stmt list list" where
  "pick_stmts from op k x y = [[bin ''p2'' from op (num k)], [select ''p1'' ''p2'' (Name x) (Name y)], []]"

definition level3_flow_header_stmts :: "stmt list list" where
  "level3_flow_header_stmts = [[], []] @ pick_stmts ''idx'' ''-'' ''19'' ''b0'' ''b5'' @
     pick_stmts ''p2'' ''+'' ''2'' ''p1'' ''b3'' @ pick_stmts ''p2'' ''+'' ''2'' ''p1'' ''b1'' @
     pick_stmts ''p2'' ''+'' ''-6'' ''p1'' ''b7'' @ pick_stmts ''p2'' ''-'' ''-5'' ''p1'' ''b2'' @
     pick_stmts ''p2'' ''-'' ''2'' ''p1'' ''b4'' @ pick_stmts ''p2'' ''-'' ''2'' ''p1'' ''b6'' @ [[xor_stmt ''p1'']]"

definition hash_stmts :: "stmt list list" where
  "hash_stmts = [[], [], [], [mult_add ''v'' ''v'' (num ''4097'') (hex ''0x7ED55D16'')], [], [],
     [bin ''p1'' ''v'' ''^'' (hex ''0xC761C23C'')], [bin ''p2'' ''v'' ''>>'' (num ''19'')], [bin ''v'' ''p1'' ''^'' (Name ''p2'')], [], [],
     [mult_add ''p1'' ''v'' (num ''33'') (num ''3925396509'')], [mult_add ''p2'' ''v'' (num ''16896'') (num ''2899272192'')],
     [bin ''v'' ''p1'' ''^'' (Name ''p2'')], [], [],
     [mult_add ''v'' ''v'' (num ''9'') (hex ''0xFD7046C5'')], [], [],
     [bin ''p1'' ''v'' ''^'' (hex ''0xB55A4F09'')], [bin ''p2'' ''v'' ''>>'' (num ''16'')], [bin ''v'' ''p1'' ''^'' (Name ''p2'')]]"

definition store_stmts :: "stmt list list" where
  "store_stmts = [[], [StoreMemory ''tidxlen'' (Variable ''v'' None)]]"

section \<open>Every block is read as its statements\<close>

definition block_of :: "bool \<Rightarrow> string \<Rightarrow> stmt list list \<Rightarrow> bool" where
  "block_of th tx stss \<longleftrightarrow> (\<exists>ls. tx = text_lines ls \<and> block th ls stss)"

lemma block_ofI: "tx = text_lines ls \<Longrightarrow> block th ls stss \<Longrightarrow> block_of th tx stss"
  unfolding block_of_def by blast

lemma block_of_reads: "block_of th tx stss \<Longrightarrow> reads_by (stmt_parser th n) tx (concat stss)"
  unfolding block_of_def using block_reads by blast

lemma block_of_indent:
  "block_of th tx stss \<Longrightarrow> reads_by (stmt_parser th n) (indent tx) (concat stss) \<and> CHR ''$'' \<notin> set (indent tx)"
  unfolding block_of_def using indent_reads indent_no_placeholder by blast

lemma pred_option_code [code]: "pred_option P None = True" "pred_option P (Some x) = P x"
  by simp_all

lemma thread_preamble_block: "block_of True thread_preamble thread_stmts"
  by (rule block_ofI, rule thread_preamble_def) code_simp

lemma level0_blocks: "block_of True level0_header level0_header_stmts" "block_of True level0_footer level0_footer_stmts"
  by (rule block_ofI, rule level0_header_def, code_simp) (rule block_ofI, rule level0_footer_def, code_simp)

lemma level1_blocks:
  "block_of True level1_header level1_header_stmts" "block_of True level1_valu_header level1_valu_header_stmts"
  "block_of True level1_footer level1_footer_stmts"
  by (rule block_ofI, rule level1_header_def, code_simp) (rule block_ofI, rule level1_valu_header_def level1_footer_def, code_simp)+

lemma level2_blocks:
  "block_of True level21_header (level2_header_stmts ''temp1'')" "block_of True level22_header (level2_header_stmts ''temp2'')"
  "block_of True level2_footer level_footer_stmts"
  by (rule block_ofI, rule level21_header_def level22_header_def level2_footer_def, code_simp)+

lemma level22_blocks:
  "block_of True (replace_all ''temp1'' ''temp3'' level21_header) (level2_header_stmts ''temp3'')"
  "block_of True (replace_all ''temp2'' ''temp4'' level22_header) (level2_header_stmts ''temp4'')"
proof -
  define ls where "ls t = [[], ''p2 = p1 ? t6 : t5'', t @ '' =  p1 ? t4 : treevals'', ''p2 = idx ? p2 : '' @ t, [],
    ''idx = idx - -5'', ''idx = idx * 2 + p1'', ''v = v ^ p2'']" for t
  have "replace_all ''temp1'' ''temp3'' level21_header = text_lines (ls ''temp3'')" unfolding ls_def by code_simp
  moreover have "block True (ls ''temp3'') (level2_header_stmts ''temp3'')" unfolding ls_def by code_simp
  ultimately show "block_of True (replace_all ''temp1'' ''temp3'' level21_header) (level2_header_stmts ''temp3'')" by (rule block_ofI)
  have "replace_all ''temp2'' ''temp4'' level22_header = text_lines (ls ''temp4'')" unfolding ls_def by code_simp
  moreover have "block True (ls ''temp4'') (level2_header_stmts ''temp4'')" unfolding ls_def by code_simp
  ultimately show "block_of True (replace_all ''temp2'' ''temp4'' level22_header) (level2_header_stmts ''temp4'')" by (rule block_ofI)
qed

lemma level3_blocks:
  "block_of True level3_header level3_header_stmts" "block_of True level3_flow_based_header level3_flow_header_stmts"
  "block_of True level3_flow_based_footer level_footer_stmts" "block_of True level_footer level_footer_noted"
  by (rule block_ofI, rule level3_header_def level3_flow_based_header_def level3_flow_based_footer_def level_footer_def, code_simp)+

lemma common_blocks: "block_of True computation_text hash_stmts" "block_of True footer_text store_stmts"
  by (rule block_ofI, rule computation_text_def footer_text_def, code_simp)+

definition global_lines :: "string list" where
  "global_lines = [
    '''', ''register[] temp1, temp2, temp3, temp4'', ''register[] treevals'', '''',
    ''treevals = @14'', ''register[] b0 = treevals[0]'', ''register[] b1 = treevals[1]'',
    ''register[] b2 = treevals[2]'', ''register[] b3 = treevals[3]'',
    ''register[] b4 = treevals[4]'', ''register[] b5 = treevals[5]'',
    ''register[] b6 = treevals[6]'', ''register[] b7 = treevals[7]'', '''', ''treevals = @7'',
    ''register[] t0 = treevals[0]'', ''register[] t1 = treevals[1]'',
    ''register[] t2 = treevals[2]'', ''register[] t4 = treevals[4]'',
    ''register[] t5 = treevals[5]'', ''register[] t6 = treevals[6]'',
    ''treevals = treevals[3] # treevals = t3'', '''', '''', ''register inp_values_ptr = @6'']"

lemma global_block:
  "global_preamble = text_lines global_lines @ ''end global'' @ [newline]"
  "block_of False (text_lines global_lines) global_stmts"
proof -
  show "global_preamble = text_lines global_lines @ ''end global'' @ [newline]"
    by (simp add: global_preamble_def global_lines_def text_lines_def)
  have "block False global_lines global_stmts" by code_simp
  then show "block_of False (text_lines global_lines) global_stmts" by (rule block_ofI [OF refl])
qed

section \<open>Rounds\<close>

definition round_stmts :: "int \<Rightarrow> nat \<Rightarrow> nat \<Rightarrow> stmt list \<times> stmt list" where
  "round_stmts nthreads level r =
     (let evens = set (map (\<lambda>i. 2 * i) [0..15]); two = concat (level2_header_stmts (if r = 2 then ''temp1'' else ''temp3''));
          two' = concat (level2_header_stmts (if r = 2 then ''temp2'' else ''temp4''));
          three = (if r = 3 then set [2..nthreads - 1] else set [0..nthreads - 1]) in
      if level = 0 then (concat level0_header_stmts, concat level0_footer_stmts)
      else if level = 1 then
        (template_stmts nthreads (if r = 1 then set [0..31] else {}) (concat level1_valu_header_stmts) (concat level1_header_stmts),
         concat level1_footer_stmts)
      else if level = 2 then (template_stmts nthreads evens two two', concat level_footer_stmts)
      else if level = 3 then
        (template_stmts nthreads three (concat level3_flow_header_stmts) (concat level3_header_stmts),
         template_stmts nthreads three (concat level_footer_stmts) (concat level_footer_noted))
      else (concat level3_header_stmts, concat level_footer_noted))"

lemma using_template_reads:
  assumes "make_template sz S = Inr tmpl" "block_of True special A" "block_of True standard B"
  shows "reads_by (stmt_parser True (Suc n)) (using_template tmpl special standard) (template_stmts sz S (concat A) (concat B))"
  unfolding using_template_text [OF assms(1) block_of_indent [OF assms(2), THEN conjunct2]]
  using block_of_indent [OF assms(2)] block_of_indent [OF assms(3)] by (intro template_reads) blast+

lemma round_blocks_read:
  assumes b: "round_blocks nthreads level r = Inr (h, f)" and r: "level \<le> r"
  shows "reads_by (stmt_parser True (Suc n)) h (fst (round_stmts nthreads level r))"
    "reads_by (stmt_parser True (Suc n)) f (snd (round_stmts nthreads level r))"
proof -
  note reads = block_of_reads [of True _ _ "Suc n"]
  consider "level = 0" | "level = 1" "r = 1" | "level = 1" "r > 1" | "level = 2" "r = 2" | "level = 2" "r > 2"
    | "level = 3" "r = 3" | "level = 3" "r > 3" | "level > 3" using r by linarith
  then have "reads_by (stmt_parser True (Suc n)) h (fst (round_stmts nthreads level r)) \<and>
    reads_by (stmt_parser True (Suc n)) f (snd (round_stmts nthreads level r))"
  proof cases
    case 1
    with b reads [OF level0_blocks(1)] reads [OF level0_blocks(2)] show ?thesis by (auto simp: round_blocks_def round_stmts_def)
  next
    case 2
    with b using_template_reads [OF _ level1_blocks(2,1)] reads [OF level1_blocks(3)] show ?thesis
      by (auto simp: round_blocks_def round_stmts_def conditional_l1_def rbind_Inr_iff)
  next
    case 3
    with b using_template_reads [OF _ level1_blocks(2,1)] reads [OF level1_blocks(3)] show ?thesis
      by (auto simp: round_blocks_def round_stmts_def conditional_l1_def rbind_Inr_iff)
  next
    case 4
    with b using_template_reads [OF _ level2_blocks(1,2)] reads [OF level2_blocks(3)] show ?thesis
      by (auto simp: round_blocks_def round_stmts_def conditional_l21_def rbind_Inr_iff)
  next
    case 5
    with b using_template_reads [OF _ level22_blocks] reads [OF level2_blocks(3)] show ?thesis
      by (auto simp: round_blocks_def round_stmts_def conditional_l22_def rbind_Inr_iff)
  next
    case 6
    with b using_template_reads [OF _ level3_blocks(2,1)] using_template_reads [OF _ level3_blocks(3,4)] show ?thesis
      by (auto simp: round_blocks_def round_stmts_def conditional_l3_def rbind_Inr_iff Let_def simp del: set_upto)
  next
    case 7
    with b using_template_reads [OF _ level3_blocks(2,1)] using_template_reads [OF _ level3_blocks(3,4)] show ?thesis
      by (auto simp: round_blocks_def round_stmts_def conditional_l3_def rbind_Inr_iff Let_def simp del: set_upto)
  next
    case 8
    with b reads [OF level3_blocks(1)] reads [OF level3_blocks(4)] show ?thesis by (auto simp: round_blocks_def round_stmts_def)
  qed
  then show "reads_by (stmt_parser True (Suc n)) h (fst (round_stmts nthreads level r))"
    "reads_by (stmt_parser True (Suc n)) f (snd (round_stmts nthreads level r))" by blast+
qed

section \<open>The program\<close>

definition round_program :: "nat \<Rightarrow> int \<Rightarrow> nat \<Rightarrow> nat \<Rightarrow> stmt list" where
  "round_program height nthreads rounds r =
     (let level = r mod (height + 1); hf = round_stmts nthreads level r in
      fst hf @ concat hash_stmts @ (if level = height \<or> r + 1 = rounds then [] else snd hf))"

definition kernel_program :: "nat \<Rightarrow> int \<Rightarrow> nat \<Rightarrow> program" where
  "kernel_program height nthreads rounds =
     \<lparr>global_prog = concat global_stmts,
      thread_prog = concat thread_stmts @ concat (map (round_program height nthreads rounds) [0..<rounds]) @
        template_stmts nthreads {} (concat store_stmts) (concat store_stmts)\<rparr>"

lemma round_title_reads: "reads_by p (newline # ''######### Round '' @ str_int k @ '' #########'' @ [newline]) []"
proof -
  have "newline \<notin> set (str_int k)" using str_int_chars [of newline k] newline_facts(1,14) letter_facts(2) by blast
  moreover have "newline \<notin> set (''######## Round '' @ '' #########'')" by code_simp
  ultimately have "newline \<notin> set (''######## Round '' @ str_int k @ '' #########'')" by simp
  from skip_comment_line [OF this] show ?thesis by (simp add: reads_by_def)
qed

lemma round_text_reads:
  assumes "round_text height nthreads rounds r = Inr t"
  shows "reads_by (stmt_parser True (Suc n)) t (round_program height nthreads rounds r)"
proof -
  let ?level = "r mod (height + 1)"
  from assms obtain h f where b: "round_blocks nthreads ?level r = Inr (h, f)"
    and t: "t = (newline # ''######### Round '' @ str_int (int r) @ '' #########'' @ [newline]) @ h @ computation_text @
      (if ?level = height \<or> r + 1 = rounds then [] else f)"
    by (auto simp: round_text_def Let_def rbind_Inr_iff)
  note hf = round_blocks_read [OF b mod_less_eq_dividend, of n]
  have f: "reads_by (stmt_parser True (Suc n)) (if ?level = height \<or> r + 1 = rounds then [] else f)
      (if ?level = height \<or> r + 1 = rounds then [] else snd (round_stmts nthreads ?level r))"
    using hf(2) reads_by_Nil by simp
  have "reads_by (stmt_parser True (Suc n)) t ([] @ fst (round_stmts nthreads ?level r) @ concat hash_stmts @
      (if ?level = height \<or> r + 1 = rounds then [] else snd (round_stmts nthreads ?level r)))"
    unfolding t by (intro reads_by_append round_title_reads hf(1) f block_of_reads common_blocks)
  then show ?thesis unfolding round_program_def Let_def append_Nil .
qed

lemma thread_text_reads:
  assumes "mapM (round_text height nthreads rounds) [0..<rounds] = Inr texts" "conditional_footer nthreads {} = Inr f"
  shows "reads_by (stmt_parser True (Suc n)) (thread_preamble @ concat texts @ f) (thread_prog (kernel_program height nthreads rounds))"
proof -
  have "list_all2 (reads_by (stmt_parser True (Suc n))) texts (map (round_program height nthreads rounds) [0..<rounds])"
    using assms(1) round_text_reads by (auto simp: mapM_Inr_iff list_all2_conv_all_nth)
  moreover from assms(2) obtain tmpl where "make_template nthreads {} = Inr tmpl" "f = using_template tmpl footer_text footer_text"
    by (auto simp: conditional_footer_def rbind_Inr_iff)
  ultimately show ?thesis
    unfolding kernel_program_def program.simps
    using using_template_reads common_blocks(2)
    by (intro reads_by_append reads_by_concat block_of_reads thread_preamble_block) blast+
qed

lemma end_global_stops: "on global_stmt (''end global'' @ newline # r) = None"
proof -
  have "on assignment_stmt (''end'' @ CHR '' '' # ''global'' @ newline # r) = None"
    by (rule no_assignment [OF keyword_idents(2), of "CHR '' ''" _ "CHR ''g''" "''lobal'' @ newline # r"])
      (simp_all add: letter_not_space)
  then show ?thesis
    by (simp add: global_stmt_def pause_stmt_def variable_declaration_stmt_def variable_type_def on_por on_pmap on_pseq on_lit)
qed

lemma program_text_parsed:
  assumes "input_to_program_text height batch_size rounds = Inr tx"
  shows "program_parser tx 0 = Some (kernel_program height (batch_size div int VLEN) rounds, length tx)"
proof -
  let ?prog = "kernel_program height (batch_size div int VLEN) rounds"
  from assms obtain texts f where texts: "mapM (round_text height (batch_size div int VLEN) rounds) [0..<rounds] = Inr texts"
    "conditional_footer (batch_size div int VLEN) {} = Inr f"
    and tx: "tx = global_preamble @ thread_preamble @ concat texts @ f"
    by (auto simp: input_to_program_text_def Let_def rbind_Inr_iff)
  define th where "th = thread_preamble @ concat texts @ f"
  let ?g = "text_lines global_lines" and ?fin = "''end global'' @ newline # th"
  have tx': "tx = ?g @ ?fin" by (simp add: tx global_block(1) th_def)
  then obtain m where m: "length tx = Suc m" by (cases tx) auto
  have "on (star global_stmt) (skip ?fin) = Some ([], ?fin)" using end_global_stops by (simp add: on_star)
  with block_of_reads [OF global_block(2), of 0] have g: "on (star global_stmt) (skip tx) = Some (concat global_stmts @ [], ?fin)"
    unfolding reads_by_def stmt_parser_def tx' by (metis (full_types))
  have e: "on end_global_stmt ?fin = Some ((), skip th)" by (simp add: end_global_stmt_def on_pmap on_pseq on_lit)
  have global: "on global_program (skip tx) = Some (concat global_stmts, skip th)"
    unfolding global_program_def by (rule pmap_onI [OF on_seqI [OF g e]]) simp_all
  have "on (star (thread_local_stmt (Suc (Suc m)))) (skip []) = Some ([], [])"
    using branch_end_stops(1) [of "[]" "Suc (Suc m)"] by (simp add: on_star branch_end_def)
  with thread_text_reads [OF texts, of m] have "on (star (thread_local_stmt (Suc (Suc m)))) (skip (th @ [])) =
      Some (thread_prog ?prog @ [], [])"
    unfolding reads_by_def stmt_parser_def th_def [symmetric] by (metis (full_types))
  then have thread: "on (thread_local_program (length tx + 1)) (skip th) = Some (thread_prog ?prog, [])"
    by (simp add: thread_local_program_def m)
  have "dropWhile is_space tx = tx" by (simp add: tx' global_lines_def text_lines_def)
  from star_nl [OF this] obtain w where w: "on (star nl) tx = Some (w, skip tx)" by blast
  have "on (program_at (length tx + 1)) tx = Some (\<lparr>global_prog = concat global_stmts, thread_prog = thread_prog ?prog\<rparr>, [])"
    unfolding program_at_def by (rule pmap_onI [OF on_seqI [OF w on_seqI [OF global thread]]]) (simp_all add: thread_local_program_def)
  then show ?thesis
    using localD(1) [OF local_program, of 0 tx "length tx + 1"] by (simp add: program_parser_def kernel_program_def)
qed

section \<open>When there is a program\<close>

lemma make_template_cases:
  "make_template sz S = Inl AssertionError \<or> (\<exists>t. make_template sz S = Inr t)"
  "(\<exists>t. make_template sz S = Inr t) \<longleftrightarrow> 0 < sz \<and> (\<forall>x \<in> S. 0 \<le> x \<and> x < sz)"
  by (auto simp: make_template_def check_def split: prod.splits)

lemma conditionals_cases:
  "conditional_l1 sz S = Inl AssertionError \<or> (\<exists>t. conditional_l1 sz S = Inr t)"
  "conditional_l21 sz S = Inl AssertionError \<or> (\<exists>t. conditional_l21 sz S = Inr t)"
  "conditional_l22 sz S = Inl AssertionError \<or> (\<exists>t. conditional_l22 sz S = Inr t)"
  "conditional_l3 sz S = Inl AssertionError \<or> (\<exists>t. conditional_l3 sz S = Inr t)"
  "conditional_footer sz S = Inl AssertionError \<or> (\<exists>t. conditional_footer sz S = Inr t)"
  using make_template_cases(1) [of sz S]
  by (auto simp: conditional_l1_def conditional_l21_def conditional_l22_def conditional_l3_def conditional_footer_def)

lemma conditionals_Inr:
  "(\<exists>t. conditional_l1 sz S = Inr t) \<longleftrightarrow> (\<exists>t. make_template sz S = Inr t)"
  "(\<exists>t. conditional_l21 sz S = Inr t) \<longleftrightarrow> (\<exists>t. make_template sz S = Inr t)"
  "(\<exists>t. conditional_l22 sz S = Inr t) \<longleftrightarrow> (\<exists>t. make_template sz S = Inr t)"
  "(\<exists>t. conditional_l3 sz S = Inr t) \<longleftrightarrow> (\<exists>t. make_template sz S = Inr t)"
  "(\<exists>t. conditional_footer sz S = Inr t) \<longleftrightarrow> (\<exists>t. make_template sz S = Inr t)"
  by (auto simp: conditional_l1_def conditional_l21_def conditional_l22_def conditional_l3_def conditional_footer_def rbind_Inr_iff)

lemma round_blocks_cases:
  "round_blocks nthreads level r = Inl AssertionError \<or> (\<exists>hf. round_blocks nthreads level r = Inr hf)"
  using conditionals_cases by (simp add: round_blocks_def del: set_upto set_map)

lemma round_text_cases:
  "round_text height nthreads rounds r = Inl AssertionError \<or> (\<exists>t. round_text height nthreads rounds r = Inr t)"
  using round_blocks_cases [of nthreads "r mod (height + 1)" r] by (auto simp: round_text_def Let_def)

lemma round_blocks_Inr:
  assumes "level \<le> r" "0 < nthreads" "32 \<le> nthreads \<or> level = 0"
  shows "\<exists>hf. round_blocks nthreads level r = Inr hf"
proof -
  have T: "\<exists>t. make_template nthreads S = Inr t" if "\<forall>x \<in> S. 0 \<le> x \<and> x < nthreads" for S
    using make_template_cases(2) that assms(2) by blast
  have S: "\<exists>t. make_template nthreads (set [0..31]) = Inr t" "\<exists>t. make_template nthreads {} = Inr t"
    "\<exists>t. make_template nthreads (set (map (\<lambda>i. 2 * i) [0..15])) = Inr t" "\<exists>t. make_template nthreads (set [2..nthreads - 1]) = Inr t"
    "\<exists>t. make_template nthreads (set [0..nthreads - 1]) = Inr t" if "32 \<le> nthreads"
    using that by (intro T; auto)+
  have "level = 0 \<or> 32 \<le> nthreads" using assms(3) by blast
  then show ?thesis
  proof
    assume "32 \<le> nthreads"
    note S [OF this, folded conditionals_Inr(1)] S [OF this, folded conditionals_Inr(2)] S [OF this, folded conditionals_Inr(3)]
      S [OF this, folded conditionals_Inr(4)]
    then show ?thesis by (simp add: round_blocks_def del: set_upto set_map)
  qed (simp add: round_blocks_def)
qed

lemma mapM_cases:
  assumes "\<And>x. x \<in> set xs \<Longrightarrow> f x = Inl e \<or> (\<exists>y. f x = Inr y)"
  shows "mapM f xs = Inl e \<or> (\<exists>ys. mapM f xs = Inr ys)"
  using assms
proof (induction xs)
  case (Cons x xs)
  then have "f x = Inl e \<or> (\<exists>y. f x = Inr y)" "mapM f xs = Inl e \<or> (\<exists>ys. mapM f xs = Inr ys)" by auto
  then show ?case by auto
qed simp

lemma mapM_ok_iff: "(\<exists>ys. mapM f xs = Inr ys) \<longleftrightarrow> (\<forall>x \<in> set xs. \<exists>y. f x = Inr y)"
  by (induction xs) (auto simp: rbind_Inr_iff)

lemma program_text_cases:
  "input_to_program_text height batch_size rounds = Inl AssertionError \<or> (\<exists>tx. input_to_program_text height batch_size rounds = Inr tx)"
  using mapM_cases [of "[0..<rounds]" "round_text height (batch_size div int VLEN) rounds" AssertionError]
    round_text_cases conditionals_cases(5) [of "batch_size div int VLEN" "{}"]
  by (auto simp: input_to_program_text_def Let_def)

lemma program_text_Inr:
  "(\<exists>tx. input_to_program_text height batch_size rounds = Inr tx) \<longleftrightarrow>
    0 < batch_size div int VLEN \<and> (32 \<le> batch_size div int VLEN \<or> rounds \<le> 1 \<or> height = 0)"
proof -
  let ?n = "batch_size div int VLEN"
  have "(\<exists>tx. input_to_program_text height batch_size rounds = Inr tx) \<longleftrightarrow>
      (\<exists>ts. mapM (round_text height ?n rounds) [0..<rounds] = Inr ts) \<and> (\<exists>f. conditional_footer ?n {} = Inr f)"
    by (auto simp: input_to_program_text_def Let_def rbind_Inr_iff)
  also have "(\<exists>f. conditional_footer ?n {} = Inr f) \<longleftrightarrow> 0 < ?n"
    by (simp add: conditionals_Inr make_template_cases(2))
  also have "(\<exists>ts. mapM (round_text height ?n rounds) [0..<rounds] = Inr ts) \<longleftrightarrow>
      (\<forall>r < rounds. \<exists>hf. round_blocks ?n (r mod (height + 1)) r = Inr hf)"
    by (auto simp: mapM_ok_iff round_text_def Let_def rbind_Inr_iff)
  finally have eq: "(\<exists>tx. input_to_program_text height batch_size rounds = Inr tx) \<longleftrightarrow>
      (\<forall>r < rounds. \<exists>hf. round_blocks ?n (r mod (height + 1)) r = Inr hf) \<and> 0 < ?n" .
  show ?thesis
  proof (cases "0 < ?n")
    case True
    have "\<exists>hf. round_blocks ?n (r mod (height + 1)) r = Inr hf"
      if "32 \<le> ?n \<or> rounds \<le> 1 \<or> height = 0" "r < rounds" for r
      using that True by (intro round_blocks_Inr) auto
    moreover have "\<not> (\<exists>hf. round_blocks ?n (1 mod (height + 1)) 1 = Inr hf)" if "?n < 32" "height \<noteq> 0"
    proof -
      have "\<not> (\<exists>t. make_template ?n (set [0..31]) = Inr t)"
        unfolding make_template_cases(2) using that(1) by (auto intro: bexI [of _ 31])
      moreover have "1 mod (height + 1) = 1" using that(2) by simp
      ultimately show ?thesis unfolding conditionals_Inr(1) [symmetric] by (simp add: round_blocks_def del: set_upto)
    qed
    ultimately show ?thesis unfolding eq using True by (metis not_le)
  qed (simp add: eq)
qed

lemma generator_parses:
  assumes "input_to_program_text height batch_size rounds = Inr tx" "batch_size mod 8 = 0"
  shows "input_to_program height batch_size rounds = Inr (kernel_program height (batch_size div 8) rounds)"
  using program_text_parsed [OF assms(1)] assms by (simp add: input_to_program_def VLEN_def)

lemma generator_answer:
  "input_to_program height batch_size rounds =
    (if batch_size mod 8 = 0 \<and> 8 \<le> batch_size \<and> (256 \<le> batch_size \<or> rounds \<le> 1 \<or> height = 0)
     then Inr (kernel_program height (batch_size div 8) rounds) else Inl AssertionError)"
proof (cases "batch_size mod 8 = 0")
  case True
  then have d: "0 < batch_size div 8 \<longleftrightarrow> 8 \<le> batch_size" "32 \<le> batch_size div 8 \<longleftrightarrow> 256 \<le> batch_size" by presburger+
  show ?thesis
  proof (cases "\<exists>tx. input_to_program_text height batch_size rounds = Inr tx")
    case tx: True
    then show ?thesis
      using generator_parses True program_text_Inr [of height batch_size rounds] d by (auto simp: VLEN_def)
  next
    case False
    with program_text_cases have "input_to_program_text height batch_size rounds = Inl AssertionError" by blast
    with False show ?thesis
      using program_text_Inr [of height batch_size rounds] d True by (auto simp: VLEN_def input_to_program_def)
  qed
qed (simp add: input_to_program_def VLEN_def)

text \<open>
  C26: the generator answers \<open>kernel_program\<close>, the statements of its blocks with one \<open>iftid\<close> for every
  template that distinguishes threads, or raises \<open>AssertionError\<close>; the latter exactly if the batch size
  is not a positive multiple of the vector length, or is below 256 although a round is played below the
  root of the tree. So the parser accepts every text that is written, to its end.
\<close>

theorem generator_result:
  "input_to_program height batch_size rounds =
    (if batch_size mod 8 = 0 \<and> 8 \<le> batch_size \<and> (256 \<le> batch_size \<or> rounds \<le> 1 \<or> height = 0)
     then Inr (kernel_program height (batch_size div 8) rounds) else Inl AssertionError)"
  by (rule generator_answer)

end
