(* ===== verification/Kernel_Meaning.thy ===== *)
theory Kernel_Meaning
  imports Kernel_Program
begin

unbundle bit_operations_syntax

text \<open>
  What the generated program computes, thread by thread, in the language (C27): every lane of a thread
  walks the tree as the reference kernel does.
\<close>

section \<open>Vectors\<close>

definition vec :: "(nat \<Rightarrow> int) \<Rightarrow> int list" where
  "vec f = map f [0..<VLEN]"

lemma vec_nth [simp]: "i < VLEN \<Longrightarrow> vec f ! i = f i"
  by (simp add: vec_def)

lemma length_vec [simp]: "length (vec f) = VLEN"
  by (simp add: vec_def)

lemma vec_cong: "(\<And>i. i < VLEN \<Longrightarrow> f i = g i) \<Longrightarrow> vec f = vec g"
  by (simp add: vec_def)

lemma replicate_vec: "replicate VLEN c = vec (\<lambda>_. c)"
  by (simp add: vec_def map_replicate_const)

lemma lanes_vec:
  assumes "\<And>i. i < VLEN \<Longrightarrow> word_op op (f i) (g i) = Inr (h i)"
  shows "lanes_op VLEN op (vec f) (vec g) = Inr (vec h)"
proof -
  have "mapM (\<lambda>i. word_op op (vec f ! i) (vec g ! i)) [0..<VLEN] = mapM (\<lambda>i. Inr (h i)) [0..<VLEN]"
    using assms by (intro mapM_upt_cong) simp
  then show ?thesis by (simp add: lanes_op_def mapM_Inr vec_def)
qed

lemma word_op_simps [simp]:
  "word_op ''^'' x y = Inr (r32 (x XOR y))" "word_op ''+'' x y = Inr (r32 (x + y))" "word_op ''-'' x y = Inr (r32 (x - y))"
  "y \<noteq> 0 \<Longrightarrow> word_op ''%'' x y = Inr (r32 (x mod y))" "0 \<le> y \<Longrightarrow> word_op ''>>'' x y = Inr (r32 (drop_bit (nat y) x))"
  by (simp_all add: word_op_def alu_res_def)

lemma lanes_simps [simp]:
  "lanes_op VLEN ''^'' (vec f) (vec g) = Inr (vec (\<lambda>i. r32 (f i XOR g i)))"
  "lanes_op VLEN ''+'' (vec f) (vec g) = Inr (vec (\<lambda>i. r32 (f i + g i)))"
  "lanes_op VLEN ''-'' (vec f) (vec g) = Inr (vec (\<lambda>i. r32 (f i - g i)))"
  "c \<noteq> 0 \<Longrightarrow> lanes_op VLEN ''%'' (vec f) (vec (\<lambda>_. c)) = Inr (vec (\<lambda>i. r32 (f i mod c)))"
  "0 \<le> c \<Longrightarrow> lanes_op VLEN ''>>'' (vec f) (vec (\<lambda>_. c)) = Inr (vec (\<lambda>i. r32 (drop_bit (nat c) (f i))))"
  by (simp_all add: lanes_vec)

lemma select_vec [simp]:
  "map (\<lambda>i. if vec f ! i \<noteq> 0 then vec g ! i else vec h ! i) [0..<VLEN] = vec (\<lambda>i. if f i \<noteq> 0 then g i else h i)"
  unfolding vec_def [of "\<lambda>i. if f i \<noteq> 0 then g i else h i"] by (rule map_cong) simp_all

lemma multiply_add_vec [simp]:
  "map (\<lambda>i. multiply_add (vec f ! i) (vec g ! i) (vec h ! i)) [0..<VLEN] = vec (\<lambda>i. multiply_add (f i) (g i) (h i))"
  unfolding vec_def [of "\<lambda>i. multiply_add (f i) (g i) (h i)"] by (rule map_cong) simp_all

lemma deref_vec:
  assumes "\<And>i. i < VLEN \<Longrightarrow> py_get mm (f i) = Inr (g i)"
  shows "mapM (\<lambda>i. py_get mm (vec f ! i)) [0..<VLEN] = Inr (vec g)"
proof -
  have "mapM (\<lambda>i. py_get mm (vec f ! i)) [0..<VLEN] = mapM (\<lambda>i. Inr (g i)) [0..<VLEN]"
    using assms by (intro mapM_upt_cong) simp
  then show ?thesis by (simp add: mapM_Inr vec_def)
qed

section \<open>Statements of the blocks\<close>

lemma to_int_numerals [simp]:
  "to_int (NumberString ''0'') = Inr 0" "to_int (NumberString ''1'') = Inr 1" "to_int (NumberString ''2'') = Inr 2"
  "to_int (NumberString ''3'') = Inr 3" "to_int (NumberString ''4'') = Inr 4" "to_int (NumberString ''5'') = Inr 5"
  "to_int (NumberString ''6'') = Inr 6" "to_int (NumberString ''7'') = Inr 7" "to_int (NumberString ''9'') = Inr 9"
  "to_int (NumberString ''14'') = Inr 14" "to_int (NumberString ''16'') = Inr 16" "to_int (NumberString ''19'') = Inr 19"
  "to_int (NumberString ''33'') = Inr 33" "to_int (NumberString ''4097'') = Inr 4097" "to_int (NumberString ''16896'') = Inr 16896"
  "to_int (NumberString ''3925396509'') = Inr 3925396509" "to_int (NumberString ''2899272192'') = Inr 2899272192"
  "to_int (NumberString ''-5'') = Inr (- 5)" "to_int (NumberString ''-6'') = Inr (- 6)"
  "to_int (NumberStringHex ''0x7ED55D16'') = Inr 0x7ED55D16" "to_int (NumberStringHex ''0xC761C23C'') = Inr 0xC761C23C"
  "to_int (NumberStringHex ''0xFD7046C5'') = Inr 0xFD7046C5" "to_int (NumberStringHex ''0xB55A4F09'') = Inr 0xB55A4F09"
  by (simp_all add: to_int_def int_of_dec_def int_of_hex_def num_of_def digit_val_def is_digit_def is_hex_digit_def numeral_2_eq_2)

lemma r32_numerals [simp]:
  "r32 0 = 0" "r32 1 = 1" "r32 (numeral k) = numeral k mod 4294967296" "r32 (- numeral k) = (- numeral k) mod 4294967296"
  by (simp_all add: r32_def)

definition kernel_kind :: "(string \<Rightarrow> bool) \<Rightarrow> bool" where
  "kernel_kind kind \<longleftrightarrow> list_all kind [''v'', ''idx'', ''p1'', ''p2'', ''temp1'', ''temp2'', ''temp3'', ''temp4'', ''treevals'',
      ''t0'', ''t1'', ''t2'', ''t4'', ''t5'', ''t6'', ''b0'', ''b1'', ''b2'', ''b3'', ''b4'', ''b5'', ''b6'', ''b7''] \<and>
    \<not> kind ''tidxlen'' \<and> \<not> kind ''inp_values_ptr''"

lemma kinds:
  assumes "kernel_kind kind"
  shows "kind ''v''" "kind ''idx''" "kind ''p1''" "kind ''p2''" "kind ''temp1''" "kind ''temp2''" "kind ''temp3''" "kind ''temp4''"
    "kind ''treevals''" "kind ''t0''" "kind ''t1''" "kind ''t2''" "kind ''t4''" "kind ''t5''" "kind ''t6''" "kind ''b0''" "kind ''b1''"
    "kind ''b2''" "kind ''b3''" "kind ''b4''" "kind ''b5''" "kind ''b6''" "kind ''b7''" "\<not> kind ''tidxlen''" "\<not> kind ''inp_values_ptr''"
  using assms by (simp_all add: kernel_kind_def)

lemmas meaning = lang_assign_def expr_value_def operand_value_def cond_value_def width_def replicate_vec

text \<open>What the blocks write.\<close>

definition written :: "string set" where
  "written = {''v'', ''idx'', ''p1'', ''p2'', ''temp1'', ''temp2'', ''temp3'', ''temp4''}"

definition keeps :: "env \<Rightarrow> env \<Rightarrow> bool" where
  "keeps env env' \<longleftrightarrow> (\<forall>x. x \<notin> written \<longrightarrow> env' x = env x)"

lemma keeps_refl: "keeps env env"
  by (simp add: keeps_def)

lemma keeps_trans: "keeps a b \<Longrightarrow> keeps b c \<Longrightarrow> keeps a c"
  by (simp add: keeps_def)

lemma keepsD: "keeps env env' \<Longrightarrow> x \<notin> written \<Longrightarrow> env' x = env x"
  by (simp add: keeps_def)

lemma keeps_upd: "keeps env env' \<Longrightarrow> x \<in> written \<Longrightarrow> keeps env (env'(x := y))"
  by (auto simp: keeps_def)

lemma level0_meaning:
  assumes "kernel_kind kind" "env ''v'' = vec val" "env ''t0'' = vec (\<lambda>_. c)"
  shows "\<exists>env'. lang_stmts kind tid (concat level0_header_stmts) (env, mm) = Inr (env', mm) \<and>
    env' ''v'' = vec (\<lambda>i. r32 (val i XOR c)) \<and> keeps env env'"
  using assms kinds [OF assms(1)] by (simp add: level0_header_stmts_def xor_stmt_def meaning keeps_def written_def)

lemma level1_meaning:
  assumes "kernel_kind kind" "env ''v'' = vec val" "env ''t1'' = vec (\<lambda>_. c1)" "env ''t2'' = vec (\<lambda>_. c2)"
    "env ''idx'' = vec b" "\<And>i. b i = 0 \<or> b i = 1" "is_word c1" "is_word c2"
    and "sts = concat level1_header_stmts \<or> sts = concat level1_valu_header_stmts"
  shows "\<exists>env'. lang_stmts kind tid sts (env, mm) = Inr (env', mm) \<and>
    env' ''v'' = vec (\<lambda>i. r32 (val i XOR (if b i \<noteq> 0 then c2 else c1))) \<and> env' ''idx'' = vec b \<and> keeps env env'"
  using assms(9)
proof
  assume "sts = concat level1_header_stmts"
  with assms kinds [OF assms(1)] show ?thesis by (simp add: level1_header_stmts_def xor_stmt_def meaning keeps_def written_def)
next
  have "multiply_add (b i) (r32 (c2 - c1)) c1 = (if b i \<noteq> 0 then c2 else c1)" for i
    using assms(6) [of i] assms(7,8) by (auto simp: multiply_add_eq r32_mod_simps)
  moreover assume "sts = concat level1_valu_header_stmts"
  ultimately show ?thesis using assms kinds [OF assms(1)] by (simp add: level1_valu_header_stmts_def xor_stmt_def meaning keeps_def written_def)
qed

lemma level2_meaning:
  assumes "kernel_kind kind" "env ''v'' = vec val" "env ''treevals'' = vec (\<lambda>_. c3)" "env ''t4'' = vec (\<lambda>_. c4)"
    "env ''t5'' = vec (\<lambda>_. c5)" "env ''t6'' = vec (\<lambda>_. c6)" "env ''idx'' = vec b" "env ''p1'' = vec d"
    "temp \<in> {''temp1'', ''temp2'', ''temp3'', ''temp4''}"
  shows "\<exists>env'. lang_stmts kind tid (concat (level2_header_stmts temp)) (env, mm) = Inr (env', mm) \<and>
    env' ''v'' = vec (\<lambda>i. r32 (val i XOR (if b i \<noteq> 0 then if d i \<noteq> 0 then c6 else c5 else if d i \<noteq> 0 then c4 else c3))) \<and>
    env' ''idx'' = vec (\<lambda>i. multiply_add (r32 (b i - r32 (- 5))) 2 (d i)) \<and> keeps env env'"
proof -
  have temp: "kind temp" "temp \<in> written" "temp \<noteq> ''p2''" "temp \<noteq> ''idx''" "temp \<noteq> ''p1''" "temp \<noteq> ''v''"
    using assms(9) kinds [OF assms(1)] by (auto simp: written_def)
  from temp assms(2-8) kinds [OF assms(1)] show ?thesis
    by (simp add: level2_header_stmts_def xor_stmt_def meaning) (auto simp: keeps_def written_def)
qed

lemma level3_meaning:
  assumes "kernel_kind kind" "env ''v'' = vec val" "env ''idx'' = vec a" "\<And>i. i < VLEN \<Longrightarrow> py_get mm (a i) = Inr (c i)"
  shows "\<exists>env'. lang_stmts kind tid (concat level3_header_stmts) (env, mm) = Inr (env', mm) \<and>
    env' ''v'' = vec (\<lambda>i. r32 (val i XOR c i)) \<and> env' ''idx'' = vec a \<and> keeps env env'"
  using assms kinds [OF assms(1)] deref_vec [of mm a c]
  by (simp add: level3_header_stmts_def xor_stmt_def meaning keeps_def written_def)

lemma hash_meaning:
  assumes "kernel_kind kind" "env ''v'' = vec val"
  shows "\<exists>env'. lang_stmts kind tid (concat hash_stmts) (env, mm) = Inr (env', mm) \<and>
    env' ''v'' = vec (\<lambda>i. computation (val i)) \<and> env' ''idx'' = env ''idx'' \<and> keeps env env'"
  using assms kinds [OF assms(1)] by (simp add: hash_stmts_def meaning computation_def Let_def keeps_def written_def)

lemma footer_meaning:
  assumes "kernel_kind kind" "env ''v'' = vec val" "env ''idx'' = vec a"
    and "sts = concat level_footer_stmts \<or> sts = concat level_footer_noted"
  shows "\<exists>env'. lang_stmts kind tid sts (env, mm) = Inr (env', mm) \<and> env' ''v'' = vec val \<and>
    env' ''idx'' = vec (\<lambda>i. multiply_add (a i) 2 (if r32 (val i mod 2) \<noteq> 0 then 4294967291 else 4294967290)) \<and> keeps env env'"
proof -
  have "concat level_footer_noted = concat level_footer_stmts" by (simp add: level_footer_noted_def level_footer_stmts_def)
  with assms kinds [OF assms(1)] show ?thesis by (auto simp: level_footer_stmts_def meaning keeps_def written_def)
qed

section \<open>Selecting a node of level 3\<close>

text \<open>The address of the node is compared with one candidate after the other.\<close>

definition picked :: "(nat \<Rightarrow> int) \<Rightarrow> int \<Rightarrow> int" where
  "picked b a = (if a = 14 then b 0 else if a = 15 then b 1 else if a = 16 then b 2 else if a = 17 then b 3
     else if a = 18 then b 4 else if a = 19 then b 5 else if a = 20 then b 6 else b 7)"

lemma address_compared:
  assumes "14 \<le> x" "x \<le> 21" "14 \<le> k" "k \<le> 21"
  shows "r32 (x - k) \<noteq> 0 \<longleftrightarrow> x \<noteq> k"
proof (cases "k \<le> x")
  case True
  with assms show ?thesis by (simp add: r32_def)
next
  case False
  have "r32 (x - k) = r32 (x - k + 2 ^ 32)" by (simp add: r32_def)
  also have "\<dots> = x - k + 2 ^ 32" using assms False by (intro r32_word) (simp add: is_word_def)
  finally show ?thesis using assms False by simp
qed

lemma pick_meaning:
  assumes "kernel_kind kind" "env from = vec f" "env x = vec g" "env y = vec h" "to_int (NumberString k) = Inr kv"
    and "\<And>i. word_op op (f i) (r32 kv) = Inr (r32 (a i - c))" "\<And>i. 14 \<le> a i \<and> a i \<le> 21" "14 \<le> c" "c \<le> 21"
    and "x \<noteq> ''p2''" "y \<noteq> ''p2''"
  shows "lang_stmts kind tid (concat (pick_stmts from op k x y)) (env, mm) =
    Inr (env(''p2'' := vec (\<lambda>i. r32 (a i - c)), ''p1'' := vec (\<lambda>i. if a i \<noteq> c then g i else h i)), mm)"
proof -
  have "vec (\<lambda>i. if r32 (a i - c) \<noteq> 0 then g i else h i) = vec (\<lambda>i. if a i \<noteq> c then g i else h i)"
    using assms(7-9) by (intro vec_cong) (simp add: address_compared)
  then show ?thesis using assms kinds [OF assms(1)] lanes_vec [of op f "\<lambda>_. r32 kv" "\<lambda>i. r32 (a i - c)"]
    by (simp add: pick_stmts_def meaning)
qed

lemma lang_stmts_append: "lang_stmts kind tid (xs @ ys) st = rbind (lang_stmts kind tid xs st) (lang_stmts kind tid ys)"
proof (induction xs arbitrary: st)
  case (Cons x xs)
  have "lang_stmts kind tid (xs @ ys) = (\<lambda>st. rbind (lang_stmts kind tid xs st) (lang_stmts kind tid ys))"
    by (rule ext) (rule Cons.IH)
  then show ?case by (simp add: rbind_assoc)
qed simp

lemma level3_flow_meaning:
  assumes kind: "kernel_kind kind" and "env ''v'' = vec val" and a: "env ''idx'' = vec a" "\<And>i. 14 \<le> a i \<and> a i \<le> 21"
    and b: "env ''b0'' = vec (\<lambda>_. b 0)" "env ''b1'' = vec (\<lambda>_. b 1)" "env ''b2'' = vec (\<lambda>_. b 2)" "env ''b3'' = vec (\<lambda>_. b 3)"
      "env ''b4'' = vec (\<lambda>_. b 4)" "env ''b5'' = vec (\<lambda>_. b 5)" "env ''b6'' = vec (\<lambda>_. b 6)" "env ''b7'' = vec (\<lambda>_. b 7)"
  shows "\<exists>env'. lang_stmts kind tid (concat level3_flow_header_stmts) (env, mm) = Inr (env', mm) \<and>
    env' ''v'' = vec (\<lambda>i. r32 (val i XOR picked b (a i))) \<and> env' ''idx'' = vec a \<and> keeps env env'"
proof -
  note step = pick_meaning [OF kind, where a = a and tid = tid and mm = mm]
  define E where "E c g = env(''p2'' := vec (\<lambda>i. r32 (a i - c)), ''p1'' := vec g)" for c g
  have first: "lang_stmts kind tid (concat (pick_stmts ''idx'' ''-'' ''19'' ''b0'' ''b5'')) (env, mm) =
      Inr (E 19 (\<lambda>i. if a i \<noteq> 19 then b 0 else b 5), mm)"
    unfolding E_def by (rule step) (use a b in \<open>simp_all add: r32_mod_simps\<close>)
  have next_pick: "lang_stmts kind tid (concat (pick_stmts ''p2'' op k ''p1'' y)) (E c g, mm) =
      Inr (E c' (\<lambda>i. if a i \<noteq> c' then g i else b j), mm)"
    if "to_int (NumberString k) = Inr kv" "op = ''+'' \<and> c' = c - kv \<or> op = ''-'' \<and> c' = c + kv" "14 \<le> c'" "c' \<le> 21"
      "env y = vec (\<lambda>_. b j)" "y \<noteq> ''p1''" "y \<noteq> ''p2''" for op k kv y c c' g j
  proof -
    have w: "word_op op (r32 (a i - c)) (r32 kv) = Inr (r32 (a i - c'))" for i
      using that(2)
    proof
      assume o: "op = ''+'' \<and> c' = c - kv"
      then have "a i - c' = a i - c + kv" by simp
      with o show ?thesis by (simp only: word_op_simps r32_plus)
    next
      assume o: "op = ''-'' \<and> c' = c + kv"
      then have "a i - c' = a i - c - kv" by simp
      with o show ?thesis by (simp only: word_op_simps r32_mod_simps)
    qed
    have "lang_stmts kind tid (concat (pick_stmts ''p2'' op k ''p1'' y)) (E c g, mm) =
      Inr ((E c g)(''p2'' := vec (\<lambda>i. r32 (a i - c')), ''p1'' := vec (\<lambda>i. if a i \<noteq> c' then g i else b j)), mm)"
      by (rule step) (use w that a in \<open>simp_all add: E_def\<close>)
    then show ?thesis by (simp add: E_def)
  qed
  define g where "g = (\<lambda>i. if a i \<noteq> 20 then if a i \<noteq> 18 then if a i \<noteq> 16 then if a i \<noteq> 21 then if a i \<noteq> 15 then
    if a i \<noteq> 17 then if a i \<noteq> 19 then b 0 else b 5 else b 3 else b 1 else b 7 else b 2 else b 4 else b 6)"
  have "lang_stmts kind tid (concat (butlast level3_flow_header_stmts)) (env, mm) = Inr (E 20 g, mm)"
    unfolding level3_flow_header_stmts_def g_def using b
    by (simp add: butlast_append lang_stmts_append first next_pick [where kv = 2 and c = 19 and c' = 17 and j = 3]
        next_pick [where kv = 2 and c = 17 and c' = 15 and j = 1] next_pick [where kv = "- 6" and c = 15 and c' = 21 and j = 7]
        next_pick [where kv = "- 5" and c = 21 and c' = 16 and j = 2] next_pick [where kv = 2 and c = 16 and c' = 18 and j = 4]
        next_pick [where kv = 2 and c = 18 and c' = 20 and j = 6])
  moreover have "g = (\<lambda>i. picked b (a i))"
  proof
    fix i
    have "a i = 14 \<or> a i = 15 \<or> a i = 16 \<or> a i = 17 \<or> a i = 18 \<or> a i = 19 \<or> a i = 20 \<or> a i = 21" using a(2) [of i] by presburger
    then show "g i = picked b (a i)" by (elim disjE) (simp_all add: g_def picked_def)
  qed
  moreover have "concat level3_flow_header_stmts = concat (butlast level3_flow_header_stmts) @ [xor_stmt ''p1'']"
    by (simp add: level3_flow_header_stmts_def butlast_append)
  ultimately have "lang_stmts kind tid (concat level3_flow_header_stmts) (env, mm) =
      lang_stmts kind tid [xor_stmt ''p1''] (E 20 (\<lambda>i. picked b (a i)), mm)" by (simp add: lang_stmts_append)
  with kinds [OF kind] assms(2) a(1) show ?thesis by (simp add: E_def xor_stmt_def meaning keeps_def written_def)
qed

end
