(* ===== verification/Kernel_Rounds.thy ===== *)
theory Kernel_Rounds
  imports Kernel_Meaning
begin

unbundle bit_operations_syntax

text \<open>
  The rounds of the generated program: in every lane, a round is a step of the reference walk.
\<close>

section \<open>Templates\<close>

lemma in_covered: "i \<in> set (covered rs) \<longleftrightarrow> (\<exists>(a, b) \<in> set rs. a \<le> i \<and> i < b)"
  by (auto simp: covered_def)

lemma special_branches:
  "lang_branches kind tid (map (\<lambda>_. A) sp @ bs) (map range_of sp @ rs) st =
    (if tid \<in> set (covered sp) then lang_stmts kind tid A st else lang_branches kind tid bs rs st)"
proof (induction sp)
  case (Cons r sp)
  obtain a b where "r = (a, b)" by (cases r)
  with Cons show ?case by (simp add: range_set_of in_covered)
qed (simp add: covered_def)

lemma standard_branches:
  "sd \<noteq> [] \<Longrightarrow> lang_branches kind tid (map (\<lambda>_. B) sd) (map range_of (butlast sd)) st = lang_stmts kind tid B st"
proof (induction sd)
  case (Cons r sd)
  obtain a b where "r = (a, b)" by (cases r)
  with Cons show ?case by (simp add: range_set_of)
qed simp

lemma template_meaning:
  assumes "0 \<le> tid" "tid < sz"
  shows "lang_stmts kind tid (template_stmts sz S A B) st = lang_stmts kind tid (if tid \<in> S then A else B) st"
proof -
  obtain sp sd where r: "template_ranges sz S = (sp, sd)" by (metis prod.exhaust)
  from template_ranges_ok [of sz S] assms r have c: "covered sp = filter (\<lambda>i. i \<in> S) [0..sz - 1]" "covered sd = filter (\<lambda>i. i \<notin> S) [0..sz - 1]"
    by simp_all
  then have S: "tid \<in> S \<longleftrightarrow> tid \<in> set (covered sp)" "tid \<notin> S \<longleftrightarrow> tid \<in> set (covered sd)" using assms by auto
  consider "sp = []" | "sp \<noteq> []" "sd = []" | "sp \<noteq> []" "sd \<noteq> []" by blast
  then show ?thesis
  proof cases
    case 1
    then have "covered sp = []" by simp
    with 1 S r show ?thesis by (simp add: template_stmts_def)
  next
    case 2
    then have "covered sd = []" by simp
    with 2 S r show ?thesis by (simp add: template_stmts_def)
  next
    case 3
    have "lang_stmts kind tid [] = Inr" by (rule ext) simp
    with 3 S r special_branches [of kind tid A sp "map (\<lambda>_. B) sd" "map range_of (butlast sd)" st] standard_branches [of sd kind tid B st]
    show ?thesis by (auto simp: template_stmts_def rbind_right)
  qed
qed

section \<open>The state of the lanes\<close>

text \<open>
  How the registers hold the nodes of the lanes: on level 1 and 2 by the last bits of the index, below as
  the address of the node. The first levels of the tree are in variables.
\<close>

definition node_vars :: "(string \<times> nat) list" where
  "node_vars = [(''t0'', 0), (''t1'', 1), (''t2'', 2), (''treevals'', 3), (''t4'', 4), (''t5'', 5), (''t6'', 6), (''b0'', 7),
     (''b1'', 8), (''b2'', 9), (''b3'', 10), (''b4'', 11), (''b5'', 12), (''b6'', 13), (''b7'', 14)]"

definition kernel_env :: "tree \<Rightarrow> env \<Rightarrow> bool" where
  "kernel_env t env \<longleftrightarrow> list_all (\<lambda>(x, k). k < length (tree_values t) \<longrightarrow> env x = vec (\<lambda>_. tree_values t ! k)) node_vars"

definition lane_state :: "nat \<Rightarrow> (nat \<Rightarrow> int \<times> int) \<Rightarrow> env \<Rightarrow> bool" where
  "lane_state l w env \<longleftrightarrow> env ''v'' = vec (\<lambda>i. snd (w i)) \<and>
     (l = 1 \<longrightarrow> env ''idx'' = vec (\<lambda>i. fst (w i) - 1)) \<and>
     (l = 2 \<longrightarrow> env ''idx'' = vec (\<lambda>i. (fst (w i) - 3) div 2) \<and> env ''p1'' = vec (\<lambda>i. (fst (w i) - 3) mod 2)) \<and>
     (2 < l \<longrightarrow> env ''idx'' = vec (\<lambda>i. fst (w i) + 7))"

text \<open>The tree in memory: words, a perfect tree, addresses that fit a word.\<close>

definition tree_at :: "tree \<Rightarrow> int list \<Rightarrow> bool" where
  "tree_at t mm \<longleftrightarrow> perfect t \<and> list_all is_word (tree_values t) \<and> int (length (tree_values t)) + 7 \<le> 2 ^ 32 \<and>
     (\<forall>idx. 0 \<le> idx \<longrightarrow> idx < int (length (tree_values t)) \<longrightarrow> py_get mm (7 + idx) = Inr (tree_values t ! nat idx))"

lemma kernel_envD: "kernel_env t env \<Longrightarrow> (x, k) \<in> set node_vars \<Longrightarrow> k < length (tree_values t) \<Longrightarrow> env x = vec (\<lambda>_. tree_values t ! k)"
  by (auto simp: kernel_env_def list_all_iff)

lemma kernel_env_keeps:
  assumes "kernel_env t env" "keeps env env'"
  shows "kernel_env t env'"
  unfolding kernel_env_def list_all_iff
proof clarify
  fix x k assume k: "(x, k) \<in> set node_vars" "k < length (tree_values t)"
  then have "x \<notin> written" by (auto simp: node_vars_def written_def)
  with kernel_envD [OF assms(1) k] keepsD [OF assms(2)] show "env' x = vec (\<lambda>_. tree_values t ! k)" by simp
qed

lemma perfect_length:
  assumes "perfect t" "l \<le> tree_height t"
  shows "2 ^ (l + 1) - 1 \<le> int (length (tree_values t))"
proof -
  have "(2 :: int) ^ (l + 1) \<le> 2 ^ (tree_height t + 1)" using assms(2) by (intro power_increasing) simp_all
  with assms(1) show ?thesis unfolding perfect_def by linarith
qed

lemma on_level_range:
  "on_level 0 n \<Longrightarrow> n = 0" "on_level (Suc 0) n \<Longrightarrow> n \<in> {1, 2}" "on_level 2 n \<Longrightarrow> n \<in> set [3..6]"
  "on_level 3 n \<Longrightarrow> n \<in> set [7..14]"
  by (auto simp: on_level_def)

lemma header_meaning:
  assumes kind: "kernel_kind kind" and env: "kernel_env t env" and st: "lane_state l w env"
    and lv: "\<And>i. on_level l (fst (w i))" and l: "l \<le> tree_height t" and t: "tree_at t mm" and tid: "0 \<le> tid" "tid < nt"
  shows "\<exists>env'. lang_stmts kind tid (fst (round_stmts nt l r)) (env, mm) = Inr (env', mm) \<and>
    env' ''v'' = vec (\<lambda>i. r32 (snd (w i) XOR (tree_values t ! nat (fst (w i))))) \<and>
    (l = 1 \<longrightarrow> env' ''idx'' = vec (\<lambda>i. fst (w i) - 1)) \<and> (1 < l \<longrightarrow> env' ''idx'' = vec (\<lambda>i. fst (w i) + 7)) \<and> keeps env env'"
proof -
  let ?V = "tree_values t"
  from t have p: "perfect t" "list_all is_word ?V" by (simp_all add: tree_at_def)
  note len = perfect_length [OF p(1) l]
  have v: "env ''v'' = vec (\<lambda>i. snd (w i))" using st by (simp add: lane_state_def)
  have word: "is_word (?V ! k)" if "k < length ?V" for k using p(2) that by (simp add: list_all_length)
  note env' = kernel_envD [OF env]
  have m: "py_get mm (fst (w i) + 7) = Inr (?V ! nat (fst (w i)))" for i
  proof -
    have "(1 :: int) \<le> 2 ^ l" by simp
    with lv [of i] len have "0 \<le> fst (w i)" "fst (w i) < int (length ?V)" by (auto simp: on_level_def)
    with t show ?thesis by (simp add: tree_at_def add.commute)
  qed
  consider "l = 0" | "l = 1" | "l = 2" | "l = 3" | "3 < l" by linarith
  then show ?thesis
  proof cases
    case 1
    with len have "env ''t0'' = vec (\<lambda>_. ?V ! 0)" by (intro env') (auto simp: node_vars_def)
    moreover have "fst (w i) = 0" for i using on_level_range(1) lv 1 by blast
    ultimately show ?thesis using level0_meaning [where env = env and val = "\<lambda>i. snd (w i)", OF kind v, of _ tid mm] 1 by (simp add: round_stmts_def Let_def)
  next
    case 2
    with len have n1: "3 \<le> length ?V" by simp
    then have n: "env ''t1'' = vec (\<lambda>_. ?V ! 1)" "env ''t2'' = vec (\<lambda>_. ?V ! 2)"
      by (intro env'; simp add: node_vars_def)+
    have idx: "env ''idx'' = vec (\<lambda>i. fst (w i) - 1)" using st 2 by (simp add: lane_state_def)
    have b: "fst (w i) - 1 = 0 \<or> fst (w i) - 1 = 1" for i using on_level_range(2) [of "fst (w i)"] lv [of i] 2 by auto
    have "(if fst (w i) - 1 \<noteq> 0 then ?V ! 2 else ?V ! 1) = ?V ! nat (fst (w i))" for i
      using on_level_range(2) [of "fst (w i)"] lv [of i] 2 by auto
    with level1_meaning [OF kind v n idx b word word, where tid = tid and mm = mm] n1 2
    show ?thesis by (auto simp: round_stmts_def Let_def template_meaning [OF tid])
  next
    case 3
    with len have n1: "7 \<le> length ?V" by simp
    then have n: "env ''treevals'' = vec (\<lambda>_. ?V ! 3)" "env ''t4'' = vec (\<lambda>_. ?V ! 4)"
      "env ''t5'' = vec (\<lambda>_. ?V ! 5)" "env ''t6'' = vec (\<lambda>_. ?V ! 6)"
      by (intro env'; simp add: node_vars_def)+
    let ?b = "\<lambda>i. (fst (w i) - 3) div 2" and ?d = "\<lambda>i. (fst (w i) - 3) mod 2"
    have idx: "env ''idx'' = vec ?b" "env ''p1'' = vec ?d" using st 3 by (simp_all add: lane_state_def)
    have n3: "fst (w i) \<in> {3, 4, 5, 6}" for i
      using on_level_range(3) [of "fst (w i)"] lv [of i] 3 by (simp add: upto.simps del: set_upto)
    have "(if ?b i \<noteq> 0 then if ?d i \<noteq> 0 then ?V ! 6 else ?V ! 5 else if ?d i \<noteq> 0 then ?V ! 4 else ?V ! 3) = ?V ! nat (fst (w i))" for i
      using n3 [of i] by (elim insertE emptyE; simp)
    moreover have "multiply_add (r32 (?b i - r32 (- 5))) 2 (?d i) = fst (w i) + 7" for i
      using n3 [of i] by (elim insertE emptyE; simp add: multiply_add_def)
    ultimately show ?thesis using level2_meaning [OF kind v n idx, where tid = tid and mm = mm] 3
      by (auto simp: round_stmts_def Let_def template_meaning [OF tid])
  next
    case 4
    let ?a = "\<lambda>i. fst (w i) + 7" and ?b = "\<lambda>k. ?V ! (7 + k)"
    have idx: "env ''idx'' = vec ?a" using st 4 by (simp add: lane_state_def)
    have n4: "fst (w i) \<in> {7, 8, 9, 10, 11, 12, 13, 14}" for i
      using on_level_range(4) [of "fst (w i)"] lv [of i] 4 by (simp add: upto.simps del: set_upto)
    have a: "14 \<le> ?a i \<and> ?a i \<le> 21" for i using n4 [of i] by auto
    have a2: "picked ?b (?a i) = ?V ! nat (fst (w i))" for i using n4 [of i] by (elim insertE emptyE; simp add: picked_def)
    have b: "env ''b0'' = vec (\<lambda>_. ?b 0)" "env ''b1'' = vec (\<lambda>_. ?b 1)" "env ''b2'' = vec (\<lambda>_. ?b 2)" "env ''b3'' = vec (\<lambda>_. ?b 3)"
      "env ''b4'' = vec (\<lambda>_. ?b 4)" "env ''b5'' = vec (\<lambda>_. ?b 5)" "env ''b6'' = vec (\<lambda>_. ?b 6)" "env ''b7'' = vec (\<lambda>_. ?b 7)"
      using 4 len by (intro env'; simp add: node_vars_def)+
    from level3_flow_meaning [OF kind v idx a b, where tid = tid and mm = mm] level3_meaning [OF kind v idx m, where tid = tid] a2 4
    show ?thesis by (auto simp: round_stmts_def Let_def template_meaning [OF tid])
  next
    case 5
    let ?a = "\<lambda>i. fst (w i) + 7"
    have idx: "env ''idx'' = vec ?a" using st 5 by (simp add: lane_state_def)
    from level3_meaning [OF kind v idx m, where tid = tid] 5
    show ?thesis by (simp add: round_stmts_def Let_def)
  qed
qed

section \<open>Rounds\<close>

lemma footer_step:
  assumes kind: "kernel_kind kind" and v: "env ''v'' = vec v'" and idx: "l = 1 \<longrightarrow> env ''idx'' = vec (\<lambda>i. n i - 1)"
      "1 < l \<longrightarrow> env ''idx'' = vec (\<lambda>i. n i + 7)"
    and lv: "\<And>i. on_level l (n i)" and l: "l < tree_height t" and t: "tree_at t mm" and tid: "0 \<le> tid" "tid < nt"
  shows "\<exists>env'. lang_stmts kind tid (snd (round_stmts nt l r)) (env, mm) = Inr (env', mm) \<and>
    lane_state (Suc l) (\<lambda>i. (next_index (n i) (v' i), v' i)) env' \<and> keeps env env'"
proof -
  have bit: "r32 (x mod 2) = x mod 2" for x by (intro r32_word) (auto simp: is_word_def intro: order.strict_trans [of _ 2])
  have nx: "next_index m x = 2 * m + 1 + x mod 2" for m x by (auto simp: next_index_def)
  consider "l = 0" | "l = 1" | "1 < l" by linarith
  then show ?thesis
  proof cases
    case 1
    have "n i = 0" for i using on_level_range(1) lv 1 by blast
    with kinds [OF kind] v 1 show ?thesis
      by (simp add: round_stmts_def Let_def level0_footer_stmts_def meaning lane_state_def bit nx keeps_def written_def)
  next
    case 2
    have "next_index (n i) (v' i) - 3 = (n i - 1) * 2 + v' i mod 2" for i by (simp add: nx)
    then have "(next_index (n i) (v' i) - 3) div 2 = n i - 1" "(next_index (n i) (v' i) - 3) mod 2 = v' i mod 2" for i
      by (simp_all add: div_mult_self3)
    with kinds [OF kind] v idx(1) 2 show ?thesis
      by (simp add: round_stmts_def Let_def level1_footer_stmts_def meaning lane_state_def bit keeps_def written_def)
  next
    case 3
    have len: "2 ^ (Suc l + 1) - 1 \<le> int (length (tree_values t))" using t l by (intro perfect_length) (auto simp: tree_at_def)
    have step: "multiply_add (n i + 7) 2 (if r32 (v' i mod 2) \<noteq> 0 then 4294967291 else 4294967290) = next_index (n i) (v' i) + 7" for i
    proof -
      have "2 ^ l - 1 \<le> n i" "n i < 2 ^ (l + 1) - 1" using lv [of i] by (simp_all add: on_level_def)
      moreover have "(1 :: int) \<le> 2 ^ l" by simp
      ultimately have "0 \<le> n i" "next_index (n i) (v' i) + 7 < 2 ^ 32" using len t by (auto simp: tree_at_def next_index_def)
      then have w: "is_word (next_index (n i) (v' i) + 7)" by (simp add: is_word_def next_index_def)
      have "multiply_add (n i + 7) 2 (if r32 (v' i mod 2) \<noteq> 0 then 4294967291 else 4294967290) = r32 (next_index (n i) (v' i) + 7 + 2 ^ 32)"
        by (auto simp: multiply_add_eq nx bit algebra_simps)
      also have "\<dots> = r32 (next_index (n i) (v' i) + 7)" unfolding r32_def by (rule mod_add_self2)
      also have "\<dots> = next_index (n i) (v' i) + 7" by (rule r32_word [OF w])
      finally show ?thesis .
    qed
    have idx: "env ''idx'' = vec (\<lambda>i. n i + 7)" using idx(2) 3 by simp
    have sn: "lang_stmts kind tid (snd (round_stmts nt l r)) (env, mm) = lang_stmts kind tid (concat level_footer_stmts) (env, mm) \<or>
        lang_stmts kind tid (snd (round_stmts nt l r)) (env, mm) = lang_stmts kind tid (concat level_footer_noted) (env, mm)"
      using 3 by (simp add: round_stmts_def Let_def template_meaning [OF tid])
    from footer_meaning [OF kind v idx, of _ tid mm] sn step 3 show ?thesis by (auto simp: lane_state_def)
  qed
qed

lemma word_xor: "is_word x \<Longrightarrow> is_word y \<Longrightarrow> is_word (x XOR y)"
  using XOR_upper [of x 32 y] by (simp add: is_word_def)

lemma hash_computation: "hash_value a = computation a"
  by (simp add: hash_value_def myhash_computation)

lemma round_meaning:
  assumes kind: "kernel_kind kind" and env: "kernel_env t env" and st: "lane_state (r mod (h + 1)) w env" and h: "tree_height t = h"
    and lv: "\<And>i. on_level (r mod (h + 1)) (fst (w i))" and word: "\<And>i. is_word (snd (w i))"
    and t: "tree_at t mm" and tid: "0 \<le> tid" "tid < nt"
  shows "\<exists>env'. lang_stmts kind tid (round_program h nt rounds r) (env, mm) = Inr (env', mm) \<and>
    env' ''v'' = vec (\<lambda>i. snd (walk t (w i))) \<and>
    (r + 1 < rounds \<longrightarrow> lane_state (Suc r mod (h + 1)) (\<lambda>i. walk t (w i)) env') \<and> keeps env env'"
proof -
  define l where "l = r mod (h + 1)"
  let ?V = "tree_values t" and ?n = "\<lambda>i. fst (w i)"
  have l: "l \<le> h" unfolding l_def using mod_less_divisor [of "h + 1" r] by simp
  from t have p: "perfect t" "list_all is_word ?V" by (simp_all add: tree_at_def)
  note lv = lv [folded l_def] and st = st [folded l_def]
  note len = perfect_length [OF p(1) l [folded h]]
  from header_meaning [OF kind env st lv l [folded h] t tid, of r] obtain e1 where
    e1: "lang_stmts kind tid (fst (round_stmts nt l r)) (env, mm) = Inr (e1, mm)"
    "e1 ''v'' = vec (\<lambda>i. r32 (snd (w i) XOR (?V ! nat (?n i))))" "keeps env e1"
    "l = 1 \<longrightarrow> e1 ''idx'' = vec (\<lambda>i. ?n i - 1)" "1 < l \<longrightarrow> e1 ''idx'' = vec (\<lambda>i. ?n i + 7)" by blast
  have range: "0 \<le> ?n i" "?n i < int (length ?V)" for i
  proof -
    have "(1 :: int) \<le> 2 ^ l" by simp
    with lv [of i] len show "0 \<le> ?n i" "?n i < int (length ?V)" by (auto simp: on_level_def)
  qed
  have hash: "computation (r32 (snd (w i) XOR (?V ! nat (?n i)))) = snd (walk t (w i))" for i
  proof -
    have "is_word (?V ! nat (?n i))" using p(2) range [of i] by (simp add: list_all_length nat_less_iff)
    with word word_xor show ?thesis by (simp add: walk_def Let_def hash_computation)
  qed
  from hash_meaning [where env = e1 and val = "\<lambda>i. r32 (snd (w i) XOR (?V ! nat (?n i)))", OF kind e1(2), of tid mm] hash obtain e2 where
    e2: "lang_stmts kind tid (concat hash_stmts) (e1, mm) = Inr (e2, mm)" "e2 ''v'' = vec (\<lambda>i. snd (walk t (w i)))"
    "e2 ''idx'' = e1 ''idx''" "keeps e1 e2" by auto
  note k2 = keeps_trans [OF e1(3) e2(4)]
  show ?thesis
  proof (cases "l = h \<or> r + 1 = rounds")
    case True
    have "lane_state (Suc r mod (h + 1)) (\<lambda>i. walk t (w i)) e2" if "l = h"
    proof -
      from that have "Suc r mod (h + 1) = 0" unfolding l_def by (simp add: mod_Suc)
      with e2(2) show ?thesis by (simp add: lane_state_def)
    qed
    with True e1(1) e2 k2 show ?thesis by (auto simp: round_program_def Let_def lang_stmts_append l_def)
  next
    case False
    with l have lh: "l < h" by simp
    have s: "Suc r mod (h + 1) = Suc l" using lh unfolding l_def by (simp add: mod_Suc)
    have "next_index (?n i) (snd (walk t (w i))) < int (length ?V)" for i
    proof -
      have "2 ^ (Suc l + 1) - 1 \<le> int (length ?V)" using p(1) lh h by (intro perfect_length) auto
      with lv [of i] show ?thesis by (auto simp: on_level_def next_index_def)
    qed
    then have "walk t (w i) = (next_index (?n i) (snd (walk t (w i))), snd (walk t (w i)))" for i
      by (simp add: walk_def Let_def wrap_index_def) (meson not_le)
    then have w: "(\<lambda>i. (next_index (?n i) (snd (walk t (w i))), snd (walk t (w i)))) = (\<lambda>i. walk t (w i))" by metis
    from footer_step [where env = e2 and v' = "\<lambda>i. snd (walk t (w i))" and n = ?n, OF kind e2(2) _ _ lv lh [folded h] t tid, of r] e1(4,5) e2(3) obtain e3 where
      e3: "lang_stmts kind tid (snd (round_stmts nt l r)) (e2, mm) = Inr (e3, mm)"
      "lane_state (Suc l) (\<lambda>i. walk t (w i)) e3" "keeps e2 e3" unfolding w by auto
    from e3(2) have "e3 ''v'' = vec (\<lambda>i. snd (walk t (w i)))" by (simp add: lane_state_def)
    with e1(1) e2(1) e3 keeps_trans [OF k2 e3(3)] False s show ?thesis
      by (auto simp: round_program_def Let_def lang_stmts_append l_def)
  qed
qed

lemma rounds_meaning:
  assumes kind: "kernel_kind kind" and env: "kernel_env t env" and v: "env ''v'' = vec x" "\<And>i. is_word (x i)"
    and h: "tree_height t = h" and t: "tree_at t mm" and tid: "0 \<le> tid" "tid < nt" and k: "k \<le> rounds"
  shows "\<exists>env'. lang_stmts kind tid (concat (map (round_program h nt rounds) [0..<k])) (env, mm) = Inr (env', mm) \<and>
    env' ''v'' = vec (\<lambda>i. snd ((walk t ^^ k) (0, x i))) \<and>
    (k < rounds \<longrightarrow> lane_state (k mod (h + 1)) (\<lambda>i. (walk t ^^ k) (0, x i)) env') \<and> keeps env env'"
  using k
proof (induction k)
  case 0
  with v(1) show ?case by (simp add: lane_state_def keeps_refl)
next
  case (Suc k)
  then obtain e where e: "lang_stmts kind tid (concat (map (round_program h nt rounds) [0..<k])) (env, mm) = Inr (e, mm)"
    "lane_state (k mod (h + 1)) (\<lambda>i. (walk t ^^ k) (0, x i)) e" "keeps env e" by auto
  have p: "perfect t" using t by (simp add: tree_at_def)
  have word: "is_word (snd ((walk t ^^ k) (0, x i)))" for i
    using v(2) by (cases k) (simp_all add: walk_def Let_def hash_value_word)
  from round_meaning [OF kind kernel_env_keeps [OF env e(3)] e(2) h _ word t tid, of rounds] walk_level [OF p, unfolded h]
  obtain e' where "lang_stmts kind tid (round_program h nt rounds k) (e, mm) = Inr (e', mm)"
    "e' ''v'' = vec (\<lambda>i. snd (walk t ((walk t ^^ k) (0, x i))))"
    "k + 1 < rounds \<longrightarrow> lane_state (Suc k mod (h + 1)) (\<lambda>i. walk t ((walk t ^^ k) (0, x i))) e'" "keeps e e'" by blast
  with e keeps_trans [OF e(3)] show ?case by (auto simp: lang_stmts_append)
qed

end
