(* ===== verification/Kernel_Correct.thy ===== *)
theory Kernel_Correct
  imports Kernel_Rounds
begin

text \<open>
  The generated program computes the reference kernel (C27).
\<close>

section \<open>One thread\<close>

lemma pairwise_sum: "env ''tidxlen'' = [a] \<Longrightarrow> env ''inp_values_ptr'' = [p] \<Longrightarrow>
    lanes_op (Suc 0) ''+'' (env ''tidxlen'') (env ''inp_values_ptr'') = Inr [r32 (a + p)]"
  by (simp add: lanes_op_def)

lemma load_vec:
  assumes "\<And>i. i < VLEN \<Longrightarrow> py_get mm (a + int i) = Inr (x i)"
  shows "mapM (\<lambda>i. py_get mm (a + int i)) [0..<VLEN] = Inr (vec x)"
proof -
  have "mapM (\<lambda>i. py_get mm (a + int i)) [0..<VLEN] = mapM (\<lambda>i. Inr (x i)) [0..<VLEN]"
    using assms by (intro mapM_upt_cong) simp
  then show ?thesis by (simp add: mapM_Inr vec_def)
qed

lemma preamble_meaning:
  assumes kind: "kernel_kind kind" and env: "env ''tidxlen'' = [a]" "env ''inp_values_ptr'' = [p]" and w: "is_word (a + p)"
    and load: "\<And>i. i < VLEN \<Longrightarrow> py_get mm (a + p + int i) = Inr (x i)"
  shows "lang_stmts kind tid (concat thread_stmts) (env, mm) = Inr (env(''tidxlen'' := [a + p], ''v'' := vec x), mm)"
  using kinds [OF kind] env w load_vec [OF load] pairwise_sum [OF env]
  by (simp add: thread_stmts_def lang_decl_def meaning)

lemma store_meaning:
  assumes kind: "kernel_kind kind" and env: "env ''tidxlen'' = [a]" "env ''v'' = vec y"
  shows "lang_stmts kind tid (concat store_stmts) (env, mm) =
    rbind (commit (map (\<lambda>i. (a + int i, y i)) [0..<VLEN]) mm) (\<lambda>mm. Inr (env, mm))"
proof -
  have eq: "map (\<lambda>i. (a + int i, vec y ! i)) [0..<VLEN] = map (\<lambda>i. (a + int i, y i)) [0..<VLEN]" by simp
  show ?thesis unfolding eq [symmetric] using kinds [OF kind] env by (simp add: store_stmts_def lang_store_def meaning rbind_assoc)
qed

text \<open>The final values of the lanes of a thread.\<close>

definition final_value :: "tree \<Rightarrow> nat \<Rightarrow> int \<Rightarrow> int" where
  "final_value t rounds x = snd ((walk t ^^ rounds) (0, x))"

lemma thread_meaning:
  assumes kind: "kernel_kind kind" and env: "kernel_env t env" "env ''tidxlen'' = [a]" "env ''inp_values_ptr'' = [p]"
    and w: "is_word (a + p)" and x: "\<And>i. i < VLEN \<Longrightarrow> py_get mm (a + p + int i) = Inr (x i)" "\<And>i. is_word (x i)"
    and h: "tree_height t = h" and t: "tree_at t mm" and tid: "0 \<le> tid" "tid < nt"
  shows "\<exists>env'. lang_stmts kind tid (thread_prog (kernel_program h nt rounds)) (env, mm) =
      rbind (commit (map (\<lambda>i. (a + p + int i, final_value t rounds (x i))) [0..<VLEN]) mm) (\<lambda>mm. Inr (env', mm)) \<and>
    kernel_env t env' \<and> env' ''inp_values_ptr'' = [p]"
proof -
  define e1 where "e1 = env(''tidxlen'' := [a + p], ''v'' := vec x)"
  have "(''tidxlen'', k) \<notin> set node_vars" "(''v'', k) \<notin> set node_vars" for k by (auto simp: node_vars_def)
  then have k1: "kernel_env t e1" using env(1) by (auto simp: e1_def kernel_env_def list_all_iff)
  have v1: "e1 ''v'' = vec x" by (simp add: e1_def)
  from rounds_meaning [OF kind k1 v1 x(2) h t tid order_refl, of rounds] obtain e2 where
    e2: "lang_stmts kind tid (concat (map (round_program h nt rounds) [0..<rounds])) (e1, mm) = Inr (e2, mm)"
    "e2 ''v'' = vec (\<lambda>i. final_value t rounds (x i))" "keeps e1 e2" unfolding final_value_def by blast
  have s: "e2 ''tidxlen'' = [a + p]" "e2 ''inp_values_ptr'' = [p]"
    using keepsD [OF e2(3)] env(3) by (simp_all add: written_def e1_def)
  have "lang_stmts kind tid (thread_prog (kernel_program h nt rounds)) (env, mm) =
      lang_stmts kind tid (concat store_stmts) (e2, mm)"
    using preamble_meaning [OF kind env(2,3) w x(1)] e2(1)
    by (simp add: kernel_program_def lang_stmts_append template_meaning [OF tid] e1_def)
  with store_meaning [OF kind s(1) e2(2)] kernel_env_keeps [OF k1 e2(3)] s(2) show ?thesis by auto
qed

section \<open>The global statements\<close>

lemma word_of_vec: "k < VLEN \<Longrightarrow> replicate VLEN (vec g ! k) = vec (\<lambda>_. g k)"
  by (simp add: replicate_vec)

lemma global_meaning:
  assumes kind: "kernel_kind kind" and load: "\<And>i. i < 15 \<Longrightarrow> py_get mm (7 + int i) = Inr (g i)" and p: "py_get mm 6 = Inr p"
  shows "\<exists>env'. lang_stmts kind tid (concat global_stmts) (env, mm) = Inr (env', mm) \<and>
    env' ''inp_values_ptr'' = [p] \<and> list_all (\<lambda>(x, k). env' x = vec (\<lambda>_. g k)) node_vars"
proof -
  have "py_get mm (14 + int i) = Inr (g (7 + i))" if "i < VLEN" for i
    using load [of "7 + i"] that by (simp add: VLEN_def)
  note high = load_vec [OF this]
  have "py_get mm (7 + int i) = Inr (g i)" if "i < VLEN" for i using load that by (simp add: VLEN_def)
  note low = load_vec [OF this]
  have l: "(0 :: nat) < VLEN" "1 < VLEN" "2 < VLEN" "3 < VLEN" "4 < VLEN" "5 < VLEN" "6 < VLEN" "7 < VLEN" by (simp_all add: VLEN_def)
  from kinds [OF kind] high low p l show ?thesis
    by (simp add: global_stmts_def lang_decl_def meaning node_vars_def)
qed

section \<open>All threads\<close>

text \<open>
  Running a program: the global statements once, then the threads one after the other, in order. A thread
  finds in \<open>tidxlen\<close> the index of its first item; it shares the memory and the global variables with the
  threads before it, and its own variables hold anything.
\<close>

definition lang_thread :: "(string \<Rightarrow> bool) \<Rightarrow> program \<Rightarrow> lang_state \<Rightarrow> nat \<Rightarrow> lang_state res" where
  "lang_thread kind prog st tid =
     lang_stmts kind (int tid) (thread_prog prog) ((fst st)(''tidxlen'' := [int VLEN * int tid]), snd st)"

definition lang_run :: "(string \<Rightarrow> bool) \<Rightarrow> program \<Rightarrow> nat \<Rightarrow> lang_state \<Rightarrow> lang_state res" where
  "lang_run kind prog n st =
     rbind (lang_stmts kind 0 (global_prog prog) st) (foldM (lang_thread kind prog) [0..<n])"

definition walked_values :: "tree \<Rightarrow> nat \<Rightarrow> nat \<Rightarrow> input \<Rightarrow> input" where
  "walked_values t rounds k inp = inp\<lparr>inp_values :=
     map (\<lambda>j. if j < k then final_value t rounds (inp_values inp ! j) else inp_values inp ! j) [0..<length (inp_values inp)]\<rparr>"

lemma commit_block:
  assumes "a + n \<le> length mm"
  shows "commit (map (\<lambda>i. (int (a + i), f i)) [0..<n]) mm =
    Inr (map (\<lambda>j. if a \<le> j \<and> j < a + n then f (j - a) else mm ! j) [0..<length mm])"
  using assms
proof (induction n)
  case 0
  have "map (\<lambda>j. if a \<le> j \<and> j < a + 0 then f (j - a) else mm ! j) [0..<length mm] = mm"
    by (rule nth_equalityI) auto
  then show ?case by simp
next
  case (Suc n)
  let ?ys = "map (\<lambda>j. if a \<le> j \<and> j < a + n then f (j - a) else mm ! j) [0..<length mm]"
  from Suc have IH: "foldM (\<lambda>ys (a, v). py_set ys a v) (map (\<lambda>i. (int (a + i), f i)) [0..<n]) mm = Inr ?ys" by (simp add: commit_def)
  have "py_set ?ys (int (a + n)) (f n) = Inr (?ys[a + n := f n])" using Suc.prems by (simp add: py_set_nat del: of_nat_add)
  moreover have "?ys[a + n := f n] = map (\<lambda>j. if a \<le> j \<and> j < a + Suc n then f (j - a) else mm ! j) [0..<length mm]"
    using Suc.prems by (intro nth_equalityI) (auto simp: nth_list_update)
  ultimately show ?case by (simp add: commit_def foldM_append IH del: of_nat_add)
qed

lemma walked_values_step:
  assumes len: "length (inp_values inp) = length (inp_indices inp)" and k: "k + VLEN \<le> length (inp_values inp)"
  shows "commit (map (\<lambda>i. (7 + int (length (tree_values t)) + int (length (inp_indices inp)) + int k + int i,
      final_value t rounds (inp_values inp ! (k + i)))) [0..<VLEN]) (mem_layout t (walked_values t rounds k inp)) =
    Inr (mem_layout t (walked_values t rounds (k + VLEN) inp))"
proof -
  let ?W = "inp_values inp" and ?pre = "mem_header t inp @ tree_values t @ inp_indices inp"
  let ?f = "\<lambda>i. final_value t rounds (?W ! (k + i))"
  define B where "B = length ?pre"
  have B: "7 + int (length (tree_values t)) + int (length (inp_indices inp)) = int B" by (simp add: B_def)
  have layout: "mem_layout t (walked_values t rounds m inp) = ?pre @ map (\<lambda>j. if j < m then final_value t rounds (?W ! j) else ?W ! j) [0..<length ?W]" for m
    by (simp add: mem_layout_def walked_values_def mem_header_def)
  have "map (\<lambda>j. if B + k \<le> j \<and> j < B + k + VLEN then ?f (j - (B + k)) else mem_layout t (walked_values t rounds k inp) ! j)
      [0..<length (mem_layout t (walked_values t rounds k inp))] = mem_layout t (walked_values t rounds (k + VLEN) inp)"
    unfolding layout by (rule nth_equalityI) (auto simp: B_def nth_append ac_simps)
  moreover have "B + k + VLEN \<le> length (mem_layout t (walked_values t rounds k inp))" using k by (simp add: layout B_def)
  ultimately show ?thesis using commit_block [of "B + k" VLEN "mem_layout t (walked_values t rounds k inp)" ?f]
    by (simp add: B)
qed

lemma tree_at_layout:
  assumes "perfect t" "list_all is_word (tree_values t)" "int (length (tree_values t)) + 7 \<le> 2 ^ 32"
    "length (inp_values inp) = length (inp_indices inp)"
  shows "tree_at t (mem_layout t inp)"
  using assms mem_layout_get(1) [OF assms(4)] by (simp add: tree_at_def)

lemma threads_meaning:
  assumes kind: "kernel_kind kind" and env: "kernel_env t env" "env ''inp_values_ptr'' = [7 + int (length (tree_values t)) + int b]"
    and t: "perfect t" "list_all is_word (tree_values t)" "tree_height t = h"
    and inp: "length (inp_values inp) = b" "length (inp_indices inp) = b" "list_all is_word (inp_values inp)"
    and b: "b = VLEN * n" and size: "7 + int (length (tree_values t)) + 2 * int b \<le> 2 ^ 32" and k: "k \<le> n"
  shows "\<exists>env'. foldM (lang_thread kind (kernel_program h (int n) rounds)) [0..<k] (env, mem_layout t inp) =
      Inr (env', mem_layout t (walked_values t rounds (VLEN * k) inp)) \<and>
    kernel_env t env' \<and> env' ''inp_values_ptr'' = [7 + int (length (tree_values t)) + int b]"
  using k
proof (induction k)
  case 0
  have "walked_values t rounds 0 inp = inp" by (simp add: walked_values_def map_nth)
  with env show ?case by simp
next
  case (Suc k)
  let ?n = "int (length (tree_values t))" and ?W = "inp_values inp"
  let ?mm = "mem_layout t (walked_values t rounds (VLEN * k) inp)"
  let ?p = "7 + ?n + int b" and ?a = "int VLEN * int k"
  from Suc.IH [OF Suc_leD [OF Suc.prems]] obtain e where e: "foldM (lang_thread kind (kernel_program h (int n) rounds)) [0..<k] (env, mem_layout t inp) = Inr (e, ?mm)"
    "kernel_env t e" "e ''inp_values_ptr'' = [?p]" by blast
  define e1 where "e1 = e(''tidxlen'' := [?a])"
  have "VLEN * (k + 1) \<le> b" using Suc.prems b by (metis Suc_eq_plus1 mult_le_mono2)
  then have kb: "VLEN * k + VLEN \<le> b" by simp
  have "(''tidxlen'', j) \<notin> set node_vars" for j by (auto simp: node_vars_def)
  with e(2) have e1: "kernel_env t e1" "e1 ''tidxlen'' = [?a]" "e1 ''inp_values_ptr'' = [?p]"
    using e(3) by (auto simp: e1_def kernel_env_def list_all_iff)
  have vl: "length (inp_values (walked_values t rounds (VLEN * k) inp)) = length (inp_indices (walked_values t rounds (VLEN * k) inp))"
    using inp by (simp add: walked_values_def)
  have "int VLEN * int k + int VLEN \<le> int b" using kb by (metis of_nat_add of_nat_le_iff of_nat_mult)
  then have w: "is_word (?a + ?p)" using size by (simp add: is_word_def VLEN_def)
  define x where "x i = (if i < VLEN then ?W ! (VLEN * k + i) else 0)" for i
  have load: "py_get ?mm (?a + ?p + int i) = Inr (x i)" if "i < VLEN" for i
    using mem_layout_get(3) [OF vl, of "VLEN * k + i" t] that kb inp by (simp add: walked_values_def x_def algebra_simps)
  have words: "is_word (x i)" for i using inp kb by (simp add: x_def list_all_length)
  have tree: "tree_at t ?mm" using t size vl by (intro tree_at_layout) simp_all
  have "int k < int n" using Suc.prems by simp
  from thread_meaning [OF kind e1 w load words t(3) tree _ this, of rounds] obtain e2 where
    e2: "lang_stmts kind (int k) (thread_prog (kernel_program h (int n) rounds)) (e1, ?mm) =
      rbind (commit (map (\<lambda>i. (?a + ?p + int i, final_value t rounds (x i))) [0..<VLEN]) ?mm) (\<lambda>mm. Inr (e2, mm))"
    "kernel_env t e2" "e2 ''inp_values_ptr'' = [?p]" by auto
  have eq: "map (\<lambda>i. (?a + ?p + int i, final_value t rounds (x i))) [0..<VLEN] =
      map (\<lambda>i. (7 + ?n + int (length (inp_indices inp)) + int (VLEN * k) + int i, final_value t rounds (?W ! (VLEN * k + i)))) [0..<VLEN]"
    by (rule map_cong) (simp_all add: x_def inp algebra_simps)
  have "commit (map (\<lambda>i. (?a + ?p + int i, final_value t rounds (x i))) [0..<VLEN]) ?mm =
      Inr (mem_layout t (walked_values t rounds (VLEN * Suc k) inp))"
    unfolding eq using walked_values_step [of inp "VLEN * k" t rounds] inp kb by (simp add: add.commute)
  with e2(1) have "lang_stmts kind (int k) (thread_prog (kernel_program h (int n) rounds)) (e1, ?mm) =
      Inr (e2, mem_layout t (walked_values t rounds (VLEN * Suc k) inp))" by simp
  then have "lang_thread kind (kernel_program h (int n) rounds) (e, ?mm) k = Inr (e2, mem_layout t (walked_values t rounds (VLEN * Suc k) inp))"
    unfolding lang_thread_def fst_conv snd_conv e1_def .
  with e(1) e2(2,3) show ?case by (simp add: foldM_append)
qed

section \<open>The kernel\<close>

definition kernel_input :: "tree \<Rightarrow> input \<Rightarrow> nat \<Rightarrow> nat \<Rightarrow> bool" where
  "kernel_input t inp b rounds \<longleftrightarrow> perfect t \<and> list_all is_word (tree_values t) \<and> list_all is_word (inp_values inp) \<and>
     length (inp_values inp) = b \<and> inp_indices inp = replicate b 0 \<and> inp_rounds inp = int rounds \<and>
     7 + int (length (tree_values t)) + 2 * int b \<le> 2 ^ 32"

lemma kernel_input_ok: "kernel_input t inp b rounds \<Longrightarrow> input_ok t inp"
proof -
  assume k: "kernel_input t inp b rounds"
  have "(1 :: int) < 2 ^ (tree_height t + 1)" by (rule one_less_power) simp_all
  then have "0 < int (length (tree_values t))" using k unfolding kernel_input_def perfect_def by linarith
  with k show ?thesis by (auto simp: input_ok_def kernel_input_def)
qed

lemma walked_values_all:
  assumes "walked t inp rounds inp'" "inp_indices inp = replicate (length (inp_values inp)) 0" "input_ok t inp'"
  shows "walked_values t rounds (length (inp_values inp)) inp = inp\<lparr>inp_values := inp_values inp'\<rparr>"
proof -
  have "inp_values inp' ! i = final_value t rounds (inp_values inp ! i)" if "i < length (inp_values inp)" for i
    using assms(1,2) that by (auto simp: walked_def item_def final_value_def dest!: spec [of _ i] arg_cong [of _ _ snd])
  moreover have "length (inp_values inp') = length (inp_values inp)"
    using assms by (simp add: walked_def input_ok_def)
  ultimately have "map (\<lambda>j. if j < length (inp_values inp) then final_value t rounds (inp_values inp ! j) else inp_values inp ! j)
      [0..<length (inp_values inp)] = inp_values inp'" by (intro nth_equalityI) auto
  then show ?thesis by (simp add: walked_values_def)
qed

text \<open>
  C27: the generated program computes the kernel. For a perfect tree of words and an input of words that
  starts at the root, with a memory image that can be addressed by words, the program the generator
  answers, run on the image thread after thread, ends with the image in which the values are those the
  reference kernel computes.
\<close>

theorem generated_program_correct:
  assumes "input_to_program (tree_height t) (int b) rounds = Inr prog" "kernel_input t inp b rounds" "kernel_kind kind"
  shows "\<exists>inp' env'. reference_kernel t inp = Inr inp' \<and>
    lang_run kind prog (b div VLEN) (env, build_mem_image t inp) = Inr (env', build_mem_image t (inp\<lparr>inp_values := inp_values inp'\<rparr>))"
proof -
  note inp = assms(2) [unfolded kernel_input_def]
  let ?n = "length (tree_values t)" and ?mm = "mem_layout t inp"
  from assms(1) have b: "int b mod 8 = 0" "8 \<le> int b" and prog: "prog = kernel_program (tree_height t) (int b div 8) rounds"
    unfolding generator_answer by (auto split: if_splits)
  define n where "n = b div VLEN"
  have "8 dvd b" using b(1) by (metis dvd_eq_mod_eq_0 int_dvd_int_iff of_nat_numeral)
  then have n: "b = VLEN * n" "int b div 8 = int n" by (simp_all add: n_def VLEN_def zdiv_int)
  have len: "length (inp_values inp) = length (inp_indices inp)" using inp by simp
  have pos: "1 \<le> ?n"
  proof -
    have "(1 :: int) < 2 ^ (tree_height t + 1)" by (rule one_less_power) simp_all
    with inp show ?thesis unfolding perfect_def by linarith
  qed
  have mem_len: "length ?mm = 7 + ?n + 2 * b" using inp by (simp add: mem_layout_def)
  have get: "py_get ?mm (7 + int i) = Inr (?mm ! (7 + i))" if "i < 15" for i
    using py_get_nat [of "7 + i" ?mm] that mem_len pos b(2) by simp
  from global_meaning [OF assms(3) get mem_layout_header(7), where tid = 0 and env = env] obtain e where
    e: "lang_stmts kind 0 (concat global_stmts) (env, ?mm) = Inr (e, ?mm)" "e ''inp_values_ptr'' = [7 + int ?n + int b]"
    "list_all (\<lambda>(x, k). e x = vec (\<lambda>_. ?mm ! (7 + k))) node_vars" using inp by auto
  have "?mm ! (7 + k) = tree_values t ! k" if "k < ?n" for k using that by (simp add: mem_layout_def nth_append)
  with e(3) have k: "kernel_env t e" by (auto simp: kernel_env_def list_all_iff)
  from reference_kernel_walks [OF kernel_input_ok [OF assms(2)]] inp obtain inp' where
    r: "reference_kernel t inp = Inr inp'" "walked t inp rounds inp'" by auto
  have "walked_values t rounds b inp = inp\<lparr>inp_values := inp_values inp'\<rparr>"
    using walked_values_all [OF r(2)] r(2) inp by (simp add: walked_def)
  moreover have "length (inp_values inp') = b" using r(2) inp by (simp add: walked_def input_ok_def)
  moreover from threads_meaning [OF assms(3) k e(2) _ _ refl _ _ _ n(1) _ order_refl, of inp rounds] inp obtain env' where
    "foldM (lang_thread kind (kernel_program (tree_height t) (int n) rounds)) [0..<n] (e, ?mm) =
      Inr (env', mem_layout t (walked_values t rounds b inp))" using n(1) by auto
  ultimately have "lang_run kind prog n (env, build_mem_image t inp) =
      Inr (env', build_mem_image t (inp\<lparr>inp_values := inp_values inp'\<rparr>))"
    using e(1) inp by (simp add: lang_run_def prog n(2) build_mem_image_layout len kernel_program_def)
  with r(1) show ?thesis unfolding n_def by blast
qed

text \<open>Any words will do for the random numbers.\<close>

lemma generated_input:
  assumes "\<And>i. is_word (rnd i)" "\<And>i. is_word (rnd' i)" "7 + (2 ^ (h + 1) - 1) + 2 * int b \<le> 2 ^ 32"
  shows "kernel_input (tree_generate rnd h) (input_generate rnd' b (int rounds)) b rounds"
proof -
  have "length (tree_values (tree_generate rnd h)) = 2 ^ (h + 1) - 1" by (simp add: tree_generate_def)
  then have "int (length (tree_values (tree_generate rnd h))) = 2 ^ (h + 1) - 1" by (simp add: of_nat_diff)
  with assms perfect_generate show ?thesis
    by (simp add: kernel_input_def tree_generate_def input_generate_def list_all_iff)
qed

definition sample_tree :: tree where
  "sample_tree = tree_generate (\<lambda>i. int (i mod 1000)) 10"

definition sample_input :: input where
  "sample_input = input_generate (\<lambda>i. int (i mod 77)) 256 (int 16)"

theorem generated_program_correct_witness:
  "\<exists>prog inp' env'. input_to_program 10 256 16 = Inr prog \<and> reference_kernel sample_tree sample_input = Inr inp' \<and>
    lang_run (\<lambda>x. x \<noteq> ''tidxlen'' \<and> x \<noteq> ''inp_values_ptr'') prog 32 (\<lambda>_. [], build_mem_image sample_tree sample_input) =
      Inr (env', build_mem_image sample_tree (sample_input\<lparr>inp_values := inp_values inp'\<rparr>))"
proof -
  have w: "is_word (int (i mod 1000))" "is_word (int (i mod 77))" for i
    using mod_less_divisor [of 1000 i] mod_less_divisor [of 77 i] by (auto simp: is_word_def)
  have a: "kernel_input sample_tree sample_input 256 16"
    unfolding sample_tree_def sample_input_def by (rule generated_input) (simp_all add: w)
  have "tree_height sample_tree = 10" by (simp add: sample_tree_def tree_generate_def)
  then have b: "input_to_program (tree_height sample_tree) (int 256) 16 = Inr (kernel_program 10 32 16)" 
    by (simp add: generator_answer)
  have "kernel_kind (\<lambda>x. x \<noteq> ''tidxlen'' \<and> x \<noteq> ''inp_values_ptr'')" by (simp add: kernel_kind_def)
  from generated_program_correct [OF b a this, of "\<lambda>_. []"] obtain inp' env' where
    r: "reference_kernel sample_tree sample_input = Inr inp'"
    "lang_run (\<lambda>x. x \<noteq> ''tidxlen'' \<and> x \<noteq> ''inp_values_ptr'') (kernel_program 10 32 16) (256 div VLEN)
      (\<lambda>_. [], build_mem_image sample_tree sample_input) =
      Inr (env', build_mem_image sample_tree (sample_input\<lparr>inp_values := inp_values inp'\<rparr>))" by blast
  have "256 div VLEN = 32" by (simp add: VLEN_def)
  from b \<open>tree_height sample_tree = 10\<close> have "input_to_program 10 256 16 = Inr (kernel_program 10 32 16)" by simp
  with r show ?thesis unfolding \<open>256 div VLEN = 32\<close> by blast
qed

end
