(* ===== verification/Driver.thy ===== *)
theory Driver
  imports Schedule_Correct Compile_Props Kernel_Program Simulator_Props
begin

text \<open>
  The drivers: \<open>KernelBuilder.build_kernel\<close> composes generator, lowering and packer
  (\<open>kernel_builder.py\<close>), the statistics it reports of the result, and the loop that tests a kernel on
  the simulator against the reference (\<open>perf_takehome.py\<close>). What is printed and never read back is
  kept where computing it can raise.
\<close>

section \<open>Statistics of a list of bundles\<close>

text \<open>\<open>d[k] += n\<close> of a \<open>defaultdict(int)\<close>.\<close>

definition bump :: "'k \<Rightarrow> nat \<Rightarrow> ('k, nat) odict \<Rightarrow> ('k, nat) odict" where
  "bump k n d = dict_put k ((case map_of d k of None \<Rightarrow> 0 | Some v \<Rightarrow> v) + n) d"

definition debug_op :: "debug_slot \<Rightarrow> string" where
  "debug_op d = (case d of Compare _ _ \<Rightarrow> ''compare'' | VCompare _ _ \<Rightarrow> ''vcompare'' | OtherDebug op \<Rightarrow> op)"

text \<open>An entry of a bundle: its engine (\<open>None\<close> is debug) and the opcodes of its slots.\<close>

definition group_item :: "group \<Rightarrow> engine option \<times> string list" where
  "group_item g = (case g of Group e ss \<Rightarrow> (Some e, map fst ss) | DebugGroup ds \<Rightarrow> (None, map debug_op ds))"

record kernel_stats =
  histogram :: "(engine option \<times> nat, nat) odict"
  inst_count :: "(string, nat) odict"
  engine_count :: "(engine option, nat) odict"

definition no_stats :: kernel_stats where
  "no_stats = \<lparr>histogram = [], inst_count = [], engine_count = []\<rparr>"

definition add_stat :: "instr \<Rightarrow> kernel_stats \<Rightarrow> kernel_stats" where
  "add_stat ins st =
     st\<lparr>histogram := fold (\<lambda>(e, ops). bump (e, length ops) 1) (map group_item ins) (histogram st),
        inst_count := fold (\<lambda>(e, ops). fold (\<lambda>op. bump op 1) ops) (map group_item ins) (inst_count st),
        engine_count := fold (\<lambda>(e, ops). bump e (length ops)) (map group_item ins) (engine_count st)\<rparr>"

definition arithmetic_instr_count :: "instr list \<Rightarrow> nat" where
  "arithmetic_instr_count insts =
     fold (\<lambda>group n. fold (\<lambda>(e, ops) n.
         if e \<noteq> Some VALU \<and> e \<noteq> Some ALU then n
         else fold (\<lambda>op n. n + (if e = Some VALU then VLEN else 1)) ops n) (map group_item group) n) insts 0"

text \<open>
  \<open>ScratchSpace.print\<close>: the numbers of its summary (concurrent threads, space per thread, for globals,
  used and free). The maximum over no variables raises.
\<close>

definition scratch_report :: "scratch_space \<Rightarrow> (nat \<times> nat \<times> nat \<times> nat \<times> int) res" where
  "scratch_report ss =
     (if ss_var_meta ss = [] then Inl ValueError
      else Inr (Max (set (map vm_slots (map snd (ss_var_meta ss)))), per_thread_space ss, globals_space ss,
        scratch_ptr ss, free_space ss))"

definition stats_for_nerds :: "instr list \<Rightarrow> scratch_space \<Rightarrow> kernel_stats res" where
  "stats_for_nerds insts ss = rbind (scratch_report ss) (\<lambda>_. Inr (fold add_stat insts no_stats))"

section \<open>Building a kernel\<close>

text \<open>\<open>optimize\<close>; \<open>None\<close> stands for a packing loop that does not return.\<close>

definition optimize ::
  "sorted_set_of \<Rightarrow> nat heap_ops \<Rightarrow> program \<Rightarrow> int \<Rightarrow> int \<Rightarrow> (instr list \<times> scratch_space) res option" where
  "optimize S hp prog nthreads conc =
     (case program_to_work S hp prog nthreads conc of
        Inl e \<Rightarrow> Some (Inl e)
      | Inr p \<Rightarrow>
          (case work_to_instrs S hp p of
             None \<Rightarrow> None
           | Some r \<Rightarrow> Some (rbind r (\<lambda>(insts, _).
               rbind (stats_for_nerds insts (pk_ss p)) (\<lambda>_. Inr (insts, pk_ss p))))))"

definition build_kernel ::
  "sorted_set_of \<Rightarrow> nat heap_ops \<Rightarrow> nat \<Rightarrow> int \<Rightarrow> int \<Rightarrow> nat \<Rightarrow> instr list res option" where
  "build_kernel S hp forest_height n_nodes batch_size rounds =
     (let nthreads = (batch_size + int VLEN - 1) div int VLEN in
      if n_nodes \<noteq> 2 ^ (forest_height + 1) - 1 then Some (Inl AssertionError)
      else if nthreads * int VLEN \<noteq> batch_size then Some (Inl AssertionError)
      else
        (case rbind (input_to_program forest_height batch_size rounds) (\<lambda>prog.
              rbind (estimate_max_conc_threads prog nthreads) (\<lambda>conc. Inr (prog, conc))) of
           Inl e \<Rightarrow> Some (Inl e)
         | Inr (prog, conc) \<Rightarrow>
             map_option (\<lambda>r. rbind r (\<lambda>(insts, _). Inr insts)) (optimize S hp prog nthreads conc)))"

section \<open>Testing a kernel\<close>

definition N_CORES :: nat where "N_CORES = 1"

text \<open>\<open>do_kernel_test\<close> on a tree and an input; it answers the number of cycles.\<close>

definition kernel_test ::
  "sorted_set_of \<Rightarrow> nat heap_ops \<Rightarrow> tree \<Rightarrow> input \<Rightarrow> nat \<Rightarrow> int res option" where
  "kernel_test S hp t inp rounds =
     (let mm = build_mem_image t inp; n = int (length (inp_values inp)) in
      case build_kernel S hp (tree_height t) (int (length (tree_values t))) (int (length (inp_indices inp))) rounds of
        None \<Rightarrow> None
      | Some (Inl e) \<Rightarrow> Some (Inl e)
      | Some (Inr insts) \<Rightarrow>
          (case rbind (reference_kernel2 mm Map.empty) (\<lambda>(ref_mem, tr).
                rbind (py_get ref_mem 6) (\<lambda>inp_values_p.
                rbind (py_get ref_mem 5) (\<lambda>inp_indices_p. Inr (ref_mem, tr, inp_values_p)))) of
             Inl e \<Rightarrow> Some (Inl e)
           | Inr (ref_mem, tr, inp_values_p) \<Rightarrow>
               map_option (\<lambda>r. rbind r (\<lambda>m.
                   rbind (check AssertionError (py_slice (mem m) inp_values_p (inp_values_p + n) =
                     py_slice ref_mem inp_values_p (inp_values_p + n))) (\<lambda>_.
                   rbind (check ZeroDivisionError (cycle m \<noteq> 0)) (\<lambda>_. Inr (cycle m)))))
                 (run (new_machine mm insts N_CORES SCRATCH_SIZE tr))))"

text \<open>One round of \<open>test_ref_kernels\<close>.\<close>

definition ref_kernels_test :: "tree \<Rightarrow> input \<Rightarrow> unit res" where
  "ref_kernels_test t inp =
     (let mm = build_mem_image t inp in
      rbind (reference_kernel t inp) (\<lambda>inp'.
      rbind (reference_kernel2 mm Map.empty) (\<lambda>(mm', _).
      rbind (py_get mm' 5) (\<lambda>ip.
      rbind (check AssertionError (inp_indices inp' = py_slice mm' ip (ip + int (length (inp_indices inp'))))) (\<lambda>_.
      rbind (py_get mm' 6) (\<lambda>vp.
        check AssertionError (inp_values inp' = py_slice mm' vp (vp + int (length (inp_values inp'))))))))))"

end
