(* ===== verification/Display.thy ===== *)
theory Display
  imports Packer "HOL-Library.List_Lexorder" "HOL-Library.Char_ord"
begin

text \<open>
  The picture of a schedule (\<open>display.py\<close>): a grid with one row per cycle and one column per track,
  rendered as HTML, and what the packer shows in it (\<open>data_map\<close> and \<open>update_status\<close> of
  \<open>instr_graph_model.py\<close>, the \<open>compact_str\<close> methods of \<open>data_model.py\<close>). Writing the file is left out.
\<close>

section \<open>Segments\<close>

record data_info =
  hover :: string
  color :: string
  label :: string

type_synonym segment = "(int, data_info list) odict \<times> string"

record display =
  disp_N :: int
  disp_S :: int
  updates :: "segment list"

definition new_display :: "int \<Rightarrow> int \<Rightarrow> display" where
  "new_display N S = \<lparr>disp_N = N, disp_S = S, updates = []\<rparr>"

definition resolve_item :: "('a \<Rightarrow> string) \<Rightarrow> ('a, data_info) odict \<Rightarrow> 'a \<Rightarrow> data_info" where
  "resolve_item str datainfos it =
     (case map_of datainfos it of
        Some info \<Rightarrow> info
      | None \<Rightarrow> \<lparr>hover = ''Unknown item: '' @ str it, color = ''#ccc'', label = ''?''\<rparr>)"

text \<open>\<open>update\<close>: a segment with its items resolved, unless there are \<open>S\<close> of them. \<open>str\<close> is \<open>__str__\<close> of the items.\<close>

definition display_update ::
  "('a \<Rightarrow> string) \<Rightarrow> (int, 'a list) odict \<Rightarrow> ('a, data_info) odict \<Rightarrow> string \<Rightarrow> display \<Rightarrow> display" where
  "display_update str data datainfos summary d =
     (if int (length (updates d)) \<ge> disp_S d then d
      else d\<lparr>updates := updates d @
        [(dict_puts (map (\<lambda>(track, its). (track, map (resolve_item str datainfos) its)) data) [], summary)]\<rparr>)"

section \<open>Rendering\<close>

definition line_feed :: string where
  "line_feed = [CHR 0x0A]"

fun join :: "string \<Rightarrow> string list \<Rightarrow> string" where
  "join sep [] = []"
| "join sep [s] = s"
| "join sep (s # t # ss) = s @ sep @ join sep (t # ss)"

definition quoted :: "string \<Rightarrow> string" where
  "quoted s = CHR 0x22 # s @ [CHR 0x22]"

definition generate_css :: "display \<Rightarrow> string" where
  "generate_css d = join line_feed
    [[],
     ''        <style>'',
     ''            body {'',
     ''                font-family: 'Segoe UI', Tahoma, Geneva, Verdana, sans-serif;'',
     ''                background-color: #f4f4f9;'',
     ''                margin: 0;'',
     ''                padding: 20px;'',
     ''                color: #333;'',
     ''            }'',
     ''            h1 {'',
     ''                text-align: center;'',
     ''                color: #444;'',
     ''            }'',
     ''            /* The Main Grid Container */'',
     ''            .grid-container {'',
     ''                display: grid;'',
     ''                /* 1st column for Row Index + Summary, then N columns for tracks */'',
     ''                grid-template-columns: 120px repeat('' @ str_int (disp_N d) @ '', 1fr); '',
     ''                gap: 0;'',
     ''                background-color: #fff;'',
     ''                border: 1px solid #ccc;'',
     ''                box-shadow: 0 4px 6px rgba(0,0,0,0.1);'',
     ''                max-width: 100%;'',
     ''            }'',
     ''            '',
     ''            /* Header Cells */'',
     ''            .track-header {'',
     ''                background-color: #e0e0e0;'',
     ''                padding: 10px;'',
     ''                text-align: center;'',
     ''                font-weight: bold;'',
     ''                border-bottom: 2px solid #ccc;'',
     ''                border-right: 1px solid #ddd;'',
     ''            }'',
     [],
     ''            /* Data Cells */'',
     ''            .cell {'',
     ''                padding: 8px;'',
     ''                border-bottom: 1px solid #eee;'',
     ''                border-right: 1px solid #eee;'',
     ''                min-height: 50px;'',
     ''                display: flex;'',
     ''                flex-direction: column;'',
     ''                gap: 8px;'',
     ''            }'',
     [],
     ''            /* Grouped Row: Forces a new line for each label group */'',
     ''            .label-group {'',
     ''                display: flex;'',
     ''                flex-direction: row;'',
     ''                flex-wrap: wrap; '',
     ''                width: 100%;'',
     ''                gap: 5px;'',
     ''            }'',
     [],
     ''            /* Index Column Style */'',
     ''            .index-cell {'',
     ''                background-color: #f9f9f9;'',
     ''                display: flex;'',
     ''                flex-direction: column;'',
     ''                align-items: center;'',
     ''                justify-content: center;'',
     ''                padding: 5px;'',
     ''                border-bottom: 1px solid #eee;'',
     ''                border-right: 2px solid #ccc;'',
     ''                text-align: center;'',
     ''            }'',
     ''            '',
     ''            .row-number {'',
     ''                font-weight: bold;'',
     ''                font-size: 1.1em;'',
     ''                color: #333;'',
     ''            }'',
     ''            '',
     ''            .row-summary {'',
     ''                font-size: 0.75em;'',
     ''                color: #666;'',
     ''                margin-top: 4px;'',
     ''                line-height: 1.2;'',
     ''                word-break: break-word;'',
     ''            }'',
     ''            '',
     ''            .cell:hover {'',
     ''                background-color: #fafafa;'',
     ''            }'',
     [],
     ''            .circle {'',
     ''                width: 22px;'',
     ''                height: 22px;'',
     ''                border-radius: 50%;'',
     ''                border: 1px solid rgba(0,0,0,0.2);'',
     ''                display: flex;'',
     ''                align-items: center;'',
     ''                justify-content: center;'',
     ''                color: white;'',
     ''                font-weight: bold;'',
     ''                font-size: 11px;'',
     ''                text-shadow: 0px 0px 1px rgba(0,0,0,0.5);'',
     ''                transition: transform 0.1s, box-shadow 0.1s;'',
     ''                cursor: help;'',
     ''                user-select: none;'',
     ''            }'',
     ''            '',
     ''            .circle:hover {'',
     ''                transform: scale(1.3);'',
     ''                z-index: 10;'',
     ''                box-shadow: 0 2px 4px rgba(0,0,0,0.3);'',
     ''            }'',
     [],
     ''            /* Last column border cleanup */'',
     ''            .cell:nth-child('' @ str_int (disp_N d + 1) @ ''n) {'',
     ''                border-right: none;'',
     ''            }'',
     ''        </style>'',
     ''        '']"

text \<open>The infos of a cell, grouped by label in the order of their first occurrence.\<close>

definition label_groups :: "data_info list \<Rightarrow> (string, data_info list) odict" where
  "label_groups infos =
     fold (\<lambda>info groups. dict_put (label info)
             ((case map_of groups (label info) of None \<Rightarrow> [] | Some g \<Rightarrow> g) @ [info]) groups) infos []"

definition circle_html :: "data_info \<Rightarrow> string" where
  "circle_html info =
     ''<div class='' @ quoted ''circle'' @ '' style='' @ quoted (''background-color: '' @ color info @ '';'') @
     '' title='' @ quoted (hover info) @ ''>'' @ label info @ ''</div>''"

definition cell_html :: "nat \<Rightarrow> (int, data_info list) odict \<Rightarrow> int \<Rightarrow> string list" where
  "cell_html segment_idx resolved_data track_key =
     (let resolved_items = (case map_of resolved_data track_key of None \<Rightarrow> [] | Some its \<Rightarrow> its);
          groups = label_groups resolved_items
      in [''<div class='' @ quoted ''cell'' @ '' title='' @
            quoted (''Segment '' @ str_nat segment_idx @ '', Track '' @ str_int track_key) @ ''>''] @
         concat (map (\<lambda>lab. [''<div class='' @ quoted ''label-group'' @ ''>''] @
             map circle_html (the (map_of groups lab)) @ [''</div>'']) (sort (map fst groups))) @
         [''</div>''])"

definition index_cell_html :: "nat \<Rightarrow> string \<Rightarrow> string" where
  "index_cell_html segment_idx summary = join line_feed
     [[],
      ''                <div class='' @ quoted ''index-cell'' @ ''>'',
      ''                    <div class='' @ quoted ''row-number'' @ ''>'' @ str_nat segment_idx @ ''</div>'',
      ''                    <div class='' @ quoted ''row-summary'' @ ''>'' @ summary @ ''</div>'',
      ''                </div>'',
      ''            '']"

definition track_keys :: "display \<Rightarrow> int list" where
  "track_keys d = [- 1..disp_N d - 2]"

definition html_content :: "display \<Rightarrow> string list" where
  "html_content d =
     [''<!DOCTYPE html>'', ''<html>'', ''<head>'', ''<meta charset='UTF-8'>'', ''<title>Data Visualization</title>'',
      generate_css d, ''</head><body>'', ''<h1>System Status Tracks</h1>'',
      ''<div class='' @ quoted ''grid-container'' @ ''>'',
      ''<div class='' @ quoted ''track-header'' @ ''># / Summary</div>''] @
     map (\<lambda>key. ''<div class='' @ quoted ''track-header'' @ ''>'' @ str_int key @ ''</div>'') (track_keys d) @
     concat (map (\<lambda>(segment_idx, resolved_data, summary).
         index_cell_html segment_idx summary # concat (map (cell_html segment_idx resolved_data) (track_keys d)))
       (enumerate 0 (updates d))) @
     [''</div></body></html>'']"

text \<open>What \<open>render\<close> writes to its file.\<close>

definition render :: "display \<Rightarrow> string" where
  "render d = join line_feed (html_content d)"

section \<open>Compact texts of instructions\<close>

text \<open>A string padded to a width, on the left or on the right.\<close>

definition rjust :: "nat \<Rightarrow> string \<Rightarrow> string" where
  "rjust n s = replicate (n - length s) (CHR '' '') @ s"

definition ljust :: "nat \<Rightarrow> string \<Rightarrow> string" where
  "ljust n s = s @ replicate (n - length s) (CHR '' '')"

definition engine_name :: "engine \<Rightarrow> string" where
  "engine_name e = (case e of VALU \<Rightarrow> ''valu'' | ALU \<Rightarrow> ''alu'' | LOAD \<Rightarrow> ''load'' | STORE \<Rightarrow> ''store'' | FLOW \<Rightarrow> ''flow'')"

definition compact_register :: "string \<Rightarrow> int \<Rightarrow> bool \<Rightarrow> string" where
  "compact_register name off v =
     (if v then rjust 19 name @ ''[ ]''
      else if off > 0 then rjust 19 name @ ''['' @ str_int off @ '']''
      else rjust 22 name)"

definition compact_array_op :: "string \<Rightarrow> int \<Rightarrow> bool \<Rightarrow> string" where
  "compact_array_op name off v =
     (if v then rjust 13 name @ ''['' @ rjust 2 (str_int off) @ '' - '' @ rjust 2 (str_int (off + int VLEN - 1)) @ '']''
      else rjust 18 name @ ''['' @ rjust 2 (str_int off) @ '']'')"

definition compact_param :: "param \<Rightarrow> string" where
  "compact_param q =
     (case q of
        Op (LR name off v _) \<Rightarrow> compact_register name off v
      | Op (ArrayOp name off v _) \<Rightarrow> compact_array_op name off v
      | Imm i \<Rightarrow> rjust 22 (str_int i))"

definition compact_instr :: "logical_instr \<Rightarrow> string" where
  "compact_instr l =
     rjust 10 (engine_name (lin_engine l)) @
     join '' '' (rjust 22 (lin_opcode l) # map compact_param (lin_params l))"

text \<open>\<open>MinHeap.__str__\<close> of the positions that wait.\<close>

definition heap_str :: "nat list \<Rightarrow> string" where
  "heap_str xs = ''{'' @ concat (map (\<lambda>k. str_nat k @ '', '') xs) @ ''}''"

definition compact_str :: "imeta \<Rightarrow> string" where
  "compact_str x =
     rjust 10 (str_int (instid x)) @ '' '' @ rjust 5 (str_int (tid x)) @ '' '' @
     rjust 5 (str_int (instid_in_thread x)) @ '' '' @ ljust 150 (compact_instr (lin x)) @ ''          '' @ heap_str (after x)"

section \<open>What the packer shows\<close>

definition data_map :: "imeta \<Rightarrow> data_info" where
  "data_map x =
     (let shown = (\<lambda>c l. \<lparr>hover = compact_str x, color = c, label = l\<rparr>) in
      case lin_engine (lin x) of
        ALU \<Rightarrow> shown ''magenta'' ''A''
      | VALU \<Rightarrow> shown ''green'' ''V''
      | LOAD \<Rightarrow> shown ''blue'' ''L''
      | STORE \<Rightarrow> shown ''purple'' ''S''
      | FLOW \<Rightarrow> if lin_opcode (lin x) = ''vselect'' then shown ''red'' ''F'' else shown ''orange'' ''I'')"

definition initialize_display :: "packer \<Rightarrow> display" where
  "initialize_display p = new_display (pk_conc_threads p + 1) (int (length (pk_imetas p)))"

text \<open>The column of an instruction: \<open>-1\<close> for the global thread, else the slot of its thread.\<close>

definition track_of :: "int \<Rightarrow> imeta \<Rightarrow> int" where
  "track_of conc x = (if tid x = - 1 then - 1 else tid x mod conc)"

definition graphic_update :: "int \<Rightarrow> imeta list \<Rightarrow> (int, imeta list) odict" where
  "graphic_update conc retired =
     fold (\<lambda>x d. dict_put (track_of conc x)
             ((case map_of d (track_of conc x) of None \<Rightarrow> [] | Some xs \<Rightarrow> xs) @ [x]) d) retired []"

definition engine_summary :: "imeta list \<Rightarrow> (string, nat) odict" where
  "engine_summary retired =
     fold (\<lambda>x d. let e = engine_name (lin_engine (lin x)) in
             dict_put e ((case map_of d e of None \<Rightarrow> 0 | Some v \<Rightarrow> v) + 1) d) retired [(''load'', 0)]"

definition dict_str :: "(string, nat) odict \<Rightarrow> string" where
  "dict_str d = ''{'' @ join '', '' (map (\<lambda>(k, v). [CHR 0x27] @ k @ [CHR 0x27] @ '': '' @ str_nat v) d) @ ''}''"

definition update_status :: "int \<Rightarrow> imeta list \<Rightarrow> display \<Rightarrow> display" where
  "update_status conc retired d =
     (let summary = engine_summary retired in
      display_update compact_str (graphic_update conc retired) (map (\<lambda>x. (x, data_map x)) retired)
        (dict_str (sort_key fst summary) @ line_feed @
         (if (case map_of summary ''valu'' of None \<Rightarrow> 0 | Some v \<Rightarrow> v) = 6 then ''FINE'' else ''UNSATURATED'')) d)"

end
