(* ===== verification/Display_Props.thy ===== *)
theory Display_Props
  imports Display
begin

text \<open>
  The picture is faithful: it keeps the first segments it is given (C34), its cells show their items
  sorted by label (C35), every cycle's instructions are each shown once in the columns that are drawn (C36),
  and the grid has its cells (C37).
\<close>

section \<open>Segments\<close>

definition new_segment :: "('a \<Rightarrow> string) \<Rightarrow> (int, 'a list) odict \<times> ('a, data_info) odict \<times> string \<Rightarrow> segment" where
  "new_segment str u = (case u of (data, datainfos, summary) \<Rightarrow>
     (dict_puts (map (\<lambda>(track, its). (track, map (resolve_item str datainfos) its)) data) [], summary))"

lemma display_update_alt:
  "display_update str data datainfos summary d =
     (if int (length (updates d)) < disp_S d then d\<lparr>updates := updates d @ [new_segment str (data, datainfos, summary)]\<rparr> else d)"
  by (simp add: display_update_def new_segment_def)

lemma display_updates:
  "int (length (updates d)) \<le> disp_S d \<Longrightarrow>
   fold (\<lambda>(data, datainfos, summary). display_update str data datainfos summary) us d =
     d\<lparr>updates := updates d @ map (new_segment str) (take (nat (disp_S d) - length (updates d)) us)\<rparr>"
proof (induction us arbitrary: d)
  case (Cons u us)
  obtain data datainfos summary where u: "u = (data, datainfos, summary)" by (cases u)
  show ?case
  proof (cases "int (length (updates d)) < disp_S d")
    case True
    then obtain k where k: "nat (disp_S d) - length (updates d) = Suc k" "nat (disp_S d) - Suc (length (updates d)) = k"
      by (metis Suc_diff_Suc nat_int zless_nat_conj zless_nat_eq_int_zless)
    let ?d = "d\<lparr>updates := updates d @ [new_segment str u]\<rparr>"
    have "int (length (updates ?d)) \<le> disp_S ?d" using True by simp
    from Cons.IH [OF this] show ?thesis using True by (simp add: u display_update_alt k)
  next
    case False
    with Cons.prems have "nat (disp_S d) = length (updates d)" by simp
    with Cons.IH [OF Cons.prems] False show ?thesis by (simp add: u display_update_alt)
  qed
qed simp

text \<open>
  C34: a display keeps the first \<open>S\<close> segments it is given, their items resolved, and ignores the rest.
\<close>

theorem display_keeps_first:
  "fold (\<lambda>(data, datainfos, summary). display_update str data datainfos summary) us (new_display N S) =
     \<lparr>disp_N = N, disp_S = S, updates = map (new_segment str) (take (nat S) us)\<rparr>"
proof (cases "0 \<le> S")
  case True
  then show ?thesis by (subst display_updates) (simp_all add: new_display_def)
next
  case False
  then have "fold (\<lambda>(data, datainfos, summary). display_update str data datainfos summary) us (new_display N S) = new_display N S"
    by (induction us) (auto simp: display_update_def new_display_def)
  with False show ?thesis by (simp add: new_display_def)
qed

section \<open>Groups\<close>

text \<open>A dictionary of lists that grows by one element at a time.\<close>

definition add_to :: "'k \<Rightarrow> 'v \<Rightarrow> ('k, 'v list) odict \<Rightarrow> ('k, 'v list) odict" where
  "add_to k v d = dict_put k ((case map_of d k of None \<Rightarrow> [] | Some g \<Rightarrow> g) @ [v]) d"

lemma grouped:
  "map_of (fold (\<lambda>x. add_to (f x) x) xs d) k =
     (if map_of d k = None \<and> filter (\<lambda>x. f x = k) xs = [] then None
      else Some ((case map_of d k of None \<Rightarrow> [] | Some g \<Rightarrow> g) @ filter (\<lambda>x. f x = k) xs))"
  by (induction xs arbitrary: d) (auto simp: add_to_def update_conv' split: option.splits)

lemma grouped_distinct: "distinct (map fst d) \<Longrightarrow> distinct (map fst (fold (\<lambda>x. add_to (f x) x) xs d))"
  by (induction xs arbitrary: d) (auto simp: add_to_def distinct_update)

lemma grouped_keys: "set (map fst (fold (\<lambda>x. add_to (f x) x) xs [])) = f ` set xs"
proof -
  have "k \<in> fst ` set (fold (\<lambda>x. add_to (f x) x) xs []) \<longleftrightarrow> k \<in> f ` set xs" for k
    using grouped [of f xs "[]" k] unfolding dom_map_of_conv_image_fst [symmetric]
    by (auto simp: domIff filter_empty_conv)
  then show ?thesis by auto
qed

lemma label_groups_alt: "label_groups infos = fold (\<lambda>x. add_to (label x) x) infos []"
  by (simp add: label_groups_def add_to_def [abs_def])

lemma graphic_update_alt: "graphic_update conc retired = fold (\<lambda>x. add_to (track_of conc x) x) retired []"
  by (simp add: graphic_update_def add_to_def [abs_def])

lemma filters_sorted:
  fixes f :: "'a \<Rightarrow> 'k :: linorder"
  assumes "sorted ks" "distinct ks" "f ` set xs \<subseteq> set ks"
  shows "concat (map (\<lambda>k. filter (\<lambda>x. f x = k) xs) ks) = sort_key f xs"
proof (rule properties_for_sort_key [symmetric])
  have "mset (concat (map (\<lambda>k. filter (\<lambda>x. f x = k) xs) ks)) = filter_mset (\<lambda>x. f x \<in> set ks) (mset xs)"
    using assms(2) by (induction ks) (auto simp: multiset_eq_iff)
  also have "\<dots> = mset xs" using assms(3) by (auto simp: filter_mset_eq_conv)
  finally show "mset (concat (map (\<lambda>k. filter (\<lambda>x. f x = k) xs) ks)) = mset xs" .
  have stable: "filter (\<lambda>x. f x = k) (concat (map (\<lambda>k. filter (\<lambda>x. f x = k) xs) ks)) =
      (if k \<in> set ks then filter (\<lambda>x. f x = k) xs else [])" for k
    using assms(2)
  proof (induction ks)
    case (Cons a ks)
    have "filter (\<lambda>x. f x = k) (filter (\<lambda>x. f x = a) xs) = (if a = k then filter (\<lambda>x. f x = k) xs else [])"
      by (induction xs) auto
    with Cons show ?case by auto
  qed simp
  show "filter (\<lambda>x. f k = f x) (concat (map (\<lambda>k. filter (\<lambda>x. f x = k) xs) ks)) = filter (\<lambda>x. f k = f x) xs"
    if "k \<in> set (concat (map (\<lambda>k. filter (\<lambda>x. f x = k) xs) ks))" for k
    using that stable [of "f k"] by (auto simp: eq_commute [of "f k"])
  have "sorted (map f (filter (\<lambda>x. f x = k) xs))" for k by (induction xs) auto
  then show "sorted (map f (concat (map (\<lambda>k. filter (\<lambda>x. f x = k) xs) ks)))"
    using assms(1) by (induction ks) (auto simp: sorted_append)
qed


section \<open>Cycles\<close>

lemma resolve_mapped: "x \<in> set xs \<Longrightarrow> resolve_item str (map (\<lambda>x. (x, g x)) xs) x = g x"
  by (induction xs) (auto simp: resolve_item_def)

lemma dict_puts_fresh: "distinct (map fst (d @ ws)) \<Longrightarrow> dict_puts ws d = d @ ws"
proof (induction ws arbitrary: d)
  case (Cons w ws)
  obtain k v where w: "w = (k, v)" by (cases w)
  have "AList.update k v d = d @ [(k, v)]" if "k \<notin> fst ` set d" using that by (induction d) auto
  with Cons show ?case by (simp add: w)
qed simp

text \<open>
  C36: one row per cycle, with every instruction of the cycle in it once. The update for a cycle adds one
  segment (unless the display is full); its columns, from left to right, together show exactly the
  instructions retired, the ones of the global thread in column -1, those of a thread in the column of its slot.
\<close>

theorem cycle_shown:
  assumes "\<forall>x \<in> set retired. - 1 \<le> tid x" "0 < conc" "int (length (updates d)) < disp_S d" "disp_N d = conc + 1"
  shows "\<exists>seg summary. updates (update_status conc retired d) = updates d @ [(seg, summary)] \<and>
    (\<forall>t. (case map_of seg t of None \<Rightarrow> [] | Some its \<Rightarrow> its) = map data_map (filter (\<lambda>x. track_of conc x = t) retired)) \<and>
    mset (concat (map (\<lambda>t. case map_of seg t of None \<Rightarrow> [] | Some its \<Rightarrow> its) (track_keys d))) = image_mset data_map (mset retired)"
proof -
  let ?g = "graphic_update conc retired" and ?r = "resolve_item compact_str (map (\<lambda>x. (x, data_map x)) retired)"
  let ?h = "\<lambda>(track, its). (track, map ?r its)"
  have g: "map_of ?g t = (if filter (\<lambda>x. track_of conc x = t) retired = [] then None else Some (filter (\<lambda>x. track_of conc x = t) retired))" for t
    using grouped [of "track_of conc" retired "[]" t] by (simp add: graphic_update_alt)
  have "map fst (map ?h ?g) = map fst ?g" by (simp add: case_prod_unfold comp_def)
  moreover have "distinct (map fst ?g)" using grouped_distinct [of "[]"] by (simp add: graphic_update_alt)
  ultimately have seg: "dict_puts (map ?h ?g) [] = map ?h ?g" by (subst dict_puts_fresh) (simp_all del: map_map)
  have cell: "(case map_of (map ?h ?g) t of None \<Rightarrow> [] | Some its \<Rightarrow> its) = map data_map (filter (\<lambda>x. track_of conc x = t) retired)" for t
    by (auto simp: map_of_map g resolve_mapped)
  have keys: "set (track_keys d) = {- 1..<conc}" "distinct (track_keys d)" using assms(4) by (auto simp: track_keys_def)
  have "track_of conc x \<in> set (track_keys d)" if "x \<in> set retired" for x
    using assms(2) unfolding keys by (auto simp: track_of_def intro: order_trans [of _ 0])
  then have all: "filter_mset (\<lambda>x. track_of conc x \<in> set (track_keys d)) (mset retired) = mset retired"
    by (auto simp: filter_mset_eq_conv)
  have "mset (concat (map (\<lambda>t. filter (\<lambda>x. track_of conc x = t) retired) ts)) =
      filter_mset (\<lambda>x. track_of conc x \<in> set ts) (mset retired)" if "distinct ts" for ts
    using that by (induction ts) (auto simp: multiset_eq_iff)
  from this [OF keys(2)] have once: "mset (concat (map (\<lambda>t. filter (\<lambda>x. track_of conc x = t) retired) (track_keys d))) = mset retired"
    unfolding all .
  have "concat (map (\<lambda>t. map data_map (filter (\<lambda>x. track_of conc x = t) retired)) ts) =
      map data_map (concat (map (\<lambda>t. filter (\<lambda>x. track_of conc x = t) retired) ts))" for ts
    by (simp add: map_concat comp_def)
  with once have "mset (concat (map (\<lambda>t. map data_map (filter (\<lambda>x. track_of conc x = t) retired)) (track_keys d))) =
      image_mset data_map (mset retired)" by (simp only: mset_map)
  then show ?thesis using assms(3) seg cell by (simp add: update_status_def display_update_def Let_def)
qed

definition two_retired :: "imeta list" where
  "two_retired =
     [\<lparr>instid = 0, lin = \<lparr>lin_engine = LOAD, lin_opcode = ''const'', lin_params = []\<rparr>, tid = - 1, instid_in_thread = 0,
       after = [], tidrange = {- 1..<100}\<rparr>,
      \<lparr>instid = 1, lin = \<lparr>lin_engine = VALU, lin_opcode = ''+'', lin_params = []\<rparr>, tid = 5, instid_in_thread = 0,
       after = [], tidrange = {- 1..<100}\<rparr>]"

theorem cycle_shown_witness:
  "\<exists>seg summary. updates (update_status 4 two_retired (new_display 5 10)) = [(seg, summary)] \<and>
     mset (concat (map (\<lambda>t. case map_of seg t of None \<Rightarrow> [] | Some its \<Rightarrow> its) [- 1..3])) = image_mset data_map (mset two_retired)"
  using cycle_shown [of two_retired 4 "new_display 5 10"] by (auto simp: two_retired_def new_display_def track_keys_def)

section \<open>The grid\<close>

definition starts_with :: "string \<Rightarrow> string \<Rightarrow> bool" where
  "starts_with p s = (take (length p) s = p)"

definition tags :: "string \<Rightarrow> string list \<Rightarrow> nat" where
  "tags cls ls = length (filter (starts_with (''<div class='' @ quoted cls)) ls)"

lemma tags_simps [simp]:
  "tags cls [] = 0"
  "tags cls (s # ls) = (if starts_with (''<div class='' @ quoted cls) s then 1 else 0) + tags cls ls"
  "tags cls (ls @ ls') = tags cls ls + tags cls ls'"
  by (simp_all add: tags_def)

lemma starts_with_simps [simp]:
  "starts_with [] s"
  "starts_with (c # p) [] = False"
  "starts_with (c # p) (c' # s) \<longleftrightarrow> c = c' \<and> starts_with p s"
  by (auto simp: starts_with_def)

lemma css_tags [simp]: "starts_with (CHR ''<'' # p) (generate_css d) = False"
  by (simp add: generate_css_def line_feed_def)

lemma cell_tags:
  "tags ''cell'' (cell_html i seg key) = 1" "tags ''track-header'' (cell_html i seg key) = 0"
proof -
  have circles: "tags ''cell'' (map circle_html infos) = 0" "tags ''track-header'' (map circle_html infos) = 0" for infos
    by (induction infos) (simp_all add: quoted_def circle_html_def)
  have "tags ''cell'' (concat (map (\<lambda>lab. [''<div class='' @ quoted ''label-group'' @ ''>''] @
        map circle_html (g lab) @ [''</div>'']) labs)) = 0"
    "tags ''track-header'' (concat (map (\<lambda>lab. [''<div class='' @ quoted ''label-group'' @ ''>''] @
        map circle_html (g lab) @ [''</div>'']) labs)) = 0" for g labs
    by (induction labs) (simp_all add: quoted_def circles)
  then show "tags ''cell'' (cell_html i seg key) = 1" "tags ''track-header'' (cell_html i seg key) = 0"
    by (simp_all add: cell_html_def Let_def quoted_def)
qed

text \<open>
  C37: the document has a header cell for every column and one for the row numbers, and one cell per
  column for every segment, as many columns as the display was made for.
\<close>

theorem grid_has_its_cells:
  "tags ''track-header'' (html_content d) = nat (disp_N d) + 1 \<and>
   tags ''cell'' (html_content d) = nat (disp_N d) * length (updates d)"
proof -
  have headers: "tags ''track-header'' (map (\<lambda>key. ''<div class='' @ quoted ''track-header'' @ ''>'' @ str_int key @ ''</div>'') ks) = length ks"
    "tags ''cell'' (map (\<lambda>key. ''<div class='' @ quoted ''track-header'' @ ''>'' @ str_int key @ ''</div>'') ks) = 0" for ks
    by (induction ks) (simp_all add: quoted_def)
  have row: "tags ''track-header'' (concat (map (cell_html i seg) ks)) = 0"
    "tags ''cell'' (concat (map (cell_html i seg) ks)) = length ks" for i seg ks
    by (induction ks) (simp_all add: cell_tags)
  have rows: "tags ''track-header'' (concat (map (\<lambda>(segment_idx, resolved_data, summary).
        index_cell_html segment_idx summary # concat (map (cell_html segment_idx resolved_data) (track_keys d))) us)) = 0"
    "tags ''cell'' (concat (map (\<lambda>(segment_idx, resolved_data, summary).
        index_cell_html segment_idx summary # concat (map (cell_html segment_idx resolved_data) (track_keys d))) us)) =
      length (track_keys d) * length us" for us
    by (induction us) (auto simp: row index_cell_html_def line_feed_def quoted_def)
  have "length (track_keys d) = nat (disp_N d)" by (simp add: track_keys_def)
  then show ?thesis by (simp only: html_content_def tags_simps headers rows) (simp add: quoted_def)
qed

end
