(* ===== verification/Spec2Isabelle.thy ===== *)
theory Spec2Isabelle
  imports Scratch Schedule_Props Schedule_Correct Split_Props Simulator_Props Compile_Props Codegen_Props Roundtrip Kernel_Correct Driver_Props Display_Props
begin

text \<open>
  Verification of the VLIW kernel compiler and simulator under
  \<open>src/anthropic_original_performance_takehome/\<close>: a small data-parallel language, its parser, its
  lowering to a dependence graph of logical instructions, a greedy scheduler that packs them into
  bundles, and the simulator the bundles run on.

  \<^bold>\<open>How the program is put together.\<close> \<open>input_to_program.py\<close> writes the text of a kernel for a tree
  height, batch size and number of rounds, and parses it with \<open>parser.py\<close>. \<open>program_to_graph.py\<close>
  (\<open>IRPipeline\<close>) allocates the variables in the scratch space of \<open>scratch.py\<close> and turns statements into
  the logical instructions of \<open>data_model.py\<close>, collected in the \<open>InstrGraph\<close> of
  \<open>instr_graph_model.py\<close>. \<open>get_work\<close> replicates the instructions over threads and links conflicting
  ones; \<open>GreedyWorkPacker\<close> with \<open>work_to_instrs\<close> (\<open>kernel_builder.py\<close>) emits bundles, splitting vector
  instructions into free scalar slots. \<open>problem.py\<close> holds the machine and the reference kernels. Global
  statements run once; thread statements run for every thread, a bounded number of them at a time, each
  in its slot of the per-thread variables.

  \<^bold>\<open>Theories and sources.\<close>
  \<^item> \<open>Prelude\<close>: the result monad \<open>res\<close> over \<open>py_error\<close> (one constructor per exception the sources
    raise), Python indexing, dictionaries of pending writes, generic lemmas. \<open>Py_Str\<close>: numerals.
  \<^item> \<open>Limits\<close> (\<open>limits.py\<close>), \<open>Machine\<close> (\<open>problem.py\<close>: \<open>Machine\<close>, \<open>Core\<close>), \<open>Machine_Props\<close>: engines,
    \<open>step\<close>, \<open>run\<close>; the record \<open>machine\<close> has the fields of the class. 32-bit values are integers reduced
    by \<open>r32\<close>, as in the source (\<open>% 2 ** 32\<close>). The run loop is a \<open>partial_function\<close>; \<open>None\<close> means that it
    does not return.
  \<^item> \<open>Kernel\<close> (\<open>problem.py\<close>: \<open>Tree\<close>, \<open>Input\<close>, \<open>myhash\<close>, \<open>reference_kernel\<close>, \<open>reference_kernel2\<close>,
    \<open>build_mem_image\<close>); its \<open>computation\<close> is the hash block of the generated text.
  \<^item> \<open>Scratch\<close> (\<open>scratch.py\<close>): allocator; invariant \<open>space_ok\<close> (regions are disjoint and inside).
  \<^item> \<open>Data_Model\<close> (\<open>data_model.py\<close>), \<open>Min_Heap\<close> (\<open>lib.py\<close>), \<open>Instr_Graph\<close> and \<open>Packer\<close>
    (\<open>instr_graph_model.py\<close>, \<open>work_to_instrs\<close>). The \<open>SortedSet\<close>s of the package sortedcontainers are
    parameters (\<open>heap_ops\<close>, \<open>sorted_set_of\<close>) with their documented laws as locale assumptions
    (\<open>min_heap\<close>, \<open>packing\<close>), interpreted on a list implementation.
  \<^item> \<open>Reorder\<close>, \<open>Slot_Footprint\<close>: which scratch words and memory a slot reads and writes, and when slots
    may be exchanged. \<open>Split_Semantics\<close>: what split instructions compute. \<open>Unfolding\<close>: the splits as a
    relation on instructions. \<open>Packer_Props\<close>, \<open>Packer_Run\<close>: the invariant of the packer and the packing
    loop.
  \<^item> \<open>Linear_Code\<close>: executing a work list one instruction after the other. \<open>Typed_Slots\<close>: operands of the
    width and direction the opcode asks for, and the words their slots touch. \<open>Families\<close>: what becomes
    of every instruction in a run of the scheduler; \<open>Family_Semantics\<close>, \<open>Family_Runs\<close>: a family does
    what its instruction does; \<open>Family_Schedule\<close>, \<open>Schedule_Correct\<close>: so does the schedule.
  \<^item> \<open>Ast\<close>, \<open>Combinators\<close>, \<open>Grammar\<close> (\<open>parser.py\<close>): a parser is a function of text and index.
    \<open>Parser_Props\<close>: \<open>bounded\<close>, \<open>consuming\<close>, \<open>agree\<close> and \<open>yields\<close> are the four predicates by which facts
    on parsers are composed.
  \<^item> \<open>Lowering\<close> (\<open>program_to_graph.py\<close>), \<open>Lowering_Props\<close> (the relation \<open>emits\<close>: what a lowering step
    may do to the pipeline, and that it keeps \<open>graph_wf\<close>), \<open>Graph_Total\<close> (linking never raises).
  \<^item> \<open>Language\<close>: the meaning of the language as \<open>language.md\<close> describes it. \<open>Codegen\<close> (expressions),
    \<open>Codegen_Stmts\<close> (statements, branches, machine steps), \<open>Codegen_Props\<close>: the lowered instructions,
    run by \<open>step\<close>, have that meaning; the relation \<open>sim\<close> says how scratch words and memory hold the
    variables of a thread.
  \<^item> \<open>Parse_Rest\<close>: what each parser does on the text that is left (\<open>on\<close>), as equations. \<open>Printer\<close>,
    \<open>Text_Reading\<close>, \<open>Roundtrip\<close>: the parser reads back what is printed of a program.
  \<^item> \<open>Generator\<close> (\<open>input_to_program.py\<close>). \<open>Template_Props\<close>: the ranges of a template;
    \<open>Text_Blocks\<close>, \<open>Template_Text\<close>, \<open>Kernel_Program\<close>: the text it writes is parsed as
    \<open>kernel_program\<close>; \<open>Kernel_Meaning\<close>, \<open>Kernel_Rounds\<close>, \<open>Kernel_Correct\<close>: that program computes
    the reference kernel, block by block, round by round, thread by thread.
  \<^item> \<open>Driver\<close> (\<open>kernel_builder.py\<close>, \<open>do_kernel_test\<close> of \<open>perf_takehome.py\<close>): the compiler and its test
    as functions composed of all the above, and the reported statistics. \<open>Display\<close> (\<open>display.py\<close> and the
    packer's use of it): the picture of a schedule, up to the text that is written to the file.
  \<^item> \<open>Schedule_Props\<close>, \<open>Schedule_Correct\<close>, \<open>Split_Props\<close>, \<open>Simulator_Props\<close>, \<open>Parser_Props\<close>, \<open>Compile_Props\<close>,
    \<open>Codegen_Props\<close>, \<open>Roundtrip\<close>, \<open>Template_Props\<close>, \<open>Kernel_Program\<close>, \<open>Kernel_Correct\<close>,
    \<open>Driver_Props\<close>, \<open>Display_Props\<close>: the properties, C1 to C37.

  \<^bold>\<open>Bounds.\<close> \<open>thread_local_stmt n\<close> allows \<open>n\<close> nested \<open>iftid\<close>s; \<open>program_parser\<close> uses one more than the
  text has characters, and C19 shows that more makes no difference. The loops of \<open>star\<close>, the packer and
  the simulator are partial functions and have no fuel.

  \<^bold>\<open>Not modelled.\<close> Tracing, printing and the writing of files; \<open>util.py\<close> and \<open>watch_trace.py\<close> (output
  only), the unittest classes (they choose parameters). Exceptions inside the key
  function of a sorted set cannot occur in the model of \<open>heap_ops\<close>.
\<close>

end
